(* ===== verification/Prelude.thy ===== *)
theory Prelude
  imports Main "HOL-Library.Word" "HOL-Library.Sublist"
begin

text \<open>
  Shared vocabulary of the development: the machine integer types of the firmware,
  byte strings, the collections of rewrite rules the component theories fill, and
  generic lemmas on lists and words. A C \<open>uint8_t\<close>, \<open>uint16_t\<close>, \<open>uint32_t\<close> and
  \<open>uint64_t\<close> is a word of that width, so every addition, subtraction and shift wraps as
  it does on the chip. A \<open>size_t\<close> that counts bytes of a buffer is a \<open>nat\<close>. A byte
  buffer is a list of bytes, and a null pointer where the code tests for one is \<open>None\<close>.
\<close>

unbundle bit_operations_syntax

type_synonym u8 = "8 word"
type_synonym u16 = "16 word"
type_synonym u32 = "32 word"
type_synonym u64 = "64 word"
type_synonym bytes = "8 word list"

named_theorems size_simps \<open>lengths of encoded byte strings\<close>
named_theorems inv_intros \<open>preservation of component invariants\<close>
named_theorems codec_simps \<open>decoding after encoding\<close>

subsection \<open>Characters as bytes\<close>

abbreviation chr :: "char \<Rightarrow> u8" where
  "chr c \<equiv> of_char c"

definition bytes_of :: "string \<Rightarrow> bytes" where
  "bytes_of s = map of_char s"

lemma unat_chr [simp]: "unat (chr c) = of_char c"
proof -
  have "chr c = of_nat (of_char c)" by (simp add: of_nat_of_char)
  then show ?thesis by (simp add: unat_of_nat del: of_nat_of_char)
qed

lemma chars_bytes: "map (\<lambda>b. char_of (unat b)) (bytes_of s) = s"
  by (induction s) (auto simp: bytes_of_def)

lemma length_bytes_of [size_simps]: "length (bytes_of s) = length s"
  by (simp add: bytes_of_def)

lemma bytes_of_append: "bytes_of (s @ t) = bytes_of s @ bytes_of t"
  by (simp add: bytes_of_def)

definition is_digit :: "char \<Rightarrow> bool" where
  "is_digit c \<longleftrightarrow> 48 \<le> (of_char c :: nat) \<and> (of_char c :: nat) \<le> 57"

definition digit_val :: "char \<Rightarrow> int" where
  "digit_val c = int (of_char c) - 48"

definition digit_chr :: "int \<Rightarrow> char" where
  "digit_chr d = char_of (nat (48 + d))"

lemma of_char_digit_chr: "0 \<le> d \<Longrightarrow> d < 10 \<Longrightarrow> (of_char (digit_chr d) :: nat) = 48 + nat d"
  by (simp add: digit_chr_def nat_add_distrib)

lemma digit_chr_digit [simp]: "0 \<le> d \<Longrightarrow> d < 10 \<Longrightarrow> is_digit (digit_chr d)"
  by (simp add: is_digit_def of_char_digit_chr nat_le_iff)

lemma digit_val_digit_chr [simp]: "0 \<le> d \<Longrightarrow> d < 10 \<Longrightarrow> digit_val (digit_chr d) = d"
  by (simp add: digit_val_def of_char_digit_chr)

text \<open>
  Decimal numbers as printf writes them: \<open>%u\<close> and \<open>%0<w>d\<close>, where the sign counts
  towards the width.
\<close>

function dec_digits :: "int \<Rightarrow> string" where
  "dec_digits n = (if n < 10 then [digit_chr n] else dec_digits (n div 10) @ [digit_chr (n mod 10)])"
  by pat_completeness auto
termination
  by (relation "measure nat") auto

declare dec_digits.simps [simp del]

definition fmt_0d :: "nat \<Rightarrow> int \<Rightarrow> string" where
  "fmt_0d w n =
     (let d = dec_digits \<bar>n\<bar>; sign = (if n < 0 then ''-'' else '''')
      in sign @ replicate (w - length sign - length d) (CHR ''0'') @ d)"

subsection \<open>Words\<close>

lemma unat_less [simp]: "unat (w :: 'a::len word) < 2 ^ LENGTH('a)"
  by (rule unsigned_less)

lemma unat_u8: "unat (b :: u8) < 256"
  using unsigned_less [of b] by simp

lemma unat_u16: "unat (w :: u16) < 65536"
  using unsigned_less [of w] by simp

lemma unat_u32: "unat (w :: u32) < 4294967296"
  using unsigned_less [of w] by simp

lemma unat_u64: "unat (w :: u64) < 18446744073709551616"
  using unsigned_less [of w] by simp

lemma unat_of_nat_small:
  "n < 2 ^ LENGTH('a) \<Longrightarrow> unat (of_nat n :: 'a::len word) = n"
  by (simp add: unat_of_nat)

lemma unat_of_nat_u16 [simp]: "n < 65536 \<Longrightarrow> unat (of_nat n :: u16) = n"
  by (simp add: unat_of_nat)

lemma unat_of_nat_u32 [simp]: "n < 4294967296 \<Longrightarrow> unat (of_nat n :: u32) = n"
  by (simp add: unat_of_nat)

text \<open>Monotone counters: the distance of two wrapping counters is exact while it fits.\<close>

lemma unat_diff_of_nat:
  "n < 2 ^ LENGTH('a) \<Longrightarrow> unat ((r + of_nat n) - (r :: 'a::len word)) = n"
  by (simp add: unat_of_nat)

lemma unat_add_of_nat:
  "unat w + n < 2 ^ LENGTH('a) \<Longrightarrow> unat (w + of_nat n :: 'a::len word) = unat w + n"
  by (simp add: unat_word_ariths unat_of_nat mod_simps)

lemma unat_sub_of_nat:
  assumes "n \<le> unat (w :: 'a::len word)"
  shows "unat (w - of_nat n) = unat w - n"
proof -
  have "n < 2 ^ LENGTH('a)" using assms unsigned_less [of w] by (meson le_less_trans)
  then have "unat (of_nat n :: 'a word) = n" by (simp add: unat_of_nat)
  moreover from this assms have "(of_nat n :: 'a word) \<le> w" by (simp add: word_le_nat_alt)
  ultimately show ?thesis by (simp add: unat_sub)
qed

lemma word_unatI: "unat (a :: 'a::len word) = unat b \<Longrightarrow> a = b"
  by (simp add: unsigned_word_eqI)

lemma not_bit_above:
  assumes "unat (w :: 'a::len word) < 2 ^ n" and "n \<le> m"
  shows "\<not> bit w m"
proof -
  have "(2 :: nat) ^ n \<le> 2 ^ m" using assms(2) by simp
  with assms(1) have "unat w < 2 ^ m" by linarith
  then have "\<not> bit (unat w) m" by (simp add: bit_iff_odd)
  then show ?thesis by (auto simp: bit_unsigned_iff dest: bit_imp_le_length)
qed

lemma xor_cancel_left: "(a XOR b = a XOR c) = (b = (c :: 'a::len word))"
  by (metis xor.left_neutral xor.assoc xor_self_eq)

lemma xor_cancel_right: "(b XOR a = c XOR a) = (b = (c :: 'a::len word))"
  by (metis xor_cancel_left xor.commute)

text \<open>The usual test for a power of two.\<close>

lemma and_pred_power_of_two:
  "0 < n \<Longrightarrow> n AND (n - 1) = 0 \<Longrightarrow> \<exists>k. n = 2 ^ k" for n :: nat
proof (induction n rule: less_induct)
  case (less n)
  show ?case
  proof (cases "even n")
    case True
    then obtain m where m: "n = 2 * m" by blast
    with less.prems have "0 < m" by simp
    then have "(2 * m - 1) div 2 = m - 1" by simp
    moreover have "(2 * m) AND (2 * m - 1) = 2 * (m AND ((2 * m - 1) div 2))"
      by (subst and_rec) simp
    ultimately have "m AND (m - 1) = 0" using less.prems m by simp
    with less.IH [of m] \<open>0 < m\<close> m obtain k where "m = 2 ^ k" by auto
    with m have "n = 2 ^ Suc k" by simp
    then show ?thesis by blast
  next
    case False
    then obtain m where m: "n = 2 * m + 1" by (blast elim: oddE)
    have "n AND (n - 1) = 2 * m" using m by (subst and_rec) simp
    with less.prems m have "n = 2 ^ 0" by simp
    then show ?thesis by blast
  qed
qed

subsection \<open>Lists\<close>

lemma take_update_append:
  "i < length xs \<Longrightarrow> take (Suc i) (xs[i := x]) = take i xs @ [x]"
  by (simp add: take_Suc_conv_app_nth)

subsection \<open>Machines that emit values\<close>

text \<open>
  A component that consumes events one at a time and may emit a value at each, run over a
  list of events. The locale is the contract a byte-stream decoder offers to its clients:
  from a ready state, events that carry a value emit exactly that value and leave the
  decoder ready, and idle events emit nothing.
\<close>

fun run_stream :: "('e \<Rightarrow> 's \<Rightarrow> 's \<times> 'p option) \<Rightarrow> 'e list \<Rightarrow> 's \<Rightarrow> 's \<times> 'p list" where
  "run_stream f [] s = (s, [])"
| "run_stream f (e # es) s =
     (let (t, r) = f e s; (u, rs) = run_stream f es t
      in (u, (case r of None \<Rightarrow> rs | Some v \<Rightarrow> v # rs)))"

lemma run_stream_append:
  "run_stream f (es @ fs) s =
     (let (t, rs) = run_stream f es s; (u, qs) = run_stream f fs t in (u, rs @ qs))"
  by (induction es arbitrary: s) (auto simp: Let_def split: prod.splits option.splits)

lemma run_stream_appendI:
  "run_stream f es s = (t, rs) \<Longrightarrow> run_stream f fs t = (u, qs) \<Longrightarrow>
   run_stream f (es @ fs) s = (u, rs @ qs)"
  by (simp add: run_stream_append)

locale stream_codec =
  fixes feed1 :: "'e \<Rightarrow> 's \<Rightarrow> 's \<times> 'p option"
    and carries :: "'e list \<Rightarrow> 'p \<Rightarrow> bool"
    and idle :: "'e list \<Rightarrow> bool"
    and ready :: "'s \<Rightarrow> bool"
  assumes decode_one:
      "ready s \<Longrightarrow> carries es p \<Longrightarrow> \<exists>t. ready t \<and> run_stream feed1 es s = (t, [p])"
    and skip_idle:
      "ready s \<Longrightarrow> idle es \<Longrightarrow> \<exists>t. ready t \<and> run_stream feed1 es s = (t, [])"
begin

fun transmission :: "'e list list \<Rightarrow> 'p list \<Rightarrow> bool" where
  "transmission [] ps = (ps = [])"
| "transmission (es # ess) ps =
     ((idle es \<and> transmission ess ps) \<or>
      (\<exists>p qs. ps = p # qs \<and> carries es p \<and> transmission ess qs))"

lemma decode_transmission:
  "ready s \<Longrightarrow> transmission ess ps \<Longrightarrow>
   \<exists>t. ready t \<and> run_stream feed1 (concat ess) s = (t, ps)"
proof (induction ess ps arbitrary: s rule: transmission.induct)
  case (1 ps)
  then show ?case by simp
next
  case (2 es ess ps)
  from 2(4) consider (idle) "idle es" "transmission ess ps"
    | (one) p qs where "ps = p # qs" "carries es p" "transmission ess qs" by auto
  then show ?case
  proof cases
    case idle
    from skip_idle [OF 2(3) idle(1)] obtain t
      where t: "ready t" "run_stream feed1 es s = (t, [])" by blast
    from 2(1) [OF t(1) idle(2)] t(2) show ?thesis by (auto simp: run_stream_append)
  next
    case one
    from decode_one [OF 2(3) one(2)] obtain t
      where t: "ready t" "run_stream feed1 es s = (t, [p])" by blast
    from 2(2) [OF t(1) one(3)] t(2) one(1) show ?thesis by (auto simp: run_stream_append)
  qed
qed

end

text \<open>\<open>blit xs i ys\<close> is \<open>memcpy(xs + i, ys)\<close>.\<close>

definition blit :: "'a list \<Rightarrow> nat \<Rightarrow> 'a list \<Rightarrow> 'a list" where
  "blit xs i ys = take i xs @ ys @ drop (i + length ys) xs"

lemma length_blit [simp]: "i + length ys \<le> length xs \<Longrightarrow> length (blit xs i ys) = length xs"
  by (simp add: blit_def)

lemma nth_blit:
  "i + length ys \<le> length xs \<Longrightarrow> j < length xs \<Longrightarrow>
   blit xs i ys ! j = (if i \<le> j \<and> j < i + length ys then ys ! (j - i) else xs ! j)"
  by (auto simp: blit_def nth_append)

lemma foldl_concat_map:
  "foldl f s (concat xss) = foldl (foldl f) s xss"
  by (induction xss arbitrary: s) auto

end
