(* ===== verification/Protocol.thy ===== *)
theory Protocol
  imports Prelude
begin

text \<open>
  The binary UART protocol between the ESP32 and the Z80 (\<open>include/zifi/protocol.hpp\<close>,
  \<open>src/protocol.cpp\<close>): little-endian fields, the frame parser \<open>FrameParser\<close> with its
  resynchronisation and time-out, the frame writer, and the two checksums. The theorems
  say that every written frame is parsed back, whatever idle bytes come before it, that the
  parser never writes outside its buffer, that a packet it delivers was framed
  correctly, and that both checksums are streaming and detect a changed byte.
\<close>

subsection \<open>Constants and packet views\<close>

definition kSync :: u8 where "kSync = 0x5A"
definition kMaxPayload :: nat where "kMaxPayload = 1024"
definition kFrameTimeoutMs :: u32 where "kFrameTimeoutMs = 500"

text \<open>
  \<open>PacketView\<close> points into the parser's buffer and is used before the next frame is
  received; the model carries the bytes it views.
\<close>

record packet =
  pkt_command :: u8
  pkt_data :: bytes

abbreviation pkt_length :: "packet \<Rightarrow> nat" where
  "pkt_length p \<equiv> length (pkt_data p)"

subsection \<open>Little-endian fields\<close>

definition readLe16 :: "bytes \<Rightarrow> u16" where
  "readLe16 d = ucast (d ! 0) OR push_bit 8 (ucast (d ! 1))"

definition readLe32 :: "bytes \<Rightarrow> u32" where
  "readLe32 d = ucast (d ! 0) OR push_bit 8 (ucast (d ! 1)) OR
     push_bit 16 (ucast (d ! 2)) OR push_bit 24 (ucast (d ! 3))"

definition writeLe16 :: "u16 \<Rightarrow> bytes" where
  "writeLe16 v = [ucast v, ucast (drop_bit 8 v)]"

definition writeLe32 :: "u32 \<Rightarrow> bytes" where
  "writeLe32 v = [ucast v, ucast (drop_bit 8 v), ucast (drop_bit 16 v), ucast (drop_bit 24 v)]"

lemma length_writeLe16 [size_simps, simp]: "length (writeLe16 v) = 2"
  by (simp add: writeLe16_def)

lemma length_writeLe32 [size_simps, simp]: "length (writeLe32 v) = 4"
  by (simp add: writeLe32_def)

lemma readLe16_writeLe16 [codec_simps]: "readLe16 (writeLe16 v @ rest) = v"
  unfolding readLe16_def writeLe16_def
  by (rule bit_word_eqI) (auto simp: bit_simps)

lemma readLe32_writeLe32 [codec_simps]: "readLe32 (writeLe32 v @ rest) = v"
proof (rule bit_word_eqI)
  fix n assume n: "n < LENGTH(32)"
  consider "n < 8" | "8 \<le> n" "n < 16" | "16 \<le> n" "n < 24" | "24 \<le> n" by linarith
  then show "bit (readLe32 (writeLe32 v @ rest)) n = bit v n"
    using n unfolding readLe32_def writeLe32_def
    by cases (auto simp: bit_simps)
qed

lemma readLe16_bytes: "readLe16 [ucast v, ucast (drop_bit 8 v)] = v"
  using readLe16_writeLe16 [of v "[]"] by (simp add: writeLe16_def)

subsection \<open>The frame parser\<close>

datatype parser_state = WaitSync | Command | LengthLow | LengthHigh | Data | Checksum

record frame_parser =
  fp_state :: parser_state
  fp_command :: u8
  fp_length :: u16
  fp_position :: u16
  fp_checksum :: u8
  fp_lastByteMs :: u32
  fp_badChecksumCount :: u32
  fp_resyncCount :: u32
  fp_payload :: bytes

definition FrameParser_init :: frame_parser where
  "FrameParser_init = \<lparr>fp_state = WaitSync, fp_command = 0, fp_length = 0, fp_position = 0,
     fp_checksum = 0, fp_lastByteMs = 0, fp_badChecksumCount = 0, fp_resyncCount = 0,
     fp_payload = replicate kMaxPayload 0\<rparr>"

text \<open>\<open>reset\<close> keeps the payload buffer, the command, the counters and the time stamp.\<close>

definition fp_reset :: "frame_parser \<Rightarrow> frame_parser" where
  "fp_reset p = p\<lparr>fp_state := WaitSync, fp_length := 0, fp_position := 0, fp_checksum := 0\<rparr>"

definition checkTimeout :: "u32 \<Rightarrow> frame_parser \<Rightarrow> frame_parser \<times> bool" where
  "checkTimeout nowMs p =
     (if fp_state p = WaitSync \<or> nowMs - fp_lastByteMs p < kFrameTimeoutMs then (p, False)
      else (fp_reset (p\<lparr>fp_resyncCount := fp_resyncCount p + 1\<rparr>), True))"

text \<open>
  One received byte. The payload write is a list update: it leaves the list alone where C
  would write outside the array, and \<open>fp_inv\<close> below shows that this never happens.
\<close>

definition feed :: "u8 \<Rightarrow> u32 \<Rightarrow> frame_parser \<Rightarrow> frame_parser \<times> packet option" where
  "feed byte nowMs p0 =
     (let p = p0\<lparr>fp_lastByteMs := nowMs\<rparr> in
      case fp_state p of
        WaitSync \<Rightarrow> (if byte = kSync then p\<lparr>fp_state := Command\<rparr> else p, None)
      | Command \<Rightarrow> (p\<lparr>fp_command := byte, fp_checksum := byte, fp_state := LengthLow\<rparr>, None)
      | LengthLow \<Rightarrow>
          (p\<lparr>fp_length := ucast byte, fp_checksum := fp_checksum p XOR byte,
             fp_state := LengthHigh\<rparr>, None)
      | LengthHigh \<Rightarrow>
          (let len = fp_length p OR push_bit 8 (ucast byte);
               q = p\<lparr>fp_length := len, fp_checksum := fp_checksum p XOR byte, fp_position := 0\<rparr>
           in if unat len > kMaxPayload
              then (fp_reset (q\<lparr>fp_resyncCount := fp_resyncCount q + 1\<rparr>), None)
              else (q\<lparr>fp_state := (if len \<noteq> 0 then Data else Checksum)\<rparr>, None))
      | Data \<Rightarrow>
          (let q = p\<lparr>fp_payload := (fp_payload p)[unat (fp_position p) := byte],
                     fp_position := fp_position p + 1, fp_checksum := fp_checksum p XOR byte\<rparr>
           in (if fp_position q = fp_length q then q\<lparr>fp_state := Checksum\<rparr> else q, None))
      | Checksum \<Rightarrow>
          (if byte \<noteq> fp_checksum p
           then (fp_reset (p\<lparr>fp_badChecksumCount := fp_badChecksumCount p + 1\<rparr>), None)
           else (fp_reset p, Some \<lparr>pkt_command = fp_command p,
                                    pkt_data = take (unat (fp_length p)) (fp_payload p)\<rparr>)))"

text \<open>
  What the line does to the parser: a byte arrives at some time, or the receiver finds the
  line empty and checks the time-out.
\<close>

datatype rx_event = Byte u8 u32 | Tick u32

fun rx_step :: "rx_event \<Rightarrow> frame_parser \<Rightarrow> frame_parser \<times> packet option" where
  "rx_step (Byte b t) p = feed b t p"
| "rx_step (Tick t) p = (fst (checkTimeout t p), None)"

fun rx_bytes :: "rx_event list \<Rightarrow> bytes" where
  "rx_bytes [] = []"
| "rx_bytes (Byte b t # es) = b # rx_bytes es"
| "rx_bytes (Tick t # es) = rx_bytes es"

lemma rx_bytes_append: "rx_bytes (es @ fs) = rx_bytes es @ rx_bytes fs"
  by (induction es rule: rx_bytes.induct) auto

abbreviation rx_run :: "rx_event list \<Rightarrow> frame_parser \<Rightarrow> frame_parser \<times> packet list" where
  "rx_run \<equiv> run_stream rx_step"

subsection \<open>The frame writer\<close>

definition xor_all :: "u8 \<Rightarrow> bytes \<Rightarrow> u8" where
  "xor_all c d = foldl (XOR) c d"

text \<open>
  \<open>writeFrame\<close> hands the header, the payload and the checksum to the writer callback and
  stops at the first refusal. The callback and its context are parameters.
\<close>

definition writeFrame ::
    "('c \<Rightarrow> bytes \<Rightarrow> bool \<times> 'c) option \<Rightarrow> 'c \<Rightarrow> u8 \<Rightarrow> bytes option \<Rightarrow> u16 \<Rightarrow> bool \<times> 'c" where
  "writeFrame writer ctx command data len =
     (case writer of None \<Rightarrow> (False, ctx)
      | Some wr \<Rightarrow>
        if unat len > kMaxPayload \<or> (len \<noteq> 0 \<and> data = None) then (False, ctx)
        else
          (let header = [kSync, command, ucast len, ucast (drop_bit 8 len)];
               body = (case data of None \<Rightarrow> [] | Some d \<Rightarrow> take (unat len) d);
               checksum = xor_all ((header ! 1 XOR header ! 2) XOR header ! 3) body;
               (ok1, ctx1) = wr ctx header
           in if \<not> ok1 then (False, ctx1)
              else let (ok2, ctx2) = (if len = 0 then (True, ctx1) else wr ctx1 body)
                   in if \<not> ok2 then (False, ctx2) else wr ctx2 [checksum]))"

text \<open>The bytes of a frame on the line, and the writer that collects them.\<close>

definition frame_bytes :: "packet \<Rightarrow> bytes" where
  "frame_bytes pk =
     (let h = [pkt_command pk, of_nat (pkt_length pk), of_nat (pkt_length pk div 256)]
      in kSync # h @ pkt_data pk @ [xor_all (xor_all 0 h) (pkt_data pk)])"

definition frame_ok :: "packet \<Rightarrow> bool" where
  "frame_ok pk \<longleftrightarrow> pkt_length pk \<le> kMaxPayload"


subsection \<open>What the parser knows in the middle of a frame\<close>

text \<open>
  \<open>frame_header c n\<close> are the bytes after the synchronisation byte, \<open>in_frame p us\<close> says
  that \<open>us\<close> are the bytes of the current frame so far and that the parser's fields agree
  with them. It bounds every index the parser uses.
\<close>

definition frame_header :: "u8 \<Rightarrow> u16 \<Rightarrow> bytes" where
  "frame_header c n = [c, ucast n, ucast (drop_bit 8 n)]"

definition in_frame :: "frame_parser \<Rightarrow> bytes \<Rightarrow> bool" where
  "in_frame p us \<longleftrightarrow> length (fp_payload p) = kMaxPayload \<and>
     (case fp_state p of
        WaitSync \<Rightarrow> us = []
      | Command \<Rightarrow> us = [kSync]
      | LengthLow \<Rightarrow> us = [kSync, fp_command p] \<and> fp_checksum p = fp_command p
      | LengthHigh \<Rightarrow> us = [kSync, fp_command p, ucast (fp_length p)] \<and>
          unat (fp_length p) < 256 \<and>
          fp_checksum p = fp_command p XOR ucast (fp_length p)
      | Data \<Rightarrow> us = kSync # frame_header (fp_command p) (fp_length p) @
            take (unat (fp_position p)) (fp_payload p) \<and>
          fp_position p < fp_length p \<and> unat (fp_length p) \<le> kMaxPayload \<and>
          fp_checksum p = xor_all 0 (tl us)
      | Checksum \<Rightarrow> us = kSync # frame_header (fp_command p) (fp_length p) @
            take (unat (fp_length p)) (fp_payload p) \<and>
          unat (fp_length p) \<le> kMaxPayload \<and> fp_checksum p = xor_all 0 (tl us))"

lemma xor_all_append [simp]: "xor_all c (d @ e) = xor_all (xor_all c d) e"
  by (simp add: xor_all_def)

lemma xor_all_simps [simp]: "xor_all c [] = c" "xor_all c (x # xs) = xor_all (c XOR x) xs"
  by (simp_all add: xor_all_def)

lemma ucast_of_nat_u8: "(ucast (of_nat n :: u16) :: u8) = of_nat n"
  by (rule bit_word_eqI) (simp add: bit_simps)

lemma frame_header_of_nat:
  assumes "n \<le> kMaxPayload"
  shows "frame_header c (of_nat n) = [c, of_nat n, of_nat (n div 256)]"
proof -
  have n: "n \<le> 1024" using assms by (simp add: kMaxPayload_def)
  have "drop_bit 8 (of_nat n :: u16) = of_nat (n div 256)"
    using n by (intro word_unatI) (simp add: unat_drop_bit_eq drop_bit_eq_div unat_div)
  then show ?thesis by (simp add: frame_header_def ucast_of_nat_u8)
qed

lemma frame_bytes_header:
  "frame_ok pk \<Longrightarrow> frame_bytes pk =
     kSync # frame_header (pkt_command pk) (of_nat (pkt_length pk)) @ pkt_data pk @
     [xor_all 0 (frame_header (pkt_command pk) (of_nat (pkt_length pk)) @ pkt_data pk)]"
  by (simp add: frame_bytes_def frame_ok_def frame_header_of_nat Let_def)


lemma header_length_bytes:
  "ucast (w :: u16) = (b :: u8) \<Longrightarrow> unat w < 256 \<Longrightarrow> w = ucast b"
  by (intro word_unatI) (auto simp: unsigned_ucast_eq take_bit_nat_eq_self)

lemma length_join:
  fixes l :: u16 and b :: u8
  assumes "unat l < 256"
  shows "ucast (l OR push_bit 8 (ucast b)) = (ucast l :: u8)"
    and "ucast (drop_bit 8 (l OR push_bit 8 (ucast b :: u16))) = b"
proof -
  have "\<not> bit l n" if "8 \<le> n" for n
    using assms that by (intro not_bit_above [of l 8]) simp_all
  then show "ucast (drop_bit 8 (l OR push_bit 8 (ucast b :: u16))) = b"
    by (intro bit_word_eqI) (auto simp: bit_simps)
  show "ucast (l OR push_bit 8 (ucast b)) = (ucast l :: u8)"
    by (intro bit_word_eqI) (auto simp: bit_simps)
qed


lemma in_frame_reset: "length (fp_payload p) = kMaxPayload \<Longrightarrow> in_frame (fp_reset p) []"
  by (simp add: in_frame_def fp_reset_def)

lemma frame_header_inject:
  "(frame_header c n = frame_header c' n') = (c = c' \<and> n = n')"
proof
  assume h: "frame_header c n = frame_header c' n'"
  then have "readLe16 [ucast n, ucast (drop_bit 8 n)] = readLe16 [ucast n', ucast (drop_bit 8 n')]"
    by (simp add: frame_header_def)
  then show "c = c' \<and> n = n'" using h by (simp add: readLe16_bytes) (simp add: frame_header_def)
qed simp

lemma length_frame_header [size_simps, simp]: "length (frame_header c n) = 3"
  by (simp add: frame_header_def)

text \<open>The data state: one payload byte more, written inside the buffer.\<close>

lemma feed_data:
  assumes "in_frame p us" and "fp_state p = Data"
  shows "\<exists>q. feed b t p = (q, None) \<and> in_frame q (us @ [b])"
proof -
  let ?i = "unat (fp_position p)" and ?n = "unat (fp_length p)"
  from assms have len: "length (fp_payload p) = kMaxPayload" "?n \<le> kMaxPayload"
    and i: "?i < ?n"
    and us: "us = kSync # frame_header (fp_command p) (fp_length p) @ take ?i (fp_payload p)"
    and chk: "fp_checksum p = xor_all 0 (tl us)"
    by (auto simp: in_frame_def word_less_nat_alt)
  have i1: "unat (fp_position p + 1) = Suc ?i"
    using i len by (simp add: kMaxPayload_def unat_word_ariths)
  have tk: "take (Suc ?i) ((fp_payload p)[?i := b]) = take ?i (fp_payload p) @ [b]"
    using i len by (intro take_update_append) simp
  have end_iff: "(fp_position p + 1 = fp_length p) = (Suc ?i = ?n)"
    using i1 by (auto simp: word_unat_eq_iff)
  show ?thesis
    using assms(2) len i us chk i1 tk end_iff
    by (auto simp: feed_def Let_def in_frame_def word_less_nat_alt)
qed


lemma ucast_byte [simp]: "ucast (ucast b :: u16) = (b :: u8)" "unat (ucast b :: u16) < 256"
proof -
  show "ucast (ucast b :: u16) = b" by (rule bit_word_eqI) (simp add: bit_simps)
  show "unat (ucast b :: u16) < 256"
    using unat_u8 [of b] by (simp add: unsigned_ucast_eq take_bit_nat_eq_self)
qed

lemma feed_length_low:
  assumes "in_frame p us" and "fp_state p = LengthLow"
  shows "\<exists>q. feed b t p = (q, None) \<and> in_frame q (us @ [b])"
  using assms by (auto simp: feed_def Let_def in_frame_def)

lemma feed_length_high:
  assumes "in_frame p us" and "fp_state p = LengthHigh"
  shows "\<exists>q. feed b t p = (q, None) \<and>
    ((unat (fp_length p OR push_bit 8 (ucast b)) \<le> kMaxPayload \<and> in_frame q (us @ [b])) \<or>
     (kMaxPayload < unat (fp_length p OR push_bit 8 (ucast b)) \<and> in_frame q []))"
proof -
  let ?l = "fp_length p OR push_bit 8 (ucast b)"
  from assms have us: "us = [kSync, fp_command p, ucast (fp_length p)]"
    and l: "unat (fp_length p) < 256"
    and chk: "fp_checksum p = fp_command p XOR ucast (fp_length p)"
    and len: "length (fp_payload p) = kMaxPayload"
    by (auto simp: in_frame_def)
  have us': "us @ [b] = kSync # frame_header (fp_command p) ?l"
    using us length_join [OF l] by (simp add: frame_header_def)
  show ?thesis
  proof (cases "kMaxPayload < unat ?l")
    case True
    then show ?thesis
      using assms(2) len by (auto simp: feed_def Let_def intro: in_frame_reset)
  next
    case False
    obtain L where L: "L = ?l" "ucast L = (ucast (fp_length p) :: u8)"
      "ucast (drop_bit 8 L) = b" using length_join [OF l] by blast
    from False us' show ?thesis
      unfolding L(1) [symmetric]
      using assms(2) len chk L(2,3)
      by (auto simp: feed_def Let_def in_frame_def frame_header_def L(1) [symmetric]
          word_greater_zero_iff)
  qed
qed

lemma feed_checksum:
  assumes "in_frame p us" and "fp_state p = Checksum"
  defines "pk \<equiv> \<lparr>pkt_command = fp_command p,
                  pkt_data = take (unat (fp_length p)) (fp_payload p)\<rparr>"
  shows "frame_ok pk" and "us @ [xor_all 0 (tl us)] = frame_bytes pk"
    and "\<exists>q. in_frame q [] \<and>
      feed b t p = (q, if b = xor_all 0 (tl us) then Some pk else None)"
proof -
  from assms have us: "us = kSync # frame_header (fp_command p) (fp_length p) @ pkt_data pk"
    and len: "length (fp_payload p) = kMaxPayload" "unat (fp_length p) \<le> kMaxPayload"
    and chk: "fp_checksum p = xor_all 0 (tl us)"
    by (auto simp: in_frame_def)
  have n: "pkt_length pk = unat (fp_length p)" using len by (simp add: pk_def)
  show ok: "frame_ok pk" using n len by (simp add: frame_ok_def)
  show "us @ [xor_all 0 (tl us)] = frame_bytes pk"
    using us n by (simp add: frame_bytes_header [OF ok]) (simp add: pk_def)
  show "\<exists>q. in_frame q [] \<and> feed b t p = (q, if b = xor_all 0 (tl us) then Some pk else None)"
    using assms(2) chk len by (auto simp: feed_def Let_def pk_def intro: in_frame_reset)
qed

text \<open>
  One byte: the frame so far grows, or the parser goes back to waiting, or the bytes of a
  whole well-formed frame are complete and exactly its packet comes out.
\<close>

lemma feed_step:
  assumes "in_frame p us"
  obtains (more) q where "feed b t p = (q, None)" "in_frame q (us @ [b])"
  | (drop) q where "feed b t p = (q, None)" "in_frame q []"
  | (packet) q pk where "feed b t p = (q, Some pk)" "in_frame q []" "frame_ok pk"
      "us @ [b] = frame_bytes pk"
proof (cases "fp_state p")
  case WaitSync
  with assms show ?thesis
    by (cases "b = kSync") (auto simp: feed_def Let_def in_frame_def intro: more drop)
next
  case Command
  with assms show ?thesis by (auto simp: feed_def Let_def in_frame_def intro: more)
next
  case LengthLow
  from feed_length_low [OF assms this, of b t] show ?thesis by (auto intro: more)
next
  case LengthHigh
  from feed_length_high [OF assms this, of b t] show ?thesis by (auto intro: more drop)
next
  case Data
  from feed_data [OF assms this, of b t] show ?thesis by (auto intro: more)
next
  case Checksum
  note c = feed_checksum [OF assms this]
  from c(3) [of b t] c(1,2) show ?thesis
    by (cases "b = xor_all 0 (tl us)") (auto intro: packet drop)
qed


text \<open>Inside a frame the parser never gives up: the bytes of a well-formed frame all count.\<close>

lemma frame_prefix_header:
  assumes "frame_ok pk" and "frame_bytes pk = kSync # frame_header c n @ rest"
  shows "c = pkt_command pk" "n = of_nat (pkt_length pk)"
    "rest = pkt_data pk @ [xor_all 0 (frame_header c n @ pkt_data pk)]"
proof -
  let ?h = "frame_header (pkt_command pk) (of_nat (pkt_length pk))"
  from assms(2) have "?h @ pkt_data pk @ [xor_all 0 (?h @ pkt_data pk)] = frame_header c n @ rest"
    unfolding frame_bytes_header [OF assms(1)] by (simp only: list.inject)
  then have e: "frame_header c n @ rest = ?h @ pkt_data pk @ [xor_all 0 (?h @ pkt_data pk)]"
    by (rule sym)
  then have h: "frame_header c n = frame_header (pkt_command pk) (of_nat (pkt_length pk))"
    by (simp add: append_eq_append_conv)
  then show "c = pkt_command pk" "n = of_nat (pkt_length pk)"
    by (simp_all add: frame_header_inject)
  show "rest = pkt_data pk @ [xor_all 0 (frame_header c n @ pkt_data pk)]"
    using e unfolding h by simp
qed

lemma feed_frame_prefix:
  assumes fr: "in_frame p us" and ok: "frame_ok pk" and eq: "frame_bytes pk = us @ b # rest"
  shows "\<exists>q. (if rest = [] then feed b t p = (q, Some pk) \<and> in_frame q []
         else feed b t p = (q, None) \<and> in_frame q (us @ [b]))"
proof (cases "fp_state p")
  case WaitSync
  with fr have us: "us = []" by (simp add: in_frame_def)
  with eq ok have "b = kSync" "rest \<noteq> []" by (auto simp: frame_bytes_header)
  with fr us WaitSync show ?thesis by (auto simp: feed_def Let_def in_frame_def)
next
  case Command
  with fr eq ok have "rest \<noteq> []" by (auto simp: frame_bytes_header frame_header_def in_frame_def)
  with fr Command show ?thesis by (auto simp: feed_def Let_def in_frame_def)
next
  case LengthLow
  with fr eq ok have "rest \<noteq> []" by (auto simp: frame_bytes_header frame_header_def in_frame_def)
  with feed_length_low [OF fr LengthLow, of b t] show ?thesis by auto
next
  case LengthHigh
  let ?l = "fp_length p OR push_bit 8 (ucast b)"
  from fr LengthHigh have us: "us = [kSync, fp_command p, ucast (fp_length p)]"
    and l: "unat (fp_length p) < 256" by (auto simp: in_frame_def)
  have "us @ [b] = kSync # frame_header (fp_command p) ?l"
    using us length_join [OF l] by (simp add: frame_header_def)
  with eq have "frame_bytes pk = kSync # frame_header (fp_command p) ?l @ rest"
    by (metis append.assoc append_Cons append_Nil)
  from frame_prefix_header [OF ok this] ok have "unat ?l \<le> kMaxPayload" "rest \<noteq> []"
    by (simp_all add: frame_ok_def kMaxPayload_def)
  with feed_length_high [OF fr LengthHigh, of b t] show ?thesis by auto
next
  case Data
  let ?k = "take (unat (fp_position p)) (fp_payload p)"
  from fr Data have us: "us = kSync # frame_header (fp_command p) (fp_length p) @ ?k"
    and i: "unat (fp_position p) < unat (fp_length p)" "unat (fp_length p) \<le> kMaxPayload"
      "length (fp_payload p) = kMaxPayload" by (auto simp: in_frame_def word_less_nat_alt)
  from eq us have "frame_bytes pk = kSync # frame_header (fp_command p) (fp_length p) @ (?k @ b # rest)"
    by simp
  note f = frame_prefix_header [OF ok this]
  from ok f(2) have "pkt_length pk = unat (fp_length p)"
    by (simp add: frame_ok_def kMaxPayload_def)
  moreover from arg_cong [OF f(3), of length] i
  have "unat (fp_position p) + length rest = pkt_length pk" by simp
  ultimately have "rest \<noteq> []" using i by auto
  with feed_data [OF fr Data, of b t] show ?thesis by auto
next
  case Checksum
  let ?d = "take (unat (fp_length p)) (fp_payload p)"
  note c = feed_checksum [OF fr Checksum]
  from fr Checksum have us: "us = kSync # frame_header (fp_command p) (fp_length p) @ ?d"
    and i: "unat (fp_length p) \<le> kMaxPayload" "length (fp_payload p) = kMaxPayload"
    by (auto simp: in_frame_def)
  from eq us have "frame_bytes pk = kSync # frame_header (fp_command p) (fp_length p) @ (?d @ b # rest)"
    by simp
  note f = frame_prefix_header [OF ok this]
  from ok f(2) have "pkt_length pk = unat (fp_length p)"
    by (simp add: frame_ok_def kMaxPayload_def)
  with f(3) i have d: "?d = pkt_data pk" and "b # rest = [xor_all 0 (frame_header (fp_command p) (fp_length p) @ pkt_data pk)]"
    by (simp_all add: append_eq_append_conv)
  with us have "rest = []" "b = xor_all 0 (tl us)" by auto
  moreover have "\<lparr>pkt_command = fp_command p, pkt_data = ?d\<rparr> = pk"
    using d f(1) by simp
  ultimately show ?thesis using c(3) [of b t] by auto
qed


subsection \<open>Streams of bytes\<close>

lemma in_frame_length: "in_frame p us \<Longrightarrow> length (fp_payload p) = kMaxPayload"
  by (simp add: in_frame_def)

lemma in_frame_checkTimeout:
  "in_frame p us \<Longrightarrow> in_frame (fst (checkTimeout t p)) us \<or> in_frame (fst (checkTimeout t p)) []"
  by (simp add: checkTimeout_def in_frame_reset in_frame_length)

text \<open>
  Soundness over any stream, time-outs included: the bytes received so far, less a prefix
  that is over, are what the parser holds, and each packet delivered is the frame that
  those bytes spell.
\<close>

lemma rx_run_sound:
  assumes "in_frame p us" and "rx_run es p = (q, ps)" and "pk \<in> set ps"
  shows "frame_ok pk \<and> sublist (frame_bytes pk) (us @ rx_bytes es)"
  using assms
proof (induction es arbitrary: p us ps)
  case Nil
  then show ?case by simp
next
  case (Cons e es)
  obtain p' r ps' where st: "rx_step e p = (p', r)" and rn: "rx_run es p' = (q, ps')"
    and ps: "ps = (case r of None \<Rightarrow> ps' | Some v \<Rightarrow> v # ps')"
    using Cons.prems(2) by (auto split: prod.splits)
  show ?case
  proof (cases e)
    case (Tick t)
    with st have "r = None" "p' = fst (checkTimeout t p)" by auto
    with in_frame_checkTimeout [OF Cons.prems(1), of t] obtain us'
      where u: "in_frame p' us'" "us' = us \<or> us' = []" by blast
    from Cons.IH [OF u(1) rn] Cons.prems(3) ps \<open>r = None\<close> have
      "frame_ok pk \<and> sublist (frame_bytes pk) (us' @ rx_bytes es)" by simp
    with u(2) Tick show ?thesis by (auto simp: sublist_append)
  next
    case (Byte b t)
    with st have fd: "feed b t p = (p', r)" by simp
    from Cons.prems(1) show ?thesis
    proof (cases rule: feed_step [of p us b t])
      case (more q')
      with fd have "r = None" "in_frame p' (us @ [b])" by auto
      from Cons.IH [OF this(2) rn] Cons.prems(3) ps this(1) Byte show ?thesis by simp
    next
      case (drop q')
      with fd have "r = None" "in_frame p' []" by auto
      from Cons.IH [OF this(2) rn] Cons.prems(3) ps this(1) Byte show ?thesis
        by (simp add: sublist_append sublist_Cons_right)
    next
      case (packet q' pk')
      with fd have r: "r = Some pk'" "in_frame p' []" by auto
      from Cons.prems(3) ps r(1) consider "pk = pk'" | "pk \<in> set ps'" by auto
      then show ?thesis
      proof cases
        case 1
        from packet(4) have eq: "us @ b # rx_bytes es = frame_bytes pk' @ rx_bytes es"
          by (metis append.assoc append_Cons append_Nil)
        show ?thesis using packet(3) Byte 1 by (simp add: eq)
      next
        case 2
        from Cons.IH [OF r(2) rn 2] Byte show ?thesis
          by (simp add: sublist_append sublist_Cons_right)
      qed
    qed
  qed
qed

text \<open>Completeness: the bytes of a frame, at whatever times they arrive.\<close>

definition byte_events :: "(u8 \<times> u32) list \<Rightarrow> rx_event list" where
  "byte_events bts = map (\<lambda>(b, t). Byte b t) bts"

lemma rx_run_frame:
  assumes "in_frame p us" and "frame_ok pk" and "frame_bytes pk = us @ map fst bts"
    and "bts \<noteq> []"
  shows "\<exists>q. rx_run (byte_events bts) p = (q, [pk]) \<and> in_frame q []"
  using assms
proof (induction bts arbitrary: p us)
  case Nil
  then show ?case by simp
next
  case (Cons bt bts)
  obtain b t where bt: "bt = (b, t)" by (cases bt)
  from Cons.prems bt have "frame_bytes pk = us @ b # map fst bts" by simp
  note f = feed_frame_prefix [OF Cons.prems(1,2) this, of t]
  show ?case
  proof (cases "bts = []")
    case True
    with f bt show ?thesis by (auto simp: byte_events_def)
  next
    case False
    with f obtain q where q: "feed b t p = (q, None)" "in_frame q (us @ [b])" by auto
    have "frame_bytes pk = (us @ [b]) @ map fst bts" using Cons.prems(3) bt by simp
    from Cons.IH [OF q(2) Cons.prems(2) this False] q(1) bt show ?thesis
      by (auto simp: byte_events_def)
  qed
qed

definition frame_events :: "rx_event list \<Rightarrow> packet \<Rightarrow> bool" where
  "frame_events es pk \<longleftrightarrow> frame_ok pk \<and>
     (\<exists>bts. es = byte_events bts \<and> map fst bts = frame_bytes pk)"

definition idle_events :: "rx_event list \<Rightarrow> bool" where
  "idle_events es \<longleftrightarrow> kSync \<notin> set (rx_bytes es)"

lemma rx_run_idle:
  assumes "in_frame p []" and "idle_events es"
  shows "\<exists>q. in_frame q [] \<and> rx_run es p = (q, [])"
  using assms
proof (induction es arbitrary: p rule: rx_bytes.induct)
  case 1
  then show ?case by simp
next
  case (2 b t es)
  from 2(2) have "fp_state p = WaitSync"
    by (auto simp: in_frame_def split: parser_state.splits)
  with 2(2,3) have "feed b t p = (p\<lparr>fp_lastByteMs := t\<rparr>, None)"
    "in_frame (p\<lparr>fp_lastByteMs := t\<rparr>) []"
    by (auto simp: feed_def Let_def idle_events_def in_frame_def)
  with 2(1) [of "p\<lparr>fp_lastByteMs := t\<rparr>"] 2(3) show ?case by (auto simp: idle_events_def)
next
  case (3 t es)
  from in_frame_checkTimeout [OF 3(2), of t] have "in_frame (fst (checkTimeout t p)) []" by auto
  with 3(1) [OF this] 3(3) show ?case by (auto simp: idle_events_def)
qed

interpretation uart: stream_codec rx_step frame_events idle_events "\<lambda>p. in_frame p []"
proof
  fix p es pk
  assume "in_frame p []" and "frame_events es pk"
  then obtain bts where "es = byte_events bts" "frame_bytes pk = [] @ map fst bts" "frame_ok pk"
    by (auto simp: frame_events_def)
  moreover from this have "bts \<noteq> []" by (auto simp: frame_bytes_def)
  ultimately show "\<exists>t. in_frame t [] \<and> rx_run es p = (t, [pk])"
    using rx_run_frame [OF \<open>in_frame p []\<close>] by blast
next
  fix p es
  assume "in_frame p []" and "idle_events es"
  then show "\<exists>t. in_frame t [] \<and> rx_run es p = (t, [])" by (rule rx_run_idle)
qed


subsection \<open>Checksums\<close>

text \<open>The inner loops shift eight bits; \<open>funpow\<close> runs the body that often.\<close>

definition crc16_bit :: "u16 \<Rightarrow> u16" where
  "crc16_bit crc = (if crc AND 0x8000 \<noteq> 0 then push_bit 1 crc XOR 0x1021 else push_bit 1 crc)"

definition crc16_byte :: "u16 \<Rightarrow> u8 \<Rightarrow> u16" where
  "crc16_byte crc b = (crc16_bit ^^ 8) (crc XOR push_bit 8 (ucast b))"

definition crc16CcittFalseUpdate :: "u16 \<Rightarrow> bytes \<Rightarrow> u16" where
  "crc16CcittFalseUpdate crc data = foldl crc16_byte crc data"

definition crc16CcittFalse :: "bytes \<Rightarrow> u16" where
  "crc16CcittFalse data = crc16CcittFalseUpdate 0xFFFF data"

definition crc32_bit :: "u32 \<Rightarrow> u32" where
  "crc32_bit crc = drop_bit 1 crc XOR (0xEDB88320 AND - (crc AND 1))"

definition crc32_byte :: "u32 \<Rightarrow> u8 \<Rightarrow> u32" where
  "crc32_byte crc b = (crc32_bit ^^ 8) (crc XOR ucast b)"

definition crc32IsoHdlc :: "bytes \<Rightarrow> u32" where
  "crc32IsoHdlc data = NOT (foldl crc32_byte 0xFFFFFFFF data)"

text \<open>
  A digest folded over bytes whose step is injective in the state and in the byte: the
  contract the window transfers rely on. Streaming in fragments is the digest of the
  whole, and one changed byte always changes the digest.
\<close>

locale byte_digest =
  fixes step :: "'s \<Rightarrow> u8 \<Rightarrow> 's"
  assumes step_state: "step s b = step t b \<Longrightarrow> s = t"
    and step_byte: "step s b = step s c \<Longrightarrow> b = c"
begin

lemma digest_append: "foldl step s (a @ b) = foldl step (foldl step s a) b"
  by simp

lemma digest_fragments: "foldl (foldl step) s frags = foldl step s (concat frags)"
  by (rule foldl_concat_map [symmetric])

lemma digest_state: "foldl step s d = foldl step t d \<Longrightarrow> s = t"
  by (induction d arbitrary: s t) (auto dest: step_state)

lemma digest_detects:
  assumes "b \<noteq> c"
  shows "foldl step s (pre @ b # post) \<noteq> foldl step s (pre @ c # post)"
  using assms by (auto dest!: digest_state step_byte)

end

lemma crc16_bit_inj: "crc16_bit c = crc16_bit d \<Longrightarrow> c = d"
proof -
  assume eq: "crc16_bit c = crc16_bit d"
  have low: "\<not> bit (push_bit 1 x) 0" "bit (push_bit 1 x XOR 0x1021) 0" for x :: u16
    unfolding bit_xor_iff bit_push_bit_iff by simp_all
  have msb: "(x AND 0x8000 \<noteq> 0) = bit (crc16_bit x) 0" for x :: u16
    using low [of x] by (simp only: crc16_bit_def split: if_split) blast
  have sh: "bit (push_bit 1 c) n = bit (push_bit 1 d) n" if "n < 16" for n
    using eq msb [of c] msb [of d] unfolding crc16_bit_def
    by (auto simp: xor_cancel_right split: if_splits)
  have top: "(x AND 0x8000 \<noteq> 0) = bit x 15" for x :: u16
    using and_exp_eq_0_iff_not_bit [of x 15] by simp
  show "c = d"
  proof (rule bit_word_eqI)
    fix n assume n: "n < LENGTH(16)"
    show "bit c n = bit d n"
    proof (cases "n = 15")
      case True
      then show ?thesis using top [of c] top [of d] msb [of c] msb [of d] eq by simp
    next
      case False
      with n sh [of "Suc n"] show ?thesis unfolding bit_push_bit_iff by simp
    qed
  qed
qed


lemma crc32_bit_alt:
  "crc32_bit c = (if bit c 0 then drop_bit 1 c XOR 0xEDB88320 else drop_bit 1 c)"
  unfolding crc32_bit_def by (simp add: and_one_eq odd_iff_mod_2_eq_one bit_0)

lemma crc32_bit_inj: "crc32_bit c = crc32_bit d \<Longrightarrow> c = d"
proof -
  assume eq: "crc32_bit c = crc32_bit d"
  have top: "bit (crc32_bit x) 31 = bit x 0" for x
    by (auto simp: crc32_bit_alt bit_simps dest: bit_imp_le_length)
  have sh: "drop_bit 1 c = drop_bit 1 d"
    using eq top [of c] top [of d] unfolding crc32_bit_alt
    by (auto simp: xor_cancel_right split: if_splits)
  show "c = d"
  proof (rule bit_word_eqI)
    fix n assume n: "n < LENGTH(32)"
    show "bit c n = bit d n"
    proof (cases n)
      case 0
      then show ?thesis using top [of c] top [of d] eq by simp
    next
      case (Suc m)
      have "bit (drop_bit 1 c) m = bit (drop_bit 1 d) m" using sh by simp
      then show ?thesis using Suc by (simp add: bit_simps)
    qed
  qed
qed

lemma funpow_inject: "(\<And>x y. f x = f (y :: 'a) \<Longrightarrow> x = y) \<Longrightarrow> ((f :: 'a \<Rightarrow> 'a) ^^ n) a = (f ^^ n) b \<Longrightarrow> a = b"
  by (rule injD [OF inj_fn [of f n]]) (auto intro: injI)

lemma ucast_u32_inject: "(ucast b :: u32) = ucast c \<Longrightarrow> b = (c :: u8)"
proof (rule bit_word_eqI)
  fix n assume e: "(ucast b :: u32) = ucast c" and n: "n < LENGTH(8)"
  have "bit (ucast b :: u32) n = bit (ucast c :: u32) n" by (simp only: e)
  then show "bit b n = bit c n" using n by (simp add: bit_simps)
qed

lemma push_byte_inject: "push_bit 8 (ucast b :: u16) = push_bit 8 (ucast c) \<Longrightarrow> b = (c :: u8)"
proof (rule bit_word_eqI)
  fix n assume e: "push_bit 8 (ucast b :: u16) = push_bit 8 (ucast c)" and n: "n < LENGTH(8)"
  have "bit (push_bit 8 (ucast b :: u16)) (n + 8) = bit (push_bit 8 (ucast c :: u16)) (n + 8)"
    by (simp only: e)
  then show "bit b n = bit c n" using n by (simp add: bit_simps)
qed

interpretation crc16: byte_digest crc16_byte
proof
  fix s t b c
  show "crc16_byte s b = crc16_byte t b \<Longrightarrow> s = t"
    unfolding crc16_byte_def
    by (drule funpow_inject [rotated]) (auto dest: crc16_bit_inj simp: xor_cancel_right)
  show "crc16_byte s b = crc16_byte s c \<Longrightarrow> b = c"
    unfolding crc16_byte_def
    by (drule funpow_inject [rotated])
       (auto dest: crc16_bit_inj simp: xor_cancel_left dest!: push_byte_inject)
qed

interpretation crc32: byte_digest crc32_byte
proof
  fix s t b c
  show "crc32_byte s b = crc32_byte t b \<Longrightarrow> s = t"
    unfolding crc32_byte_def
    by (drule funpow_inject [rotated]) (auto dest: crc32_bit_inj simp: xor_cancel_right)
  show "crc32_byte s b = crc32_byte s c \<Longrightarrow> b = c"
    unfolding crc32_byte_def
    by (drule funpow_inject [rotated])
       (auto dest: crc32_bit_inj simp: xor_cancel_left dest!: ucast_u32_inject)
qed


subsection \<open>Properties\<close>

definition collect :: "bytes \<Rightarrow> bytes \<Rightarrow> bool \<times> bytes" where
  "collect out bs = (True, out @ bs)"

lemma writeFrame_collect:
  assumes "length d \<le> kMaxPayload"
  shows "writeFrame (Some collect) [] c (Some d) (of_nat (length d)) =
    (True, frame_bytes \<lparr>pkt_command = c, pkt_data = d\<rparr>)"
proof -
  let ?n = "of_nat (length d) :: u16"
  have n: "unat ?n = length d" using assms by (simp add: kMaxPayload_def)
  then have z: "(?n = 0) = (d = [])" by (simp add: word_unat_eq_iff)
  have h: "[c, ucast ?n, ucast (drop_bit 8 ?n)] = [c, of_nat (length d), of_nat (length d div 256)]"
    using frame_header_of_nat [OF assms, of c] by (simp add: frame_header_def)
  from n z assms h show ?thesis
    by (auto simp: writeFrame_def collect_def frame_bytes_def Let_def)
qed

lemma in_frame_init: "in_frame FrameParser_init []"
  by (simp add: in_frame_def FrameParser_init_def)

definition written_frame :: "rx_event list \<Rightarrow> packet \<Rightarrow> bool" where
  "written_frame es pk \<longleftrightarrow> pkt_length pk \<le> kMaxPayload \<and>
     (\<exists>gap bts. es = gap @ byte_events bts \<and> kSync \<notin> set (rx_bytes gap) \<and>
        map fst bts = snd (writeFrame (Some collect) [] (pkt_command pk)
          (Some (pkt_data pk)) (of_nat (pkt_length pk))))"

lemma written_transmission:
  "list_all2 written_frame ess pks \<Longrightarrow>
   \<exists>ess'. concat ess' = concat ess \<and> uart.transmission ess' pks"
proof (induction rule: list_all2_induct)
  case Nil
  then show ?case by (auto intro: exI [of _ "[]"])
next
  case (Cons es ess pk pks)
  then obtain ess' where e: "concat ess' = concat ess" "uart.transmission ess' pks" by blast
  from Cons(1) obtain gap bts where g: "es = gap @ byte_events bts" "kSync \<notin> set (rx_bytes gap)"
      "map fst bts = frame_bytes pk" and ok: "frame_ok pk"
    by (cases pk) (auto simp: written_frame_def frame_ok_def writeFrame_collect)
  then have "idle_events gap" "frame_events (byte_events bts) pk"
    by (auto simp: idle_events_def frame_events_def)
  with e g(1) show ?case by (intro exI [of _ "gap # byte_events bts # ess'"]) auto
qed

text \<open>
  C18: Frames written by writeFrame, arriving at any times and with any bytes other than
  the synchronisation byte between them, are parsed back by a fresh FrameParser into
  exactly the packets written, in order.
\<close>

theorem frames_roundtrip:
  assumes "list_all2 written_frame ess pks"
  shows "\<exists>p. rx_run (concat ess) FrameParser_init = (p, pks)"
proof -
  from written_transmission [OF assms] obtain ess'
    where "concat ess' = concat ess" "uart.transmission ess' pks" by blast
  with uart.decode_transmission [OF in_frame_init, of ess' pks] show ?thesis by auto
qed

theorem frames_roundtrip_witness:
  "\<exists>p. rx_run ([Byte 0x00 1, Tick 7] @ byte_events (map (\<lambda>b. (b, 9)) [0x5A, 0x04, 1, 0, 7, 2]))
     FrameParser_init = (p, [\<lparr>pkt_command = 4, pkt_data = [7]\<rparr>])"
proof -
  have "writeFrame (Some collect) [] 4 (Some [7]) 1 = (True, [0x5A, 0x04, 1, 0, 7, 2])"
    by (simp add: writeFrame_def collect_def kSync_def kMaxPayload_def xor_all_def)
  then have "list_all2 written_frame
     [[Byte 0x00 1, Tick 7] @ byte_events (map (\<lambda>b. (b, 9)) [0x5A, 0x04, 1, 0, 7, 2])]
     [\<lparr>pkt_command = 4, pkt_data = [7]\<rparr>]"
    by (auto simp: written_frame_def kMaxPayload_def kSync_def
        intro!: exI [of _ "[Byte 0x00 1, Tick 7]"]
          exI [of _ "map (\<lambda>b. (b, 9)) [0x5A, 0x04, 1, 0, 7, 2]"])
  from frames_roundtrip [OF this] show ?thesis by simp
qed

text \<open>
  C19: Whatever bytes and silences the line delivers, each packet the parser hands out has
  at most kMaxPayload bytes, and its complete frame, synchronisation byte, length and XOR
  checksum included, stands in the received bytes without a gap.
\<close>

theorem parser_sound:
  assumes "rx_run es FrameParser_init = (q, ps)" and "pk \<in> set ps"
  shows "pkt_length pk \<le> kMaxPayload \<and> sublist (frame_bytes pk) (rx_bytes es)"
  using rx_run_sound [OF in_frame_init assms] by (simp add: frame_ok_def)

theorem parser_sound_witness:
  "pkt_length \<lparr>pkt_command = 4, pkt_data = []\<rparr> \<le> kMaxPayload \<and>
   sublist (frame_bytes \<lparr>pkt_command = 4, pkt_data = []\<rparr>)
     (rx_bytes (map (\<lambda>b. Byte b 3) [0x11, 0x5A, 4, 0, 0, 4]))"
proof -
  have "rx_run (map (\<lambda>b. Byte b 3) [0x11, 0x5A, 4, 0, 0, 4]) FrameParser_init =
      (fst (rx_run (map (\<lambda>b. Byte b 3) [0x11, 0x5A, 4, 0, 0, 4]) FrameParser_init),
       [\<lparr>pkt_command = 4, pkt_data = []\<rparr>])"
    by (simp add: feed_def FrameParser_init_def kSync_def kMaxPayload_def Let_def fp_reset_def)
  from parser_sound [OF this] show ?thesis by simp
qed

lemma rx_run_in_frame:
  "in_frame p us \<Longrightarrow> \<exists>us'. in_frame (fst (rx_run es p)) us'"
proof (induction es arbitrary: p us)
  case Nil
  then show ?case by auto
next
  case (Cons e es)
  have "\<exists>us'. in_frame (fst (rx_step e p)) us'"
  proof (cases e)
    case (Byte b t)
    from Cons.prems show ?thesis by (cases rule: feed_step [of p us b t]) (auto simp: Byte)
  next
    case (Tick t)
    with in_frame_checkTimeout [OF Cons.prems, of t] show ?thesis by auto
  qed
  with Cons.IH show ?case by (auto split: prod.splits) (metis fst_conv)
qed


text \<open>
  C20: The parser never writes or reads outside its 1024-byte buffer: in every state it can
  reach, a payload byte is stored at an index below kMaxPayload and below the announced
  length, and a packet is cut from at most kMaxPayload bytes.
\<close>

theorem parser_in_bounds:
  "case fst (rx_run es FrameParser_init) of p \<Rightarrow>
     length (fp_payload p) = kMaxPayload \<and>
     (case fp_state p of
        Data \<Rightarrow> fp_position p < fp_length p \<and> unat (fp_position p) < kMaxPayload
      | Checksum \<Rightarrow> unat (fp_length p) \<le> kMaxPayload
      | _ \<Rightarrow> True)"
proof -
  from rx_run_in_frame [OF in_frame_init] obtain us
    where "in_frame (fst (rx_run es FrameParser_init)) us" by blast
  then show ?thesis
    by (auto simp: in_frame_def word_less_nat_alt split: parser_state.splits)
qed

text \<open>
  A broken frame cannot block the line: after any traffic, a silence of at least
  500 ms (and less than the 2^32 ms period of millis), seen by one checkTimeout, makes the
  parser deliver the next frame, whatever it held before.
\<close>

theorem resync_after_timeout:
  assumes "rx_run es FrameParser_init = (p, ps)"
    and "500 \<le> n" and "n < 2 ^ 32"
    and "pkt_length pk \<le> kMaxPayload" and "map fst bts = frame_bytes pk"
  shows "\<exists>q. rx_run (es @ Tick (fp_lastByteMs p + of_nat n) # byte_events bts) FrameParser_init =
           (q, ps @ [pk])"
proof -
  from rx_run_in_frame [OF in_frame_init, of es] assms(1) obtain us where us: "in_frame p us" by auto
  let ?p = "fst (checkTimeout (fp_lastByteMs p + of_nat n) p)"
  have "\<not> fp_lastByteMs p + of_nat n - fp_lastByteMs p < kFrameTimeoutMs"
    using assms(2,3) by (simp add: kFrameTimeoutMs_def word_less_nat_alt)
  with us have "in_frame ?p []"
    by (auto simp: checkTimeout_def in_frame_reset in_frame_length)
      (simp add: in_frame_def)
  moreover have "frame_events (byte_events bts) pk"
    using assms(4,5) by (auto simp: frame_events_def frame_ok_def)
  ultimately obtain q where "rx_run (byte_events bts) ?p = (q, [pk])"
    using uart.decode_one by blast
  with assms(1) show ?thesis by (auto simp: run_stream_append)
qed

theorem resync_after_timeout_witness:
  "\<exists>q. rx_run ([Byte 0x5A 4, Byte 0x50 4, Byte 0xFF 4] @ Tick (4 + of_nat 500) #
      byte_events (map (\<lambda>b. (b, 600)) (frame_bytes \<lparr>pkt_command = 4, pkt_data = []\<rparr>)))
      FrameParser_init = (q, [] @ [\<lparr>pkt_command = 4, pkt_data = []\<rparr>])"
proof -
  let ?r = "rx_run [Byte 0x5A 4, Byte 0x50 4, Byte 0xFF 4] FrameParser_init"
  have r: "?r = (fst ?r, [])" and t: "fp_lastByteMs (fst ?r) = 4"
    by (simp_all add: feed_def FrameParser_init_def kSync_def Let_def)
  have "map fst (map (\<lambda>b. (b, 600 :: u32)) (frame_bytes \<lparr>pkt_command = 4, pkt_data = []\<rparr>)) =
      frame_bytes \<lparr>pkt_command = 4, pkt_data = []\<rparr>" by (simp add: comp_def)
  from resync_after_timeout [OF r _ _ _ this, of 500] t show ?thesis by simp
qed

text \<open>
  Both checksums of the protocol detect every change of one byte: two messages of the
  same length that differ in exactly one byte never have the same CRC-16 (the window
  transfers) nor the same CRC-32 (the stored configuration).
\<close>

theorem crc_detects_byte_change:
  assumes "b \<noteq> c"
  shows "crc16CcittFalse (pre @ b # post) \<noteq> crc16CcittFalse (pre @ c # post) \<and>
         crc32IsoHdlc (pre @ b # post) \<noteq> crc32IsoHdlc (pre @ c # post)"
proof -
  have n: "NOT x = NOT y \<Longrightarrow> x = y" for x y :: u32
    by (metis bit.double_compl)
  show ?thesis
    using crc16.digest_detects [OF assms] crc32.digest_detects [OF assms]
    by (auto simp: crc16CcittFalse_def crc16CcittFalseUpdate_def crc32IsoHdlc_def dest!: n)
qed

theorem crc_detects_byte_change_witness:
  "crc16CcittFalse ([1, 2] @ 3 # [4]) \<noteq> crc16CcittFalse ([1, 2] @ 7 # [4]) \<and>
   crc32IsoHdlc ([1, 2] @ 3 # [4]) \<noteq> crc32IsoHdlc ([1, 2] @ 7 # [4])"
  by (rule crc_detects_byte_change) simp

end
