(* ===== verification/SpscRing.thy ===== *)
theory SpscRing
  imports Prelude
begin

text \<open>
  The byte ring between the two cores (\<open>include/zifi/spsc_ring.hpp\<close>,
  \<open>src/spsc_ring.cpp\<close>), one call at a time. Positions are free-running 32-bit counters;
  a byte lives at its position modulo the capacity, which \<open>attach\<close> forces to be a power
  of two. \<open>contents\<close> reads the ring as the queue of bytes it holds, and every operation is
  shown to act on that queue, across the wrap-around of the storage and of the counters.
  The interleaving of the two cores is the subject of \<open>SpscConcurrent\<close>.
\<close>

subsection \<open>The object\<close>

record ring =
  rg_storage :: "bytes option"
  rg_capacity :: u32
  rg_writePosition :: u32
  rg_readPosition :: u32
  rg_highWater :: u32

definition SpscByteRing_init :: ring where
  "SpscByteRing_init = \<lparr>rg_storage = None, rg_capacity = 0, rg_writePosition = 0,
     rg_readPosition = 0, rg_highWater = 0\<rparr>"

definition ring_ready :: "ring \<Rightarrow> bool" where
  "ring_ready r \<longleftrightarrow> rg_storage r \<noteq> None \<and> rg_capacity r \<noteq> 0"

definition ring_reset :: "ring \<Rightarrow> ring" where
  "ring_reset r = r\<lparr>rg_writePosition := 0, rg_readPosition := 0, rg_highWater := 0\<rparr>"

definition attach :: "bytes option \<Rightarrow> nat \<Rightarrow> ring \<Rightarrow> ring \<times> bool" where
  "attach storage capacity r =
     (if storage = None \<or> capacity < 2 \<or> capacity > 0x7FFFFFFF then (r, False)
      else if capacity AND (capacity - 1) \<noteq> 0 then (r, False)
      else (ring_reset (r\<lparr>rg_storage := storage, rg_capacity := of_nat capacity\<rparr>), True))"

definition ring_available :: "ring \<Rightarrow> nat" where
  "ring_available r =
     (if \<not> ring_ready r then 0
      else let used = rg_writePosition r - rg_readPosition r
           in unat (if used \<le> rg_capacity r then used else rg_capacity r))"

definition ring_freeSpace :: "ring \<Rightarrow> nat" where
  "ring_freeSpace r = (if ring_ready r then unat (rg_capacity r) - ring_available r else 0)"

text \<open>The compare-exchange loop ends with the larger of the two values.\<close>

definition updateHighWater :: "u32 \<Rightarrow> ring \<Rightarrow> ring" where
  "updateHighWater v r = (if rg_highWater r < v then r\<lparr>rg_highWater := v\<rparr> else r)"

subsection \<open>Writing, peeking and discarding\<close>

definition ring_write :: "bytes option \<Rightarrow> nat \<Rightarrow> ring \<Rightarrow> ring \<times> nat" where
  "ring_write data len r =
     (case (rg_storage r, data) of
        (Some st, Some d) \<Rightarrow>
          (if \<not> ring_ready r \<or> len = 0 then (r, 0)
           else
             let written = rg_writePosition r; used = written - rg_readPosition r
             in if used \<ge> rg_capacity r then (r, 0)
                else
                  let count = min len (unat (rg_capacity r - used));
                      index = unat (written mod rg_capacity r);
                      first = min count (unat (rg_capacity r) - index);
                      st1 = blit st index (take first d);
                      st2 = (if first \<noteq> count then blit st1 0 (take (count - first) (drop first d))
                             else st1)
                  in (updateHighWater (used + of_nat count)
                       (r\<lparr>rg_storage := Some st2, rg_writePosition := written + of_nat count\<rparr>),
                      count))
      | _ \<Rightarrow> (r, 0))"

text \<open>
  \<open>peekAt\<close> returns the bytes it copies to the output; \<open>output\<close> says whether the output
  pointer is not null.
\<close>

definition ring_peekAt :: "nat \<Rightarrow> bool \<Rightarrow> nat \<Rightarrow> ring \<Rightarrow> bytes" where
  "ring_peekAt off output capacity r =
     (case rg_storage r of
        None \<Rightarrow> []
      | Some st \<Rightarrow>
          (if \<not> ring_ready r \<or> \<not> output \<or> capacity = 0 then []
           else
             let used = rg_writePosition r - rg_readPosition r;
                 safeUsed = unat (if used \<le> rg_capacity r then used else rg_capacity r)
             in if off \<ge> safeUsed then []
                else
                  let count = min capacity (safeUsed - off);
                      index = unat ((rg_readPosition r + of_nat off) mod rg_capacity r);
                      first = min count (unat (rg_capacity r) - index)
                  in take first (drop index st) @
                     (if first \<noteq> count then take (count - first) st else [])))"

definition ring_peek :: "bool \<Rightarrow> nat \<Rightarrow> ring \<Rightarrow> bytes" where
  "ring_peek output capacity r = ring_peekAt 0 output capacity r"

definition ring_discard :: "nat \<Rightarrow> ring \<Rightarrow> ring \<times> nat" where
  "ring_discard len r =
     (if \<not> ring_ready r \<or> len = 0 then (r, 0)
      else
        let used = rg_writePosition r - rg_readPosition r;
            count = min len (unat (if used \<le> rg_capacity r then used else rg_capacity r))
        in (r\<lparr>rg_readPosition := rg_readPosition r + of_nat count\<rparr>, count))"

definition ring_read :: "bool \<Rightarrow> nat \<Rightarrow> ring \<Rightarrow> ring \<times> bytes" where
  "ring_read output capacity r =
     (let out = ring_peek output capacity r; (r', n) = ring_discard (length out) r
      in (r', take n out))"

subsection \<open>The queue a ring stands for\<close>

definition ring_inv :: "ring \<Rightarrow> bool" where
  "ring_inv r \<longleftrightarrow> (\<exists>st k. rg_storage r = Some st \<and> length st = unat (rg_capacity r) \<and>
     1 \<le> k \<and> k < 31 \<and> unat (rg_capacity r) = 2 ^ k) \<and>
     unat (rg_writePosition r - rg_readPosition r) \<le> unat (rg_capacity r)"

definition ring_cap :: "ring \<Rightarrow> nat" where
  "ring_cap r = unat (rg_capacity r)"

definition ring_used :: "ring \<Rightarrow> nat" where
  "ring_used r = unat (rg_writePosition r - rg_readPosition r)"

definition ring_contents :: "ring \<Rightarrow> bytes" where
  "ring_contents r =
     (case rg_storage r of None \<Rightarrow> []
      | Some st \<Rightarrow> map (\<lambda>i. st ! ((unat (rg_readPosition r) + i) mod unat (rg_capacity r)))
                     [0..<ring_used r])"

lemma ring_invE:
  assumes "ring_inv r"
  obtains st k where "rg_storage r = Some st" "length st = ring_cap r" "1 \<le> k" "k < 31"
    "ring_cap r = 2 ^ k" "ring_used r \<le> ring_cap r" "ring_ready r" "0 < ring_cap r"
    "ring_cap r < 2 ^ 31" "ring_cap r dvd 2 ^ 32"
proof -
  from assms obtain st k where a: "rg_storage r = Some st" "length st = ring_cap r" "1 \<le> k" "k < 31"
    "ring_cap r = 2 ^ k" "ring_used r \<le> ring_cap r"
    by (auto simp: ring_inv_def ring_cap_def ring_used_def)
  have "(2 :: nat) ^ k < 2 ^ 31" using a(4) by (intro power_strict_increasing) auto
  moreover have "rg_capacity r \<noteq> 0" using a(5) by (auto simp: ring_cap_def)
  moreover have "(2 :: nat) ^ k dvd 2 ^ 32" using a(4) by (intro le_imp_power_dvd) auto
  ultimately show ?thesis using a by (intro that [of st k]) (auto simp: ring_ready_def)
qed

text \<open>Only for a power of two does the index survive the overflow of the counter.\<close>

lemma index_wrap:
  assumes "c dvd 2 ^ 32"
  shows "unat (p + of_nat i :: u32) mod c = (unat p + i) mod c"
proof -
  have "unat (p + of_nat i) = (unat p + i) mod 2 ^ 32"
    by (simp add: unat_word_ariths unat_of_nat mod_simps)
  with assms show ?thesis by (simp add: mod_mod_cancel)
qed


lemma index_wrap_add:
  assumes "c dvd 2 ^ 32"
  shows "(unat (p + of_nat i :: u32) + j) mod c = (unat p + i + j) mod c"
  using index_wrap [OF assms, of p i] by (metis mod_add_left_eq)

subsection \<open>Copies around the end of the storage\<close>

lemma circ_index:
  "s < c \<Longrightarrow> i < c \<Longrightarrow> (s + i) mod c = (if s + i < c then s + i else s + i - c)"
  for c :: nat
  by (auto simp: le_mod_geq)

lemma circ_read:
  assumes "length st = c" and "s < c" and "n \<le> c" and "f = min n (c - s)"
  shows "take f (drop s st) @ (if f \<noteq> n then take (n - f) st else []) =
         map (\<lambda>i. st ! ((s + i) mod c)) [0..<n]" (is "?l = ?r")
proof (rule nth_equalityI)
  show "length ?l = length ?r" using assms by auto
  fix i assume "i < length ?l"
  then have i: "i < n" using assms by (auto split: if_splits)
  show "?l ! i = ?r ! i"
  proof (cases "i < f")
    case True
    then have "i < c - s" using assms by simp
    then have "?l ! i = st ! (s + i)" using True assms i by (simp add: nth_append)
    then show ?thesis using \<open>i < c - s\<close> i assms by (simp add: circ_index)
  next
    case False
    then have f: "f = c - s" "c - s \<le> i" using i assms by (auto split: if_splits)
    then have "?l ! i = st ! (i - f)" using i assms by (simp add: nth_append)
    then show ?thesis using f i assms by (auto simp: circ_index add.commute)
  qed
qed

definition circ_write :: "bytes \<Rightarrow> nat \<Rightarrow> nat \<Rightarrow> nat \<Rightarrow> bytes \<Rightarrow> bytes" where
  "circ_write st c s n d =
     (let f = min n (c - s); st1 = blit st s (take f d)
      in if f \<noteq> n then blit st1 0 (take (n - f) (drop f d)) else st1)"

lemma length_circ_write:
  "length st = c \<Longrightarrow> s < c \<Longrightarrow> n \<le> c \<Longrightarrow> n \<le> length d \<Longrightarrow>
   length (circ_write st c s n d) = c"
  by (auto simp: circ_write_def Let_def)

lemma circ_write_nth:
  assumes "length st = c" and "s < c" and "n \<le> c" and "n \<le> length d" and "j < c"
  shows "circ_write st c s n d ! ((s + j) mod c) =
         (if j < n then d ! j else st ! ((s + j) mod c))"
proof -
  define k where "k = (s + j) mod c"
  let ?f = "min n (c - s)"
  have k: "k = (if s + j < c then s + j else s + j - c)"
    unfolding k_def using assms by (intro circ_index) auto
  then have kc: "k < c" using assms by auto
  have l1: "length (blit st s (take ?f d)) = c" using assms by simp
  have n1: "blit st s (take ?f d) ! k = (if s \<le> k \<and> k < s + ?f then d ! (k - s) else st ! k)"
    using assms kc by (subst nth_blit) (auto simp: min_def)
  have "circ_write st c s n d ! k = (if j < n then d ! j else st ! k)"
  proof (cases "?f = n")
    case True
    then show ?thesis using n1 k assms by (auto simp: circ_write_def Let_def split: if_splits)
  next
    case False
    then have f: "?f = c - s" by auto
    define st1 where "st1 = blit st s (take ?f d)"
    have "circ_write st c s n d = blit st1 0 (take (n - ?f) (drop ?f d))"
      unfolding circ_write_def Let_def st1_def using False by (rule if_P)
    then have "circ_write st c s n d ! k = (if k < n - ?f then d ! (?f + k) else st1 ! k)"
      using f assms l1 [folded st1_def] kc by (simp add: nth_blit)
    then have "circ_write st c s n d ! k =
        (if k < n - ?f then d ! (?f + k) else blit st s (take ?f d) ! k)"
      unfolding st1_def .
    moreover have "(if k < n - ?f then d ! (?f + k) else blit st s (take ?f d) ! k) =
        (if j < n then d ! j else st ! k)"
    proof (cases "s + j < c")
      case True
      with k f False assms have "k = s + j" "\<not> k < n - ?f" "j < n" "k < s + ?f" by auto
      then show ?thesis using n1 by simp
    next
      case False
      with k f assms have "k = s + j - c" "k < s" "?f + k = j" "(k < n - ?f) = (j < n)" by auto
      then show ?thesis using n1 by simp
    qed
    ultimately show ?thesis by simp
  qed
  then show ?thesis by (simp add: k_def)
qed

subsection \<open>Each operation acts on the queue\<close>

lemma length_ring_contents: "ring_inv r \<Longrightarrow> length (ring_contents r) = ring_used r"
  by (auto simp: ring_contents_def elim!: ring_invE)

lemma length_contents_le: "ring_inv r \<Longrightarrow> length (ring_contents r) \<le> ring_cap r"
  by (auto simp: length_ring_contents elim!: ring_invE)

lemma ring_available_contents: "ring_inv r \<Longrightarrow> ring_available r = length (ring_contents r)"
  by (auto simp: ring_available_def length_ring_contents ring_used_def ring_cap_def Let_def
      word_le_nat_alt elim!: ring_invE)

lemma ring_freeSpace_contents:
  "ring_inv r \<Longrightarrow> ring_freeSpace r = ring_cap r - length (ring_contents r)"
  by (auto simp: ring_freeSpace_def ring_available_contents ring_cap_def elim!: ring_invE)

lemma updateHighWater_frame [simp]:
  "ring_contents (updateHighWater v r) = ring_contents r"
  "ring_inv (updateHighWater v r) = ring_inv r"
  "rg_capacity (updateHighWater v r) = rg_capacity r"
  "rg_readPosition (updateHighWater v r) = rg_readPosition r"
  by (auto simp: updateHighWater_def ring_contents_def ring_inv_def ring_used_def
      split: option.splits)

lemma attach_inv:
  assumes "attach (Some st) n r = (r', True)" and "length st = n"
  shows "ring_inv r'" and "ring_contents r' = []" and "ring_cap r' = n"
proof -
  from assms have n: "2 \<le> n" "n \<le> 0x7FFFFFFF" "n AND (n - 1) = 0"
    and r: "r' = ring_reset (r\<lparr>rg_storage := Some st, rg_capacity := of_nat n\<rparr>)"
    by (auto simp: attach_def split: if_splits)
  from and_pred_power_of_two [OF _ n(3)] n(1) obtain k where k: "n = 2 ^ k" by auto
  with n(1) have "1 \<le> k" by (cases k) auto
  moreover from k n(2) have "(2 :: nat) ^ k < 2 ^ 31" by simp
  then have "k < 31" by (rule power_less_imp_less_exp [rotated]) simp
  moreover have "unat (of_nat n :: u32) = n" using n(2) by simp
  ultimately show "ring_inv r'" "ring_contents r' = []" "ring_cap r' = n"
    using r k assms(2)
    by (auto simp: ring_inv_def ring_reset_def ring_contents_def ring_used_def ring_cap_def)
qed

lemma ring_peekAt_contents:
  assumes "ring_inv r"
  shows "ring_peekAt off True n r = take n (drop off (ring_contents r))"
proof -
  from assms obtain st where st: "rg_storage r = Some st" "length st = ring_cap r"
    and cap: "ring_used r \<le> ring_cap r" "ring_ready r" "0 < ring_cap r" "ring_cap r dvd 2 ^ 32"
    by (elim ring_invE) blast
  let ?c = "ring_cap r" and ?u = "ring_used r"
  let ?i = "(unat (rg_readPosition r) + off) mod ?c" and ?n = "min n (?u - off)"
  have safe: "unat (if rg_writePosition r - rg_readPosition r \<le> rg_capacity r
      then rg_writePosition r - rg_readPosition r else rg_capacity r) = ?u"
    using cap(1) by (simp add: ring_used_def ring_cap_def word_le_nat_alt)
  have idx: "unat ((rg_readPosition r + of_nat off) mod rg_capacity r) = ?i"
    using cap(4) by (simp add: unat_mod_distrib ring_cap_def index_wrap)
  show ?thesis
  proof (cases "n = 0 \<or> ?u \<le> off")
    case True
    then show ?thesis
      using st cap safe assms
      by (auto simp: ring_peekAt_def Let_def length_ring_contents)
  next
    case False
    have "ring_peekAt off True n r = map (\<lambda>j. st ! ((?i + j) mod ?c)) [0..<?n]"
      using False st cap safe idx circ_read [of st ?c ?i ?n "min ?n (?c - ?i)"]
      by (simp add: ring_peekAt_def Let_def ring_cap_def [symmetric])
    also have "\<dots> = take n (drop off (ring_contents r))"
      using st False
      by (intro nth_equalityI)
         (auto simp: ring_contents_def ring_cap_def [symmetric] mod_simps ac_simps)
    finally show ?thesis .
  qed
qed


lemma ring_write_spec:
  assumes "ring_inv r" and "len \<le> length d"
  defines "n \<equiv> min len (ring_cap r - length (ring_contents r))"
  shows "snd (ring_write (Some d) len r) = n"
    and "ring_contents (fst (ring_write (Some d) len r)) = ring_contents r @ take n d"
    and "ring_inv (fst (ring_write (Some d) len r))"
    and "ring_cap (fst (ring_write (Some d) len r)) = ring_cap r"
    and "rg_readPosition (fst (ring_write (Some d) len r)) = rg_readPosition r"
proof -
  from assms(1) obtain st k where st: "rg_storage r = Some st" "length st = ring_cap r"
    and k: "1 \<le> k" "k < 31" "ring_cap r = 2 ^ k"
    and cap: "ring_used r \<le> ring_cap r" "ring_ready r" "0 < ring_cap r" "ring_cap r dvd 2 ^ 32"
      "ring_cap r < 2 ^ 31"
    by (elim ring_invE) blast
  let ?c = "ring_cap r" and ?u = "ring_used r" and ?w = "rg_writePosition r" and ?r = "rg_readPosition r"
  have n: "n = min len (?c - ?u)" by (simp add: n_def length_ring_contents assms(1))
  have full: "(rg_capacity r \<le> ?w - ?r) = (?c \<le> ?u)"
    by (simp add: word_le_nat_alt ring_cap_def ring_used_def)
  have room: "unat (rg_capacity r - (?w - ?r)) = ?c - ?u"
    using cap(1) by (simp add: ring_cap_def ring_used_def unat_sub word_le_nat_alt)
  have w: "(unat ?r + ?u) mod ?c = unat ?w mod ?c"
  proof -
    have "?r + of_nat ?u = ?w" by (simp add: ring_used_def)
    with index_wrap [OF cap(4), of ?r ?u] show ?thesis by simp
  qed
  let ?s = "unat (?w mod rg_capacity r)"
  have s: "?s = unat ?w mod ?c" by (simp add: unat_mod_distrib ring_cap_def)
  let ?r1 = "r\<lparr>rg_storage := Some (circ_write st ?c ?s n d), rg_writePosition := ?w + of_nat n\<rparr>"
  have eq: "ring_write (Some d) len r =
      (if n = 0 then (r, 0) else (updateHighWater (?w - ?r + of_nat n) ?r1, n))"
    using st cap full room n s
    by (auto simp: ring_write_def Let_def circ_write_def ring_cap_def [symmetric])
  show "snd (ring_write (Some d) len r) = n" by (simp add: eq)
  have u1: "ring_used ?r1 = ?u + n"
  proof -
    have e: "?w + of_nat n - ?r = (?w - ?r) + of_nat n" by simp
    have "ring_used ?r1 = unat (?w + of_nat n - ?r)" by (simp add: ring_used_def)
    also have "\<dots> = unat ((?w - ?r) + of_nat n)" by (simp only: e)
    also have "\<dots> = ?u + n"
      unfolding ring_used_def using n cap by (intro unat_add_of_nat) (auto simp: ring_used_def)
    finally show ?thesis .
  qed
  have sc: "?s < ?c" and nc: "n \<le> ?c" "n \<le> length d" "n \<le> ?c - ?u"
    using s cap n assms(2) by auto
  have old: "circ_write st ?c ?s n d ! ((unat ?r + i) mod ?c) = st ! ((unat ?r + i) mod ?c)"
    if "i < ?u" for i
  proof -
    define j where "j = ?c - ?u + i"
    have j: "j < ?c" "\<not> j < n" using that cap(1) nc(3) by (auto simp: j_def)
    have "unat ?r + i + ?c = unat ?r + ?u + j" using that cap(1) by (simp add: j_def)
    then have "(unat ?r + i) mod ?c = (unat ?r + ?u + j) mod ?c" by (metis mod_add_self2)
    also have "\<dots> = (?s + j) mod ?c" using w s by (metis mod_add_left_eq)
    finally show ?thesis using circ_write_nth [OF st(2) sc nc(1,2) j(1)] j(2) by simp
  qed
  have new: "circ_write st ?c ?s n d ! ((unat ?r + (?u + t)) mod ?c) = d ! t" if "t < n" for t
  proof -
    have "(unat ?r + (?u + t)) mod ?c = (?s + t) mod ?c" using w s by (metis mod_add_left_eq add.assoc)
    then show ?thesis using circ_write_nth [OF st(2) sc nc(1,2), of t] that nc(1) by simp
  qed
  have new': "circ_write st ?c ?s n d ! ((unat ?r + i) mod ?c) = d ! (i - ?u)"
    if "?u \<le> i" "i < ?u + n" for i
    using new [of "i - ?u"] that by simp
  have c1: "ring_contents ?r1 = ring_contents r @ take n d"
    using st nc(2) old new' u1
    by (intro nth_equalityI)
       (auto simp: ring_contents_def ring_cap_def [symmetric] nth_append)
  have i1: "ring_inv ?r1"
    using st k u1 nc cap length_circ_write [OF st(2) sc nc(1,2)]
    by (auto simp: ring_inv_def ring_cap_def ring_used_def)
  show "ring_contents (fst (ring_write (Some d) len r)) = ring_contents r @ take n d"
    and "ring_inv (fst (ring_write (Some d) len r))"
    and "ring_cap (fst (ring_write (Some d) len r)) = ?c"
    and "rg_readPosition (fst (ring_write (Some d) len r)) = ?r"
    using assms(1) c1 i1 by (auto simp: eq ring_cap_def)
qed


lemma ring_discard_spec:
  assumes "ring_inv r"
  shows "snd (ring_discard len r) = min len (length (ring_contents r))"
    and "ring_contents (fst (ring_discard len r)) = drop len (ring_contents r)"
    and "ring_inv (fst (ring_discard len r))"
    and "ring_cap (fst (ring_discard len r)) = ring_cap r"
proof -
  from assms obtain st k where st: "rg_storage r = Some st" "length st = ring_cap r"
    and k: "1 \<le> k" "k < 31" "ring_cap r = 2 ^ k"
    and cap: "ring_used r \<le> ring_cap r" "ring_ready r" "0 < ring_cap r" "ring_cap r dvd 2 ^ 32"
    by (elim ring_invE) blast
  let ?w = "rg_writePosition r" and ?r = "rg_readPosition r" and ?u = "ring_used r"
  define n where "n = min len ?u"
  let ?r1 = "r\<lparr>rg_readPosition := ?r + of_nat n\<rparr>"
  have safe: "unat (if ?w - ?r \<le> rg_capacity r then ?w - ?r else rg_capacity r) = ?u"
    using cap(1) by (simp add: ring_used_def ring_cap_def word_le_nat_alt)
  have eq: "ring_discard len r = (if len = 0 then (r, 0) else (?r1, n))"
    unfolding ring_discard_def Let_def safe using cap by (simp add: n_def)
  have n0: "len = 0 \<Longrightarrow> n = 0" by (simp add: n_def)
  have u1: "ring_used ?r1 = ?u - n"
  proof -
    have e: "?w - (?r + of_nat n) = (?w - ?r) - of_nat n" by simp
    have "ring_used ?r1 = unat (?w - (?r + of_nat n))" by (simp add: ring_used_def)
    also have "\<dots> = unat ((?w - ?r) - of_nat n)" by (simp only: e)
    also have "\<dots> = ?u - n"
      unfolding ring_used_def by (intro unat_sub_of_nat) (simp add: n_def ring_used_def)
    finally show ?thesis .
  qed
  have "ring_contents ?r1 = drop n (ring_contents r)"
  proof (rule nth_equalityI)
    show "length (ring_contents ?r1) = length (drop n (ring_contents r))"
      using st u1 by (simp add: ring_contents_def)
    fix i assume "i < length (ring_contents ?r1)"
    then have i: "n + i < ?u" "i < ?u - n" using st u1 by (simp_all add: ring_contents_def)
    have "(unat (?r + of_nat n) + i) mod ring_cap r = (unat ?r + (n + i)) mod ring_cap r"
      using index_wrap_add [OF cap(4), of ?r n i] by (simp add: add.assoc)
    then show "ring_contents ?r1 ! i = drop n (ring_contents r) ! i"
      using st u1 i by (simp add: ring_contents_def ring_cap_def [symmetric])
  qed
  moreover have "drop n (ring_contents r) = drop len (ring_contents r)"
    using length_ring_contents [OF assms] by (auto simp: n_def min_def)
  moreover have "ring_inv ?r1"
    using st k u1 cap by (auto simp: ring_inv_def ring_cap_def ring_used_def)
  ultimately show "snd (ring_discard len r) = min len (length (ring_contents r))"
    and "ring_contents (fst (ring_discard len r)) = drop len (ring_contents r)"
    and "ring_inv (fst (ring_discard len r))"
    and "ring_cap (fst (ring_discard len r)) = ring_cap r"
    using assms n0 length_ring_contents [OF assms] by (auto simp: eq n_def ring_cap_def)
qed

lemma ring_read_spec:
  assumes "ring_inv r"
  shows "snd (ring_read True n r) = take n (ring_contents r)"
    and "ring_contents (fst (ring_read True n r)) = drop n (ring_contents r)"
    and "ring_inv (fst (ring_read True n r))"
    and "ring_cap (fst (ring_read True n r)) = ring_cap r"
proof -
  let ?m = "length (take n (ring_contents r))"
  have eq: "ring_read True n r =
      (fst (ring_discard ?m r), take (snd (ring_discard ?m r)) (take n (ring_contents r)))"
    by (simp add: ring_read_def ring_peek_def ring_peekAt_contents [OF assms] split_beta Let_def)
  have "drop ?m (ring_contents r) = drop n (ring_contents r)" by (simp add: min_def)
  with ring_discard_spec [OF assms, of ?m]
  show "snd (ring_read True n r) = take n (ring_contents r)"
    and "ring_contents (fst (ring_read True n r)) = drop n (ring_contents r)"
    and "ring_inv (fst (ring_read True n r))"
    and "ring_cap (fst (ring_read True n r)) = ring_cap r"
    by (auto simp: eq min_def)
qed


subsection \<open>The queue contract\<close>

text \<open>
  What the VFS bridge needs of a ring: a bounded queue of bytes that is appended to, read
  at an offset without moving, and shortened from the front. The window lemmas are proved
  once from the contract: fragments peeked one after another and then discarded together
  are exactly the front of the queue.
\<close>

locale byte_fifo =
  fixes inv :: "'q \<Rightarrow> bool"
    and contents :: "'q \<Rightarrow> bytes"
    and cap :: "'q \<Rightarrow> nat"
    and enq :: "bytes \<Rightarrow> 'q \<Rightarrow> 'q \<times> nat"
    and peek_at :: "nat \<Rightarrow> nat \<Rightarrow> 'q \<Rightarrow> bytes"
    and drop_front :: "nat \<Rightarrow> 'q \<Rightarrow> 'q \<times> nat"
  assumes enq_count: "inv q \<Longrightarrow> snd (enq d q) = min (length d) (cap q - length (contents q))"
    and enq_contents: "inv q \<Longrightarrow>
      contents (fst (enq d q)) = contents q @ take (snd (enq d q)) d"
    and enq_inv: "inv q \<Longrightarrow> inv (fst (enq d q))"
    and enq_cap: "inv q \<Longrightarrow> cap (fst (enq d q)) = cap q"
    and peek_contents: "inv q \<Longrightarrow> peek_at off n q = take n (drop off (contents q))"
    and drop_count: "inv q \<Longrightarrow> snd (drop_front n q) = min n (length (contents q))"
    and drop_contents: "inv q \<Longrightarrow> contents (fst (drop_front n q)) = drop n (contents q)"
    and drop_inv: "inv q \<Longrightarrow> inv (fst (drop_front n q))"
    and drop_cap: "inv q \<Longrightarrow> cap (fst (drop_front n q)) = cap q"
    and bounded: "inv q \<Longrightarrow> length (contents q) \<le> cap q"
begin

fun peek_fragments :: "nat \<Rightarrow> nat list \<Rightarrow> 'q \<Rightarrow> bytes list" where
  "peek_fragments off [] q = []"
| "peek_fragments off (n # ns) q = peek_at off n q # peek_fragments (off + n) ns q"

lemma peek_fragments_concat:
  "inv q \<Longrightarrow> concat (peek_fragments off ns q) = take (sum_list ns) (drop off (contents q))"
  by (induction ns arbitrary: off) (auto simp: peek_contents take_add add.commute)

lemma window_taken_once:
  assumes "inv q" and "sum_list ns \<le> length (contents q)"
  shows "concat (peek_fragments 0 ns q) @ contents (fst (drop_front (sum_list ns) q)) = contents q"
  using assms by (simp add: peek_fragments_concat drop_contents)

lemma enq_all:
  "inv q \<Longrightarrow> length (contents q) + length d \<le> cap q \<Longrightarrow>
   snd (enq d q) = length d \<and> contents (fst (enq d q)) = contents q @ d"
  by (simp add: enq_contents enq_count)

end

interpretation spsc: byte_fifo ring_inv ring_contents ring_cap
  "\<lambda>d. ring_write (Some d) (length d)" "\<lambda>off n. ring_peekAt off True n" ring_discard
  by unfold_locales
     (simp_all add: ring_write_spec ring_discard_spec ring_peekAt_contents length_contents_le)

subsection \<open>Properties\<close>

text \<open>
  C21: A freshly attached ring is empty, and then write, peekAt, discard and read act on it
  as on a bounded FIFO queue: write appends as much as fits, peekAt copies a slice without
  moving, discard and read drop from the front. This holds at every position of the 32-bit
  counters, so also when a counter overflows.
\<close>

theorem ring_is_fifo:
  assumes "ring_inv r"
  shows "ring_contents (fst (ring_write (Some d) (length d) r)) =
           ring_contents r @ take (ring_cap r - length (ring_contents r)) d \<and>
         ring_peekAt off True n r = take n (drop off (ring_contents r)) \<and>
         ring_contents (fst (ring_discard n r)) = drop n (ring_contents r) \<and>
         snd (ring_read True n r) = take n (ring_contents r) \<and>
         ring_contents (fst (ring_read True n r)) = drop n (ring_contents r) \<and>
         ring_available r = length (ring_contents r) \<and>
         ring_inv (fst (ring_write (Some d) (length d) r)) \<and>
         ring_inv (fst (ring_discard n r)) \<and> ring_inv (fst (ring_read True n r))"
  using assms
  by (simp add: ring_write_spec ring_peekAt_contents ring_discard_spec ring_read_spec
      ring_available_contents min_def)

text \<open>The witness stands one byte before the overflow of the write counter.\<close>

definition wrap_ring :: ring where
  "wrap_ring = \<lparr>rg_storage = Some [10, 11, 12, 13], rg_capacity = 4, rg_writePosition = 0xFFFFFFFF,
     rg_readPosition = 0xFFFFFFFD, rg_highWater = 2\<rparr>"

lemma wrap_ring_inv: "ring_inv wrap_ring"
  unfolding ring_inv_def wrap_ring_def by (auto intro!: exI [of _ "2 :: nat"])

theorem ring_is_fifo_witness:
  "ring_contents (fst (ring_write (Some [1, 2, 3]) 3 wrap_ring)) = [11, 12, 1, 2]"
proof -
  have c: "ring_contents wrap_ring = [11, 12]" "ring_cap wrap_ring = 4"
    by (simp_all add: wrap_ring_def ring_contents_def ring_used_def ring_cap_def upt_rec)
  from ring_is_fifo [OF wrap_ring_inv, of "[1, 2, 3]" 0 0] show ?thesis
    by (simp add: c numeral_3_eq_3 numeral_2_eq_2)
qed

text \<open>
  attach accepts exactly the non-null storages whose size is a power of two from 2 to
  2^30, and then leaves an empty ring of that capacity; on refusal nothing changes.
\<close>

theorem attach_accepts_powers_of_two:
  "attach storage n r =
     (if storage \<noteq> None \<and> (\<exists>k. n = 2 ^ k \<and> 1 \<le> k \<and> k \<le> 30)
      then (ring_reset (r\<lparr>rg_storage := storage, rg_capacity := of_nat n\<rparr>), True)
      else (r, False))"
proof -
  have "(2 \<le> n \<and> n \<le> 0x7FFFFFFF \<and> n AND (n - 1) = 0) = (\<exists>k. n = 2 ^ k \<and> 1 \<le> k \<and> k \<le> 30)"
  proof
    assume h: "2 \<le> n \<and> n \<le> 0x7FFFFFFF \<and> n AND (n - 1) = 0"
    with and_pred_power_of_two [of n] obtain k where k: "n = 2 ^ k" by auto
    with h have "1 \<le> k" by (cases k) auto
    moreover from k h have "(2 :: nat) ^ k < 2 ^ 31" by simp
    then have "k < 31" by (rule power_less_imp_less_exp [rotated]) simp
    ultimately show "\<exists>k. n = 2 ^ k \<and> 1 \<le> k \<and> k \<le> 30" using k by auto
  next
    assume "\<exists>k. n = 2 ^ k \<and> 1 \<le> k \<and> k \<le> 30"
    then obtain k where k: "n = 2 ^ k" "1 \<le> k" "k \<le> 30" by blast
    have "n AND (n - 1) = take_bit k n" by (simp add: k take_bit_eq_mask mask_eq_exp_minus_1)
    then have "n AND (n - 1) = 0" by (simp add: k)
    moreover have "(2 :: nat) ^ k \<le> 2 ^ 30" using k by (intro power_increasing) auto
    moreover have "(2 :: nat) ^ 1 \<le> 2 ^ k" using k by (intro power_increasing) auto
    ultimately show "2 \<le> n \<and> n \<le> 0x7FFFFFFF \<and> n AND (n - 1) = 0" using k(1) by simp
  qed
  then show ?thesis by (auto simp: attach_def)
qed

end
