(* ===== verification/SpscConcurrent.thy ===== *)
theory SpscConcurrent
  imports SpscRing
begin

text \<open>
  The ring of \<open>src/spsc_ring.cpp\<close> with its two cores running at the same time. One core
  is inside \<open>write\<close>, the other inside \<open>read\<close> (that is \<open>peek\<close> and then \<open>discard\<close>); each
  load of the other side's counter, each copied byte and each publication of an own
  counter is a step of its own, and the steps interleave in any order. Because a counter
  is published with release order after the copy and loaded with acquire order before it,
  the steps of the model see memory in program order. Two ghost fields record every byte
  published by the writer and every byte released by the reader.
\<close>

subsection \<open>Program counters and steps\<close>

datatype producer = PIdle | PCopy bytes nat
datatype consumer = CIdle | CCopy nat bytes | CDiscard bytes nat

record spsc =
  sp_ring :: ring
  sp_prod :: producer
  sp_cons :: consumer
  sp_accepted :: bytes
  sp_delivered :: bytes

definition spsc_used :: "spsc \<Rightarrow> u32" where
  "spsc_used s = rg_writePosition (sp_ring s) - rg_readPosition (sp_ring s)"

definition spsc_safeUsed :: "spsc \<Rightarrow> nat" where
  "spsc_safeUsed s = unat (if spsc_used s \<le> rg_capacity (sp_ring s) then spsc_used s
                           else rg_capacity (sp_ring s))"

definition spsc_slot :: "u32 \<Rightarrow> nat \<Rightarrow> spsc \<Rightarrow> nat" where
  "spsc_slot pos j s =
     (unat (pos mod rg_capacity (sp_ring s)) + j) mod unat (rg_capacity (sp_ring s))"

definition spsc_store :: "nat \<Rightarrow> u8 \<Rightarrow> spsc \<Rightarrow> spsc" where
  "spsc_store i b s =
     s\<lparr>sp_ring := (sp_ring s)\<lparr>rg_storage := map_option (\<lambda>st. st[i := b]) (rg_storage (sp_ring s))\<rparr>\<rparr>"

definition spsc_fetch :: "nat \<Rightarrow> spsc \<Rightarrow> u8" where
  "spsc_fetch i s = the (rg_storage (sp_ring s)) ! i"

inductive spsc_step :: "spsc \<Rightarrow> spsc \<Rightarrow> bool" where
  write_load: "sp_prod s = PIdle \<Longrightarrow> d \<noteq> [] \<Longrightarrow> spsc_used s < rg_capacity (sp_ring s) \<Longrightarrow>
     n = min (length d) (unat (rg_capacity (sp_ring s) - spsc_used s)) \<Longrightarrow>
     spsc_step s (s\<lparr>sp_prod := PCopy (take n d) 0\<rparr>)"
| write_copy: "sp_prod s = PCopy d k \<Longrightarrow> k < length d \<Longrightarrow>
     i = spsc_slot (rg_writePosition (sp_ring s)) k s \<Longrightarrow>
     spsc_step s ((spsc_store i (d ! k) s)\<lparr>sp_prod := PCopy d (Suc k)\<rparr>)"
| write_publish: "sp_prod s = PCopy d (length d) \<Longrightarrow>
     spsc_step s (s\<lparr>sp_ring := (sp_ring s)\<lparr>rg_writePosition :=
         rg_writePosition (sp_ring s) + of_nat (length d)\<rparr>,
       sp_prod := PIdle, sp_accepted := sp_accepted s @ d\<rparr>)"
| read_load: "sp_cons s = CIdle \<Longrightarrow> 0 < capacity \<Longrightarrow> 0 < spsc_safeUsed s \<Longrightarrow>
     spsc_step s (s\<lparr>sp_cons := CCopy (min capacity (spsc_safeUsed s)) []\<rparr>)"
| read_copy: "sp_cons s = CCopy n out \<Longrightarrow> length out < n \<Longrightarrow>
     i = spsc_slot (rg_readPosition (sp_ring s)) (length out) s \<Longrightarrow>
     spsc_step s (s\<lparr>sp_cons := CCopy n (out @ [spsc_fetch i s])\<rparr>)"
| discard_load: "sp_cons s = CCopy n out \<Longrightarrow> length out = n \<Longrightarrow>
     spsc_step s (s\<lparr>sp_cons := CDiscard out (spsc_safeUsed s)\<rparr>)"
| discard_publish: "sp_cons s = CDiscard out used \<Longrightarrow> n = min (length out) used \<Longrightarrow>
     spsc_step s (s\<lparr>sp_ring := (sp_ring s)\<lparr>rg_readPosition :=
         rg_readPosition (sp_ring s) + of_nat n\<rparr>,
       sp_cons := CIdle, sp_delivered := sp_delivered s @ take n out\<rparr>)"

inductive_cases spsc_stepE: "spsc_step s t"

definition spsc_init :: "ring \<Rightarrow> spsc" where
  "spsc_init r = \<lparr>sp_ring = r, sp_prod = PIdle, sp_cons = CIdle, sp_accepted = [], sp_delivered = []\<rparr>"

inductive spsc_reachable :: "ring \<Rightarrow> spsc \<Rightarrow> bool" for r where
  start: "spsc_reachable r (spsc_init r)"
| step: "spsc_reachable r s \<Longrightarrow> spsc_step s t \<Longrightarrow> spsc_reachable r t"

subsection \<open>The invariant\<close>

definition ring_shape :: "ring \<Rightarrow> bytes \<Rightarrow> nat \<Rightarrow> bool" where
  "ring_shape r st c \<longleftrightarrow> rg_storage r = Some st \<and> length st = c \<and> unat (rg_capacity r) = c \<and>
     0 < c \<and> c < 2 ^ 31 \<and> c dvd 2 ^ 32"

text \<open>
  \<open>A\<close> and \<open>D\<close> are the numbers of bytes accepted and delivered since the start, without
  wrap-around; position \<open>i\<close> of the stream lives in slot \<open>i mod c\<close>.
\<close>

fun prod_ok :: "bytes \<Rightarrow> nat \<Rightarrow> nat \<Rightarrow> nat \<Rightarrow> producer \<Rightarrow> bool" where
  "prod_ok st c A D PIdle = True"
| "prod_ok st c A D (PCopy d k) =
     (k \<le> length d \<and> A + length d \<le> D + c \<and> (\<forall>j<k. st ! ((A + j) mod c) = d ! j))"

fun cons_ok :: "bytes \<Rightarrow> nat \<Rightarrow> consumer \<Rightarrow> bool" where
  "cons_ok acc D CIdle = True"
| "cons_ok acc D (CCopy n out) =
     (D + n \<le> length acc \<and> length out \<le> n \<and> prefix out (drop D acc))"
| "cons_ok acc D (CDiscard out used) =
     (D + used \<le> length acc \<and> length out \<le> used \<and> prefix out (drop D acc))"

definition stream_ok :: "bytes \<Rightarrow> nat \<Rightarrow> bytes \<Rightarrow> nat \<Rightarrow> bool" where
  "stream_ok st c acc D \<longleftrightarrow> (\<forall>i. D \<le> i \<and> i < length acc \<longrightarrow> st ! (i mod c) = acc ! i)"

definition spsc_inv :: "spsc \<Rightarrow> bool" where
  "spsc_inv s \<longleftrightarrow> (\<exists>st c. ring_shape (sp_ring s) st c \<and>
     (let acc = sp_accepted s; A = length acc; D = length (sp_delivered s) in
      rg_writePosition (sp_ring s) = of_nat A \<and> rg_readPosition (sp_ring s) = of_nat D \<and>
      D \<le> A \<and> A \<le> D + c \<and> prefix (sp_delivered s) acc \<and> stream_ok st c acc D \<and>
      prod_ok st c A D (sp_prod s) \<and> cons_ok acc D (sp_cons s)))"

lemma mod_distinct: "i < j \<Longrightarrow> j < i + c \<Longrightarrow> i mod c \<noteq> j mod (c :: nat)"
  by (metis add_diff_cancel_left' le_add_diff_inverse less_imp_le mod_eq_dvd_iff_nat
      nat_dvd_not_less zero_less_diff less_diff_conv2 add.commute)

lemma slot_of_nat:
  assumes "ring_shape (sp_ring s) st c"
  shows "spsc_slot (of_nat p) j s = (p + j) mod c"
proof -
  from assms have c: "unat (rg_capacity (sp_ring s)) = c" "c dvd 2 ^ 32" by (simp_all add: ring_shape_def)
  have "unat (of_nat p :: u32) mod c = p mod c"
    using index_wrap [OF c(2), of 0 p] by simp
  then show ?thesis
    by (simp add: spsc_slot_def c unat_mod_distrib mod_simps)
qed

lemma used_of_nat:
  assumes "D \<le> A" and "A \<le> D + c" and "c < 2 ^ 31"
  shows "unat (of_nat A - of_nat D :: u32) = A - D"
proof -
  have "(of_nat A - of_nat D :: u32) = of_nat (A - D)" using assms(1) by (simp add: of_nat_diff)
  moreover have "A - D < 2 ^ 32" using assms by simp
  ultimately show ?thesis by simp
qed


lemma spsc_invE:
  assumes "spsc_inv s"
  obtains st c A D acc where "ring_shape (sp_ring s) st c" "acc = sp_accepted s"
    "A = length acc" "D = length (sp_delivered s)"
    "rg_writePosition (sp_ring s) = of_nat A" "rg_readPosition (sp_ring s) = of_nat D"
    "D \<le> A" "A \<le> D + c" "prefix (sp_delivered s) acc" "stream_ok st c acc D"
    "prod_ok st c A D (sp_prod s)" "cons_ok acc D (sp_cons s)"
    "unat (spsc_used s) = A - D" "spsc_safeUsed s = A - D"
proof -
  define acc where "acc = sp_accepted s"
  define A where "A = length acc"
  define D where "D = length (sp_delivered s)"
  from assms obtain st c where sh: "ring_shape (sp_ring s) st c"
    and w: "rg_writePosition (sp_ring s) = of_nat A" "rg_readPosition (sp_ring s) = of_nat D"
    and le: "D \<le> A" "A \<le> D + c"
    and r: "prefix (sp_delivered s) acc" "stream_ok st c acc D"
      "prod_ok st c A D (sp_prod s)" "cons_ok acc D (sp_cons s)"
    unfolding spsc_inv_def Let_def A_def D_def acc_def by blast
  have u: "unat (spsc_used s) = A - D"
    using sh le unfolding spsc_used_def w by (intro used_of_nat) (auto simp: ring_shape_def)
  with sh le have "spsc_safeUsed s = A - D"
    by (auto simp: spsc_safeUsed_def word_le_nat_alt ring_shape_def)
  with sh w le r u show ?thesis by (intro that [of st c acc A D]) (simp_all add: A_def D_def acc_def)
qed

lemma spsc_invI:
  assumes "ring_shape (sp_ring s) st c"
    and "rg_writePosition (sp_ring s) = of_nat (length (sp_accepted s))"
    and "rg_readPosition (sp_ring s) = of_nat (length (sp_delivered s))"
    and "length (sp_delivered s) \<le> length (sp_accepted s)"
    and "length (sp_accepted s) \<le> length (sp_delivered s) + c"
    and "prefix (sp_delivered s) (sp_accepted s)"
    and "stream_ok st c (sp_accepted s) (length (sp_delivered s))"
    and "prod_ok st c (length (sp_accepted s)) (length (sp_delivered s)) (sp_prod s)"
    and "cons_ok (sp_accepted s) (length (sp_delivered s)) (sp_cons s)"
  shows "spsc_inv s"
  using assms unfolding spsc_inv_def Let_def by blast

text \<open>The writer's next slot is never one the reader may still look at.\<close>

lemma write_slot_free:
  assumes "D \<le> i" "i < A" "k < n" "A + n \<le> D + c"
  shows "i mod c \<noteq> (A + k) mod (c :: nat)"
  using assms by (intro mod_distinct) auto

lemma inv_write_load:
  assumes "spsc_inv s" and "sp_prod s = PIdle"
    and "n = min (length d) (unat (rg_capacity (sp_ring s) - spsc_used s))"
  shows "spsc_inv (s\<lparr>sp_prod := PCopy (take n d) 0\<rparr>)"
  using assms(1)
proof (cases rule: spsc_invE)
  case (1 st c A D acc)
  have "unat (rg_capacity (sp_ring s) - spsc_used s) = c - (A - D)"
    using 1 by (subst unat_sub) (auto simp: ring_shape_def word_le_nat_alt)
  with assms 1 have "A + length (take n d) \<le> D + c" by auto
  with 1 show ?thesis by (intro spsc_invI [of _ st c]) auto
qed

lemma inv_write_copy:
  assumes "spsc_inv s" and "sp_prod s = PCopy d k" and "k < length d"
    and "i = spsc_slot (rg_writePosition (sp_ring s)) k s"
  shows "spsc_inv ((spsc_store i (d ! k) s)\<lparr>sp_prod := PCopy d (Suc k)\<rparr>)"
  using assms(1)
proof (cases rule: spsc_invE)
  case (1 st c A D acc)
  have fit: "A + length d \<le> D + c" and cp: "\<forall>j<k. st ! ((A + j) mod c) = d ! j"
    using 1(11) assms(2) by auto
  have i: "i = (A + k) mod c" using assms(4) 1(5) slot_of_nat [OF 1(1)] by simp
  have ic: "i < length st" using 1(1) by (simp add: i ring_shape_def)
  have free: "j mod c \<noteq> i" if "D \<le> j" "j < A" for j
    using write_slot_free [OF that assms(3) fit] by (simp add: i)
  have "stream_ok (st[i := d ! k]) c acc D"
    using 1(10) free by (fastforce simp: stream_ok_def 1(3))
  moreover have "prod_ok (st[i := d ! k]) c A D (PCopy d (Suc k))"
  proof -
    have "st[i := d ! k] ! ((A + j) mod c) = d ! j" if "j < Suc k" for j
    proof (cases "j = k")
      case True
      then show ?thesis using i ic by simp
    next
      case False
      with that have "j < k" by simp
      moreover have "(A + j) mod c \<noteq> (A + k) mod c"
        using \<open>j < k\<close> fit assms(3) 1(7) by (intro mod_distinct) auto
      ultimately show ?thesis using cp i by simp
    qed
    then show ?thesis using fit assms(3) by simp
  qed
  moreover have "ring_shape (sp_ring (spsc_store i (d ! k) s)) (st[i := d ! k]) c"
    using 1(1) by (simp add: ring_shape_def spsc_store_def)
  ultimately show ?thesis
    using 1 by (intro spsc_invI [of _ "st[i := d ! k]" c]) (auto simp: spsc_store_def ring_shape_def)
qed

lemma inv_write_publish:
  assumes "spsc_inv s" and "sp_prod s = PCopy d (length d)"
  shows "spsc_inv (s\<lparr>sp_ring := (sp_ring s)\<lparr>rg_writePosition :=
      rg_writePosition (sp_ring s) + of_nat (length d)\<rparr>,
    sp_prod := PIdle, sp_accepted := sp_accepted s @ d\<rparr>)"
  using assms(1)
proof (cases rule: spsc_invE)
  case (1 st c A D acc)
  have fit: "A + length d \<le> D + c" and cp: "\<forall>j<length d. st ! ((A + j) mod c) = d ! j"
    using 1(11) assms(2) by auto
  have "stream_ok st c (acc @ d) D"
    unfolding stream_ok_def
  proof (intro allI impI)
    fix i assume i: "D \<le> i \<and> i < length (acc @ d)"
    show "st ! (i mod c) = (acc @ d) ! i"
      using 1(3,10) i cp [rule_format, of "i - A"]
      by (cases "i < A") (auto simp: stream_ok_def nth_append)
  qed
  moreover have "cons_ok (acc @ d) D (sp_cons s)"
    using 1(12,3,7) by (cases "sp_cons s") auto
  ultimately show ?thesis
    using 1 fit by (intro spsc_invI [of _ st c]) (auto simp: ring_shape_def)
qed

lemma inv_read_copy:
  assumes "spsc_inv s" and "sp_cons s = CCopy n out" and "length out < n"
    and "i = spsc_slot (rg_readPosition (sp_ring s)) (length out) s"
  shows "spsc_inv (s\<lparr>sp_cons := CCopy n (out @ [spsc_fetch i s])\<rparr>)"
  using assms(1)
proof (cases rule: spsc_invE)
  case (1 st c A D acc)
  have n: "D + n \<le> length acc" "prefix out (drop D acc)"
    using 1(12) assms(2) by auto
  have "i = (D + length out) mod c" using assms(4) 1(6) slot_of_nat [OF 1(1)] by simp
  then have "spsc_fetch i s = acc ! (D + length out)"
    using 1(1,10) assms(3) n by (simp add: spsc_fetch_def ring_shape_def stream_ok_def)
  with append_one_prefix [OF n(2)] n(1) assms(3)
  have "prefix (out @ [spsc_fetch i s]) (drop D acc)" by simp
  with 1 n assms(3) show ?thesis by (intro spsc_invI [of _ st c]) auto
qed

lemma inv_discard_publish:
  assumes "spsc_inv s" and "sp_cons s = CDiscard out used" and "n = min (length out) used"
  shows "spsc_inv (s\<lparr>sp_ring := (sp_ring s)\<lparr>rg_readPosition :=
      rg_readPosition (sp_ring s) + of_nat n\<rparr>,
    sp_cons := CIdle, sp_delivered := sp_delivered s @ take n out\<rparr>)"
  using assms(1)
proof (cases rule: spsc_invE)
  case (1 st c A D acc)
  have o: "D + used \<le> A" "length out \<le> used" "prefix out (drop D acc)"
    using 1(3,12) assms(2) by auto
  then have n: "n = length out" "take n out = out" using assms(3) by auto
  from 1(9) 1(4) have "acc = sp_delivered s @ drop D acc"
    by (auto simp: prefix_def)
  with o(3) have del: "prefix (sp_delivered s @ out) acc"
    by (metis same_prefix_prefix)
  have "prod_ok st c A (D + n) (sp_prod s)" using 1(11) by (cases "sp_prod s") auto
  moreover have "stream_ok st c acc (D + n)" using 1(10) by (simp add: stream_ok_def)
  ultimately show ?thesis
    using 1 o n del by (intro spsc_invI [of _ st c]) (auto simp: ring_shape_def)
qed

lemma spsc_step_inv [inv_intros]: "spsc_step s t \<Longrightarrow> spsc_inv s \<Longrightarrow> spsc_inv t"
proof (induction rule: spsc_step.induct)
  case (read_load s capacity)
  from read_load(4) show ?case
    by (cases rule: spsc_invE) (rule spsc_invI, auto)
next
  case (discard_load s n out)
  from discard_load(3) show ?case
    by (cases rule: spsc_invE) (rule spsc_invI, use discard_load in auto)
qed (blast intro: inv_write_load inv_write_copy inv_write_publish inv_read_copy
       inv_discard_publish)+


lemma spsc_step_capacity: "spsc_step s t \<Longrightarrow> rg_capacity (sp_ring t) = rg_capacity (sp_ring s)"
  by (induction rule: spsc_step.induct) (simp_all add: spsc_store_def)

lemma spsc_reachable_inv:
  assumes "spsc_reachable r s" and "attach (Some st) n r0 = (r, True)" and "length st = n"
  shows "spsc_inv s \<and> rg_capacity (sp_ring s) = rg_capacity r"
  using assms
proof (induction rule: spsc_reachable.induct)
  case start
  note inv = attach_inv [OF start]
  from start have r: "rg_storage r = Some st" "rg_writePosition r = 0" "rg_readPosition r = 0"
    by (auto simp: attach_def ring_reset_def split: if_splits)
  from inv(1) r start(2) inv(3) have "ring_shape r st n"
    by (elim ring_invE) (simp add: ring_shape_def ring_cap_def)
  with r show ?case
    by (auto simp: spsc_init_def stream_ok_def intro!: spsc_invI)
next
  case (step s t)
  then show ?case using spsc_step_capacity [OF step(2)] by (auto intro: inv_intros)
qed

subsection \<open>Properties\<close>

definition copy_slots_disjoint :: "spsc \<Rightarrow> bool" where
  "copy_slots_disjoint s =
     (case (sp_prod s, sp_cons s) of
        (PCopy d k, CCopy n out) \<Rightarrow>
          list_all (\<lambda>j. list_all (\<lambda>i. spsc_slot (rg_writePosition (sp_ring s)) i s \<noteq>
                                     spsc_slot (rg_readPosition (sp_ring s)) j s) [0..<length d]) [0..<n]
      | _ \<Rightarrow> True)"

text \<open>
  C22: Two cores, any interleaving of their loads, byte copies and counter publications,
  from a freshly attached ring: the bytes delivered are always a prefix of the bytes
  accepted (nothing is lost, doubled, reordered or invented), at most the capacity is in
  flight, and the slots the writer is filling are disjoint from the slots the reader is
  copying, so there is no data race. The 32-bit counters may overflow any number of times.
\<close>

theorem concurrent_ring_is_stream:
  assumes "spsc_reachable r s" and "attach (Some st) n r0 = (r, True)" and "length st = n"
  shows "prefix (sp_delivered s) (sp_accepted s) \<and>
         length (sp_accepted s) \<le> length (sp_delivered s) + n \<and> copy_slots_disjoint s"
proof -
  from spsc_reachable_inv [OF assms] have inv: "spsc_inv s"
    and cap: "rg_capacity (sp_ring s) = rg_capacity r" by auto
  from inv show ?thesis
  proof (cases rule: spsc_invE)
    case (1 st' c A D acc)
    have c: "c = n" using 1(1) cap attach_inv(3) [OF assms(2,3)] by (simp add: ring_shape_def ring_cap_def)
    have "copy_slots_disjoint s"
    proof (cases "\<exists>d k m out. sp_prod s = PCopy d k \<and> sp_cons s = CCopy m out")
      case True
      then obtain d k m out where pc: "sp_prod s = PCopy d k" "sp_cons s = CCopy m out" by blast
      with 1(3,11,12) have f: "A + length d \<le> D + c" "D + m \<le> A" by auto
      have "(A + i) mod c \<noteq> (D + j) mod c" if "i < length d" "j < m" for i j
        using write_slot_free [of D "D + j" A i "length d" c] f that by auto
      with pc show ?thesis
        by (simp add: copy_slots_disjoint_def list_all_iff 1(5,6) slot_of_nat [OF 1(1)])
    next
      case False
      then show ?thesis
        by (auto simp: copy_slots_disjoint_def split: producer.splits consumer.splits)
    qed
    with 1 c show ?thesis by auto
  qed
qed

definition example_ring :: ring where
  "example_ring = fst (attach (Some [0, 0]) 2 SpscByteRing_init)"

theorem concurrent_ring_is_stream_witness:
  "prefix (sp_delivered ((spsc_init example_ring)\<lparr>sp_prod := PCopy [7] 0\<rparr>))
     (sp_accepted ((spsc_init example_ring)\<lparr>sp_prod := PCopy [7] 0\<rparr>)) \<and>
   copy_slots_disjoint ((spsc_init example_ring)\<lparr>sp_prod := PCopy [7] 0\<rparr>)"
proof -
  have a: "attach (Some [0, 0]) 2 SpscByteRing_init = (example_ring, True)"
    by (simp add: example_ring_def attach_def)
  have r: "rg_writePosition example_ring = 0" "rg_readPosition example_ring = 0"
    "rg_capacity example_ring = 2"
    by (simp_all add: example_ring_def attach_def ring_reset_def)
  have "spsc_step (spsc_init example_ring) ((spsc_init example_ring)\<lparr>sp_prod := PCopy [7] 0\<rparr>)"
    using spsc_step.write_load [of "spsc_init example_ring" "[7]" 1] r
    by (simp add: spsc_init_def spsc_used_def)
  then have "spsc_reachable example_ring ((spsc_init example_ring)\<lparr>sp_prod := PCopy [7] 0\<rparr>)"
    by (rule spsc_reachable.step [OF spsc_reachable.start])
  from concurrent_ring_is_stream [OF this a] show ?thesis by simp
qed

end
