(* ===== verification/FatTime.thy ===== *)
theory FatTime
  imports Prelude "HOL-Library.Signed_Division"
begin

text \<open>
  Calendar arithmetic of \<open>src/fat_time.cpp\<close> (\<open>include/zifi/fat_time.hpp\<close>): civil time and
  seconds since 1970, FAT date stamps, the FTP time values of RFC 3659 and Windows FILETIME.
  The C \<open>int\<close>, \<open>unsigned\<close> and \<open>int64_t\<close> values are integers: with the years the code
  accepts none of them leaves its range. C division truncates; it is written \<open>sdiv\<close> where
  the dividend can be negative. Strings are lists of characters, without the closing zero.
\<close>

subsection \<open>Civil dates\<close>

record fat_stamp =
  st_date :: u16
  st_time :: u16

definition stamp_known :: "fat_stamp \<Rightarrow> bool" where
  "stamp_known s \<longleftrightarrow> st_date s \<noteq> 0"

definition kSecondsPerDay :: int where "kSecondsPerDay = 86400"
definition kUnixEpochFileTime :: int where "kUnixEpochFileTime = 116444736000000000"
definition kFileTimePerSecond :: int where "kFileTimePerSecond = 10000000"

definition daysFromCivil :: "int \<Rightarrow> int \<Rightarrow> int \<Rightarrow> int" where
  "daysFromCivil year0 month day =
     (let year = year0 - (if month \<le> 2 then 1 else 0);
          era = (if year \<ge> 0 then year else year - 399) sdiv 400;
          yearOfEra = year - era * 400;
          shiftedMonth = (if month > 2 then month - 3 else month + 9);
          dayOfYear = (153 * shiftedMonth + 2) div 5 + day - 1;
          dayOfEra = yearOfEra * 365 + yearOfEra div 4 - yearOfEra div 100 + dayOfYear
      in era * 146097 + dayOfEra - 719468)"

definition civilFromDays :: "int \<Rightarrow> int \<times> int \<times> int" where
  "civilFromDays days0 =
     (let days = days0 + 719468;
          era = (if days \<ge> 0 then days else days - 146096) sdiv 146097;
          dayOfEra = days - era * 146097;
          yearOfEra = (dayOfEra - dayOfEra div 1460 + dayOfEra div 36524 - dayOfEra div 146096) div 365;
          dayOfYear = dayOfEra - (365 * yearOfEra + yearOfEra div 4 - yearOfEra div 100);
          shiftedMonth = (5 * dayOfYear + 2) div 153;
          day = dayOfYear - (153 * shiftedMonth + 2) div 5 + 1;
          month = (if shiftedMonth < 10 then shiftedMonth + 3 else shiftedMonth - 9);
          year = yearOfEra + era * 400 + (if month \<le> 2 then 1 else 0)
      in (year, month, day))"

definition leapYear :: "int \<Rightarrow> bool" where
  "leapYear year \<longleftrightarrow> (year mod 4 = 0 \<and> year mod 100 \<noteq> 0) \<or> year mod 400 = 0"

definition daysInMonth :: "int \<Rightarrow> int \<Rightarrow> int" where
  "daysInMonth year month =
     (if month = 2 \<and> leapYear year then 29
      else [31, 28, 31, 30, 31, 30, 31, 31, 30, 31, 30, 31] ! nat (month - 1))"

definition validCivil :: "int \<Rightarrow> int \<Rightarrow> int \<Rightarrow> int \<Rightarrow> int \<Rightarrow> int \<Rightarrow> bool" where
  "validCivil year month day hour minute second \<longleftrightarrow>
     year \<ge> 1 \<and> year \<le> 9999 \<and> month \<ge> 1 \<and> month \<le> 12 \<and> day \<ge> 1 \<and> day \<le> daysInMonth year month \<and>
     hour \<ge> 0 \<and> hour \<le> 23 \<and> minute \<ge> 0 \<and> minute \<le> 59 \<and> second \<ge> 0 \<and> second \<le> 59"

definition floorDiv :: "int \<Rightarrow> int \<Rightarrow> int" where
  "floorDiv v divisor =
     (let quotient = v sdiv divisor
      in if v smod divisor \<noteq> 0 \<and> (v < 0) \<noteq> (divisor < 0) then quotient - 1 else quotient)"

definition civilToUnix :: "int \<Rightarrow> int \<Rightarrow> int \<Rightarrow> int \<Rightarrow> int \<Rightarrow> int \<Rightarrow> int" where
  "civilToUnix year month day hour minute second =
     daysFromCivil year month day * kSecondsPerDay + hour * 3600 + minute * 60 + second"

definition unixToCivil :: "int \<Rightarrow> int \<times> int \<times> int \<times> int \<times> int \<times> int" where
  "unixToCivil unixSeconds =
     (let days = floorDiv unixSeconds kSecondsPerDay;
          rest = unixSeconds - days * kSecondsPerDay;
          (year, month, day) = civilFromDays days
      in (year, month, day, rest div 3600, rest mod 3600 div 60, rest mod 60))"

subsection \<open>Stamps, FTP values and FILETIME\<close>

definition fatStampToCivil :: "fat_stamp \<Rightarrow> (int \<times> int \<times> int \<times> int \<times> int \<times> int) option" where
  "fatStampToCivil stamp =
     (if \<not> stamp_known stamp then None
      else
        let date = st_date stamp; time = st_time stamp;
            year = 1980 + uint (drop_bit 9 date);
            month = uint (drop_bit 5 date AND 0x0F);
            day = uint (date AND 0x1F);
            hour = uint (drop_bit 11 time);
            minute = uint (drop_bit 5 time AND 0x3F);
            second = uint (time AND 0x1F) * 2
        in if validCivil year month day hour minute second
           then Some (year, month, day, hour, minute, second) else None)"

definition fatStampToUnix :: "fat_stamp \<Rightarrow> int \<Rightarrow> int option" where
  "fatStampToUnix stamp timezoneSeconds =
     (case fatStampToCivil stamp of None \<Rightarrow> None
      | Some (year, month, day, hour, minute, second) \<Rightarrow>
          Some (civilToUnix year month day hour minute second - timezoneSeconds))"

definition unixToFatStamp :: "int \<Rightarrow> int \<Rightarrow> fat_stamp option" where
  "unixToFatStamp unixSeconds timezoneSeconds =
     (case unixToCivil (unixSeconds + timezoneSeconds) of (year, month, day, hour, minute, second) \<Rightarrow>
        if year < 1980 \<or> year > 2107 then None
        else Some \<lparr>st_date = word_of_int (push_bit 9 (year - 1980) OR push_bit 5 month OR day),
                   st_time = word_of_int (push_bit 11 hour OR push_bit 5 minute OR (second div 2))\<rparr>)"

fun takeDigits :: "nat \<Rightarrow> int \<Rightarrow> string \<Rightarrow> (int \<times> string) option" where
  "takeDigits 0 v cursor = Some (v, cursor)"
| "takeDigits (Suc n) v [] = None"
| "takeDigits (Suc n) v (c # cursor) =
     (if is_digit c then takeDigits n (v * 10 + digit_val c) cursor else None)"

text \<open>The optional fraction: a point must be followed by a digit, and all digits are skipped.\<close>

definition skipFraction :: "string \<Rightarrow> string option" where
  "skipFraction cursor =
     (case cursor of
        [] \<Rightarrow> Some cursor
      | c # rest \<Rightarrow>
          if c \<noteq> CHR ''.'' then Some cursor
          else (case rest of [] \<Rightarrow> None
                | d # _ \<Rightarrow> if is_digit d then Some (dropWhile is_digit rest) else None))"

definition parseFtpTimeVal :: "string option \<Rightarrow> (int \<times> string) option" where
  "parseFtpTimeVal text =
     (case text of None \<Rightarrow> None | Some cursor \<Rightarrow>
       Option.bind (takeDigits 4 0 cursor) (\<lambda>(year, c1).
       Option.bind (takeDigits 2 0 c1) (\<lambda>(month, c2).
       Option.bind (takeDigits 2 0 c2) (\<lambda>(day, c3).
       Option.bind (takeDigits 2 0 c3) (\<lambda>(hour, c4).
       Option.bind (takeDigits 2 0 c4) (\<lambda>(minute, c5).
       Option.bind (takeDigits 2 0 c5) (\<lambda>(second, c6).
       Option.bind (skipFraction c6) (\<lambda>end.
         if validCivil year month day hour minute second
         then Some (civilToUnix year month day hour minute second, end) else None))))))))"

text \<open>\<open>%0<w>d\<close> of printf, and \<open>snprintf(output, 15, ...)\<close>, which keeps 14 characters.\<close>

definition formatFtpTimeVal :: "int \<Rightarrow> string" where
  "formatFtpTimeVal unixSeconds =
     (case unixToCivil unixSeconds of (year, month, day, hour, minute, second) \<Rightarrow>
        take 14 (fmt_0d 4 year @ fmt_0d 2 month @ fmt_0d 2 day @ fmt_0d 2 hour @
                 fmt_0d 2 minute @ fmt_0d 2 second))"

definition unixToFileTime :: "int \<Rightarrow> int" where
  "unixToFileTime unixSeconds =
     (let v = unixSeconds * kFileTimePerSecond + kUnixEpochFileTime in if v > 0 then v else 0)"

definition fileTimeToUnix :: "int \<Rightarrow> int option" where
  "fileTimeToUnix fileTime =
     (if fileTime = 0 \<or> fileTime \<ge> 0xFFFFFFFFFFFFFFFE \<or> fileTime < kUnixEpochFileTime then None
      else Some ((fileTime - kUnixEpochFileTime) div kFileTimePerSecond))"


subsection \<open>The calendar is a bijection\<close>

lemma sdiv_floor: "0 < m \<Longrightarrow> (if y \<ge> 0 then y else y - (m - 1)) sdiv m = y div (m :: int)"
proof (cases "y \<ge> 0")
  case True
  then show "0 < m \<Longrightarrow> ?thesis" by (simp add: signed_divide_int_def sgn_if)
next
  case False
  assume m: "0 < m"
  have "(m - 1 - y) div m = - (y div m)"
  proof -
    have "(m - 1 - y) = (m - 1 - y mod m) + (- (y div m)) * m"
      by (simp add: algebra_simps)
    then have "(m - 1 - y) div m = (m - 1 - y mod m) div m + - (y div m)"
      using m by (metis div_mult_self1 add.commute less_irrefl)
    moreover have "(m - 1 - y mod m) div m = 0"
      using m pos_mod_sign [of m y] pos_mod_bound [of m y]
      by (intro div_pos_pos_trivial) linarith+
    ultimately show ?thesis by simp
  qed
  with False m show ?thesis by (simp add: signed_divide_int_def sgn_if)
qed

lemma sdiv_400: "(if y \<ge> 0 then y else y - 399) sdiv 400 = y div (400 :: int)"
  and sdiv_era: "(if y \<ge> 0 then y else y - 146096) sdiv 146097 = y div (146097 :: int)"
  using sdiv_floor [of 400 y] sdiv_floor [of 146097 y] by (auto split: if_splits)

lemma floorDiv_day: "floorDiv t 86400 = t div 86400"
proof (cases "t \<ge> 0")
  case True
  then show ?thesis by (simp add: floorDiv_def signed_divide_int_def sgn_if)
next
  case False
  then show ?thesis
    using zdiv_zminus1_eq_if [of 86400 "- t"]
    by (auto simp: floorDiv_def Let_def signed_divide_int_def signed_modulo_int_def sgn_if)
qed

text \<open>
  Day of the era and year of the era: a year of the era is 100 c + 4 q + r, and the four
  quotients of the code cancel to it.
\<close>

definition eraDay :: "int \<Rightarrow> int \<Rightarrow> int" where
  "eraDay yoe doy = yoe * 365 + yoe div 4 - yoe div 100 + doy"

definition shiftedLeap :: "int \<Rightarrow> bool" where
  "shiftedLeap yoe \<longleftrightarrow> (yoe + 1) mod 4 = 0 \<and> ((yoe + 1) mod 100 \<noteq> 0 \<or> (yoe + 1) mod 400 = 0)"

lemma era_digits:
  fixes c q r :: int
  assumes "0 \<le> q" "q < 25" "0 \<le> r" "r < 4"
  shows "(100 * c + 4 * q + r) div 4 = 25 * c + q" and "(100 * c + 4 * q + r) div 100 = c"
    and "(100 * c + 4 * q + r) mod 4 = r"
proof -
  show "(100 * c + 4 * q + r) div 4 = 25 * c + q" "(100 * c + 4 * q + r) mod 4 = r"
    using assms by (intro int_div_pos_eq [of _ _ _ r] int_mod_pos_eq [of _ _ "25 * c + q"]; simp)+
  show "(100 * c + 4 * q + r) div 100 = c"
    using assms by (intro int_div_pos_eq [of _ _ _ "4 * q + r"]) auto
qed

lemma shiftedLeap_digits:
  fixes c q r :: int
  assumes "0 \<le> c" "c < 4" "0 \<le> q" "q < 25" "0 \<le> r" "r < 4"
  shows "shiftedLeap (100 * c + 4 * q + r) = (r = 3 \<and> (q < 24 \<or> c = 3))"
proof -
  let ?y = "100 * c + 4 * q + r"
  have m4: "((?y + 1) mod 4 = 0) = (r = 3)"
  proof (cases "r = 3")
    case True
    then have "?y + 1 = 4 * (25 * c + q + 1)" by simp
    then show ?thesis using True by simp
  next
    case False
    then have "(?y + 1) mod 4 = r + 1"
      using assms by (intro int_mod_pos_eq [of _ _ "25 * c + q"]) auto
    then show ?thesis using False assms by simp
  qed
  show ?thesis
  proof (cases "r = 3 \<and> q = 24")
    case True
    have "c \<in> {0, 1, 2, 3}" using assms by auto
    then show ?thesis using True by (auto simp: shiftedLeap_def)
  next
    case False
    show ?thesis
    proof (cases "r = 3")
      case True
      with False have "(?y + 1) mod 100 = 4 * q + 4"
        using assms by (intro int_mod_pos_eq [of _ _ c]) auto
      then show ?thesis using True False m4 assms by (auto simp: shiftedLeap_def)
    next
      case False
      then show ?thesis using m4 by (simp add: shiftedLeap_def)
    qed
  qed
qed

lemma year_of_era:
  assumes "0 \<le> yoe" "yoe < 400" "0 \<le> doy" "doy < 365 \<or> (doy = 365 \<and> shiftedLeap yoe)"
  defines "d \<equiv> eraDay yoe doy"
  shows "(d - d div 1460 + d div 36524 - d div 146096) div 365 = yoe" and "0 \<le> d" and "d < 146097"
proof -
  define c where "c = yoe div 100"
  define q where "q = yoe mod 100 div 4"
  define r where "r = yoe mod 100 mod 4"
  have y: "yoe = 100 * c + 4 * q + r" and b: "0 \<le> c" "c < 4" "0 \<le> q" "q < 25" "0 \<le> r" "r < 4"
    using assms(1,2) unfolding c_def q_def r_def by auto
  have d: "d = 36524 * c + 1461 * q + 365 * r + doy"
    using era_digits [OF b(3-6), of c] unfolding d_def eraDay_def y by simp
  have leap: "doy = 365 \<Longrightarrow> r = 3 \<and> (q < 24 \<or> c = 3)" and dle: "doy \<le> 365"
    using assms(4) shiftedLeap_digits [OF b] unfolding y by auto
  have last: "d div 36524 - d div 146096 = c"
  proof -
    have "1461 * q + 365 * r + doy < 36524 \<or> (1461 * q + 365 * r + doy = 36524 \<and> c = 3)"
      using b dle leap by auto
    with d b assms(3) show ?thesis by auto
  qed
  have "d = 1460 * (25 * c + q) + (24 * c + q + 365 * r + doy)" using d by simp
  then have t: "d div 1460 = 25 * c + q + (24 * c + q + 365 * r + doy) div 1460" by simp
  have "d - d div 1460 + c = 365 * yoe + (doy - (24 * c + q + 365 * r + doy) div 1460)"
    using d t y by simp
  moreover have "0 \<le> doy - (24 * c + q + 365 * r + doy) div 1460"
    using b assms(3) dle by auto
  moreover have "doy - (24 * c + q + 365 * r + doy) div 1460 < 365"
  proof (cases "doy = 365")
    case True
    with leap b have "1 \<le> (24 * c + q + 365 * r + doy) div 1460" by auto
    with True show ?thesis by simp
  next
    case False
    then have "doy < 365" using dle by simp
    moreover have "0 \<le> (24 * c + q + 365 * r + doy) div 1460" using b assms(3) by simp
    ultimately show ?thesis by simp
  qed
  moreover have "d - d div 1460 + d div 36524 - d div 146096 = d - d div 1460 + c"
    using last by simp
  ultimately show "(d - d div 1460 + d div 36524 - d div 146096) div 365 = yoe"
    by simp
  show "0 \<le> d" using d b assms(3) by simp
  show "d < 146097" using d b dle leap by auto
qed

lemma era_split:
  assumes "0 \<le> d" "d < 146097"
  obtains yoe doy where "d = eraDay yoe doy" "0 \<le> yoe" "yoe < 400" "0 \<le> doy"
    "doy < 365 \<or> (doy = 365 \<and> shiftedLeap yoe)"
proof -
  define c where "c = min (d div 36524) 3"
  define d1 where "d1 = d - 36524 * c"
  define q where "q = d1 div 1461"
  define d2 where "d2 = d1 - 1461 * q"
  define r where "r = min (d2 div 365) 3"
  define doy where "doy = d2 - 365 * r"
  have c: "0 \<le> c" "c \<le> 3" "0 \<le> d1" "d1 < 36524 \<or> (d1 = 36524 \<and> c = 3)"
    using assms unfolding c_def d1_def by (auto simp: min_def)
  have q: "0 \<le> q" "q \<le> 24" "0 \<le> d2" "d2 < 1461" and d1: "d1 = 1461 * q + d2"
    using c unfolding q_def d2_def by auto
  have r: "0 \<le> r" "r \<le> 3" "0 \<le> doy" "doy < 365 \<or> (doy = 365 \<and> r = 3)"
    using q unfolding r_def doy_def by (auto simp: min_def)
  let ?y = "100 * c + 4 * q + r"
  have "d = eraDay ?y doy"
    using era_digits [of q r c] q r unfolding eraDay_def doy_def d2_def d1_def by simp
  moreover have "0 \<le> ?y" "?y < 400" using c q r by auto
  moreover have "doy < 365 \<or> (doy = 365 \<and> shiftedLeap ?y)"
  proof (cases "doy < 365")
    case False
    with r have e: "doy = 365" "r = 3" by auto
    then have "d2 = 1460" by (simp add: doy_def)
    with c d1 have "q < 24 \<or> c = 3" by auto
    with e q c show ?thesis using shiftedLeap_digits [of c q r] by simp
  qed simp
  ultimately show ?thesis using r by (intro that [of ?y doy]) auto
qed

text \<open>Months: \<open>(153 m + 2) div 5\<close> is the day of the year, from March, on which month m begins.\<close>

definition validDate :: "int \<Rightarrow> int \<Rightarrow> int \<Rightarrow> bool" where
  "validDate year month day \<longleftrightarrow>
     1 \<le> month \<and> month \<le> 12 \<and> 1 \<le> day \<and> day \<le> daysInMonth year month"

definition shiftMonth :: "int \<Rightarrow> int" where
  "shiftMonth month = (if month > 2 then month - 3 else month + 9)"

lemma month_cases:
  assumes "1 \<le> m" "m \<le> (12 :: int)"
  obtains "m = 1" | "m = 2" | "m = 3" | "m = 4" | "m = 5" | "m = 6"
    | "m = 7" | "m = 8" | "m = 9" | "m = 10" | "m = 11" | "m = 12"
  proof -
  have "m \<in> {1, 2, 3, 4, 5, 6, 7, 8, 9, 10, 11, 12}" using assms by simp presburger
  then show thesis using that by blast
qed

lemma days_in_month:
  "daysInMonth y 1 = 31" "daysInMonth y 2 = (if leapYear y then 29 else 28)" "daysInMonth y 3 = 31"
  "daysInMonth y 4 = 30" "daysInMonth y 5 = 31" "daysInMonth y 6 = 30" "daysInMonth y 7 = 31"
  "daysInMonth y 8 = 31" "daysInMonth y 9 = 30" "daysInMonth y 10 = 31" "daysInMonth y 11 = 30"
  "daysInMonth y 12 = 31"
  by (simp_all add: daysInMonth_def eval_nat_numeral)

lemma month_of_day:
  assumes "validDate y month day"
  defines "doy \<equiv> (153 * shiftMonth month + 2) div 5 + day - 1"
  shows "(5 * doy + 2) div 153 = shiftMonth month" and "0 \<le> doy" and "doy \<le> 365"
    and "doy = 365 \<Longrightarrow> leapYear y \<and> month = 2"
proof -
  have m: "1 \<le> month" "month \<le> 12" and d: "1 \<le> day" "day \<le> daysInMonth y month"
    using assms(1) by (auto simp: validDate_def)
  from m show "(5 * doy + 2) div 153 = shiftMonth month" "0 \<le> doy" "doy \<le> 365"
    by (cases rule: month_cases;
        insert d; auto simp: doy_def shiftMonth_def days_in_month split: if_splits)+
  from m show "doy = 365 \<Longrightarrow> leapYear y \<and> month = 2"
    by (cases rule: month_cases;
        insert d; auto simp: doy_def shiftMonth_def days_in_month split: if_splits)
qed

lemma shifted_month_cases:
  assumes "0 \<le> m" "m \<le> (11 :: int)"
  obtains "m = 0" | "m = 1" | "m = 2" | "m = 3" | "m = 4" | "m = 5" | "m = 6"
    | "m = 7" | "m = 8" | "m = 9" | "m = 10" | "m = 11"
  proof -
  have "m \<in> {0, 1, 2, 3, 4, 5, 6, 7, 8, 9, 10, 11}" using assms by simp presburger
  then show thesis using that by blast
qed

lemma day_of_month:
  assumes "0 \<le> doy" "doy < 365 \<or> (doy = 365 \<and> leapYear (y + 1))"
  defines "sm \<equiv> (5 * doy + 2) div 153"
  defines "month \<equiv> (if sm < 10 then sm + 3 else sm - 9)"
  defines "day \<equiv> doy - (153 * sm + 2) div 5 + 1"
  shows "validDate (y + (if month \<le> 2 then 1 else 0)) month day" and "shiftMonth month = sm"
proof -
  have sm: "0 \<le> sm" "sm \<le> 11" and lo: "153 * sm \<le> 5 * doy + 2" and hi: "5 * doy + 2 < 153 * sm + 153"
    using assms(1,2) unfolding sm_def by auto
  from sm show "shiftMonth month = sm"
    by (auto simp: shiftMonth_def month_def)
  from sm show "validDate (y + (if month \<le> 2 then 1 else 0)) month day"
    by (cases rule: shifted_month_cases; insert lo hi assms(1,2);
        auto simp: validDate_def month_def day_def days_in_month)
qed

lemma leap_era: "shiftedLeap (y mod 400) = leapYear (y + 1)"
proof -
  have "(y mod 400 + 1) mod k = (y + 1) mod k" if "k dvd 400" for k :: int
    using that by (metis mod_add_left_eq mod_mod_cancel)
  then have "shiftedLeap (y mod 400) = ((y + 1) mod 4 = 0 \<and> ((y + 1) mod 100 \<noteq> 0 \<or> (y + 1) mod 400 = 0))"
    by (simp add: shiftedLeap_def)
  moreover have "x mod 400 = 0 \<Longrightarrow> x mod 4 = 0 \<and> x mod 100 = 0" for x :: int
    by presburger
  ultimately show ?thesis by (auto simp: leapYear_def)
qed

lemma daysFromCivil_era:
  "daysFromCivil y m d =
     (let yr = y - (if m \<le> 2 then 1 else 0)
      in yr div 400 * 146097 + eraDay (yr mod 400) ((153 * shiftMonth m + 2) div 5 + d - 1) - 719468)"
  unfolding daysFromCivil_def Let_def sdiv_400 minus_div_mult_eq_mod eraDay_def shiftMonth_def
  by simp

lemma civilFromDays_era:
  assumes "0 \<le> yoe" "yoe < 400" "0 \<le> doy" "doy < 365 \<or> (doy = 365 \<and> shiftedLeap yoe)"
  defines "sm \<equiv> (5 * doy + 2) div 153"
  defines "month \<equiv> (if sm < 10 then sm + 3 else sm - 9)"
  shows "civilFromDays (era * 146097 + eraDay yoe doy - 719468) =
     (yoe + era * 400 + (if month \<le> 2 then 1 else 0), month, doy - (153 * sm + 2) div 5 + 1)"
proof -
  note ye = year_of_era [OF assms(1-4)]
  define z where "z = era * 146097 + eraDay yoe doy"
  have era: "z div 146097 = era"
    using ye(2,3) by (intro int_div_pos_eq [of _ _ _ "eraDay yoe doy"]) (auto simp: z_def)
  have doe: "z - era * 146097 = eraDay yoe doy" by (simp add: z_def)
  have doy: "eraDay yoe doy - (365 * yoe + yoe div 4 - yoe div 100) = doy" by (simp add: eraDay_def)
  have "civilFromDays (z - 719468) =
     (yoe + era * 400 + (if month \<le> 2 then 1 else 0), month, doy - (153 * sm + 2) div 5 + 1)"
    unfolding civilFromDays_def Let_def diff_add_cancel sdiv_era era doe ye(1) doy
    by (simp add: sm_def month_def)
  then show ?thesis by (simp add: z_def)
qed

lemma civil_of_days_of_civil:
  assumes "validDate y m d"
  shows "civilFromDays (daysFromCivil y m d) = (y, m, d)"
proof -
  define yr where "yr = y - (if m \<le> 2 then 1 else 0)"
  define doy where "doy = (153 * shiftMonth m + 2) div 5 + d - 1"
  note md = month_of_day [OF assms, folded doy_def]
  have m: "1 \<le> m" "m \<le> 12" using assms by (auto simp: validDate_def)
  have leap: "doy < 365 \<or> (doy = 365 \<and> shiftedLeap (yr mod 400))"
    using md(3,4) by (auto simp: leap_era yr_def)
  have month: "(if shiftMonth m < 10 then shiftMonth m + 3 else shiftMonth m - 9) = m"
    using m by (simp add: shiftMonth_def)
  have "daysFromCivil y m d = yr div 400 * 146097 + eraDay (yr mod 400) doy - 719468"
    unfolding daysFromCivil_era Let_def yr_def doy_def ..
  then have "civilFromDays (daysFromCivil y m d) =
      (yr mod 400 + yr div 400 * 400 + (if m \<le> 2 then 1 else 0), m,
       doy - (153 * shiftMonth m + 2) div 5 + 1)"
    using civilFromDays_era [OF _ _ md(2) leap, of "yr div 400"] unfolding md(1) month by simp
  also have "yr mod 400 + yr div 400 * 400 = yr" by simp
  finally show ?thesis by (simp add: yr_def doy_def)
qed

lemma days_of_civil_of_days:
  shows "case civilFromDays n of (y, m, d) \<Rightarrow> validDate y m d \<and> daysFromCivil y m d = n"
proof -
  define z where "z = n + 719468"
  obtain yoe doy where e: "z mod 146097 = eraDay yoe doy" "0 \<le> yoe" "yoe < 400" "0 \<le> doy"
      "doy < 365 \<or> (doy = 365 \<and> shiftedLeap yoe)"
    using era_split [of "z mod 146097"] by auto
  define era where "era = z div 146097"
  have n: "n = era * 146097 + eraDay yoe doy - 719468"
    unfolding e(1) [symmetric] era_def by (simp add: z_def)
  define sm where "sm = (5 * doy + 2) div 153"
  define month where "month = (if sm < 10 then sm + 3 else sm - 9)"
  define day where "day = doy - (153 * sm + 2) div 5 + 1"
  define yr where "yr = yoe + era * 400"
  have yr: "yr mod 400 = yoe" "yr div 400 = era" using e(2,3) by (auto simp: yr_def)
  have "doy < 365 \<or> (doy = 365 \<and> leapYear (yr + 1))"
    using e(5) leap_era [of yr] yr by simp
  note dm = day_of_month [OF e(4) this, folded sm_def, folded month_def day_def]
  have c: "civilFromDays n = (yr + (if month \<le> 2 then 1 else 0), month, day)"
    unfolding n civilFromDays_era [OF e(2-5)] by (simp add: sm_def month_def day_def yr_def)
  have "daysFromCivil (yr + (if month \<le> 2 then 1 else 0)) month day = n"
    unfolding daysFromCivil_era Let_def dm(2) by (simp add: yr n day_def)
  with dm(1) show ?thesis by (simp add: c)
qed

lemma civilFromDays_iff:
  "civilFromDays n = (y, m, d) \<longleftrightarrow> validDate y m d \<and> daysFromCivil y m d = n"
proof
  assume "civilFromDays n = (y, m, d)"
  with days_of_civil_of_days [of n] show "validDate y m d \<and> daysFromCivil y m d = n"
    by (simp only: prod.case)
next
  assume "validDate y m d \<and> daysFromCivil y m d = n"
  with civil_of_days_of_civil [of y m d] show "civilFromDays n = (y, m, d)" by blast
qed

text \<open>The calendar itself: the day after a date.\<close>

fun nextDay :: "int \<times> int \<times> int \<Rightarrow> int \<times> int \<times> int" where
  "nextDay (y, m, d) =
     (if d < daysInMonth y m then (y, m, d + 1)
      else if m < 12 then (y, m + 1, 1) else (y + 1, 1, 1))"

lemma div_succ: "0 < k \<Longrightarrow> (x + 1) div k = x div k + (if (x + 1) mod k = 0 then 1 else 0)"
  for k :: int
proof -
  assume k: "0 < k"
  define q where "q = x div k"
  define r where "r = x mod k"
  have x: "x = q * k + r" by (simp add: q_def r_def)
  have r: "0 \<le> r" "r < k" using k by (auto simp: r_def)
  show ?thesis
  proof (cases "r = k - 1")
    case True
    then have "x + 1 = (q + 1) * k" using x by (simp add: algebra_simps)
    then show ?thesis using k by (simp add: q_def)
  next
    case False
    then have "(x + 1) mod k = r + 1" "(x + 1) div k = q"
      using r by (auto simp: x intro!: int_mod_pos_eq [of _ _ q] int_div_pos_eq [of _ _ _ "r + 1"])
    then show ?thesis using r by (simp add: q_def)
  qed
qed

lemma leap_count:
  fixes x :: int
  assumes "a' = a + (if P then 1 else 0)" "b' = b + (if Q then 1 else 0)" "Q \<Longrightarrow> P" "L = (P \<and> \<not> Q)"
  shows "(x + 1) * 365 + a' - b' + 0 = x * 365 + a - b + (if L then 366 else 365)"
  using assms by auto

lemma next_shifted_year:
  "(y + 1) div 400 * 146097 + eraDay ((y + 1) mod 400) 0 =
   y div 400 * 146097 + eraDay (y mod 400) (if leapYear (y + 1) then 366 else 365)"
proof -
  define e where "e = y div 400"
  define yoe where "yoe = y mod 400"
  have y: "y = e * 400 + yoe" "0 \<le> yoe" "yoe < 400" by (auto simp: e_def yoe_def)
  have leap: "leapYear (y + 1) = shiftedLeap yoe" by (simp add: leap_era yoe_def)
  show ?thesis
  proof (cases "yoe = 399")
    case True
    then have "(y + 1) div 400 = e + 1" "(y + 1) mod 400 = 0" using y by auto
    moreover have "shiftedLeap yoe" using True by (simp add: shiftedLeap_def)
    ultimately show ?thesis
      using True leap unfolding e_def [symmetric] yoe_def [symmetric]
      by (simp add: eraDay_def)
  next
    case False
    then have s: "(y + 1) div 400 = e" "(y + 1) mod 400 = yoe + 1"
      using y by (auto intro!: int_mod_pos_eq [of _ _ e] int_div_pos_eq [of _ _ _ "yoe + 1"])
    have l: "shiftedLeap yoe = ((yoe + 1) mod 4 = 0 \<and> (yoe + 1) mod 100 \<noteq> 0)"
      using False y by (simp add: shiftedLeap_def)
    have i: "(yoe + 1) mod 100 = 0 \<Longrightarrow> (yoe + 1) mod 4 = 0" by presburger
    have "eraDay (yoe + 1) 0 = eraDay yoe (if shiftedLeap yoe then 366 else 365)"
      unfolding eraDay_def by (rule leap_count [OF div_succ div_succ i l]) (rule zero_less_numeral)+
    then show ?thesis by (simp only: s leap e_def [symmetric] yoe_def [symmetric])
  qed
qed

lemma eraDay_shift: "NO_MATCH 0 a \<Longrightarrow> eraDay y a = eraDay y 0 + a"
  by (simp add: eraDay_def)

lemma days_next:
  assumes "validDate y m d"
  shows "case nextDay (y, m, d) of (y', m', d') \<Rightarrow>
     validDate y' m' d' \<and> daysFromCivil y' m' d' = daysFromCivil y m d + 1"
proof (cases "d < daysInMonth y m")
  case True
  then show ?thesis using assms
    by (simp add: validDate_def daysFromCivil_era Let_def eraDay_shift)
next
  case False
  with assms have d: "d = daysInMonth y m" and m: "1 \<le> m" "m \<le> 12" by (auto simp: validDate_def)
  note calc = daysFromCivil_era Let_def shiftMonth_def days_in_month validDate_def eraDay_shift
  show ?thesis
  proof (cases "m = 2")
    case True
    then show ?thesis using next_shifted_year [of "y - 1"] d
      by (simp add: calc split: if_splits)
  next
    case False
    from m show ?thesis
      by (cases rule: month_cases; insert d False; simp add: calc)
  qed
qed

lemma civilFromDays_next: "civilFromDays (n + 1) = nextDay (civilFromDays n)"
proof -
  obtain y m d where c: "civilFromDays n = (y, m, d)" by (metis prod_cases3)
  then have "validDate y m d" "daysFromCivil y m d = n" by (auto simp: civilFromDays_iff)
  with days_next [of y m d] show ?thesis
    by (auto simp del: nextDay.simps simp: c civilFromDays_iff split: prod.splits)
qed

text \<open>
  C23: daysFromCivil and civilFromDays are the proleptic Gregorian calendar: day 0 is
  1 January 1970, consecutive day numbers are consecutive dates (with the month lengths and
  leap years of daysInMonth) in both directions of time, and a date is converted to a
  day number exactly when that day number converts back to the date.
\<close>

theorem calendar_correct:
  "civilFromDays 0 = (1970, 1, 1) \<and> civilFromDays (n + 1) = nextDay (civilFromDays n) \<and>
   (civilFromDays n = (y, m, d) \<longleftrightarrow> validDate y m d \<and> daysFromCivil y m d = n)"
proof (intro conjI)
  have "daysFromCivil 1970 1 1 = 0" by (simp add: daysFromCivil_def)
  then show "civilFromDays 0 = (1970, 1, 1)"
    by (simp add: civilFromDays_iff validDate_def days_in_month)
qed (rule civilFromDays_next civilFromDays_iff)+

subsection \<open>Seconds, stamps and time values\<close>

lemma unixToCivil_iff:
  "unixToCivil t = (y, m, d, h, mi, s) \<longleftrightarrow>
   validDate y m d \<and> 0 \<le> h \<and> h < 24 \<and> 0 \<le> mi \<and> mi < 60 \<and> 0 \<le> s \<and> s < 60 \<and>
   civilToUnix y m d h mi s = t" (is "?l = ?r")
proof
  obtain y' m' d' where c: "civilFromDays (t div 86400) = (y', m', d')" by (metis prod_cases3)
  then have v: "validDate y' m' d'" and n: "daysFromCivil y' m' d' = t div 86400"
    by (auto simp: civilFromDays_iff)
  define r where "r = t mod 86400"
  have r: "t - t div 86400 * 86400 = r" by (simp add: r_def minus_div_mult_eq_mod)
  have u: "unixToCivil t = (y', m', d', r div 3600, r mod 3600 div 60, r mod 60)"
    by (simp add: unixToCivil_def kSecondsPerDay_def floorDiv_day c r)
  have "0 \<le> r" "r < 86400" by (auto simp: r_def)
  moreover have "r div 3600 * 3600 + r mod 3600 div 60 * 60 + r mod 60 = r"
  proof -
    have "r mod 3600 mod 60 = r mod 60" by (rule mod_mod_cancel) simp
    then show ?thesis
      using div_mult_mod_eq [of r 3600] div_mult_mod_eq [of "r mod 3600" 60] by linarith
  qed
  moreover have "t div 86400 * 86400 + r = t" by (simp add: r_def)
  ultimately have "civilToUnix y' m' d' (r div 3600) (r mod 3600 div 60) (r mod 60) = t"
    "r div 3600 < 24" "0 \<le> r div 3600" "0 \<le> r mod 3600 div 60" "r mod 3600 div 60 < 60"
    "0 \<le> r mod 60" "r mod 60 < 60"
    by (auto simp: civilToUnix_def n kSecondsPerDay_def)
  with v show "?l \<Longrightarrow> ?r" by (simp add: u)
next
  assume a: ?r
  define x where "x = h * 3600 + mi * 60 + s"
  have t: "t = daysFromCivil y m d * 86400 + x"
    using a by (auto simp: civilToUnix_def kSecondsPerDay_def x_def)
  have x: "0 \<le> x" "x < 86400" using a by (auto simp: x_def)
  have "t div 86400 = daysFromCivil y m d"
    using x unfolding t by simp
  moreover have m: "x div 3600 = h" "x mod 3600 = mi * 60 + s"
    using a by (auto simp: x_def intro!: int_mod_pos_eq [of _ _ h] int_div_pos_eq [of _ _ _ "mi * 60 + s"])
  moreover have "(mi * 60 + s) div 60 = mi" "(mi * 60 + s) mod 60 = s" using a by auto
  moreover have "x mod 60 = (x mod 3600) mod 60" by (rule mod_mod_cancel [symmetric]) simp
  moreover have "t - daysFromCivil y m d * 86400 = x" by (simp add: t)
  moreover have "civilFromDays (daysFromCivil y m d) = (y, m, d)"
    using a by (simp only: civil_of_days_of_civil)
  ultimately show ?l
    by (simp only: unixToCivil_def kSecondsPerDay_def floorDiv_day Let_def prod.case)
qed

text \<open>
  unixToCivil and civilToUnix are inverse to each other: the broken-down time of t is
  the only one with a valid date and fields in range that converts to t, also for the
  seconds before 1970.
\<close>

theorem unix_civil_inverse:
  "unixToCivil t = (y, m, d, h, mi, s) \<longleftrightarrow>
   validDate y m d \<and> 0 \<le> h \<and> h < 24 \<and> 0 \<le> mi \<and> mi < 60 \<and> 0 \<le> s \<and> s < 60 \<and>
   civilToUnix y m d h mi s = t"
  by (rule unixToCivil_iff)

end
