(* ===== verification/FatStamps.thy ===== *)
theory FatStamps
  imports FatTime
begin

text \<open>
  Round trips of the encodings of \<open>src/fat_time.cpp\<close>: FAT date and time words, the time
  values of RFC 3659 and Windows FILETIME, on top of the calendar of theory \<open>FatTime\<close>.
\<close>

subsection \<open>FAT stamps\<close>

lemma pack_date:
  assumes "0 \<le> Y" "Y < 128" "0 \<le> M" "M < 16" "0 \<le> D" "D < (32 :: int)"
  defines "w \<equiv> (word_of_int (push_bit 9 Y OR push_bit 5 M OR D) :: u16)"
  shows "uint (drop_bit 9 w) = Y" and "uint (drop_bit 5 w AND 0x0F) = M" and "uint (w AND 0x1F) = D"
proof -
  have t: "take_bit 7 Y = Y" "take_bit 4 M = M" "take_bit 5 D = D"
    using assms by (simp_all add: take_bit_int_eq_self)
  have w: "w = word_of_int (push_bit 9 (take_bit 7 Y) OR push_bit 5 (take_bit 4 M) OR take_bit 5 D)"
    by (simp add: w_def t)
  have m: "(0x0F :: u16) = mask 4" "(0x1F :: u16) = mask 5" by (simp_all add: mask_eq_exp_minus_1)
  have "uint (drop_bit 9 w) = take_bit 7 Y" "uint (drop_bit 5 w AND mask 4) = take_bit 4 M"
    "uint (w AND mask 5) = take_bit 5 D"
    unfolding w by (rule bit_eqI; auto simp: bit_simps)+
  then show "uint (drop_bit 9 w) = Y" "uint (drop_bit 5 w AND 0x0F) = M" "uint (w AND 0x1F) = D"
    by (simp_all add: t m)
qed

lemma pack_time:
  assumes "0 \<le> H" "H < 32" "0 \<le> M" "M < 64" "0 \<le> S" "S < (32 :: int)"
  defines "w \<equiv> (word_of_int (push_bit 11 H OR push_bit 5 M OR S) :: u16)"
  shows "uint (drop_bit 11 w) = H" and "uint (drop_bit 5 w AND 0x3F) = M" and "uint (w AND 0x1F) = S"
proof -
  have t: "take_bit 5 H = H" "take_bit 6 M = M" "take_bit 5 S = S"
    using assms by (simp_all add: take_bit_int_eq_self)
  have w: "w = word_of_int (push_bit 11 (take_bit 5 H) OR push_bit 5 (take_bit 6 M) OR take_bit 5 S)"
    by (simp add: w_def t)
  have m: "(0x3F :: u16) = mask 6" "(0x1F :: u16) = mask 5" by (simp_all add: mask_eq_exp_minus_1)
  have "uint (drop_bit 11 w) = take_bit 5 H" "uint (drop_bit 5 w AND mask 6) = take_bit 6 M"
    "uint (w AND mask 5) = take_bit 5 S"
    unfolding w by (rule bit_eqI; auto simp: bit_simps)+
  then show "uint (drop_bit 11 w) = H" "uint (drop_bit 5 w AND 0x3F) = M" "uint (w AND 0x1F) = S"
    by (simp_all add: t m)
qed

lemma unpack_date:
  "word_of_int (push_bit 9 (uint (drop_bit 9 w)) OR push_bit 5 (uint (drop_bit 5 w AND 0x0F)) OR
     uint (w AND 0x1F)) = (w :: u16)"
proof -
  have m: "(0x0F :: u16) = mask 4" "(0x1F :: u16) = mask 5" by (simp_all add: mask_eq_exp_minus_1)
  have "bit w n \<Longrightarrow> \<not> bit w (9 + (n - 9)) \<Longrightarrow> n < 9" for n
    by (cases "n < 9") auto
  then show ?thesis unfolding m by (intro bit_word_eqI) (force simp: bit_simps)
qed

lemma unpack_time:
  "word_of_int (push_bit 11 (uint (drop_bit 11 w)) OR push_bit 5 (uint (drop_bit 5 w AND 0x3F)) OR
     uint (w AND 0x1F)) = (w :: u16)"
proof -
  have m: "(0x3F :: u16) = mask 6" "(0x1F :: u16) = mask 5" by (simp_all add: mask_eq_exp_minus_1)
  have "bit w n \<Longrightarrow> \<not> bit w (11 + (n - 11)) \<Longrightarrow> n < 11" for n
    by (cases "n < 11") auto
  then show ?thesis unfolding m by (intro bit_word_eqI) (force simp: bit_simps)
qed

lemma validCivil_iff:
  "validCivil y m d h mi s \<longleftrightarrow> 1 \<le> y \<and> y \<le> 9999 \<and> validDate y m d \<and>
     0 \<le> h \<and> h < 24 \<and> 0 \<le> mi \<and> mi < 60 \<and> 0 \<le> s \<and> s < 60"
  by (auto simp: validCivil_def validDate_def)

lemma daysInMonth_le: "1 \<le> m \<Longrightarrow> m \<le> 12 \<Longrightarrow> daysInMonth y m \<le> 31"
  by (cases m rule: month_cases) (auto simp: days_in_month)

lemma fatStampToCivil_SomeD:
  assumes "fatStampToCivil stamp = Some (y, m, d, h, mi, s)"
  shows "validCivil y m d h mi s" "st_date stamp \<noteq> 0" "y = 1980 + uint (drop_bit 9 (st_date stamp))"
    "m = uint (drop_bit 5 (st_date stamp) AND 0x0F)" "d = uint (st_date stamp AND 0x1F)"
    "h = uint (drop_bit 11 (st_time stamp))" "mi = uint (drop_bit 5 (st_time stamp) AND 0x3F)"
    "s = uint (st_time stamp AND 0x1F) * 2"
  using assms by (auto simp: fatStampToCivil_def stamp_known_def Let_def split: if_splits)

lemma unixToCivil_civilToUnix:
  "validCivil y m d h mi s \<Longrightarrow> unixToCivil (civilToUnix y m d h mi s) = (y, m, d, h, mi, s)"
  by (simp add: unixToCivil_iff validCivil_iff)

lemma civilToUnix_second: "civilToUnix y m d h mi (s + k) = civilToUnix y m d h mi s + k"
  by (simp add: civilToUnix_def)

lemma stamp_to_unix_to_stamp:
  assumes "fatStampToUnix stamp tz = Some t"
  shows "unixToFatStamp t tz = Some stamp"
proof -
  obtain y m d h mi s where c: "fatStampToCivil stamp = Some (y, m, d, h, mi, s)"
    and t: "t = civilToUnix y m d h mi s - tz"
    using assms by (auto simp: fatStampToUnix_def split: option.splits)
  note f = fatStampToCivil_SomeD [OF c]
  have "uint (drop_bit 9 (st_date stamp)) < 128"
    using uint_lt2p [of "st_date stamp"]
    by (simp add: unsigned_drop_bit_eq take_bit_int_eq_self) (simp add: drop_bit_int_def)
  with f show ?thesis
    by (simp add: unixToFatStamp_def t unixToCivil_civilToUnix unpack_date unpack_time)
qed

lemma unix_to_stamp_to_unix:
  assumes "unixToFatStamp t tz = Some stamp"
  shows "fatStampToUnix stamp tz = Some (t - (t + tz) mod 2)"
proof -
  obtain y m d h mi s where c: "unixToCivil (t + tz) = (y, m, d, h, mi, s)" by (metis prod_cases6)
  note r = c [unfolded unixToCivil_iff]
  have y: "1980 \<le> y" "y \<le> 2107" and st: "stamp =
      \<lparr>st_date = word_of_int (push_bit 9 (y - 1980) OR push_bit 5 m OR d),
       st_time = word_of_int (push_bit 11 h OR push_bit 5 mi OR (s div 2))\<rparr>"
    using assms by (auto simp: unixToFatStamp_def c split: if_splits)
  have md: "1 \<le> m" "m \<le> 12" "1 \<le> d" "d \<le> 31"
    using r daysInMonth_le [of m y] by (auto simp: validDate_def)
  have b: "0 \<le> y - 1980" "y - 1980 < 128" "0 \<le> m" "m < 16" "0 \<le> d" "d < 32" "0 \<le> h" "h < 32"
    "0 \<le> mi" "mi < 64" "0 \<le> s div 2" "s div 2 < 32" using md y r by auto
  note pd = pack_date [OF b(1-6)] and pt = pack_time [OF b(7-12)]
  have "uint (st_date stamp AND 0x1F) = d" using pd by (simp add: st)
  then have "st_date stamp \<noteq> 0" using md by auto
  moreover have s30: "s div 2 < 30" using r by auto
  moreover have s2: "s div 2 * 2 = s - s mod 2" by (simp add: minus_mod_eq_div_mult)
  ultimately have "fatStampToCivil stamp = Some (y, m, d, h, mi, s - s mod 2)"
    using y r s30 by (simp add: fatStampToCivil_def stamp_known_def Let_def st validCivil_iff pd pt)
  moreover have "(t + tz) mod 2 = s mod 2"
  proof -
    have "t + tz = s + 2 * (daysFromCivil y m d * 43200 + h * 1800 + mi * 30)"
      using r by (simp add: civilToUnix_def kSecondsPerDay_def)
    then show ?thesis by (simp only: mod_mult_self2)
  qed
  ultimately show ?thesis using r civilToUnix_second [of y m d h mi s "- (s mod 2)"]
    by (simp add: fatStampToUnix_def)
qed

lemma stamp_year_iff:
  "(\<exists>stamp. unixToFatStamp t tz = Some stamp) \<longleftrightarrow> fst (unixToCivil (t + tz)) \<in> {1980..2107}"
  by (auto simp: unixToFatStamp_def split: prod.splits)

text \<open>
  A FAT stamp that denotes a moment is the stamp of that moment, and the stamp of a
  moment denotes it rounded down to the two seconds a FAT time can express, in local
  time; a moment has a stamp exactly when its local year is one FAT can write.
\<close>

theorem fat_stamp_roundtrip:
  "(fatStampToUnix stamp tz = Some t \<longrightarrow> unixToFatStamp t tz = Some stamp) \<and>
   (unixToFatStamp t tz = Some stamp \<longrightarrow> fatStampToUnix stamp tz = Some (t - (t + tz) mod 2)) \<and>
   ((\<exists>s. unixToFatStamp t tz = Some s) \<longleftrightarrow> fst (unixToCivil (t + tz)) \<in> {1980..2107})"
  by (rule conjI [OF impI [OF stamp_to_unix_to_stamp] conjI [OF impI [OF unix_to_stamp_to_unix]
      stamp_year_iff]])

theorem fat_stamp_roundtrip_witness:
  "unixToFatStamp 1700000001 10800 = Some \<lparr>st_date = 0x576F, st_time = 0x09AA\<rparr> \<and>
   fatStampToUnix \<lparr>st_date = 0x576F, st_time = 0x09AA\<rparr> 10800 = Some 1700000000"
proof
  show s: "unixToFatStamp 1700000001 10800 = Some \<lparr>st_date = 0x576F, st_time = 0x09AA\<rparr>"
  proof -
    have "unixToCivil 1700010801 = (2023, 11, 15, 1, 13, 21)"
      by (simp add: unixToCivil_iff validDate_def days_in_month civilToUnix_def daysFromCivil_def
          kSecondsPerDay_def)
    then show ?thesis by (simp add: unixToFatStamp_def)
  qed
  then show "fatStampToUnix \<lparr>st_date = 0x576F, st_time = 0x09AA\<rparr> 10800 = Some 1700000000"
    using fat_stamp_roundtrip [of "\<lparr>st_date = 0x576F, st_time = 0x09AA\<rparr>" 10800 1700000001]
    by simp
qed

subsection \<open>FTP time values\<close>

lemma dec_digits_small:
  "0 \<le> n \<Longrightarrow> n < 10 \<Longrightarrow> dec_digits n = [digit_chr n]"
  "10 \<le> n \<Longrightarrow> n < 100 \<Longrightarrow> dec_digits n = [digit_chr (n div 10), digit_chr (n mod 10)]"
  "100 \<le> n \<Longrightarrow> dec_digits n = dec_digits (n div 10) @ [digit_chr (n mod 10)]"
  by (subst dec_digits.simps; simp add: dec_digits.simps)+

lemma digit_chr_0: "CHR ''0'' = digit_chr 0"
  by code_simp

lemma fmt_2: "0 \<le> n \<Longrightarrow> n < 100 \<Longrightarrow> fmt_0d 2 n = [digit_chr (n div 10), digit_chr (n mod 10)]"
  by (cases "n < 10") (auto simp: fmt_0d_def Let_def dec_digits_small digit_chr_0)

lemma dec_digits_snoc:
  "1 \<le> x \<Longrightarrow> 0 \<le> d \<Longrightarrow> d < 10 \<Longrightarrow> dec_digits (10 * x + d) = dec_digits x @ [digit_chr d]"
  by (subst dec_digits.simps) simp

lemma fmt_4:
  assumes "0 \<le> n" "n < 10000"
  shows "fmt_0d 4 n = fmt_0d 2 (n div 100) @ fmt_0d 2 (n mod 100)"
proof -
  define q where "q = n div 100"
  define a where "a = n mod 100 div 10"
  define b where "b = n mod 100 mod 10"
  have n: "n = 10 * (10 * q + a) + b" by (simp add: q_def a_def b_def)
  have "n mod 100 = 10 * a + b" by (simp add: a_def b_def)
  have ab: "0 \<le> a" "a < 10" "0 \<le> b" "b < 10" by (auto simp: a_def b_def)
  have q: "0 \<le> q" "q < 100" using assms by (auto simp: q_def)
  have r: "fmt_0d 2 (n mod 100) = [digit_chr a, digit_chr b]"
    by (simp add: fmt_2 a_def b_def)
  show ?thesis
  proof (cases "q = 0")
    case True
    then have "dec_digits n = (if a = 0 then [digit_chr b] else [digit_chr a, digit_chr b])"
      using n ab by (simp add: dec_digits_small dec_digits_snoc)
    with True ab n show ?thesis unfolding q_def [symmetric] r
      by (simp add: fmt_2) (auto simp: fmt_0d_def Let_def digit_chr_0 eval_nat_numeral)
  next
    case False
    then have "dec_digits n = dec_digits q @ [digit_chr a, digit_chr b]"
      using n ab q dec_digits_snoc [of "10 * q + a" b] dec_digits_snoc [of q a] by simp
    then have "fmt_0d 4 n = fmt_0d 2 q @ [digit_chr a, digit_chr b]"
      using n ab q by (simp add: fmt_0d_def Let_def eval_nat_numeral)
    then show ?thesis unfolding q_def [symmetric] r .
  qed
qed

lemma length_fmt_2 [simp]: "0 \<le> n \<Longrightarrow> n < 100 \<Longrightarrow> length (fmt_0d 2 n) = 2"
  by (simp add: fmt_2)

lemma takeDigits_2_gen:
  "0 \<le> n \<Longrightarrow> n < 100 \<Longrightarrow> takeDigits (Suc (Suc k)) v (fmt_0d 2 n @ rest) = takeDigits k (v * 100 + n) rest"
  by (simp add: fmt_2 algebra_simps)

lemma takeDigits_2:
  "0 \<le> n \<Longrightarrow> n < 100 \<Longrightarrow> takeDigits 2 0 (fmt_0d 2 n @ rest) = Some (n, rest)"
  using takeDigits_2_gen [of n 0 0 rest] by (simp add: numeral_2_eq_2 [symmetric])

lemma takeDigits_4:
  assumes "0 \<le> n" "n < 10000"
  shows "takeDigits 4 0 (fmt_0d 4 n @ rest) = Some (n, rest)"
proof -
  have "takeDigits (Suc (Suc (Suc (Suc 0)))) 0 (fmt_0d 2 (n div 100) @ fmt_0d 2 (n mod 100) @ rest) =
      Some (n, rest)"
    using assms by (subst takeDigits_2_gen; simp add: takeDigits_2_gen)
  then have "takeDigits 4 0 (fmt_0d 2 (n div 100) @ fmt_0d 2 (n mod 100) @ rest) = Some (n, rest)"
    by (simp only: eval_nat_numeral BitM.simps One_nat_def)
  then show ?thesis by (simp only: fmt_4 [OF assms] append_assoc)
qed

lemma skipFraction_end:
  "rest = [] \<or> hd rest \<noteq> CHR ''.'' \<Longrightarrow> skipFraction rest = Some rest"
  by (cases rest) (auto simp: skipFraction_def)

lemma parse_civil:
  assumes "validCivil y m d h mi s"
    and "rest = [] \<or> hd rest \<noteq> CHR ''.''"
  shows "parseFtpTimeVal (Some (fmt_0d 4 y @ fmt_0d 2 m @ fmt_0d 2 d @ fmt_0d 2 h @ fmt_0d 2 mi @
            fmt_0d 2 s @ rest)) = Some (civilToUnix y m d h mi s, rest)"
proof -
  have "d < 100" "0 \<le> d" "m < 100" "0 \<le> m" "0 \<le> y" "y < 10000"
    using assms(1) daysInMonth_le [of m y] by (auto simp: validCivil_iff validDate_def)
  then show ?thesis using assms
    by (simp add: parseFtpTimeVal_def takeDigits_2 takeDigits_4 skipFraction_end)
      (simp add: validCivil_iff takeDigits_2 skipFraction_end)
qed

lemma format_civil:
  assumes "unixToCivil t = (y, m, d, h, mi, s)" "validCivil y m d h mi s"
  shows "formatFtpTimeVal t = fmt_0d 4 y @ fmt_0d 2 m @ fmt_0d 2 d @ fmt_0d 2 h @ fmt_0d 2 mi @ fmt_0d 2 s"
proof -
  have "d < 100" "0 \<le> d" "m < 100" "0 \<le> m" "0 \<le> y" "y < 10000"
    using assms(2) daysInMonth_le [of m y] by (auto simp: validCivil_iff validDate_def)
  moreover from this have "0 \<le> y div 100" "y div 100 < 100" by auto
  ultimately show ?thesis using assms
    by (simp add: formatFtpTimeVal_def validCivil_iff fmt_4 fmt_2)
qed

text \<open>
  The text formatFtpTimeVal writes for a moment of the years 1 to 9999 is 14
  characters long and parseFtpTimeVal reads it back to the same moment, leaving whatever
  follows it, as long as that does not begin a fraction; a fraction of at least one digit
  is skipped.
\<close>

theorem ftp_time_roundtrip:
  assumes "fst (unixToCivil t) \<in> {1..9999}" and "rest = [] \<or> hd rest \<noteq> CHR ''.''"
  shows "length (formatFtpTimeVal t) = 14 \<and>
    parseFtpTimeVal (Some (formatFtpTimeVal t @ rest)) = Some (t, rest) \<and>
    (\<forall>f. f \<noteq> [] \<longrightarrow> list_all is_digit f \<longrightarrow> (rest = [] \<or> \<not> is_digit (hd rest)) \<longrightarrow>
       parseFtpTimeVal (Some (formatFtpTimeVal t @ CHR ''.'' # f @ rest)) = Some (t, rest))"
proof -
  obtain y m d h mi s where c: "unixToCivil t = (y, m, d, h, mi, s)" by (metis prod_cases6)
  note r = c [unfolded unixToCivil_iff]
  have v: "validCivil y m d h mi s" using r assms(1) c by (simp add: validCivil_iff)
  have b: "d < 100" "0 \<le> d" "m < 100" "0 \<le> m" "0 \<le> y" "y < 10000"
    using v daysInMonth_le [of m y] by (auto simp: validCivil_iff validDate_def)
  have "0 \<le> y div 100" "y div 100 < 100" using b by auto
  then have "length (formatFtpTimeVal t) = 14"
    using b v by (simp add: format_civil [OF c v] fmt_4 fmt_2 validCivil_iff)
  moreover have "parseFtpTimeVal (Some (formatFtpTimeVal t @ rest)) = Some (t, rest)"
    using parse_civil [OF v assms(2)] r by (simp add: format_civil [OF c v])
  moreover have "skipFraction (CHR ''.'' # f @ rest) = Some rest"
    if "f \<noteq> []" "list_all is_digit f" "rest = [] \<or> \<not> is_digit (hd rest)" for f
  proof -
    note fr = that
    obtain x xs where "f = x # xs" "is_digit x" using fr(1,2) by (cases f) auto
    moreover have "dropWhile is_digit (f @ rest) = rest"
      using fr by (subst dropWhile_append2) (auto simp: list_all_iff dropWhile_eq_self_iff)
    ultimately show ?thesis by (simp add: skipFraction_def)
  qed
  ultimately show ?thesis using b v r
    by (simp add: format_civil [OF c v] parseFtpTimeVal_def takeDigits_4 takeDigits_2 validCivil_iff)
qed

theorem ftp_time_roundtrip_witness:
  "parseFtpTimeVal (Some (formatFtpTimeVal 951782400 @ '' a.txt'')) = Some (951782400, '' a.txt'')"
proof -
  have "unixToCivil 951782400 = (2000, 2, 29, 0, 0, 0)"
    by (simp add: unixToCivil_iff validDate_def days_in_month leapYear_def civilToUnix_def
        daysFromCivil_def kSecondsPerDay_def)
  then show ?thesis using ftp_time_roundtrip [of 951782400 "'' a.txt''"] by simp
qed

text \<open>
  A moment from 1970 on survives the conversion to a Windows FILETIME and back, a
  FILETIME is read as the last whole second before it, and the reserved values 0,
  0xFFFFFFFFFFFFFFFE and 0xFFFFFFFFFFFFFFFF and every time before 1970 are refused. The
  bounds on t are those under which the \<open>int64_t\<close> product of the code does not overflow.
\<close>

theorem filetime_roundtrip:
  assumes "- 910692730085 \<le> t" "t \<le> 910692730085"
  shows "fileTimeToUnix (unixToFileTime t) = (if 0 \<le> t then Some t else None) \<and>
   0 \<le> unixToFileTime t \<and> unixToFileTime t < 2 ^ 63 \<and>
   (\<forall>f. fileTimeToUnix f = Some t \<longrightarrow>
      f \<notin> {0, 0xFFFFFFFFFFFFFFFE, 0xFFFFFFFFFFFFFFFF} \<and>
      0 \<le> f - unixToFileTime t \<and> f - unixToFileTime t < kFileTimePerSecond)"
  using assms
  by (auto simp: fileTimeToUnix_def unixToFileTime_def Let_def kUnixEpochFileTime_def
      kFileTimePerSecond_def)

theorem filetime_roundtrip_witness:
  "fileTimeToUnix (unixToFileTime 1700000000) = Some 1700000000 \<and>
   unixToFileTime 1700000000 = 133444736000000000"
  using filetime_roundtrip [of 1700000000]
  by (simp add: unixToFileTime_def kUnixEpochFileTime_def kFileTimePerSecond_def)

end
