(* ===== verification/NtpTime.thy ===== *)
theory NtpTime
  imports FatStamps
begin

text \<open>
  \<open>src/ntp_time.cpp\<close>: the time stamp of the VFS protocol from an NTP second count, with its
  own calendar routine; it is shown equal to the formatter of \<open>fat_time.cpp\<close>.
  \<open>src/ota_image.cpp\<close>, the check of a firmware image header, is at the end.
\<close>

definition kUnixEpochAt1900 :: int where "kUnixEpochAt1900 = 2208988800"
definition kNtpEraSeconds :: int where "kNtpEraSeconds = 2 ^ 32"

definition putTwoDigits :: "int \<Rightarrow> string" where
  "putTwoDigits v = [digit_chr (v div 10 mod 10), digit_chr (v mod 10)]"

definition ntp_civilFromDays :: "int \<Rightarrow> bool \<times> int \<times> int \<times> int" where
  "ntp_civilFromDays days0 =
     (let days = days0 + 719468;
          era = (if days \<ge> 0 then days else days - 146096) sdiv 146097;
          dayOfEra = days - era * 146097;
          yearOfEra = (dayOfEra - dayOfEra div 1460 + dayOfEra div 36524 - dayOfEra div 146096) div 365;
          year = yearOfEra + era * 400;
          dayOfYear = dayOfEra - (365 * yearOfEra + yearOfEra div 4 - yearOfEra div 100);
          monthPrime = (5 * dayOfYear + 2) div 153;
          day = dayOfYear - (153 * monthPrime + 2) div 5 + 1;
          month = monthPrime + (if monthPrime < 10 then 3 else - 9);
          year = year + (if month \<le> 2 then 1 else 0)
      in (year \<ge> 0 \<and> year \<le> 9999, year, month, day))"

text \<open>
  The result is the returned flag and the text left in the caller's buffer, \<open>None\<close> for a
  buffer that was not written. \<open>output\<close> is false for a null pointer.
\<close>

definition formatNtpTimestamp :: "u32 \<Rightarrow> int \<Rightarrow> bool \<Rightarrow> bool \<times> string option" where
  "formatNtpTimestamp ntpSeconds timezoneHours output =
     (if \<not> output \<or> timezoneHours < - 14 \<or> timezoneHours > 14 then (False, None)
      else
        let extendedNtp = (if uint ntpSeconds < kUnixEpochAt1900 then uint ntpSeconds + kNtpEraSeconds
                           else uint ntpSeconds);
            localSeconds = extendedNtp - kUnixEpochAt1900 + timezoneHours * 3600;
            days = localSeconds sdiv kSecondsPerDay;
            secondsInDay = localSeconds smod kSecondsPerDay;
            (secondsInDay, days) = (if secondsInDay < 0 then (secondsInDay + kSecondsPerDay, days - 1)
                                    else (secondsInDay, days));
            (ok, year, month, day) = ntp_civilFromDays days
        in if \<not> ok then (False, Some (replicate 14 (CHR ''0'')))
           else
             let hour = secondsInDay div 3600; minute = secondsInDay div 60 mod 60;
                 second = secondsInDay mod 60
             in (True, Some ([digit_chr (year div 1000 mod 10), digit_chr (year div 100 mod 10),
                   digit_chr (year div 10 mod 10), digit_chr (year mod 10)] @
                   putTwoDigits month @ putTwoDigits day @ putTwoDigits hour @
                   putTwoDigits minute @ putTwoDigits second)))"

text \<open>What an NTP second count means: the era that begins in 2036 continues the first one.\<close>

definition ntp_unix :: "u32 \<Rightarrow> int" where
  "ntp_unix w = (uint w - 2208988800) mod 2 ^ 32"

lemma ntp_unix_extended:
  "(if uint w < kUnixEpochAt1900 then uint w + kNtpEraSeconds else uint w) - kUnixEpochAt1900 = ntp_unix w"
proof -
  have "0 \<le> uint w" "uint w < 4294967296" using uint_lt2p [of w] by auto
  then have "uint w < 2208988800 \<Longrightarrow> (uint w - 2208988800) mod 2 ^ 32 = uint w + 2 ^ 32 - 2208988800"
    "2208988800 \<le> uint w \<Longrightarrow> (uint w - 2208988800) mod 2 ^ 32 = uint w - 2208988800"
    by (simp add: int_mod_pos_eq [of _ _ "- 1"], simp)
  then show ?thesis
    by (simp add: ntp_unix_def kUnixEpochAt1900_def kNtpEraSeconds_def)
qed

lemma le_div_int_pos: "0 < k \<Longrightarrow> a * k \<le> x \<Longrightarrow> a \<le> x div (k :: int)"
  by (metis nonzero_mult_div_cancel_right order_less_irrefl zdiv_mono1)

lemma div_le_int_pos: "0 < k \<Longrightarrow> x < (a + 1) * k \<Longrightarrow> x div (k :: int) \<le> a"
  by (metis add_le_cancel_right div_mult_mod_eq linorder_not_le mult_le_cancel_right_pos
      order_le_less_trans order_less_le pos_mod_sign zle_add1_eq_le le_add_same_cancel1)

lemma ntp_civil:
  "ntp_civilFromDays n = (case civilFromDays n of (y, m, d) \<Rightarrow> (0 \<le> y \<and> y \<le> 9999, y, m, d))"
proof -
  have "x + (if P then 3 else - 9) = (if P then x + 3 else x - 9)" for P and x :: int by simp
  then show ?thesis by (simp only: ntp_civilFromDays_def civilFromDays_def Let_def prod.case)
qed

lemma civil_year_bounds:
  assumes "civilFromDays n = (y, m, d)"
  shows "(n + 719468) div 146097 * 400 \<le> y" "y \<le> (n + 719468) div 146097 * 400 + 400"
proof -
  define yr where "yr = y - (if m \<le> 2 then 1 else 0)"
  define doy where "doy = (153 * shiftMonth m + 2) div 5 + d - 1"
  have v: "validDate y m d" and n: "daysFromCivil y m d = n" using assms by (auto simp: civilFromDays_iff)
  note md = month_of_day [OF v, folded doy_def]
  have leap: "doy < 365 \<or> (doy = 365 \<and> shiftedLeap (yr mod 400))"
    using md(3,4) by (auto simp: leap_era yr_def)
  have e: "0 \<le> eraDay (yr mod 400) doy" "eraDay (yr mod 400) doy < 146097"
    using year_of_era(2,3) [OF _ _ md(2) leap] by auto
  have "n + 719468 = yr div 400 * 146097 + eraDay (yr mod 400) doy"
    using n unfolding daysFromCivil_era Let_def yr_def doy_def by simp
  with e have "(n + 719468) div 146097 = yr div 400"
    by (intro int_div_pos_eq [of _ _ _ "eraDay (yr mod 400) doy"]) auto
  moreover have "yr div 400 * 400 \<le> yr" "yr < yr div 400 * 400 + 400" by auto
  ultimately show "(n + 719468) div 146097 * 400 \<le> y" "y \<le> (n + 719468) div 146097 * 400 + 400"
    by (auto simp: yr_def split: if_splits)
qed

lemma day_split:
  "(if t smod 86400 < 0 then (t smod 86400 + 86400, t sdiv 86400 - 1) else (t smod 86400, t sdiv 86400)) =
   (t mod 86400, t div (86400 :: int))"
proof (cases "0 \<le> t")
  case True
  then have "t sdiv 86400 = t div 86400" "t smod 86400 = t mod 86400"
    by (simp_all add: signed_divide_int_def signed_modulo_int_def sgn_if)
  moreover have "\<not> t mod 86400 < 0" by simp
  ultimately show ?thesis by (simp only: if_False)
next
  case False
  then show ?thesis using zdiv_zminus1_eq_if [of 86400 "- t"] zmod_zminus1_eq_if [of "- t" 86400]
      pos_mod_sign [of 86400 "- t"] pos_mod_bound [of 86400 "- t"]
    by (auto simp: signed_divide_int_def signed_modulo_int_def sgn_if simp del: pos_mod_sign pos_mod_bound)
qed

lemma putTwoDigits_fmt: "0 \<le> n \<Longrightarrow> n < 100 \<Longrightarrow> putTwoDigits n = fmt_0d 2 n"
  by (simp add: putTwoDigits_def fmt_2)

lemma four_digits_fmt:
  assumes "0 \<le> y" "y < 10000"
  shows "[digit_chr (y div 1000 mod 10), digit_chr (y div 100 mod 10), digit_chr (y div 10 mod 10),
          digit_chr (y mod 10)] = fmt_0d 4 y"
proof -
  have a: "y div 100 div 10 = y div 1000" by (simp add: zdiv_zmult2_eq [symmetric])
  have "y mod 100 = 10 * (y div 10 mod 10) + y mod 10"
    using zmod_zmult2_eq [of 10 y 10] by simp
  then have b: "y mod 100 div 10 = y div 10 mod 10" "y mod 100 mod 10 = y mod 10"
    by simp_all
  have c: "y div 1000 mod 10 = y div 1000" using assms by (intro mod_pos_pos_trivial) auto
  have "0 \<le> y div 100" "y div 100 < 100" "0 \<le> y mod 100" "y mod 100 < 100" using assms by auto
  then show ?thesis by (simp only: fmt_4 [OF assms] fmt_2 a b c append.simps)
qed

text \<open>
  For every NTP second count and every timezone the configuration allows,
  formatNtpTimestamp succeeds and writes the 14 digits that formatFtpTimeVal of fat_time.cpp
  writes for the same local time, the count being read in the NTP era that makes it a time
  of 1970 to 2106; without a buffer, or with another timezone, it fails and writes nothing.
\<close>

theorem ntp_timestamp_equivalence:
  "formatNtpTimestamp w tz out =
     (if out \<and> - 14 \<le> tz \<and> tz \<le> 14
      then (True, Some (formatFtpTimeVal (ntp_unix w + tz * 3600))) else (False, None))"
proof (cases "out \<and> - 14 \<le> tz \<and> tz \<le> 14")
  case False
  then show ?thesis by (auto simp: formatNtpTimestamp_def)
next
  case True
  define t where "t = ntp_unix w + tz * 3600"
  have w: "0 \<le> ntp_unix w" "ntp_unix w < 4294967296" by (auto simp: ntp_unix_def)
  obtain y m d h mi s where c: "unixToCivil t = (y, m, d, h, mi, s)" by (metis prod_cases6)
  note r = c [unfolded unixToCivil_iff]
  have u: "civilFromDays (t div 86400) = (y, m, d)" "h = t mod 86400 div 3600"
    "mi = t mod 86400 mod 3600 div 60" "s = t mod 86400 mod 60"
    using c by (auto simp: unixToCivil_def Let_def kSecondsPerDay_def floorDiv_day
        minus_div_mult_eq_mod split: prod.splits)
  have "- 1 \<le> t div 86400" "t div 86400 \<le> 50000" using w True by (auto simp: t_def)
  then have "4 \<le> (t div 86400 + 719468) div 146097" "(t div 86400 + 719468) div 146097 \<le> 5"
    by (simp_all add: le_div_int_pos div_le_int_pos)
  then have y: "1600 \<le> y" "y \<le> 2400" using civil_year_bounds [OF u(1)] by simp_all
  have v: "validCivil y m d h mi s" using r y by (simp add: validCivil_iff)
  have md: "d < 100" "0 \<le> d" "m < 100" "0 \<le> m"
    using v daysInMonth_le [of m y] by (auto simp: validCivil_iff validDate_def)
  have minute: "t mod 86400 div 60 mod 60 = mi"
  proof -
    define x where "x = t mod 86400"
    have "x mod 3600 = 60 * (x div 60 mod 60) + x mod 60" using zmod_zmult2_eq [of 60 x 60] by simp
    then have "x mod 3600 div 60 = x div 60 mod 60" by simp
    then show ?thesis by (simp only: u(3) x_def)
  qed
  have T: "(if uint w < kUnixEpochAt1900 then uint w + kNtpEraSeconds else uint w) - kUnixEpochAt1900 +
      tz * 3600 = t"
    by (simp only: ntp_unix_extended t_def)
  have g: "\<not> (\<not> out \<or> tz < - 14 \<or> 14 < tz)" "0 \<le> y \<and> y \<le> 9999" "\<not> \<not> (0 \<le> y \<and> y \<le> 9999)"
    using True y by auto
  have y4: "0 \<le> y" "y < 10000" using y by auto
  have "formatNtpTimestamp w tz out =
     (True, Some (fmt_0d 4 y @ putTwoDigits m @ putTwoDigits d @ putTwoDigits h @ putTwoDigits mi @ putTwoDigits s))"
    by (simp only: formatNtpTimestamp_def Let_def T kSecondsPerDay_def day_split ntp_civil u(1) minute
        u(2,4) [symmetric] prod.case g simp_thms if_False if_True four_digits_fmt [OF y4])
  then show ?thesis using True md r
    by (simp add: format_civil [OF c v, folded t_def] putTwoDigits_fmt t_def [symmetric] validCivil_iff)
qed

subsection \<open>Firmware image header\<close>

definition kOtaImageHeaderSize :: nat where "kOtaImageHeaderSize = 36"
definition kEspImageMagic :: u8 where "kEspImageMagic = 0xE9"
definition kEsp32S3ChipId :: u16 where "kEsp32S3ChipId = 9"
definition kApplicationDescriptorMagic :: u32 where "kApplicationDescriptorMagic = 0xABCD5432"

definition readLe16Local :: "bytes \<Rightarrow> u16" where
  "readLe16Local d = ucast (d ! 0) OR push_bit 8 (ucast (d ! 1))"

definition readLe32Local :: "bytes \<Rightarrow> u32" where
  "readLe32Local d = ucast (d ! 0) OR push_bit 8 (ucast (d ! 1)) OR push_bit 16 (ucast (d ! 2)) OR
     push_bit 24 (ucast (d ! 3))"

definition isEsp32S3ApplicationImage :: "bytes option \<Rightarrow> bool" where
  "isEsp32S3ApplicationImage data =
     (case data of None \<Rightarrow> False
      | Some d \<Rightarrow> length d \<ge> kOtaImageHeaderSize \<and> d ! 0 = kEspImageMagic \<and>
          readLe16Local (drop 12 d) = kEsp32S3ChipId \<and>
          readLe32Local (drop 32 d) = kApplicationDescriptorMagic)"

lemma le16_bytes:
  "(ucast a OR push_bit 8 (ucast b) = (c :: u16)) = (a = ucast c \<and> b = ucast (drop_bit 8 c))" for a b :: u8
proof
  assume c: "ucast a OR push_bit 8 (ucast b) = c"
  have "a = ucast (ucast a OR push_bit 8 (ucast b) :: u16)"
    "b = ucast (drop_bit 8 (ucast a OR push_bit 8 (ucast b) :: u16))"
    by (rule bit_word_eqI; auto simp: bit_simps dest: bit_imp_le_length)+
  then show "a = ucast c \<and> b = ucast (drop_bit 8 c)" unfolding c by blast
next
  assume "a = ucast c \<and> b = ucast (drop_bit 8 c)"
  then show "ucast a OR push_bit 8 (ucast b) = c"
    by (auto intro!: bit_word_eqI simp: bit_simps not_less)
qed

lemma le32_bytes:
  "(ucast a OR push_bit 8 (ucast b) OR push_bit 16 (ucast e) OR push_bit 24 (ucast f) = (c :: u32)) =
   (a = ucast c \<and> b = ucast (drop_bit 8 c) \<and> e = ucast (drop_bit 16 c) \<and> f = ucast (drop_bit 24 c))"
  for a b e f :: u8
proof
  let ?c = "ucast a OR push_bit 8 (ucast b) OR push_bit 16 (ucast e) OR push_bit 24 (ucast f) :: u32"
  assume c: "?c = c"
  have "a = ucast ?c" "b = ucast (drop_bit 8 ?c)" "e = ucast (drop_bit 16 ?c)" "f = ucast (drop_bit 24 ?c)"
    by (rule bit_word_eqI; auto simp: bit_simps dest: bit_imp_le_length)+
  then show "a = ucast c \<and> b = ucast (drop_bit 8 c) \<and> e = ucast (drop_bit 16 c) \<and> f = ucast (drop_bit 24 c)"
    unfolding c by blast
next
  assume a: "a = ucast c \<and> b = ucast (drop_bit 8 c) \<and> e = ucast (drop_bit 16 c) \<and> f = ucast (drop_bit 24 c)"
  show "ucast a OR push_bit 8 (ucast b) OR push_bit 16 (ucast e) OR push_bit 24 (ucast f) = c"
  proof (rule bit_word_eqI)
    fix n assume "n < LENGTH(32)"
    then consider "n < 8" | "8 \<le> n" "n < 16" | "16 \<le> n" "n < 24" | "24 \<le> n" "n < 32" by fastforce
    then show "bit (ucast a OR push_bit 8 (ucast b) OR push_bit 16 (ucast e) OR push_bit 24 (ucast f) :: u32) n
        = bit c n"
      by cases (auto simp: bit_simps a)
  qed
qed

lemma image_header_bytes:
  "isEsp32S3ApplicationImage data \<longleftrightarrow>
     (\<exists>d. data = Some d \<and> length d \<ge> 36 \<and> d ! 0 = 0xE9 \<and> d ! 12 = 9 \<and> d ! 13 = 0 \<and>
        d ! 32 = 0x32 \<and> d ! 33 = 0x54 \<and> d ! 34 = 0xCD \<and> d ! 35 = 0xAB)"
  by (cases data; simp add: isEsp32S3ApplicationImage_def kOtaImageHeaderSize_def kEspImageMagic_def
      kEsp32S3ChipId_def kApplicationDescriptorMagic_def readLe16Local_def readLe32Local_def
      le16_bytes le32_bytes)
    (auto simp: le16_bytes le32_bytes)

end
