(* ===== verification/GitSha1.thy ===== *)
theory GitSha1
  imports Prelude
begin

text \<open>
  \<open>src/git_sha1.cpp\<close>: the streaming SHA-1 and the git blob identifier by which the updater
  recognises files. The loops that could run forever on a corrupt state are partial
  functions; they are shown to return for every state the interface can reach.
\<close>

subsection \<open>The compression function\<close>

definition rotateLeft :: "u32 \<Rightarrow> nat \<Rightarrow> u32" where
  "rotateLeft v bits = push_bit bits v OR drop_bit (32 - bits) v"

definition block_words :: "bytes \<Rightarrow> u32 list" where
  "block_words d =
     foldl (\<lambda>w i. w @ [rotateLeft (w ! (i - 3) XOR w ! (i - 8) XOR w ! (i - 14) XOR w ! (i - 16)) 1])
       (map (\<lambda>i. push_bit 24 (ucast (d ! (4 * i))) OR push_bit 16 (ucast (d ! (4 * i + 1))) OR
                 push_bit 8 (ucast (d ! (4 * i + 2))) OR ucast (d ! (4 * i + 3))) [0..<16])
       [16..<80]"

definition block_round :: "u32 list \<Rightarrow> u32 \<times> u32 \<times> u32 \<times> u32 \<times> u32 \<Rightarrow> nat \<Rightarrow>
    u32 \<times> u32 \<times> u32 \<times> u32 \<times> u32" where
  "block_round words s i =
     (case s of (a, b, c, d, e) \<Rightarrow>
        let (f, k) =
          (if i < 20 then ((b AND c) OR (NOT b AND d), 0x5A827999)
           else if i < 40 then (b XOR c XOR d, 0x6ED9EBA1)
           else if i < 60 then ((b AND c) OR (b AND d) OR (c AND d), 0x8F1BBCDC)
           else (b XOR c XOR d, 0xCA62C1D6));
          next = rotateLeft a 5 + f + e + k + words ! i
        in (next, a, rotateLeft b 30, c, d))"

definition sha_block :: "bytes \<Rightarrow> u32 list \<Rightarrow> u32 list" where
  "sha_block data st =
     (case foldl (block_round (block_words data)) (st ! 0, st ! 1, st ! 2, st ! 3, st ! 4) [0..<80] of
        (a, b, c, d, e) \<Rightarrow> [st ! 0 + a, st ! 1 + b, st ! 2 + c, st ! 3 + d, st ! 4 + e])"

subsection \<open>The streaming state\<close>

record sha1 =
  sh_state :: "u32 list"
  sh_length :: u64
  sh_buffer :: bytes
  sh_used :: nat

definition kDigestSize :: nat where "kDigestSize = 20"

definition sha_init :: "u32 list" where
  "sha_init = [0x67452301, 0xEFCDAB89, 0x98BADCFE, 0x10325476, 0xC3D2E1F0]"

definition sha_reset :: "sha1 \<Rightarrow> sha1" where
  "sha_reset s = s\<lparr>sh_state := sha_init, sh_length := 0, sh_used := 0\<rparr>"

text \<open>The loop of \<open>update\<close>; \<open>None\<close> is a run that never ends.\<close>

partial_function (option) update_loop :: "sha1 \<Rightarrow> bytes \<Rightarrow> sha1 option" where
  "update_loop s data =
     (if data = [] then Some s
      else
        let part = (if length data < 64 - sh_used s then length data else 64 - sh_used s);
            s1 = s\<lparr>sh_buffer := blit (sh_buffer s) (sh_used s) (take part data),
                   sh_used := sh_used s + part\<rparr>
        in update_loop
             (if sh_used s1 = 64 then s1\<lparr>sh_state := sha_block (sh_buffer s1) (sh_state s1), sh_used := 0\<rparr>
              else s1)
             (drop part data))"

definition sha_update :: "sha1 \<Rightarrow> bytes option \<Rightarrow> sha1 option" where
  "sha_update s data =
     (case data of None \<Rightarrow> Some s
      | Some d \<Rightarrow> update_loop (s\<lparr>sh_length := sh_length s + of_nat (length d)\<rparr>) d)"

partial_function (option) zero_loop :: "sha1 \<Rightarrow> sha1 option" where
  "zero_loop s =
     (if sh_used s = 56 then Some s else Option.bind (sha_update s (Some [0])) zero_loop)"

declare update_loop.simps [code] zero_loop.simps [code]

definition sha_finish :: "sha1 \<Rightarrow> (sha1 \<times> bytes) option" where
  "sha_finish s =
     (let bits = sh_length s * 8 in
      Option.bind (sha_update s (Some [0x80])) (\<lambda>s1.
      Option.bind (zero_loop s1) (\<lambda>s2.
      Option.bind (sha_update s2 (Some (map (\<lambda>i. ucast (drop_bit (56 - 8 * i) bits)) [0..<8]))) (\<lambda>s3.
        Some (sha_reset s3,
              concat (map (\<lambda>w. [ucast (drop_bit 24 w), ucast (drop_bit 16 w), ucast (drop_bit 8 w), ucast w])
                 (sh_state s3)))))))"

definition gitBlobBegin :: "sha1 \<Rightarrow> u32 \<Rightarrow> sha1 option" where
  "gitBlobBegin s blobSize =
     (let header = take 23 (''blob '' @ dec_digits (uint blobSize))
      in sha_update (sha_reset s) (Some (bytes_of header @ [0])))"

subsection \<open>Digests as text\<close>

definition hexValue :: "char \<Rightarrow> int" where
  "hexValue digit =
     (let n = of_char digit :: int
      in if 48 \<le> n \<and> n \<le> 57 then n - 48
         else if 97 \<le> n \<and> n \<le> 102 then n - 97 + 10
         else if 65 \<le> n \<and> n \<le> 70 then n - 65 + 10 else - 1)"

text \<open>A C string ends with a zero character, which reads as no digit.\<close>

definition char_at :: "string \<Rightarrow> nat \<Rightarrow> char" where
  "char_at text i = (if i < length text then text ! i else CHR 0x00)"

fun hex_loop :: "string \<Rightarrow> nat \<Rightarrow> nat \<Rightarrow> bytes option" where
  "hex_loop text index 0 = Some []"
| "hex_loop text index (Suc n) =
     (let high = hexValue (char_at text (2 * index));
          low = (if high < 0 then - 1 else hexValue (char_at text (2 * index + 1)))
      in if low < 0 then None
         else map_option (\<lambda>r. word_of_int (push_bit 4 high OR low) # r) (hex_loop text (Suc index) n))"

definition parseSha1Hex :: "string option \<Rightarrow> bytes option" where
  "parseSha1Hex text = (case text of None \<Rightarrow> None | Some t \<Rightarrow> hex_loop t 0 kDigestSize)"

definition formatSha1Hex :: "bytes \<Rightarrow> string" where
  "formatSha1Hex digest =
     concat (map (\<lambda>b. [''0123456789abcdef'' ! unat (drop_bit 4 b), ''0123456789abcdef'' ! unat (b AND 0x0F)])
       digest)"

subsection \<open>Streaming equals the one-shot hash\<close>

text \<open>
  The reference: SHA-1 of FIPS 180-4, on the whole message: pad it to a multiple of 64
  bytes with a one bit, zeros and the bit length, and compress block after block.
\<close>

function absorb :: "u32 list \<Rightarrow> bytes \<Rightarrow> u32 list" where
  "absorb st msg = (if length msg < 64 then st else absorb (sha_block (take 64 msg) st) (drop 64 msg))"
  by pat_completeness auto
termination by (relation "measure (length o snd)") auto

declare absorb.simps [simp del]

definition sha_digest :: "u32 list \<Rightarrow> bytes" where
  "sha_digest st =
     concat (map (\<lambda>w. [ucast (drop_bit 24 w), ucast (drop_bit 16 w), ucast (drop_bit 8 w), ucast w]) st)"

definition be64 :: "u64 \<Rightarrow> bytes" where
  "be64 v = map (\<lambda>i. ucast (drop_bit (56 - 8 * i) v)) [0..<8]"

definition sha_pad :: "bytes \<Rightarrow> bytes" where
  "sha_pad msg =
     msg @ [0x80] @ replicate ((119 - length msg mod 64) mod 64) 0 @ be64 (of_nat (8 * length msg))"

definition sha1_of :: "bytes \<Rightarrow> bytes" where
  "sha1_of msg = sha_digest (absorb sha_init (sha_pad msg))"

lemma absorb_short [simp]: "length msg < 64 \<Longrightarrow> absorb st msg = st"
  by (simp add: absorb.simps)

lemma absorb_one: "length d = 64 \<Longrightarrow> absorb st d = sha_block d st"
  by (subst absorb.simps) simp

lemma absorb_append:
  "64 dvd length a \<Longrightarrow> absorb st (a @ b) = absorb (absorb st a) b"
proof (induction st a rule: absorb.induct)
  case (1 st a)
  show ?case
  proof (cases "length a < 64")
    case True
    with 1(2) have "a = []" by (metis dvd_imp_le length_0_conv neq0_conv not_le)
    then show ?thesis by simp
  next
    case False
    with 1(2) have "64 dvd length (drop 64 a)" by (simp add: dvd_diff_nat)
    with 1(1) False show ?thesis
      by (simp add: absorb.simps [of st "a @ b"] absorb.simps [of st a])
  qed
qed

definition sha_repr :: "sha1 \<Rightarrow> bytes \<Rightarrow> bool" where
  "sha_repr s msg \<longleftrightarrow>
     sh_used s < 64 \<and> length (sh_buffer s) = 64 \<and>
     (\<exists>a. 64 dvd length a \<and> msg = a @ take (sh_used s) (sh_buffer s) \<and> sh_state s = absorb sha_init a)"

lemma sha_repr_used: "sha_repr s msg \<Longrightarrow> sh_used s = length msg mod 64"
  by (auto simp: sha_repr_def mod_add_left_eq [symmetric])

lemma sha_repr_state: "sha_repr s msg \<Longrightarrow> sh_state s = absorb sha_init msg"
  by (auto simp: sha_repr_def absorb_append)

lemma take_blit: "i + length ys \<le> length xs \<Longrightarrow> take (i + length ys) (blit xs i ys) = take i xs @ ys"
  by (simp add: blit_def)

lemma update_loop_repr:
  "sha_repr s msg \<Longrightarrow>
   \<exists>t. update_loop s data = Some t \<and> sha_repr t (msg @ data) \<and> sh_length t = sh_length s"
proof (induction "length data" arbitrary: s msg data rule: less_induct)
  case less
  show ?case
  proof (cases "data = []")
    case True
    with less.prems show ?thesis by (subst update_loop.simps) simp
  next
    case False
    define part where "part = (if length data < 64 - sh_used s then length data else 64 - sh_used s)"
    define s1 where "s1 = s\<lparr>sh_buffer := blit (sh_buffer s) (sh_used s) (take part data),
        sh_used := sh_used s + part\<rparr>"
    define s2 where "s2 = (if sh_used s1 = 64
        then s1\<lparr>sh_state := sha_block (sh_buffer s1) (sh_state s1), sh_used := 0\<rparr> else s1)"
    from less.prems obtain a where u: "sh_used s < 64" "length (sh_buffer s) = 64" "64 dvd length a"
      "msg = a @ take (sh_used s) (sh_buffer s)" "sh_state s = absorb sha_init a"
      by (auto simp: sha_repr_def)
    have part: "part \<le> length data" "sh_used s + part \<le> 64" "0 < part"
      using u False by (auto simp: part_def)
    then have buf: "take (sh_used s + part) (sh_buffer s1) = take (sh_used s) (sh_buffer s) @ take part data"
      "length (sh_buffer s1) = 64"
      using take_blit [of "sh_used s" "take part data" "sh_buffer s"] u by (auto simp: s1_def)
    have "sha_repr s2 (msg @ take part data)"
    proof (cases "sh_used s + part = 64")
      case True
      then have b: "sh_buffer s1 = take (sh_used s) (sh_buffer s) @ take part data"
        using buf by simp
      then have "absorb sha_init (a @ sh_buffer s1) = sha_block (sh_buffer s1) (absorb sha_init a)"
        using u(3) buf(2) by (simp only: absorb_append absorb_one)
      with True u b buf(2) show ?thesis
        by (auto simp: sha_repr_def s2_def s1_def intro!: exI [of _ "a @ sh_buffer s1"])
    next
      case False
      with u buf part show ?thesis
        by (auto simp: sha_repr_def s2_def s1_def intro!: exI [of _ a])
    qed
    from less.hyps [OF _ this, of "drop part data"] part False obtain t
      where "update_loop s2 (drop part data) = Some t" "sha_repr t (msg @ data)" "sh_length t = sh_length s2"
      by auto
    moreover have "update_loop s data = update_loop s2 (drop part data)"
      using False by (subst update_loop.simps) (simp add: Let_def part_def s1_def s2_def)
    moreover have "sh_length s2 = sh_length s" by (simp add: s1_def s2_def)
    ultimately show ?thesis by auto
  qed
qed

definition sha_streams :: "sha1 \<Rightarrow> bytes \<Rightarrow> bool" where
  "sha_streams s msg \<longleftrightarrow> sha_repr s msg \<and> sh_length s = of_nat (length msg)"

lemma sha_update_streams:
  "sha_streams s msg \<Longrightarrow> \<exists>t. sha_update s (Some data) = Some t \<and> sha_streams t (msg @ data)"
  using update_loop_repr [of "s\<lparr>sh_length := sh_length s + of_nat (length data)\<rparr>" msg data]
  by (auto simp: sha_streams_def sha_update_def sha_repr_def)

lemma zeros_to_56:
  "(120 - n mod 64) mod 64 = (if n mod 64 \<le> 56 then 56 - n mod 64 else 120 - n mod 64)" for n :: nat
proof (cases "n mod 64 \<le> 56")
  case True
  then have "120 - n mod 64 = 64 + (56 - n mod 64)" by simp
  moreover have "56 - n mod 64 < 64" by simp
  ultimately show ?thesis using True by (metis mod_add_self1 mod_less)
qed simp

lemma zero_loop_streams:
  "sha_streams s msg \<Longrightarrow>
   \<exists>t. zero_loop s = Some t \<and> sha_streams t (msg @ replicate ((120 - length msg mod 64) mod 64) 0)"
proof (induction "(120 - length msg mod 64) mod 64" arbitrary: s msg)
  case 0
  have "length msg mod 64 < 64" by simp
  with 0(1) have "length msg mod 64 = 56" unfolding zeros_to_56 by (auto split: if_splits)
  then have "sh_used s = 56" using sha_repr_used [of s msg] 0 by (simp add: sha_streams_def)
  with 0 show ?case by (subst zero_loop.simps) auto
next
  case (Suc k)
  have l: "length msg mod 64 < 64" by simp
  have n56: "length msg mod 64 \<noteq> 56" using Suc.hyps(2) unfolding zeros_to_56 by auto
  then have u: "sh_used s \<noteq> 56" using sha_repr_used [of s msg] Suc.prems by (simp add: sha_streams_def)
  obtain t where t: "sha_update s (Some [0]) = Some t" "sha_streams t (msg @ [0])"
    using sha_update_streams [OF Suc.prems] by blast
  have "Suc (length msg) mod 64 = (if length msg mod 64 = 63 then 0 else Suc (length msg mod 64))"
    by (simp add: mod_Suc)
  with Suc.hyps(2) n56 l have k: "k = (120 - length (msg @ [0]) mod 64) mod 64"
    unfolding zeros_to_56 by (auto split: if_splits)
  from Suc.hyps(1) [OF k t(2)] obtain r where
    r: "zero_loop t = Some r" "sha_streams r ((msg @ [0]) @ replicate k 0)" unfolding k [symmetric] by blast
  have "zero_loop s = Some r" using u t r by (subst zero_loop.simps) simp
  moreover have "(msg @ [0]) @ replicate k 0 = msg @ replicate (Suc k) 0" by simp
  ultimately show ?case using r(2) unfolding Suc.hyps(2) [symmetric] by metis
qed

lemma sha_finish_streams:
  assumes "sha_streams s msg"
  shows "\<exists>t. sha_finish s = Some (t, sha1_of msg) \<and> sha_streams t []"
proof -
  obtain s1 where s1: "sha_update s (Some [0x80]) = Some s1" "sha_streams s1 (msg @ [0x80])"
    using sha_update_streams [OF assms] by blast
  obtain s2 where s2: "zero_loop s1 = Some s2"
    "sha_streams s2 ((msg @ [0x80]) @ replicate ((120 - length (msg @ [0x80]) mod 64) mod 64) 0)"
    using zero_loop_streams [OF s1(2)] by blast
  have z: "(120 - length (msg @ [0x80]) mod 64) mod 64 = (119 - length msg mod 64) mod 64"
  proof (cases "length msg mod 64 = 63")
    case True
    then show ?thesis by (simp add: mod_Suc)
  next
    case False
    then show ?thesis by (simp add: mod_Suc)
  qed
  obtain s3 where s3: "sha_update s2 (Some (be64 (of_nat (8 * length msg)))) = Some s3"
    "sha_streams s3 (sha_pad msg)"
    using sha_update_streams [OF s2(2)] unfolding z sha_pad_def append_assoc by blast
  have bits: "sh_length s * 8 = of_nat (8 * length msg)"
    using assms by (simp add: sha_streams_def)
  have "sha_finish s = Some (sha_reset s3, sha1_of msg)"
    unfolding sha_finish_def Let_def s1 s2 bits be64_def [symmetric] bind.bind_lunit s3
    using s3(2) sha_repr_state [of s3 "sha_pad msg"]
    by (simp add: sha1_of_def sha_digest_def sha_streams_def)
  moreover have "sha_streams (sha_reset s3) []"
    using s3(2) by (auto simp: sha_streams_def sha_repr_def sha_reset_def)
  ultimately show ?thesis by blast
qed

text \<open>A client's calls: reset, any number of updates, finish.\<close>

fun sha_updates :: "sha1 \<Rightarrow> bytes list \<Rightarrow> sha1 option" where
  "sha_updates s [] = Some s"
| "sha_updates s (c # cs) = Option.bind (sha_update s (Some c)) (\<lambda>t. sha_updates t cs)"

lemma sha_updates_streams:
  "sha_streams s msg \<Longrightarrow> \<exists>t. sha_updates s cs = Some t \<and> sha_streams t (msg @ concat cs)"
proof (induction cs arbitrary: s msg)
  case (Cons c cs)
  obtain t where "sha_update s (Some c) = Some t" "sha_streams t (msg @ c)"
    using sha_update_streams [OF Cons.prems] by blast
  with Cons.IH [of t "msg @ c"] show ?case by simp
qed simp

lemma sha_reset_streams: "length (sh_buffer s) = 64 \<Longrightarrow> sha_streams (sha_reset s) []"
  by (auto simp: sha_streams_def sha_repr_def sha_reset_def)

text \<open>
  C24: However a message is cut into update calls, empty ones included, the calls return,
  finish gives the SHA-1 of the whole message and the object is reset, ready for the next
  message; none of the copies leaves the 64-byte buffer.
\<close>

theorem sha1_streaming:
  assumes "length (sh_buffer s) = 64"
  shows "\<exists>t u. sha_updates (sha_reset s) chunks = Some t \<and> sh_used t < 64 \<and> length (sh_buffer t) = 64 \<and>
    sha_finish t = Some (u, sha1_of (concat chunks)) \<and> length (sh_buffer u) = 64 \<and> sha_reset u = u"
proof -
  obtain t where t: "sha_updates (sha_reset s) chunks = Some t" "sha_streams t (concat chunks)"
    using sha_updates_streams [OF sha_reset_streams [OF assms]] by auto
  obtain u where "sha_finish t = Some (u, sha1_of (concat chunks))" "sha_streams u []"
    using sha_finish_streams [OF t(2)] by blast
  with t show ?thesis by (auto simp: sha_streams_def sha_repr_def sha_reset_def)
qed

theorem sha1_streaming_witness:
  "\<exists>t u. sha_updates (sha_reset \<lparr>sh_state = [], sh_length = 7, sh_buffer = replicate 64 0, sh_used = 3\<rparr>)
      [[1, 2], [], replicate 70 3] = Some t \<and>
    sha_finish t = Some (u, sha1_of ([1, 2] @ replicate 70 3))"
  using sha1_streaming [of "\<lparr>sh_state = [], sh_length = 7, sh_buffer = replicate 64 0, sh_used = 3\<rparr>"
      "[[1, 2], [], replicate 70 3]"] by auto

lemma dec_digits_length: "0 \<le> n \<Longrightarrow> n < 10 ^ k \<Longrightarrow> 0 < k \<Longrightarrow> length (dec_digits n) \<le> k"
proof (induction k arbitrary: n)
  case (Suc k)
  show ?case
  proof (cases "n < 10")
    case True
    then show ?thesis by (subst dec_digits.simps) simp
  next
    case False
    with Suc.prems have "0 < k" by (cases k) auto
    moreover have "n div 10 < 10 ^ k" using div_mult_mod_eq [of n 10] pos_mod_sign [of 10 n] Suc.prems(2)
      by simp
    ultimately have "length (dec_digits (n div 10)) \<le> k" using Suc.IH [of "n div 10"] Suc.prems by simp
    with False show ?thesis by (subst dec_digits.simps) simp
  qed
qed simp

text \<open>
  gitBlobBegin followed by the content, in any pieces, gives git's name of the file: the
  SHA-1 of the object \<open>blob <size>\<close>, a zero byte and the content; the header always fits its
  24-byte buffer.
\<close>

theorem git_blob_id:
  assumes "length (sh_buffer s) = 64"
  shows "\<exists>t u v. gitBlobBegin s n = Some t \<and> sha_updates t chunks = Some u \<and>
    sha_finish u = Some (v, sha1_of (bytes_of (''blob '' @ dec_digits (uint n)) @ [0] @ concat chunks))"
proof -
  have "uint n < 10 ^ 10" using uint_lt2p [of n] by simp
  then have "length (dec_digits (uint n)) \<le> 10" by (intro dec_digits_length) auto
  then have h: "take 23 (''blob '' @ dec_digits (uint n)) = ''blob '' @ dec_digits (uint n)" by simp
  obtain t where t: "gitBlobBegin s n = Some t"
    "sha_streams t (bytes_of (''blob '' @ dec_digits (uint n)) @ [0])"
    using sha_update_streams [OF sha_reset_streams [OF assms]] unfolding gitBlobBegin_def h Let_def
    by (metis append_Nil)
  obtain u where u: "sha_updates t chunks = Some u"
    "sha_streams u (bytes_of (''blob '' @ dec_digits (uint n)) @ [0] @ concat chunks)"
    using sha_updates_streams [OF t(2), of chunks] unfolding append_assoc by blast
  show ?thesis using sha_finish_streams [OF u(2)] t(1) u(1) by blast
qed

lemma d5: "dec_digits 5 = ''5''"
  by code_simp

theorem git_blob_id_witness:
  "\<exists>t u v. gitBlobBegin \<lparr>sh_state = [], sh_length = 0, sh_buffer = replicate 64 0, sh_used = 0\<rparr> 5 = Some t \<and>
    sha_updates t [[104, 101], [108, 108, 111]] = Some u \<and>
    sha_finish u = Some (v, sha1_of (bytes_of ''blob 5'' @ [0, 104, 101, 108, 108, 111]))"
  using git_blob_id [of "\<lparr>sh_state = [], sh_length = 0, sh_buffer = replicate 64 0, sh_used = 0\<rparr>" 5
      "[[104, 101], [108, 108, 111]]"]
  by (simp add: d5)

subsection \<open>Hexadecimal digests\<close>

definition lower_hex :: "char \<Rightarrow> char" where
  "lower_hex c = (let n = of_char c :: nat in if 65 \<le> n \<and> n \<le> 70 then char_of (n + 32) else c)"

lemma sixteen_cases:
  assumes "n < (16 :: nat)"
  shows "n \<in> {0, 1, 2, 3, 4, 5, 6, 7, 8, 9, 10, 11, 12, 13, 14, 15}"
  using assms by simp presburger

lemma hexValue_digit: "n < 16 \<Longrightarrow> hexValue (''0123456789abcdef'' ! n) = int n"
  using sixteen_cases [of n] by (auto simp: hexValue_def eval_nat_numeral)

lemma hexValue_range: "hexValue c < 16" "- 1 \<le> hexValue c"
  by (auto simp: hexValue_def Let_def)

lemma hexValue_char:
  assumes "0 \<le> hexValue c"
  shows "''0123456789abcdef'' ! nat (hexValue c) = lower_hex c"
proof -
  define n where "n = (of_char c :: nat)"
  have c: "c = char_of n" "n < 256" by (auto simp: n_def)
  then have i: "(of_char c :: int) = int n" by (simp only: n_def of_nat_of_char)
  from assms have "n \<in> {48, 49, 50, 51, 52, 53, 54, 55, 56, 57} \<union> {97, 98, 99, 100, 101, 102} \<union>
      {65, 66, 67, 68, 69, 70}"
    by (simp add: hexValue_def Let_def i split: if_splits) presburger+
  then have "''0123456789abcdef'' ! nat (hexValue (char_of n)) = lower_hex (char_of n)"
    by (elim UnE insertE emptyE; simp; code_simp)
  then show ?thesis by (simp add: c)
qed

lemma nibbles:
  assumes "0 \<le> h" "h < 16" "0 \<le> l" "l < (16 :: int)"
  defines "w \<equiv> (word_of_int (push_bit 4 h OR l) :: u8)"
  shows "unat (drop_bit 4 w) = nat h" and "unat (w AND 0x0F) = nat l"
proof -
  have t: "take_bit 4 h = h" "take_bit 4 l = l" using assms by (simp_all add: take_bit_int_eq_self)
  have w: "w = word_of_int (push_bit 4 (take_bit 4 h) OR take_bit 4 l)" by (simp add: w_def t)
  have m: "(0x0F :: u8) = mask 4" by (simp add: mask_eq_exp_minus_1)
  have "uint (drop_bit 4 w) = take_bit 4 h" "uint (w AND mask 4) = take_bit 4 l"
    unfolding w by (rule bit_eqI; auto simp: bit_simps)+
  then show "unat (drop_bit 4 w) = nat h" "unat (w AND 0x0F) = nat l"
    by (simp_all add: t m unat_eq_nat_uint)
qed

lemma nibbles_join:
  "word_of_int (push_bit 4 (uint (drop_bit 4 b)) OR uint (b AND 0x0F)) = (b :: u8)"
proof -
  have m: "(0x0F :: u8) = mask 4" by (simp add: mask_eq_exp_minus_1)
  have "bit b n \<Longrightarrow> \<not> bit b (4 + (n - 4)) \<Longrightarrow> n < 4" for n by (cases "n < 4") auto
  then show ?thesis unfolding m by (intro bit_word_eqI) (force simp: bit_simps)
qed

lemma nibble_bounds: "unat (drop_bit 4 (b :: u8)) < 16" "unat (b AND 0x0F) < 16"
proof -
  show "unat (drop_bit 4 b) < 16" using unat_u8 [of b]
    by (simp add: unsigned_drop_bit_eq take_bit_nat_eq_self) (simp add: drop_bit_nat_def)
  have "unat (b AND 0x0F) \<le> unat (0x0F :: u8)" by (metis word_and_le1 word_le_nat_alt)
  then show "unat (b AND 0x0F) < 16" by simp
qed

lemma hex_loop_format:
  "length p = 2 * i \<Longrightarrow> hex_loop (p @ formatSha1Hex d @ rest) i (length d) = Some d"
proof (induction d arbitrary: p i)
  case (Cons b d)
  let ?h = "''0123456789abcdef'' ! unat (drop_bit 4 b)" and ?l = "''0123456789abcdef'' ! unat (b AND 0x0F)"
  have f: "p @ formatSha1Hex (b # d) @ rest = (p @ [?h, ?l]) @ formatSha1Hex d @ rest"
    by (simp add: formatSha1Hex_def)
  have "hex_loop ((p @ [?h, ?l]) @ formatSha1Hex d @ rest) (Suc i) (length d) = Some d"
    using Cons.prems by (intro Cons.IH) simp
  moreover have "char_at ((p @ [?h, ?l]) @ formatSha1Hex d @ rest) (2 * i) = ?h"
    "char_at ((p @ [?h, ?l]) @ formatSha1Hex d @ rest) (Suc (2 * i)) = ?l"
    using Cons.prems by (simp_all add: char_at_def nth_append)
  ultimately show ?case unfolding f
    by (simp add: Let_def hexValue_digit nibble_bounds nibbles_join del: append_assoc)
qed simp

lemma char_at_digit: "0 \<le> hexValue (char_at t i) \<Longrightarrow> i < length t \<and> char_at t i = t ! i"
  by (auto simp: char_at_def hexValue_def Let_def split: if_splits)

lemma hex_loop_SomeD:
  "hex_loop t i n = Some d \<Longrightarrow>
   length d = n \<and> (n = 0 \<or> 2 * (i + n) \<le> length t) \<and>
   formatSha1Hex d = map lower_hex (take (2 * n) (drop (2 * i) t))"
proof (induction n arbitrary: i d)
  case 0
  then show ?case by (simp add: formatSha1Hex_def)
next
  case (Suc n)
  let ?h = "hexValue (char_at t (2 * i))" and ?l = "hexValue (char_at t (2 * i + 1))"
  from Suc.prems obtain r where hl: "0 \<le> ?h" "0 \<le> ?l" and d: "d = word_of_int (push_bit 4 ?h OR ?l) # r"
    and r: "hex_loop t (Suc i) n = Some r"
    by (auto simp: Let_def not_less split: if_splits)
  note ih = Suc.IH [OF r]
  have t: "2 * i + 1 < length t" "char_at t (2 * i) = t ! (2 * i)" "char_at t (2 * i + 1) = t ! (2 * i + 1)"
    using char_at_digit hl by blast+
  then have "drop (2 * i) t = t ! (2 * i) # t ! (2 * i + 1) # drop (2 * Suc i) t"
    by (simp add: Cons_nth_drop_Suc)
  moreover have "formatSha1Hex d = [lower_hex (t ! (2 * i)), lower_hex (t ! (2 * i + 1))] @ formatSha1Hex r"
    using hexValue_char [OF hl(1)] hexValue_char [OF hl(2)] hexValue_range hl
      nibbles [of ?h ?l] unfolding d t(2,3) by (simp add: formatSha1Hex_def)
  ultimately show ?case using ih t(1) d by auto
qed

text \<open>
  The 40 digits formatSha1Hex writes are read back by parseSha1Hex to the same digest,
  whatever follows them, and a text parseSha1Hex accepts has at least 40 characters, the
  first 40 of them hexadecimal digits that are, in lower case, exactly what formatSha1Hex
  writes for the digest read; a null pointer and a shorter text are refused.
\<close>

theorem sha1_hex_roundtrip:
  "(length d = 20 \<longrightarrow> parseSha1Hex (Some (formatSha1Hex d @ rest)) = Some d \<and> length (formatSha1Hex d) = 40) \<and>
   (parseSha1Hex input = Some d \<longrightarrow> (\<exists>t. input = Some t \<and> 40 \<le> length t \<and> length d = 20 \<and>
      formatSha1Hex d = map lower_hex (take 40 t)))"
proof -
  have "length (formatSha1Hex d) = 2 * length d"
    by (induction d) (auto simp: formatSha1Hex_def)
  then have "length d = 20 \<Longrightarrow>
      parseSha1Hex (Some (formatSha1Hex d @ rest)) = Some d \<and> length (formatSha1Hex d) = 40"
    using hex_loop_format [of "[]" 0 d rest] by (simp add: parseSha1Hex_def kDigestSize_def)
  moreover have "40 \<le> length t \<and> length d = 20 \<and> formatSha1Hex d = map lower_hex (take 40 t)"
    if "parseSha1Hex (Some t) = Some d" for t
    using hex_loop_SomeD [of t 0 20 d] that by (simp add: parseSha1Hex_def kDigestSize_def)
  moreover have "parseSha1Hex None \<noteq> Some d" by (simp add: parseSha1Hex_def)
  ultimately show ?thesis by (cases input) auto
qed

theorem sha1_hex_roundtrip_witness:
  "parseSha1Hex (Some (formatSha1Hex (replicate 20 0xAB))) = Some (replicate 20 0xAB)"
  using sha1_hex_roundtrip [of "replicate 20 0xAB" "[]" None] by simp

end
