(* ===== verification/Config.thy ===== *)
theory Config
  imports Prelude
begin

text \<open>
  \<open>src/config.cpp\<close>: the \<open>zifi.ini\<close> parser and the typed settings. C strings are lists of
  characters without the closing zero; \<open>cstr\<close> is where the code starts to read a character
  array as a C string. The fixed arrays of \<open>IniEntry\<close> are lists with the bounds that
  \<open>set\<close> checks; the invariant proves that every stored string fits its array.
\<close>

definition kIniMaxEntries :: nat where "kIniMaxEntries = 16"
definition kIniKeySize :: nat where "kIniKeySize = 24"
definition kIniValueSize :: nat where "kIniValueSize = 96"

record ini_entry =
  ie_key :: string
  ie_value :: string

type_synonym ini_config = "ini_entry list"

definition lowerAscii :: "char \<Rightarrow> char" where
  "lowerAscii ch =
     (let n = of_char ch :: nat in if 65 \<le> n \<and> n \<le> 90 then char_of (n + (97 - 65)) else ch)"

fun equalNoCase :: "string \<Rightarrow> string \<Rightarrow> bool" where
  "equalNoCase (l # ls) (r # rs) = (if lowerAscii l \<noteq> lowerAscii r then False else equalNoCase ls rs)"
| "equalNoCase ls rs = (ls = [] \<and> rs = [])"

definition cstr :: "string \<Rightarrow> string" where
  "cstr s = takeWhile (\<lambda>c. c \<noteq> CHR 0x00) s"

definition is_blank :: "char \<Rightarrow> bool" where
  "is_blank c \<longleftrightarrow> c = CHR '' '' \<or> c = CHR 0x09"

definition is_eol :: "char \<Rightarrow> bool" where
  "is_eol c \<longleftrightarrow> c = CHR 0x0D \<or> c = CHR 0x0A"

definition trim_right :: "string \<Rightarrow> string" where
  "trim_right s = rev (dropWhile is_blank (rev s))"

subsection \<open>The table of entries\<close>

fun find_entry :: "ini_config \<Rightarrow> string \<Rightarrow> nat" where
  "find_entry [] key = 0"
| "find_entry (e # es) key = (if equalNoCase (ie_key e) key then 0 else Suc (find_entry es key))"

definition ini_set :: "ini_config \<Rightarrow> string \<Rightarrow> string \<Rightarrow> bool \<times> ini_config" where
  "ini_set entries key v =
     (if length key \<ge> kIniKeySize \<or> length v \<ge> kIniValueSize then (False, entries)
      else
        let index = find_entry entries key; e = \<lparr>ie_key = key, ie_value = v\<rparr>
        in if index = length entries
           then (if length entries = kIniMaxEntries then (False, entries) else (True, entries @ [e]))
           else (True, entries[index := e]))"

fun ini_get :: "ini_config \<Rightarrow> string \<Rightarrow> string option \<Rightarrow> string option" where
  "ini_get [] key fallback = fallback"
| "ini_get (e # es) key fallback =
     (if equalNoCase (ie_key e) key then Some (ie_value e) else ini_get es key fallback)"

definition ini_ssid :: "ini_config \<Rightarrow> string" where
  "ini_ssid c = the (ini_get c ''ssid'' (Some []))"

definition ini_password :: "ini_config \<Rightarrow> string" where
  "ini_password c = the (ini_get c ''password'' (Some []))"

subsection \<open>Parsing\<close>

text \<open>One line: \<open>None\<close> where the loop continues with the next line.\<close>

definition line_value :: "string \<Rightarrow> string" where
  "line_value rest =
     (let v = dropWhile is_blank rest
      in case v of
           [] \<Rightarrow> trim_right v
         | c # q \<Rightarrow> if c = CHR 0x22 then takeWhile (\<lambda>x. x \<noteq> CHR 0x22) q else trim_right v)"

definition parse_line :: "string \<Rightarrow> (string \<times> string) option" where
  "parse_line line =
     (let begin = dropWhile is_blank (cstr line)
      in if begin = [] \<or> hd begin = CHR '';'' \<or> hd begin = CHR ''#'' then None
         else if CHR '':'' \<notin> set begin then None
         else
           let name = trim_right (takeWhile (\<lambda>c. c \<noteq> CHR '':'') begin);
               rest = tl (dropWhile (\<lambda>c. c \<noteq> CHR '':'') begin)
           in if name = [] then None
              else if \<exists>c \<in> set name. (of_char c :: nat) \<ge> 0x80 then None
              else Some (map lowerAscii name, line_value rest))"

function parse_lines :: "string \<Rightarrow> ini_config \<Rightarrow> (bool \<times> string) \<times> ini_config" where
  "parse_lines rest entries =
     (if rest = [] then ((True, ''''), entries)
      else
        let line = takeWhile (\<lambda>c. \<not> is_eol c) rest;
            rest1 = dropWhile is_eol (dropWhile (\<lambda>c. \<not> is_eol c) rest)
        in if length line > 159 then ((False, ''ini line too long''), entries)
           else case parse_line line of
                  None \<Rightarrow> parse_lines rest1 entries
                | Some (key, v) \<Rightarrow>
                    (case ini_set entries key v of
                       (False, _) \<Rightarrow> ((False, ''too many/long ini keys''), entries)
                     | (True, entries1) \<Rightarrow> parse_lines rest1 entries1))"
  by pat_completeness auto

lemma rest_shrinks:
  "xs \<noteq> [] \<Longrightarrow> length (dropWhile P (dropWhile (\<lambda>c. \<not> P c) xs)) < length xs"
proof -
  assume "xs \<noteq> []"
  then obtain y ys where "xs = y # ys" by (cases xs) auto
  then show ?thesis
    using length_dropWhile_le [of P ys] length_dropWhile_le [of "\<lambda>c. \<not> P c" ys]
      length_dropWhile_le [of P "dropWhile (\<lambda>c. \<not> P c) ys"]
    by auto
qed

termination parse_lines
  by (relation "measure (length o fst)") (auto simp: rest_shrinks)

declare parse_lines.simps [simp del]

definition ini_parse :: "bytes option \<Rightarrow> (bool \<times> string) \<times> ini_config" where
  "ini_parse data =
     (let d = (case data of None \<Rightarrow> [] | Some d \<Rightarrow> d);
          body = (if length d \<ge> 3 \<and> d ! 0 = 0xEF \<and> d ! 1 = 0xBB \<and> d ! 2 = 0xBF then drop 3 d else d);
          (r, entries) = parse_lines (map (\<lambda>b. char_of (unat b)) body) []
      in if \<not> fst r then (r, entries)
         else if ini_ssid entries = [] then ((False, ''no ssid''), entries)
         else if length (ini_ssid entries) > 32 then ((False, ''ssid too long''), entries)
         else if length (ini_password entries) > 63 then ((False, ''password too long''), entries)
         else ((True, ''''), entries))"

subsection \<open>Typed settings\<close>

text \<open>
  The accumulator is a 32-bit \<open>int\<close>; C++ leaves its overflow undefined, here it wraps as the
  additions and multiplications of the chip do.
\<close>

fun int_digits :: "string \<Rightarrow> 32 word \<Rightarrow> 32 word \<times> string" where
  "int_digits (c # cs) hours =
     (if is_digit c then int_digits cs (hours * 10 + word_of_int (digit_val c)) else (hours, c # cs))"
| "int_digits [] hours = (hours, [])"

definition timezoneHours :: "ini_config \<Rightarrow> int" where
  "timezoneHours c =
     (case ini_get c ''time'' (Some []) of
        None \<Rightarrow> 0
      | Some [] \<Rightarrow> 0
      | Some (s # ss) \<Rightarrow>
          let (sign, v) = (if s = CHR ''+'' then (1, ss) else if s = CHR ''-'' then (- 1, ss) else (1, s # ss))
          in if v = [] \<or> \<not> is_digit (hd v) then 0
             else
               let (hours, tail0) = int_digits v 0; tail = dropWhile is_blank tail0
               in if (tail \<noteq> [] \<and> hd tail \<noteq> CHR '';'' \<and> hd tail \<noteq> CHR ''#'') \<or> sint hours > 14 then 0
                  else signed_take_bit 7 (sign * sint hours))"

definition proxyHost :: "ini_config \<Rightarrow> string option" where
  "proxyHost c =
     (let host = ini_get c ''proxy_ip'' (Some [])
      in if host \<noteq> None \<and> host \<noteq> Some [] then host else ini_get c ''proxy_host'' (Some []))"

text \<open>\<open>strtoul\<close> of the C library in base 10, for the 32-bit \<open>unsigned long\<close> of the chip.\<close>

definition is_space :: "char \<Rightarrow> bool" where
  "is_space c \<longleftrightarrow> c \<in> {CHR '' '', CHR 0x09, CHR 0x0A, CHR 0x0B, CHR 0x0C, CHR 0x0D}"

definition digits_value :: "string \<Rightarrow> int" where
  "digits_value ds = foldl (\<lambda>n c. 10 * n + digit_val c) 0 ds"

definition strtoul10 :: "string \<Rightarrow> int" where
  "strtoul10 s =
     (let t = dropWhile is_space s;
          negative = (t \<noteq> [] \<and> hd t = CHR ''-'');
          u = (if t \<noteq> [] \<and> (hd t = CHR ''-'' \<or> hd t = CHR ''+'') then tl t else t);
          n = digits_value (takeWhile is_digit u)
      in if n > 4294967295 then 4294967295 else if negative then (- n) mod 2 ^ 32 else n)"

definition proxyPort :: "ini_config \<Rightarrow> int" where
  "proxyPort c =
     (case ini_get c ''proxy_port'' (Some []) of
        None \<Rightarrow> 49281
      | Some [] \<Rightarrow> 49281
      | Some s \<Rightarrow> let v = strtoul10 s in if v = 0 \<or> v > 65535 then 49281 else v)"

subsection \<open>The table is a map with case-insensitive keys\<close>

lemma equalNoCase_iff: "equalNoCase l r = (map lowerAscii l = map lowerAscii r)"
  by (induction l r rule: equalNoCase.induct) auto

lemma find_entry_le: "find_entry es key \<le> length es"
  by (induction es) auto

lemma find_entry_nth:
  "find_entry es key < length es \<Longrightarrow> equalNoCase (ie_key (es ! find_entry es key)) key"
  by (induction es) auto

lemma ini_get_append:
  "ini_get (es @ fs) key fb = ini_get es key (ini_get fs key fb)"
  by (induction es) auto

definition folded :: "ini_config \<Rightarrow> string list" where
  "folded es = map (map lowerAscii o ie_key) es"

definition ini_inv :: "ini_config \<Rightarrow> bool" where
  "ini_inv es \<longleftrightarrow> length es \<le> kIniMaxEntries \<and> distinct (folded es) \<and>
     (\<forall>e \<in> set es. length (ie_key e) < kIniKeySize \<and> length (ie_value e) < kIniValueSize)"

lemma ini_inv_empty [inv_intros]: "ini_inv []"
  by (simp add: ini_inv_def folded_def)

lemma find_entry_absent:
  "find_entry es key = length es \<longleftrightarrow> map lowerAscii key \<notin> set (folded es)"
  by (induction es) (auto simp: folded_def equalNoCase_iff)

lemma ini_get_absent:
  "map lowerAscii key \<notin> set (folded es) \<Longrightarrow> ini_get es key fb = fb"
  by (induction es) (auto simp: folded_def equalNoCase_iff)

lemma ini_get_update:
  "find_entry es key < length es \<Longrightarrow>
   ini_get (es[find_entry es key := \<lparr>ie_key = key, ie_value = v\<rparr>]) k fb =
     (if equalNoCase key k then Some v else ini_get es k fb)"
  by (induction es) (auto simp: equalNoCase_iff)

lemma folded_update:
  "find_entry es key < length es \<Longrightarrow>
   folded (es[find_entry es key := \<lparr>ie_key = key, ie_value = v\<rparr>]) = folded es"
  by (induction es) (auto simp: folded_def equalNoCase_iff)

lemma ini_set_get:
  "ini_set es key v = (True, es') \<Longrightarrow>
   ini_get es' k fb = (if equalNoCase key k then Some v else ini_get es k fb)"
  using find_entry_le [of es key] find_entry_absent [of es key] ini_get_absent [of k es "Some v"]
  by (auto simp: ini_set_def Let_def ini_get_append ini_get_update equalNoCase_iff le_less split: if_splits)

lemma ini_set_ok_iff:
  "ini_inv es \<Longrightarrow> fst (ini_set es key v) \<longleftrightarrow> length key < kIniKeySize \<and> length v < kIniValueSize \<and>
     (map lowerAscii key \<in> set (folded es) \<or> length es < kIniMaxEntries)"
  using find_entry_le [of es key] find_entry_absent [of es key]
  by (auto simp: ini_set_def Let_def ini_inv_def)

lemma ini_set_fail: "ini_set es key v = (False, es') \<Longrightarrow> es' = es"
  by (auto simp: ini_set_def Let_def split: if_splits)

lemma ini_set_inv [inv_intros]:
  assumes "ini_inv es"
  shows "ini_inv (snd (ini_set es key v))"
proof (cases "length key \<ge> kIniKeySize \<or> length v \<ge> kIniValueSize")
  case False
  let ?e = "\<lparr>ie_key = key, ie_value = v\<rparr>"
  consider "find_entry es key = length es" | "find_entry es key < length es"
    using find_entry_le [of es key] by linarith
  then show ?thesis
  proof cases
    case 1
    then have "map lowerAscii key \<notin> set (folded es)" by (simp add: find_entry_absent)
    with 1 False assms show ?thesis
      by (auto simp: ini_set_def Let_def ini_inv_def folded_def)
  next
    case 2
    from False assms have "\<forall>e \<in> set (es[find_entry es key := ?e]).
        length (ie_key e) < kIniKeySize \<and> length (ie_value e) < kIniValueSize"
      by (auto simp: ini_inv_def dest!: set_update_subset_insert [THEN subsetD])
    with 2 False assms show ?thesis
      by (auto simp: ini_set_def Let_def ini_inv_def folded_update)
  qed
qed (use assms in \<open>auto simp: ini_set_def\<close>)

lemma ini_set_inv_result: "ini_inv es \<Longrightarrow> ini_set es key v = (ok, es') \<Longrightarrow> ini_inv es'"
  using ini_set_inv [of es key v] by simp

text \<open>
  \<open>set\<close> and \<open>get\<close> make the entry array a map whose keys do not depend on letter case:
  set succeeds exactly when key and value fit their arrays and the key is present or one
  of the 16 entries is free; then get returns the new value for that key and the former
  value for every other, and a failing set changes nothing. The invariant (at most 16
  entries, no key twice, every string within its array) is kept.
\<close>

theorem ini_set_get_correct:
  assumes "ini_inv es"
  shows "(fst (ini_set es key v) \<longleftrightarrow> length key < 24 \<and> length v < 96 \<and>
           (map lowerAscii key \<in> set (folded es) \<or> length es < 16)) \<and>
     (\<forall>k fb. ini_get (snd (ini_set es key v)) k fb =
        (if fst (ini_set es key v) \<and> map lowerAscii key = map lowerAscii k then Some v
         else ini_get es k fb)) \<and>
     ini_inv (snd (ini_set es key v))"
proof -
  obtain ok es' where r: "ini_set es key v = (ok, es')" by fastforce
  have "ini_get es' k fb = (if ok \<and> map lowerAscii key = map lowerAscii k then Some v else ini_get es k fb)"
    for k fb using ini_set_get [of es key v es' k fb] ini_set_fail [of es key v es'] r
    by (cases ok) (auto simp: equalNoCase_iff)
  then show ?thesis using ini_set_ok_iff [OF assms, of key v] ini_set_inv [OF assms, of key v]
    by (simp add: r kIniKeySize_def kIniValueSize_def kIniMaxEntries_def)
qed

theorem ini_set_get_correct_witness:
  "ini_get (snd (ini_set [\<lparr>ie_key = ''ssid'', ie_value = ''old''\<rparr>] ''SSID'' ''new'')) ''Ssid'' None = Some ''new''"
proof -
  have "ini_inv [\<lparr>ie_key = ''ssid'', ie_value = ''old''\<rparr>]"
    by (simp add: ini_inv_def folded_def kIniKeySize_def kIniValueSize_def kIniMaxEntries_def)
  note c = ini_set_get_correct [OF this, of "''SSID''" "''new''"]
  have "fst (ini_set [\<lparr>ie_key = ''ssid'', ie_value = ''old''\<rparr>] ''SSID'' ''new'')"
    "map lowerAscii ''SSID'' = map lowerAscii ''Ssid''" by code_simp+
  with c show ?thesis by metis
qed

lemma parse_lines_inv [inv_intros]:
  "ini_inv es \<Longrightarrow> ini_inv (snd (parse_lines rest es))"
proof (induction rest es rule: parse_lines.induct)
  case (1 rest es)
  show ?case
    using 1(1,2) [OF _ refl refl] 1(3)
    by (subst parse_lines.simps)
      (auto simp: Let_def ini_set_inv_result split: option.splits prod.splits bool.splits)
qed

text \<open>
  C25: Whatever bytes the file holds, parsing leaves a table that satisfies the invariant,
  so no stored string overruns its array; parsing succeeds only with an SSID of 1 to 32
  characters and a password of at most 63, and otherwise reports one of the messages of
  the code.
\<close>

theorem ini_parse_safe:
  "ini_inv (snd (ini_parse data)) \<and>
   (fst (fst (ini_parse data)) \<longrightarrow>
      1 \<le> length (ini_ssid (snd (ini_parse data))) \<and> length (ini_ssid (snd (ini_parse data))) \<le> 32 \<and>
      length (ini_password (snd (ini_parse data))) \<le> 63) \<and>
   (\<not> fst (fst (ini_parse data)) \<longrightarrow> snd (fst (ini_parse data)) \<in>
      {''ini line too long'', ''too many/long ini keys'', ''no ssid'', ''ssid too long'', ''password too long''})"
proof -
  have e: "fst (fst (parse_lines r es)) \<or>
      snd (fst (parse_lines r es)) \<in> {''ini line too long'', ''too many/long ini keys''}" for r es
  proof (induction r es rule: parse_lines.induct)
    case (1 rest es)
    then show ?case
      by (subst (1 2) parse_lines.simps) (simp add: Let_def split: option.splits prod.splits bool.splits)
  qed
  define r where "r = parse_lines (map (\<lambda>b. char_of (unat b))
    (let d = (case data of None \<Rightarrow> [] | Some d \<Rightarrow> d) in
     if length d \<ge> 3 \<and> d ! 0 = 0xEF \<and> d ! 1 = 0xBB \<and> d ! 2 = 0xBF then drop 3 d else d)) []"
  have "ini_inv (snd r)" unfolding r_def by (intro inv_intros)
  moreover have "fst (fst r) \<or> snd (fst r) \<in> {''ini line too long'', ''too many/long ini keys''}"
    unfolding r_def by (rule e)
  moreover have "ini_parse data = (if \<not> fst (fst r) then r
         else if ini_ssid (snd r) = [] then ((False, ''no ssid''), snd r)
         else if length (ini_ssid (snd r)) > 32 then ((False, ''ssid too long''), snd r)
         else if length (ini_password (snd r)) > 63 then ((False, ''password too long''), snd r)
         else ((True, ''''), snd r))"
    unfolding ini_parse_def r_def Let_def by (simp split: prod.splits)
  ultimately show ?thesis by (auto simp: Suc_le_eq)
qed

theorem ini_parse_safe_witness:
  "fst (fst (ini_parse (Some (bytes_of ''ssid: home'')))) \<and>
   1 \<le> length (ini_ssid (snd (ini_parse (Some (bytes_of ''ssid: home'')))))"
proof -
  have "fst (fst (ini_parse (Some (bytes_of ''ssid: home''))))" by code_simp
  then show ?thesis using ini_parse_safe [of "Some (bytes_of ''ssid: home'')"] by blast
qed

subsection \<open>Files written by hand\<close>

text \<open>A plain line \<open>key: value\<close>, as users write them.\<close>

definition plain_key :: "string \<Rightarrow> bool" where
  "plain_key k \<longleftrightarrow> k \<noteq> [] \<and> \<not> is_blank (hd k) \<and> \<not> is_blank (last k) \<and> hd k \<noteq> CHR '';'' \<and> hd k \<noteq> CHR ''#'' \<and>
     length k < 24 \<and> (\<forall>c \<in> set k. c \<noteq> CHR '':'' \<and> c \<noteq> CHR 0x00 \<and> \<not> is_eol c \<and> (of_char c :: nat) < 0x80)"

definition plain_value :: "string \<Rightarrow> bool" where
  "plain_value v \<longleftrightarrow> length v < 96 \<and> (v \<noteq> [] \<longrightarrow> \<not> is_blank (hd v) \<and> \<not> is_blank (last v) \<and> hd v \<noteq> CHR 0x22) \<and>
     (\<forall>c \<in> set v. c \<noteq> CHR 0x00 \<and> \<not> is_eol c)"

definition ini_line :: "string \<times> string \<Rightarrow> string" where
  "ini_line kv = fst kv @ '': '' @ snd kv"

definition ini_text :: "(string \<times> string) list \<Rightarrow> string" where
  "ini_text kvs = concat (map (\<lambda>kv. ini_line kv @ [CHR 0x0D, CHR 0x0A]) kvs)"

lemma lowerAscii_idem [simp]: "lowerAscii (lowerAscii c) = lowerAscii c"
  by (auto simp: lowerAscii_def Let_def)

lemma trim_right_last: "s = [] \<or> \<not> is_blank (last s) \<Longrightarrow> trim_right s = s"
  by (cases s rule: rev_cases) (auto simp: trim_right_def)

lemma dropWhile_head: "s = [] \<or> \<not> P (hd s) \<Longrightarrow> dropWhile P s = s"
  by (cases s) auto

lemma takeWhile_head: "s = [] \<or> \<not> P (hd s) \<Longrightarrow> takeWhile P s = []"
  by (cases s) auto

lemma is_blank_nul: "\<not> is_blank CHR 0x00" "\<not> is_blank CHR '':''" "is_blank CHR '' ''"
  by (auto simp: is_blank_def)

lemma parse_plain_line:
  assumes k: "plain_key k" and v: "plain_value v"
  shows "parse_line (ini_line (k, v)) = Some (map lowerAscii k, v)"
proof -
  have c: "cstr (ini_line (k, v)) = k @ '': '' @ v"
    using k v by (auto simp: cstr_def ini_line_def plain_key_def plain_value_def takeWhile_eq_all_conv)
  have "k \<noteq> []" "\<not> is_blank (hd k)" using k by (auto simp: plain_key_def)
  then have b: "dropWhile is_blank (k @ '': '' @ v) = k @ '': '' @ v" by (intro dropWhile_head) simp
  have nc: "takeWhile (\<lambda>c. c \<noteq> CHR '':'') (k @ '': '' @ v) = k"
    "dropWhile (\<lambda>c. c \<noteq> CHR '':'') (k @ '': '' @ v) = '': '' @ v"
    using k by (auto simp: plain_key_def takeWhile_append dropWhile_append)
  have "dropWhile is_blank v = v" using v by (intro dropWhile_head) (auto simp: plain_value_def)
  moreover have "v \<noteq> [] \<Longrightarrow> hd v \<noteq> CHR 0x22" and tv: "trim_right v = v"
    using v by (auto simp: plain_value_def intro!: trim_right_last)
  ultimately have "line_value ('' '' @ v) = v"
    by (auto simp: line_value_def is_blank_nul Let_def split: list.splits)
  moreover have "trim_right k = k" using k by (intro trim_right_last) (simp add: plain_key_def)
  moreover have "\<not> (\<exists>c \<in> set k. (of_char c :: nat) \<ge> 0x80)" using k by (auto simp: plain_key_def not_le)
  moreover have "hd k \<noteq> CHR '';''" "hd k \<noteq> CHR ''#''" using k by (auto simp: plain_key_def)
  ultimately show ?thesis using \<open>k \<noteq> []\<close>
    unfolding parse_line_def c b Let_def nc by simp
qed

definition ini_sets :: "(string \<times> string) list \<Rightarrow> ini_config \<Rightarrow> ini_config" where
  "ini_sets kvs es = foldl (\<lambda>es (k, v). snd (ini_set es (map lowerAscii k) v)) es kvs"

lemma plain_no_eol:
  "plain_key k \<Longrightarrow> c \<in> set k \<Longrightarrow> \<not> is_eol c"
  "plain_value v \<Longrightarrow> c \<in> set v \<Longrightarrow> \<not> is_eol c"
  "plain_key k \<Longrightarrow> k \<noteq> [] \<and> \<not> is_eol (hd k)"
  unfolding plain_key_def plain_value_def by (blast, blast, metis list.set_sel(1))

lemma is_eol_sep: "\<not> is_eol CHR '':''" "\<not> is_eol CHR '' ''"
  by (simp_all add: is_eol_def)

lemma ini_text_head:
  assumes "\<forall>(k, v) \<in> set kvs. plain_key k \<and> plain_value v"
  shows "ini_text kvs = [] \<or> \<not> is_eol (hd (ini_text kvs))"
proof (cases kvs)
  case (Cons kv kvs')
  then have "plain_key (fst kv)" using assms by auto
  then have "fst kv \<noteq> []" "\<not> is_eol (hd (fst kv))" using plain_no_eol(3) by blast+
  with Cons show ?thesis by (simp add: ini_text_def ini_line_def)
qed (simp add: ini_text_def)

lemma parse_lines_step:
  assumes k: "plain_key k" and v: "plain_value v" and set: "ini_set es (map lowerAscii k) v = (True, es')"
    and rest: "rest = [] \<or> \<not> is_eol (hd rest)"
  shows "parse_lines ((ini_line (k, v) @ [CHR 0x0D, CHR 0x0A]) @ rest) es = parse_lines rest es'"
proof -
  have n: "\<forall>c \<in> set (ini_line (k, v)). \<not> is_eol c"
    using plain_no_eol(1) [OF k] plain_no_eol(2) [OF v] by (auto simp: ini_line_def is_eol_sep)
  then have t: "takeWhile (\<lambda>c. \<not> is_eol c) ((ini_line (k, v) @ [CHR 0x0D, CHR 0x0A]) @ rest) = ini_line (k, v)"
    and d: "dropWhile (\<lambda>c. \<not> is_eol c) ((ini_line (k, v) @ [CHR 0x0D, CHR 0x0A]) @ rest) =
      [CHR 0x0D, CHR 0x0A] @ rest"
    by (auto simp: takeWhile_append dropWhile_append is_eol_def)
  have r: "dropWhile is_eol ([CHR 0x0D, CHR 0x0A] @ rest) = rest"
    using rest by (auto simp: is_eol_def intro: dropWhile_head)
  have "length (ini_line (k, v)) \<le> 159"
    using k v by (simp add: ini_line_def plain_key_def plain_value_def)
  then have l: "\<not> 159 < length (ini_line (k, v))" by simp
  have ne: "(ini_line (k, v) @ [CHR 0x0D, CHR 0x0A]) @ rest \<noteq> []" by simp
  show ?thesis
    unfolding parse_lines.simps [of "(ini_line (k, v) @ [CHR 0x0D, CHR 0x0A]) @ rest"] Let_def t d r
    by (simp only: ne l if_False parse_plain_line [OF k v] set option.case prod.case bool.case)
qed

lemma parse_lines_text:
  assumes "\<forall>(k, v) \<in> set kvs. plain_key k \<and> plain_value v" "ini_inv es" "length es + length kvs \<le> 16"
  shows "parse_lines (ini_text kvs) es = ((True, ''''), ini_sets kvs es) \<and> ini_inv (ini_sets kvs es)"
  using assms
proof (induction kvs arbitrary: es)
  case Nil
  then show ?case by (simp add: ini_text_def ini_sets_def parse_lines.simps)
next
  case (Cons kv kvs)
  obtain k v where kv: "kv = (k, v)" by fastforce
  have p: "plain_key k" "plain_value v" using Cons.prems by (auto simp: kv)
  obtain ok es' where set: "ini_set es (map lowerAscii k) v = (ok, es')" by fastforce
  have ok: "ok" using ini_set_ok_iff [OF Cons.prems(2), of "map lowerAscii k" v] p Cons.prems(3) set
    by (auto simp: plain_key_def plain_value_def kIniKeySize_def kIniValueSize_def kIniMaxEntries_def)
  have inv: "ini_inv es'" using ini_set_inv_result [OF Cons.prems(2) set] .
  have "length es' \<le> length es + 1" using set by (auto simp: ini_set_def Let_def split: if_splits)
  then have ih: "parse_lines (ini_text kvs) es' = ((True, ''''), ini_sets kvs es') \<and> ini_inv (ini_sets kvs es')"
    using Cons.prems inv by (intro Cons.IH) auto
  have "ini_text kvs = [] \<or> \<not> is_eol (hd (ini_text kvs))"
    using ini_text_head [of kvs] Cons.prems(1) by simp
  then have "parse_lines (ini_text (kv # kvs)) es = parse_lines (ini_text kvs) es'"
    using parse_lines_step [OF p set [unfolded eqTrueI [OF ok]]] by (simp add: ini_text_def kv)
  with ih show ?case by (simp add: ini_sets_def kv set)
qed

lemma ini_sets_get:
  assumes "\<forall>(k, v) \<in> set kvs. plain_key k \<and> plain_value v" "ini_inv es" "length es + length kvs \<le> 16"
  shows "ini_get (ini_sets kvs es) key fb =
    (case map_of (rev (map (\<lambda>(k, v). (map lowerAscii k, v)) kvs)) (map lowerAscii key) of
       Some v \<Rightarrow> Some v | None \<Rightarrow> ini_get es key fb)"
  using assms
proof (induction kvs arbitrary: es)
  case Nil
  then show ?case by (simp add: ini_sets_def)
next
  case (Cons kv kvs)
  obtain k v where kv: "kv = (k, v)" by fastforce
  have p: "plain_key k" "plain_value v" using Cons.prems by (auto simp: kv)
  obtain ok es' where set: "ini_set es (map lowerAscii k) v = (ok, es')" by fastforce
  have ok: "ok" using ini_set_ok_iff [OF Cons.prems(2), of "map lowerAscii k" v] p Cons.prems(3) set
    by (auto simp: plain_key_def plain_value_def kIniKeySize_def kIniValueSize_def kIniMaxEntries_def)
  have inv: "ini_inv es'" using ini_set_inv_result [OF Cons.prems(2) set] .
  have "length es' \<le> length es + 1" using set by (auto simp: ini_set_def Let_def split: if_splits)
  then have "ini_get (ini_sets kvs es') key fb =
      (case map_of (rev (map (\<lambda>(k, v). (map lowerAscii k, v)) kvs)) (map lowerAscii key) of
       Some v \<Rightarrow> Some v | None \<Rightarrow> ini_get es' key fb)"
    using Cons.prems inv by (intro Cons.IH) auto
  moreover have "ini_get es' key fb = (if map lowerAscii key = map lowerAscii k then Some v else ini_get es key fb)"
    using ini_set_get [of es "map lowerAscii k" v es' key fb] set ok
    by (auto simp: equalNoCase_iff comp_def)
  ultimately show ?case
    by (auto simp: ini_sets_def kv set map_add_def split: option.splits)
qed

text \<open>
  A file of at most 16 plain lines \<open>key: value\<close>, with or without a UTF-8 byte order
  mark, is read completely: afterwards get returns, for a key in any letter case, the
  value of the last line with that key, and parsing succeeds exactly when the SSID and the
  password it set have acceptable lengths.
\<close>

theorem ini_text_roundtrip:
  assumes "\<forall>(k, v) \<in> set kvs. plain_key k \<and> plain_value v" "length kvs \<le> 16"
  shows "\<exists>r es. ini_parse (Some ((if bom then [0xEF, 0xBB, 0xBF] else []) @ bytes_of (ini_text kvs))) = (r, es) \<and>
    (\<forall>key fb. ini_get es key fb =
       (case map_of (rev (map (\<lambda>(k, v). (map lowerAscii k, v)) kvs)) (map lowerAscii key) of
          Some v \<Rightarrow> Some v | None \<Rightarrow> fb)) \<and>
    (fst r \<longleftrightarrow> ini_ssid es \<noteq> [] \<and> length (ini_ssid es) \<le> 32 \<and> length (ini_password es) \<le> 63)"
proof -
  let ?d = "(if bom then [0xEF, 0xBB, 0xBF] else []) @ bytes_of (ini_text kvs)"
  define body where "body = (if length ?d \<ge> 3 \<and> ?d ! 0 = 0xEF \<and> ?d ! 1 = 0xBB \<and> ?d ! 2 = 0xBF then drop 3 ?d else ?d)"
  have "body = bytes_of (ini_text kvs)"
  proof (cases bom)
    case False
    have "bytes_of (ini_text kvs) ! 0 \<noteq> 0xEF" if "3 \<le> length (bytes_of (ini_text kvs))"
    proof (cases kvs)
      case Nil
      then show ?thesis using that by (simp add: ini_text_def bytes_of_def)
    next
      case (Cons kv kvs')
      obtain k v where "kv = (k, v)" by fastforce
      with Cons assms(1) have k: "plain_key k" by auto
      then obtain c cs where c: "k = c # cs" "(of_char c :: nat) < 0x80" by (cases k) (auto simp: plain_key_def)
      have "bytes_of (ini_text kvs) ! 0 = chr c"
        using c Cons \<open>kv = (k, v)\<close> by (simp add: ini_text_def ini_line_def bytes_of_def)
      moreover have "unat (chr c) \<noteq> unat (0xEF :: u8)" using c by simp
      ultimately show ?thesis by metis
    qed
    with False show ?thesis by (auto simp: body_def)
  qed (simp add: body_def)
  then have b: "map (\<lambda>b. char_of (unat b)) body = ini_text kvs" by (simp add: chars_bytes)
  have p: "parse_lines (ini_text kvs) [] = ((True, ''''), ini_sets kvs [])"
    using parse_lines_text [OF assms(1) ini_inv_empty] assms(2) by simp
  define es where "es = ini_sets kvs []"
  have "snd (ini_parse (Some ?d)) = es \<and> (fst (fst (ini_parse (Some ?d))) \<longleftrightarrow>
      ini_ssid es \<noteq> [] \<and> length (ini_ssid es) \<le> 32 \<and> length (ini_password es) \<le> 63)"
    unfolding ini_parse_def Let_def option.case body_def [symmetric] b p es_def by simp
  then show ?thesis using ini_sets_get [OF assms(1) ini_inv_empty] assms(2)
    unfolding es_def [symmetric] by (metis (no_types, lifting) add.left_neutral ini_get.simps(1) list.size(3) prod.collapse)
qed

theorem ini_text_roundtrip_witness:
  "\<exists>r es. ini_parse (Some ([0xEF, 0xBB, 0xBF] @ bytes_of (ini_text [(''SSID'', ''home''), (''time'', ''+3'')]))) = (r, es) \<and>
     fst r \<and> ini_get es ''ssid'' None = Some ''home''"
proof -
  have p: "\<forall>(k, v) \<in> set [(''SSID'', ''home''), (''time'', ''+3'')]. plain_key k \<and> plain_value v"
    by (simp add: plain_key_def plain_value_def is_blank_def is_eol_def)
  have l: "map lowerAscii ''SSID'' = ''ssid''" "map lowerAscii ''ssid'' = ''ssid''" "map lowerAscii ''time'' = ''time''"
    "map lowerAscii ''password'' = ''password''"
    by code_simp+
  have n: "length [(''SSID'', ''home''), (''time'', ''+3'')] \<le> 16" by simp
  from ini_text_roundtrip [OF p n, of True, unfolded if_True] obtain r es
    where e: "ini_parse (Some ([0xEF, 0xBB, 0xBF] @ bytes_of (ini_text [(''SSID'', ''home''), (''time'', ''+3'')]))) = (r, es)"
      and g: "\<forall>key fb. ini_get es key fb =
       (case map_of (rev (map (\<lambda>(k, v). (map lowerAscii k, v)) [(''SSID'', ''home''), (''time'', ''+3'')])) (map lowerAscii key) of
          Some v \<Rightarrow> Some v | None \<Rightarrow> fb)"
      and f: "fst r \<longleftrightarrow> ini_ssid es \<noteq> [] \<and> length (ini_ssid es) \<le> 32 \<and> length (ini_password es) \<le> 63"
    by blast
  have "ini_get es ''ssid'' (Some []) = Some ''home''" "ini_get es ''password'' (Some []) = Some []"
    "ini_get es ''ssid'' None = Some ''home''"
    unfolding g [THEN spec, THEN spec] by code_simp+
  with e f show ?thesis by (simp add: ini_ssid_def ini_password_def)
qed

subsection \<open>Numbers in settings\<close>

lemma not_digits:
  "\<not> is_digit CHR '' ''" "\<not> is_digit CHR 0x09" "\<not> is_digit CHR '';''" "\<not> is_digit CHR ''#''"
  "\<not> is_digit CHR ''+''" "\<not> is_digit CHR ''-''"
  by code_simp+

lemma is_space_not_digit: "is_space c \<Longrightarrow> \<not> is_digit c"
proof -
  have "\<not> is_digit CHR 0x0A" "\<not> is_digit CHR 0x0B" "\<not> is_digit CHR 0x0C" "\<not> is_digit CHR 0x0D"
    by code_simp+
  then show "is_space c \<Longrightarrow> \<not> is_digit c" using not_digits unfolding is_space_def by blast
qed

lemma blank_not_digit: "is_blank c \<Longrightarrow> \<not> is_digit c"
  using not_digits unfolding is_blank_def by blast

lemma digit_val_bounds: "is_digit c \<Longrightarrow> 0 \<le> digit_val c \<and> digit_val c \<le> 9"
proof -
  assume "is_digit c"
  then have "48 \<le> (of_char c :: nat)" "(of_char c :: nat) \<le> 57" by (auto simp: is_digit_def)
  moreover have "(of_char c :: int) = int (of_char c)" by (simp only: of_nat_of_char)
  ultimately show ?thesis unfolding digit_val_def by linarith
qed

lemma digits_value_snoc: "digits_value (ds @ [c]) = 10 * digits_value ds + digit_val c"
  by (simp add: digits_value_def)

lemma digits_value_bounds:
  "list_all is_digit ds \<Longrightarrow> 0 \<le> digits_value ds \<and> digits_value ds < 10 ^ length ds"
proof (induction ds rule: rev_induct)
  case (snoc c ds)
  then show ?case using digit_val_bounds [of c] by (simp add: digits_value_snoc)
qed (simp add: digits_value_def)

lemma int_digits_eq:
  "int_digits s (word_of_int h) =
     (word_of_int (foldl (\<lambda>n c. 10 * n + digit_val c) h (takeWhile is_digit s)), dropWhile is_digit s)"
proof (induction s arbitrary: h)
  case (Cons c s)
  have "word_of_int h * 10 + word_of_int (digit_val c) = (word_of_int (10 * h + digit_val c) :: 32 word)"
    by (simp add: mult.commute)
  show ?case
  proof (cases "is_digit c")
    case True
    have "int_digits (c # s) (word_of_int h) = int_digits s (word_of_int (10 * h + digit_val c))"
      using True \<open>word_of_int h * 10 + word_of_int (digit_val c) = _\<close> by (simp only: int_digits.simps if_True)
    then show ?thesis unfolding Cons.IH using True by simp
  qed simp
qed simp

lemma int_digits_0:
  "int_digits s 0 = (word_of_int (digits_value (takeWhile is_digit s)), dropWhile is_digit s)"
  using int_digits_eq [of s 0] by (simp add: digits_value_def)

lemma sint_digits:
  assumes "list_all is_digit ds" "length ds \<le> 9"
  shows "sint (word_of_int (digits_value ds) :: 32 word) = digits_value ds"
proof -
  have "(10 :: int) ^ length ds \<le> 10 ^ 9" using assms(2) by (intro power_increasing) auto
  with digits_value_bounds [OF assms(1)] show ?thesis
    by (simp add: sint_sbintrunc' signed_take_bit_int_eq_self)
qed

lemma takeWhile_digits: "list_all is_digit (takeWhile is_digit s)"
  by (auto simp: list_all_iff dest: set_takeWhileD)

lemma length_takeWhile_filter: "length (takeWhile P s) \<le> length (filter P s)"
  by (induction s) auto

text \<open>
  As long as the value of \<open>time\<close> holds at most nine digits, timezoneHours lies between
  -14 and 14, and a value of an optional sign, digits, blanks and a comment is read as that
  number of hours when it is at most 14 and as UTC otherwise.
\<close>

theorem timezone_correct:
  assumes "ini_get c ''time'' (Some []) = Some s" and "length (filter is_digit s) \<le> 9"
  shows "- 14 \<le> timezoneHours c \<and> timezoneHours c \<le> 14 \<and>
    (\<forall>sign ds rest. s = sign @ ds @ rest \<longrightarrow> sign \<in> {[], ''+'', ''-''} \<longrightarrow> ds \<noteq> [] \<longrightarrow> list_all is_digit ds \<longrightarrow>
       (dropWhile is_blank rest = [] \<or> hd (dropWhile is_blank rest) \<in> {CHR '';'', CHR ''#''}) \<longrightarrow>
       timezoneHours c =
         (if digits_value ds \<le> 14 then (if sign = ''-'' then - 1 else 1) * digits_value ds else 0))"
proof -
  define sgnv where "sgnv = (case s of [] \<Rightarrow> (1, []) | x # xs \<Rightarrow>
      if x = CHR ''+'' then (1, xs) else if x = CHR ''-'' then (- 1 :: int, xs) else (1, x # xs))"
  obtain g v where gv: "sgnv = (g, v)" by fastforce
  define n where "n = digits_value (takeWhile is_digit v)"
  define tl where "tl = dropWhile is_blank (dropWhile is_digit v)"
  have "length (filter is_digit v) \<le> length (filter is_digit s)"
    using gv by (auto simp: sgnv_def split: list.splits if_splits)
  then have l9: "length (takeWhile is_digit v) \<le> 9"
    using length_takeWhile_filter [of is_digit v] assms(2) by linarith
  have sn: "sint (word_of_int n :: 32 word) = n" and n0: "0 \<le> n"
    using sint_digits [OF takeWhile_digits l9] digits_value_bounds [OF takeWhile_digits, of v]
    by (auto simp: n_def)
  have g: "g = 1 \<or> g = - 1" using gv by (auto simp: sgnv_def split: list.splits if_splits)
  have st: "n \<le> 14 \<Longrightarrow> signed_take_bit 7 (g * n) = g * n"
    using g n0 by (intro signed_take_bit_int_eq_self) auto
  have tz: "timezoneHours c = (if s = [] \<or> v = [] \<or> \<not> is_digit (hd v) then 0
      else if (tl \<noteq> [] \<and> hd tl \<noteq> CHR '';'' \<and> hd tl \<noteq> CHR ''#'') \<or> n > 14 then 0 else g * n)"
    using gv st by (cases s) (auto simp: timezoneHours_def assms(1) sgnv_def int_digits_0 Let_def sn tl_def
        n_def [symmetric] not_less split: if_splits)
  then have "- 14 \<le> timezoneHours c \<and> timezoneHours c \<le> 14" using g n0 by auto
  moreover have "timezoneHours c = (if digits_value ds \<le> 14 then (if sign = ''-'' then - 1 else 1) * digits_value ds else 0)"
    if a: "s = sign @ ds @ rest" "sign \<in> {[], ''+'', ''-''}" "ds \<noteq> []" "list_all is_digit ds"
      "dropWhile is_blank rest = [] \<or> hd (dropWhile is_blank rest) \<in> {CHR '';'', CHR ''#''}"
    for sign ds rest
  proof -
    have hd: "is_digit (hd ds)" using a(3,4) by (cases ds) auto
    then have h: "hd ds \<noteq> CHR ''+''" "hd ds \<noteq> CHR ''-''" using not_digits by metis+
    obtain d ds' where ds: "ds = d # ds'" using a(3) by (cases ds) auto
    consider "sign = []" | "sign = ''+''" | "sign = ''-''" using a(2) by blast
    then have v: "v = ds @ rest" "g = (if sign = ''-'' then - 1 else 1)"
      using gv h unfolding sgnv_def a(1) ds by (cases; simp)+
    have nd: "rest = [] \<or> \<not> is_digit (hd rest)"
    proof (cases rest)
      case (Cons x xs)
      show ?thesis
      proof (cases "is_blank x")
        case False
        then have "x \<in> {CHR '';'', CHR ''#''}" using a(5) Cons by simp
        then show ?thesis using Cons not_digits by auto
      qed (use Cons blank_not_digit in auto)
    qed simp
    have "takeWhile is_digit v = ds" "dropWhile is_digit v = rest"
      using a(4) nd unfolding v
      by (auto simp: list_all_iff takeWhile_append dropWhile_append takeWhile_head dropWhile_head)
    with hd a v show ?thesis unfolding tz n_def tl_def by auto
  qed
  ultimately show ?thesis by blast
qed

theorem timezone_correct_witness:
  "timezoneHours [\<lparr>ie_key = ''time'', ie_value = ''+3 ; Moscow''\<rparr>] = 3"
proof -
  let ?s = "''+3 ; Moscow''"
  have s: "?s = ''+'' @ ''3'' @ '' ; Moscow''" by simp
  have g: "ini_get [\<lparr>ie_key = ''time'', ie_value = ?s\<rparr>] ''time'' (Some []) = Some ?s" by simp
  have "length (filter is_digit ?s) \<le> 9" "list_all is_digit ''3''" "digits_value ''3'' = 3"
    "dropWhile is_blank '' ; Moscow'' = ''; Moscow''"
    by code_simp+
  then show ?thesis
    using timezone_correct [OF g, THEN conjunct2, THEN conjunct2, rule_format, OF _ s] by simp
qed

text \<open>
  Without that bound the accumulator of the code overflows: ten digits are enough to reach a
  zone of -96 hours, which no later check of the parser catches.
\<close>

lemma timezone_overflow:
  "timezoneHours [\<lparr>ie_key = ''time'', ie_value = ''4294967200''\<rparr>] = - 96"
  by code_simp

lemma digits_value_dec:
  "0 \<le> n \<Longrightarrow> digits_value (dec_digits n) = n \<and> list_all is_digit (dec_digits n) \<and> dec_digits n \<noteq> []"
proof (induction n rule: dec_digits.induct)
  case (1 n)
  show ?case
  proof (cases "n < 10")
    case True
    with 1 show ?thesis by (subst (1 2 3) dec_digits.simps) (simp add: digits_value_def)
  next
    case False
    with 1 have "digits_value (dec_digits (n div 10)) = n div 10" "list_all is_digit (dec_digits (n div 10))"
      by auto
    with False show ?thesis by (subst (1 2 3) dec_digits.simps) (simp add: digits_value_snoc)
  qed
qed

text \<open>
  proxyPort always gives a usable TCP port, the default 49281 where the setting is
  missing or no port number, and the number written there when it is one.
\<close>

theorem proxy_port_correct:
  "1 \<le> proxyPort c \<and> proxyPort c \<le> 65535 \<and>
   (ini_get c ''proxy_port'' (Some []) = Some [] \<longrightarrow> proxyPort c = 49281) \<and>
   (ini_get c ''proxy_port'' (Some []) = Some (dec_digits n) \<longrightarrow> 0 \<le> n \<longrightarrow>
      proxyPort c = (if 1 \<le> n \<and> n \<le> 65535 then n else 49281))"
proof -
  have "0 \<le> strtoul10 s" for s
    using digits_value_bounds [OF takeWhile_digits] by (simp add: strtoul10_def Let_def)
  then have "1 \<le> strtoul10 s" if "strtoul10 s \<noteq> 0" for s
    using that by (metis int_one_le_iff_zero_less order_le_less)
  then have range: "1 \<le> proxyPort c \<and> proxyPort c \<le> 65535"
    by (auto simp: proxyPort_def Let_def split: option.splits list.splits)
  have "proxyPort c = (if 1 \<le> n \<and> n \<le> 65535 then n else 49281)"
    if g: "ini_get c ''proxy_port'' (Some []) = Some (dec_digits n)" and n: "0 \<le> n"
  proof -
    note dv = digits_value_dec [OF n]
    obtain d ds where ds: "dec_digits n = d # ds" using dv by (cases "dec_digits n") auto
    then have d: "is_digit d" using dv by simp
    then have nd: "d \<noteq> CHR ''-''" "d \<noteq> CHR ''+''" "\<not> is_space d"
      using not_digits is_space_not_digit by metis+
    have tw: "takeWhile is_digit ds = ds"
      using dv by (simp add: takeWhile_eq_all_conv list_all_iff ds)
    have "strtoul10 (dec_digits n) = (if n > 4294967295 then 4294967295 else n)"
      using nd dv unfolding strtoul10_def Let_def by (simp add: ds tw)
    then show ?thesis using n g by (simp add: proxyPort_def ds Let_def)
  qed
  moreover have "ini_get c ''proxy_port'' (Some []) = Some [] \<longrightarrow> proxyPort c = 49281"
    by (simp add: proxyPort_def)
  ultimately show ?thesis using range by blast
qed

theorem proxy_port_correct_witness:
  "proxyPort [\<lparr>ie_key = ''proxy_port'', ie_value = dec_digits 8080\<rparr>] = 8080"
  using proxy_port_correct [of "[\<lparr>ie_key = ''proxy_port'', ie_value = dec_digits 8080\<rparr>]" 8080] by simp

end
