(* ===== verification/FatCache.thy ===== *)
theory FatCache
  imports Prelude
begin

text \<open>
  \<open>src/fat_allocation_cache.cpp\<close>: the bitmap of used clusters and the count of free ones
  that the FTP and SMB servers answer from. \<open>malloc\<close> is the argument \<open>heap\<close>: whether a
  request succeeds; the code clears the block it gets. A null \<open>bits_\<close> is \<open>None\<close>, and an
  access through it or past its end is the result \<open>None\<close> of \<open>fc_allocated\<close>.
\<close>

definition kMaximumBytes :: nat where "kMaximumBytes = 512 * 1024"

record fat_cache =
  fc_bits :: "bytes option"
  fc_bytes :: nat
  fc_totalClusters :: u32
  fc_fatSectors :: u32
  fc_serial :: u32
  fc_rawOffset :: u32
  fc_freeClusters :: u32
  fc_activeFat :: u8
  fc_enabled :: bool
  fc_building :: bool
  fc_valid :: bool
  fc_exactMap :: bool

definition FatAllocationCache_init :: fat_cache where
  "FatAllocationCache_init =
     \<lparr>fc_bits = None, fc_bytes = 0, fc_totalClusters = 0, fc_fatSectors = 0, fc_serial = 0,
      fc_rawOffset = 0, fc_freeClusters = 0, fc_activeFat = 0, fc_enabled = False,
      fc_building = False, fc_valid = False, fc_exactMap = False\<rparr>"

definition fc_release :: "fat_cache \<Rightarrow> fat_cache" where
  "fc_release s = (if fc_bits s = None then s else s\<lparr>fc_bits := None, fc_bytes := 0\<rparr>)"

definition fc_clear :: "fat_cache \<Rightarrow> fat_cache" where
  "fc_clear s =
     (fc_release s)\<lparr>fc_totalClusters := 0, fc_fatSectors := 0, fc_serial := 0, fc_rawOffset := 0,
        fc_freeClusters := 0, fc_activeFat := 0, fc_building := False, fc_valid := False,
        fc_exactMap := False, fc_enabled := False\<rparr>"

definition fc_begin :: "bool \<Rightarrow> fat_cache \<Rightarrow> bool \<times> fat_cache" where
  "fc_begin psramAvailable s =
     (let t = (fc_clear s)\<lparr>fc_enabled := psramAvailable\<rparr> in (fc_enabled t, t))"

definition fc_allocate :: "(nat \<Rightarrow> bool) \<Rightarrow> nat \<Rightarrow> fat_cache \<Rightarrow> bytes option" where
  "fc_allocate heap n s =
     (if \<not> fc_enabled s \<or> n = 0 \<or> n > kMaximumBytes then None
      else if heap n then Some (replicate n 0) else None)"

definition fc_invalidate :: "fat_cache \<Rightarrow> fat_cache" where
  "fc_invalidate s =
     s\<lparr>fc_building := False, fc_valid := False, fc_exactMap := False, fc_rawOffset := 0,
       fc_freeClusters := 0\<rparr>"

definition fc_prepare :: "(nat \<Rightarrow> bool) \<Rightarrow> u32 \<Rightarrow> u32 \<Rightarrow> u32 \<Rightarrow> u8 \<Rightarrow> fat_cache \<Rightarrow> bool \<times> fat_cache" where
  "fc_prepare heap totalClusters fatSectors serial activeFat s =
     (if \<not> fc_enabled s \<or> totalClusters = 0 \<or> fatSectors = 0 then (False, s)
      else
        let requiredRawBytes = (ucast totalClusters + 2) * (4 :: u64);
            availableRawBytes = ucast fatSectors * (512 :: u64);
            wantedBytes = unat (((ucast totalClusters :: u64) + 7) div 8)
        in if requiredRawBytes > availableRawBytes then (False, s)
           else if wantedBytes = 0 \<or> wantedBytes > kMaximumBytes then (False, s)
           else
             let (ok, s1) =
               (if fc_bits s = None \<or> fc_bytes s \<noteq> wantedBytes then
                  (let r = fc_release s
                   in case fc_allocate heap wantedBytes r of
                        None \<Rightarrow> (False, r)
                      | Some b \<Rightarrow> (True, r\<lparr>fc_bits := Some b, fc_bytes := wantedBytes\<rparr>))
                else (True, s))
             in if \<not> ok then (False, s1)
                else (True, s1\<lparr>fc_bits := Some (replicate (fc_bytes s1) 0),
                   fc_totalClusters := totalClusters, fc_fatSectors := fatSectors,
                   fc_serial := serial, fc_activeFat := activeFat, fc_rawOffset := 0,
                   fc_freeClusters := 0, fc_building := True, fc_valid := False\<rparr>))"

definition ingest_entry :: "u32 \<Rightarrow> bool \<Rightarrow> fat_cache \<Rightarrow> fat_cache" where
  "ingest_entry entry busy s =
     (if entry < 2 \<or> entry \<ge> fc_totalClusters s + 2 then s
      else
        let clusterIndex = entry - 2; i = unat (drop_bit 3 clusterIndex)
        in if \<not> busy then s\<lparr>fc_freeClusters := fc_freeClusters s + 1\<rparr>
           else s\<lparr>fc_bits := map_option (\<lambda>b. b[i := b ! i OR push_bit (unat (clusterIndex AND 7)) 1])
                    (fc_bits s)\<rparr>)"

definition fc_ingestMap :: "u32 \<Rightarrow> bytes option \<Rightarrow> fat_cache \<Rightarrow> bool \<times> fat_cache" where
  "fc_ingestMap rawOffset data s =
     (case data of None \<Rightarrow> (False, fc_invalidate s)
      | Some d \<Rightarrow>
        if \<not> fc_building s \<or> d = [] \<or> rawOffset AND 31 \<noteq> 0 \<or> rawOffset \<noteq> fc_rawOffset s \<or>
           length d > 0xFFFFFFFF div 32 then (False, fc_invalidate s)
        else
          let nextOffset = ucast rawOffset + of_nat (length d) * (32 :: u64)
          in if nextOffset > ucast (fc_fatSectors s) * 512 then (False, fc_invalidate s)
             else
               let entry = rawOffset div 4;
                   t = foldl (\<lambda>s offset.
                         foldl (\<lambda>s b. ingest_entry (entry + of_nat (8 * offset + b))
                                  (d ! offset AND push_bit b 1 \<noteq> 0) s) s [0..<8])
                       s [0..<length d]
               in (True, t\<lparr>fc_rawOffset := ucast nextOffset\<rparr>))"

definition fc_finish :: "fat_cache \<Rightarrow> bool \<times> fat_cache" where
  "fc_finish s =
     (let requiredRawBytes = (ucast (fc_totalClusters s) + 2) * (4 :: u64)
      in if \<not> fc_building s \<or> ucast (fc_rawOffset s) < requiredRawBytes \<or>
            fc_freeClusters s > fc_totalClusters s then (False, fc_invalidate s)
         else (True, s\<lparr>fc_building := False, fc_valid := True, fc_exactMap := True\<rparr>))"

definition clusters_of :: "u32 \<Rightarrow> u32 \<Rightarrow> u32" where
  "clusters_of fileSize bytesPerCluster =
     ucast ((ucast fileSize + ucast bytesPerCluster - 1) div (ucast bytesPerCluster :: u64))"

definition fc_noteResize :: "u32 \<Rightarrow> u32 \<Rightarrow> u32 \<Rightarrow> fat_cache \<Rightarrow> fat_cache" where
  "fc_noteResize oldSize newSize bytesPerCluster s =
     (if \<not> fc_valid s \<or> fc_building s \<or> bytesPerCluster = 0 \<or> oldSize = newSize then s
      else
        let before = clusters_of oldSize bytesPerCluster; after = clusters_of newSize bytesPerCluster
        in if after = before then s
           else
             let t = s\<lparr>fc_exactMap := False\<rparr>
             in if after > before then
                  let taken = after - before
                  in t\<lparr>fc_freeClusters := (if fc_freeClusters s > taken then fc_freeClusters s - taken else 0)\<rparr>
                else
                  let released = before - after; free = fc_freeClusters s + released
                  in t\<lparr>fc_freeClusters := (if free < fc_freeClusters s \<or> free > fc_totalClusters s
                         then fc_totalClusters s else free)\<rparr>)"

definition fc_matches :: "u32 \<Rightarrow> u32 \<Rightarrow> u32 \<Rightarrow> u8 \<Rightarrow> fat_cache \<Rightarrow> bool" where
  "fc_matches totalClusters fatSectors serial activeFat s \<longleftrightarrow>
     fc_valid s \<and> fc_totalClusters s = totalClusters \<and> fc_fatSectors s = fatSectors \<and>
     fc_serial s = serial \<and> fc_activeFat s = activeFat"

definition fc_allocated :: "u32 \<Rightarrow> fat_cache \<Rightarrow> bool option" where
  "fc_allocated cluster s =
     (if \<not> fc_valid s \<or> cluster < 2 \<or> cluster \<ge> fc_totalClusters s + 2 then Some False
      else
        let i = cluster - 2; k = unat (drop_bit 3 i)
        in case fc_bits s of None \<Rightarrow> None
           | Some b \<Rightarrow> if k < length b then Some (b ! k AND push_bit (unat (i AND 7)) 1 \<noteq> 0) else None)"

subsection \<open>Bits\<close>

lemma test_bit_u8: "b < 8 \<Longrightarrow> (w AND push_bit b 1 \<noteq> 0) = bit (w :: u8) b"
  by (simp add: bit_iff_and_push_bit_not_eq_0)

lemma cluster_split:
  "unat (drop_bit 3 (w :: u32)) = unat w div 8" "unat (w AND 7) = unat w mod 8"
proof -
  show "unat (drop_bit 3 w) = unat w div 8"
    using unat_u32 [of w]
    by (simp add: unsigned_drop_bit_eq take_bit_nat_eq_self) (simp add: drop_bit_nat_def)
  have "w AND 7 = take_bit 3 w" by (simp add: take_bit_eq_mask mask_eq_exp_minus_1)
  then show "unat (w AND 7) = unat w mod 8"
    by (simp add: unsigned_take_bit_eq take_bit_nat_def)
qed

text \<open>Bit \<open>i\<close> of a bitmap stored in bytes.\<close>

definition map_bit :: "bytes \<Rightarrow> nat \<Rightarrow> bool" where
  "map_bit d i = bit (d ! (i div 8)) (i mod 8)"

definition set_bit_in :: "bytes \<Rightarrow> nat \<Rightarrow> bytes" where
  "set_bit_in d i = d[i div 8 := d ! (i div 8) OR push_bit (i mod 8) 1]"

lemma map_bit_set:
  assumes "i div 8 < length d"
  shows "map_bit (set_bit_in d i) j = (j = i \<or> map_bit d j)"
proof (cases "j div 8 = i div 8")
  case True
  have "j = i \<longleftrightarrow> j mod 8 = i mod 8" using True by (metis div_mult_mod_eq)
  then show ?thesis using True assms
    by (auto simp: map_bit_def set_bit_in_def bit_simps)
next
  case False
  then have "j \<noteq> i" by auto
  with False show ?thesis by (simp add: map_bit_def set_bit_in_def)
qed

lemma map_bit_append:
  "i < 8 * length c \<Longrightarrow> map_bit (c @ d) i = map_bit c i"
  "map_bit (c @ d) (8 * length c + i) = map_bit d i"
  by (simp_all add: map_bit_def nth_append less_mult_imp_div_less mult.commute)

subsection \<open>The map and the count\<close>

text \<open>
  What the cache knows after the first \<open>n\<close> entries of a file allocation table in which
  entry \<open>e\<close> is in use when \<open>fat e\<close>: cluster \<open>c\<close> of the volume is entry \<open>c + 2\<close>.
\<close>

definition counted :: "nat \<Rightarrow> nat \<Rightarrow> nat \<Rightarrow> bool" where
  "counted tot n c \<longleftrightarrow> c < tot \<and> c + 2 < n"

definition free_count :: "nat \<Rightarrow> (nat \<Rightarrow> bool) \<Rightarrow> nat \<Rightarrow> nat" where
  "free_count tot fat n = card {c. counted tot n c \<and> \<not> fat (c + 2)}"

definition fc_counts :: "fat_cache \<Rightarrow> (nat \<Rightarrow> bool) \<Rightarrow> nat \<Rightarrow> bool" where
  "fc_counts s fat n \<longleftrightarrow>
     unat (fc_totalClusters s) \<le> 8 * kMaximumBytes \<and>
     (\<exists>b. fc_bits s = Some b \<and> length b = fc_bytes s \<and> unat (fc_totalClusters s) \<le> 8 * length b \<and>
        (\<forall>c < 8 * length b. map_bit b c = (counted (unat (fc_totalClusters s)) n c \<and> fat (c + 2)))) \<and>
     unat (fc_freeClusters s) = free_count (unat (fc_totalClusters s)) fat n"

lemma fc_counts_total2:
  "fc_counts s fat n \<Longrightarrow> unat (fc_totalClusters s + 2) = unat (fc_totalClusters s) + 2"
  using unat_add_of_nat [of "fc_totalClusters s" 2] by (simp add: fc_counts_def kMaximumBytes_def)

lemma counted_Suc: "counted t (Suc n) c = (counted t n c \<or> (c < t \<and> n = c + 2))"
  by (auto simp: counted_def)

lemma counted_Suc_same: "n < 2 \<or> t + 2 \<le> n \<Longrightarrow> counted t (Suc n) = counted t n"
  by (auto simp: counted_def)

lemma free_count_same:
  "n < 2 \<or> t + 2 \<le> n \<or> fat n \<Longrightarrow> free_count t fat (Suc n) = free_count t fat n"
  unfolding free_count_def counted_Suc by (intro arg_cong [of _ _ card]) auto

lemma free_count_Suc:
  assumes "2 \<le> n" "n < t + 2" "\<not> fat n"
  shows "free_count t fat (Suc n) = free_count t fat n + 1"
proof -
  have n: "n - 2 + 2 = n" using assms by simp
  have "{c. counted t (Suc n) c \<and> \<not> fat (c + 2)} = insert (n - 2) {c. counted t n c \<and> \<not> fat (c + 2)}"
    using assms unfolding counted_Suc by (auto simp: n simp del: add_2_eq_Suc')
  moreover have "finite {c. counted t n c \<and> \<not> fat (c + 2)}"
    by (rule finite_subset [of _ "{..<t}"]) (auto simp: counted_def)
  moreover have "\<not> counted t n (n - 2)" using n by (simp add: counted_def)
  ultimately show ?thesis by (simp add: free_count_def)
qed

lemma free_count_le: "free_count t fat n \<le> t"
  unfolding free_count_def using card_mono [of "{..<t}" "{c. counted t n c \<and> \<not> fat (c + 2)}"]
  by (auto simp: counted_def)

definition fc_same :: "fat_cache \<Rightarrow> fat_cache \<Rightarrow> bool" where
  "fc_same s t \<longleftrightarrow> fc_building t = fc_building s \<and> fc_valid t = fc_valid s \<and> fc_bytes t = fc_bytes s \<and>
     fc_totalClusters t = fc_totalClusters s \<and> fc_fatSectors t = fc_fatSectors s \<and> fc_serial t = fc_serial s \<and>
     fc_activeFat t = fc_activeFat s \<and> fc_rawOffset t = fc_rawOffset s \<and> fc_enabled t = fc_enabled s"

lemma ingest_entry_counts:
  assumes "fc_counts s fat n" "n < 2 ^ 32" "busy = fat n"
  shows "fc_counts (ingest_entry (of_nat n) busy s) fat (Suc n) \<and> fc_same s (ingest_entry (of_nat n) busy s)"
proof -
  let ?t = "unat (fc_totalClusters s)"
  from assms(1) obtain b where b: "fc_bits s = Some b" "length b = fc_bytes s" "?t \<le> 8 * length b"
    "\<forall>c < 8 * length b. map_bit b c = (counted ?t n c \<and> fat (c + 2))"
    and t: "?t \<le> 8 * kMaximumBytes" and f: "unat (fc_freeClusters s) = free_count ?t fat n"
    by (auto simp: fc_counts_def)
  have un: "unat (of_nat n :: u32) = n" using assms(2) by simp
  have lt2: "(of_nat n :: u32) < 2 \<longleftrightarrow> n < 2" by (simp add: word_less_nat_alt un)
  have ge: "(of_nat n :: u32) \<ge> fc_totalClusters s + 2 \<longleftrightarrow> ?t + 2 \<le> n"
    by (simp add: word_le_nat_alt un fc_counts_total2 [OF assms(1)])
  show ?thesis
  proof (cases "n < 2 \<or> ?t + 2 \<le> n")
    case True
    then have "ingest_entry (of_nat n) busy s = s" by (auto simp: ingest_entry_def lt2 ge)
    then show ?thesis using b t f True
      by (auto simp: fc_counts_def fc_same_def free_count_same counted_Suc_same)
  next
    case False
    then have n: "2 \<le> n" "n < ?t + 2" by auto
    have ci: "unat (of_nat n - 2 :: u32) = n - 2"
      using unat_sub_of_nat [of 2 "of_nat n :: u32"] un n by simp
    have len: "(n - 2) div 8 < length b" using n b(3) by (auto simp: less_mult_imp_div_less)
    show ?thesis
    proof (cases "fat n")
      case False
      have "unat (fc_freeClusters s) \<le> ?t" unfolding f by (rule free_count_le)
      then have "unat (fc_freeClusters s + 1) = unat (fc_freeClusters s) + 1"
        using unat_add_of_nat [of "fc_freeClusters s" 1] t by (simp add: kMaximumBytes_def)
      moreover have "counted ?t (Suc n) c \<and> fat (c + 2) \<longleftrightarrow> counted ?t n c \<and> fat (c + 2)" for c
        using False by (auto simp: counted_Suc)
      ultimately show ?thesis using b t f n False assms(3) free_count_Suc [OF n]
        by (simp add: ingest_entry_def lt2 ge Let_def fc_counts_def fc_same_def)
    next
      case True
      have "ingest_entry (of_nat n) busy s = s\<lparr>fc_bits := Some (set_bit_in b (n - 2))\<rparr>"
        using n True assms(3) by (simp add: ingest_entry_def lt2 ge Let_def b(1) set_bit_in_def cluster_split ci)
      moreover have "map_bit (set_bit_in b (n - 2)) c = (counted ?t (Suc n) c \<and> fat (c + 2))"
        if "c < 8 * length b" for c
      proof -
        have "c = n - 2 \<longleftrightarrow> n = c + 2" using n by auto
        then show ?thesis using b(4) that map_bit_set [OF len] n True by (auto simp: counted_Suc)
      qed
      moreover have "length (set_bit_in b (n - 2)) = length b" by (simp add: set_bit_in_def)
      ultimately show ?thesis using b t f n True free_count_same [of n ?t fat]
        by (simp add: fc_counts_def fc_same_def)
    qed
  qed
qed

lemma fc_same_trans: "fc_same s t \<Longrightarrow> fc_same t u \<Longrightarrow> fc_same s u"
  by (simp add: fc_same_def)

lemma ingest_bits_counts:
  assumes "fc_counts s fat n" "n + k \<le> 2 ^ 32" "e = of_nat n" "\<And>b. b < k \<Longrightarrow> p b = fat (n + b)"
  shows "fc_counts (foldl (\<lambda>s b. ingest_entry (e + of_nat b) (p b) s) s [0..<k]) fat (n + k) \<and>
    fc_same s (foldl (\<lambda>s b. ingest_entry (e + of_nat b) (p b) s) s [0..<k])"
  using assms(2,4)
proof (induction k)
  case 0
  then show ?case using assms(1) by (simp add: fc_same_def)
next
  case (Suc k)
  let ?t = "foldl (\<lambda>s b. ingest_entry (e + of_nat b) (p b) s) s [0..<k]"
  from Suc have "fc_counts ?t fat (n + k)" "fc_same s ?t" by auto
  with ingest_entry_counts [of ?t fat "n + k" "p k"] Suc.prems assms(3) show ?case
    by (auto intro: fc_same_trans)
qed

lemma ingest_bytes_counts:
  assumes "fc_counts s fat n" "n + 8 * k \<le> 2 ^ 32" "e = of_nat n"
    "\<And>i. i < 8 * k \<Longrightarrow> map_bit d i = fat (n + i)"
  defines "step \<equiv> \<lambda>s offset. foldl (\<lambda>s b. ingest_entry (e + of_nat (8 * offset + b))
       (d ! offset AND push_bit b 1 \<noteq> 0) s) s [0..<8]"
  shows "fc_counts (foldl step s [0..<k]) fat (n + 8 * k) \<and> fc_same s (foldl step s [0..<k])"
  using assms(2,4)
proof (induction k)
  case 0
  then show ?case using assms(1) by (simp add: fc_same_def)
next
  case (Suc k)
  define u where "u = foldl step s [0..<k]"
  have t: "fc_counts u fat (n + 8 * k)" "fc_same s u" using Suc by (auto simp: u_def)
  have e: "e + of_nat (8 * k + b) = (of_nat (n + 8 * k) :: u32) + of_nat b" for b by (simp add: assms(3))
  have d: "(d ! k AND push_bit b 1 \<noteq> 0) = fat (n + 8 * k + b)" if "b < 8" for b
    using Suc.prems(2) [of "8 * k + b"] that unfolding test_bit_u8 [OF that] by (simp add: map_bit_def add.assoc)
  have "fc_counts (step u k) fat (n + 8 * k + 8) \<and> fc_same u (step u k)"
    unfolding step_def e using Suc.prems(1) by (intro ingest_bits_counts [OF t(1) _ refl d]) auto
  with t(2) show ?case by (auto intro: fc_same_trans simp: algebra_simps u_def)
qed

lemma unat_u64_of_u32: "unat (ucast (w :: u32) :: u64) = unat w"
  by (simp add: unsigned_ucast_eq take_bit_nat_eq_self less_trans [OF unat_u32])

lemma unat_of_nat_u64: "n < 2 ^ 64 \<Longrightarrow> unat (of_nat n :: u64) = n"
  by (simp add: unat_of_nat)

lemma fc_prepare_counts:
  assumes "fc_prepare heap tot fs serial af s = (True, t)"
  shows "fc_counts t fat 0" "fc_building t" "fc_totalClusters t = tot" "fc_fatSectors t = fs"
    "fc_serial t = serial" "fc_activeFat t = af" "fc_rawOffset t = 0" "tot \<noteq> 0"
    "(unat tot + 2) * 4 \<le> unat fs * 512"
proof -
  have w: "unat ((ucast tot :: u64) + 7) = unat tot + 7"
    using unat_add_of_nat [of "ucast tot :: u64" 7] unat_u32 [of tot] by (simp add: unat_u64_of_u32)
  then have wd: "unat (((ucast tot :: u64) + 7) div 8) = (unat tot + 7) div 8" by (simp add: unat_div)
  have a: "fc_enabled s" "tot \<noteq> 0" "(unat tot + 7) div 8 \<le> kMaximumBytes"
    and r: "(ucast tot + 2) * (4 :: u64) \<le> ucast fs * 512"
    using assms by (auto simp: fc_prepare_def Let_def wd not_le not_less split: if_splits)
  have "unat ((ucast tot + 2) * (4 :: u64)) = (unat tot + 2) * 4"
    "unat (ucast fs * (512 :: u64)) = unat fs * 512"
    using unat_u32 [of tot] unat_u32 [of fs] by (simp_all add: unat_word_ariths unat_u64_of_u32)
  with r show "(unat tot + 2) * 4 \<le> unat fs * 512" by (simp add: word_le_nat_alt)
  have t: "fc_bits t = Some (replicate ((unat tot + 7) div 8) 0) \<and> fc_bytes t = (unat tot + 7) div 8 \<and>
    fc_totalClusters t = tot \<and> fc_fatSectors t = fs \<and> fc_serial t = serial \<and> fc_activeFat t = af \<and>
    fc_rawOffset t = 0 \<and> fc_building t \<and> fc_freeClusters t = 0"
    using assms by (auto simp: fc_prepare_def Let_def wd split: if_splits option.splits)
  then show "fc_building t" "fc_totalClusters t = tot" "fc_fatSectors t = fs"
    "fc_serial t = serial" "fc_activeFat t = af" "fc_rawOffset t = 0" "tot \<noteq> 0"
    using a by auto
  have "map_bit (replicate k 0) c = False" if "c < 8 * k" for k c
    using that by (simp add: map_bit_def less_mult_imp_div_less mult.commute)
  then show "fc_counts t fat 0"
    using t a by (auto simp: fc_counts_def counted_def free_count_def kMaximumBytes_def)
qed

text \<open>The client's loop: consecutive pieces of the map, from the start of the table.\<close>

fun fc_ingest_all :: "u32 \<Rightarrow> bytes list \<Rightarrow> fat_cache \<Rightarrow> bool \<times> fat_cache" where
  "fc_ingest_all raw [] s = (True, s)"
| "fc_ingest_all raw (d # ds) s =
     (case fc_ingestMap raw (Some d) s of
        (False, t) \<Rightarrow> (False, t)
      | (True, t) \<Rightarrow> fc_ingest_all (raw + of_nat (32 * length d)) ds t)"

lemma raw_aligned: "(of_nat (32 * k) :: u32) AND 31 = 0"
proof -
  have "(31 :: u32) = mask 5" by (simp add: mask_eq_exp_minus_1)
  then have "(of_nat (32 * k) :: u32) AND 31 = take_bit 5 (of_nat (32 * k))" by (simp add: take_bit_eq_mask)
  also have "\<dots> = of_nat (take_bit 5 (32 * k))" by (simp only: take_bit_of_nat)
  also have "take_bit 5 (32 * k) = (0 :: nat)" by (simp add: take_bit_eq_mod)
  finally show ?thesis by simp
qed

lemma fc_ingest_counts:
  assumes "fc_counts s fat (8 * k)" "fc_building s" "fc_rawOffset s = of_nat (32 * k)"
    "d \<noteq> []" "32 * (k + length d) < 2 ^ 32" "32 * (k + length d) \<le> unat (fc_fatSectors s) * 512"
    "\<And>i. i < 8 * length d \<Longrightarrow> map_bit d i = fat (8 * k + i)"
  shows "\<exists>t. fc_ingestMap (of_nat (32 * k)) (Some d) s = (True, t) \<and> fc_counts t fat (8 * (k + length d)) \<and>
    fc_building t \<and> fc_rawOffset t = of_nat (32 * (k + length d)) \<and>
    fc_same (s\<lparr>fc_rawOffset := of_nat (32 * (k + length d))\<rparr>) t"
proof -
  have ur: "unat (of_nat (32 * k) :: u32) = 32 * k" using assms(5) by (intro unat_of_nat_u32) simp
  have nx: "unat (ucast (of_nat (32 * k) :: u32) + of_nat (length d) * (32 :: u64)) = 32 * (k + length d)"
  proof -
    have "unat (of_nat (length d) * (32 :: u64)) = 32 * length d"
      using assms(5) by (simp add: unat_word_ariths unat_of_nat_u64)
    then show ?thesis using assms(5) by (simp only: unat_word_ariths unat_u64_of_u32 ur) simp
  qed
  then have nxw: "ucast (ucast (of_nat (32 * k) :: u32) + of_nat (length d) * (32 :: u64)) =
      (of_nat (32 * (k + length d)) :: u32)"
  proof (intro word_unatI)
    assume nx: "unat (ucast (of_nat (32 * k) :: u32) + of_nat (length d) * (32 :: u64)) = 32 * (k + length d)"
    have "unat (of_nat (32 * (k + length d)) :: u32) = 32 * (k + length d)"
      using assms(5) by (intro unat_of_nat_u32) simp
    then show "unat (ucast (ucast (of_nat (32 * k) :: u32) + of_nat (length d) * (32 :: u64)) :: u32) =
        unat (of_nat (32 * (k + length d)) :: u32)"
      using assms(5) by (simp only: unsigned_ucast_eq nx) (simp add: take_bit_nat_eq_self)
  qed
  have "unat (ucast (fc_fatSectors s) * (512 :: u64)) = unat (fc_fatSectors s) * 512"
    using unat_u32 [of "fc_fatSectors s"] by (simp add: unat_word_ariths unat_u64_of_u32)
  then have fit: "\<not> ucast (of_nat (32 * k) :: u32) + of_nat (length d) * (32 :: u64) > ucast (fc_fatSectors s) * 512"
    using assms(6) by (simp only: word_less_nat_alt nx not_less)
  have e: "(of_nat (32 * k) :: u32) div 4 = of_nat (8 * k)"
  proof (rule word_unatI)
    have "unat (of_nat (8 * k) :: u32) = 8 * k" using assms(5) by (intro unat_of_nat_u32) simp
    then show "unat ((of_nat (32 * k) :: u32) div 4) = unat (of_nat (8 * k) :: u32)"
      unfolding unat_div ur by simp
  qed
  have len: "\<not> length d > 0xFFFFFFFF div 32" using assms(5) by simp
  define t where "t = foldl (\<lambda>s offset. foldl (\<lambda>s b. ingest_entry (of_nat (8 * k) + of_nat (8 * offset + b))
       (d ! offset AND push_bit b 1 \<noteq> 0) s) s [0..<8]) s [0..<length d]"
  have t: "fc_counts t fat (8 * k + 8 * length d)" "fc_same s t"
    using ingest_bytes_counts [OF assms(1) _ refl assms(7)] assms(5) unfolding t_def by auto
  have "fc_ingestMap (of_nat (32 * k)) (Some d) s = (True, t\<lparr>fc_rawOffset := of_nat (32 * (k + length d))\<rparr>)"
    unfolding fc_ingestMap_def option.case Let_def e t_def [symmetric] nxw
    using assms(2,3,4) fit len raw_aligned [of k] by (simp del: of_nat_mult of_nat_add)
  moreover have "fc_counts (t\<lparr>fc_rawOffset := of_nat (32 * (k + length d))\<rparr>) fat (8 * (k + length d))"
    using t(1) by (simp add: fc_counts_def algebra_simps)
  ultimately show ?thesis using t(2) assms(2) by (auto simp: fc_same_def)
qed

lemma fc_ingest_all_counts:
  assumes "fc_counts s fat (8 * k)" "fc_building s" "fc_rawOffset s = of_nat (32 * k)"
    "[] \<notin> set ds" "32 * (k + length (concat ds)) < 2 ^ 32"
    "32 * (k + length (concat ds)) \<le> unat (fc_fatSectors s) * 512"
    "\<And>i. i < 8 * length (concat ds) \<Longrightarrow> map_bit (concat ds) i = fat (8 * k + i)"
  shows "\<exists>t. fc_ingest_all (of_nat (32 * k)) ds s = (True, t) \<and> fc_counts t fat (8 * (k + length (concat ds))) \<and>
    fc_building t \<and> fc_rawOffset t = of_nat (32 * (k + length (concat ds))) \<and>
    fc_same (s\<lparr>fc_rawOffset := of_nat (32 * (k + length (concat ds)))\<rparr>) t"
  using assms
proof (induction ds arbitrary: s k)
  case Nil
  then show ?case by (simp add: fc_same_def)
next
  case (Cons d ds)
  have m: "map_bit d i = fat (8 * k + i)" if "i < 8 * length d" for i
    using Cons.prems(7) [of i] that by (simp add: map_bit_append)
  obtain t where t: "fc_ingestMap (of_nat (32 * k)) (Some d) s = (True, t)" "fc_counts t fat (8 * (k + length d))"
    "fc_building t" "fc_rawOffset t = of_nat (32 * (k + length d))"
    "fc_same (s\<lparr>fc_rawOffset := of_nat (32 * (k + length d))\<rparr>) t"
    using fc_ingest_counts [OF Cons.prems(1,2,3) _ _ _ m] Cons.prems(4,5,6) by auto
  have m2: "map_bit (concat ds) i = fat (8 * (k + length d) + i)" if "i < 8 * length (concat ds)" for i
    using Cons.prems(7) [of "8 * length d + i"] that map_bit_append(2) [of d "concat ds" i]
    by (simp add: algebra_simps)
  have fs: "fc_fatSectors t = fc_fatSectors s" using t(5) by (simp add: fc_same_def)
  obtain u where u: "fc_ingest_all (of_nat (32 * (k + length d))) ds t = (True, u)"
    "fc_counts u fat (8 * (k + length d + length (concat ds)))" "fc_building u"
    "fc_rawOffset u = of_nat (32 * (k + length d + length (concat ds)))"
    "fc_same (t\<lparr>fc_rawOffset := of_nat (32 * (k + length d + length (concat ds)))\<rparr>) u"
    using Cons.IH [OF t(2,3,4) _ _ _ m2] Cons.prems(4,5,6) by (auto simp: fs add.assoc)
  have raw: "of_nat (32 * k) + of_nat (32 * length d) = (of_nat (32 * (k + length d)) :: u32)"
    by (simp add: algebra_simps)
  have "fc_ingest_all (of_nat (32 * k)) (d # ds) s = (True, u)"
    unfolding fc_ingest_all.simps t(1) prod.case bool.case raw by (rule u(1))
  with u t(5) show ?case by (auto simp: fc_same_def add.assoc)
qed

text \<open>
  C26: When prepare accepted the geometry and the pieces of the map are fed in order from
  the start of the table until every entry of the volume is covered, ingestMap and finish
  succeed, and from then on freeClusters is exactly the number of data clusters whose table
  entry is free and allocated tells for each cluster whether its entry is in use.
\<close>

theorem fat_map_correct:
  assumes "fc_prepare heap tot fs serial af s = (True, s0)"
    and "[] \<notin> set ds" "unat tot + 2 \<le> 8 * length (concat ds)"
    and "32 * length (concat ds) < 2 ^ 32" "32 * length (concat ds) \<le> unat fs * 512"
  shows "\<exists>s1 s2. fc_ingest_all 0 ds s0 = (True, s1) \<and> fc_finish s1 = (True, s2) \<and>
    fc_matches tot fs serial af s2 \<and> fc_exactMap s2 \<and>
    unat (fc_freeClusters s2) = card {c. c < unat tot \<and> \<not> map_bit (concat ds) (c + 2)} \<and>
    (\<forall>c < unat tot. fc_allocated (of_nat (c + 2)) s2 = Some (map_bit (concat ds) (c + 2)))"
proof -
  let ?fat = "map_bit (concat ds)" and ?n = "8 * length (concat ds)"
  note p = fc_prepare_counts [OF assms(1)]
  obtain t where t: "fc_ingest_all 0 ds s0 = (True, t)" "fc_counts t ?fat ?n" "fc_building t"
    "fc_rawOffset t = of_nat (32 * length (concat ds))"
    "fc_same (s0\<lparr>fc_rawOffset := of_nat (32 * length (concat ds))\<rparr>) t"
    using fc_ingest_all_counts [of s0 ?fat 0 ds] p assms by auto
  have g: "fc_totalClusters t = tot" "fc_fatSectors t = fs" "fc_serial t = serial" "fc_activeFat t = af"
    using t(5) p by (auto simp: fc_same_def)
  from t(2) obtain b where b: "fc_bits t = Some b" "length b = fc_bytes t" "unat tot \<le> 8 * length b"
    "\<forall>c < 8 * length b. map_bit b c = (counted (unat tot) ?n c \<and> ?fat (c + 2))"
    and k: "unat tot \<le> 8 * kMaximumBytes" and f: "unat (fc_freeClusters t) = free_count (unat tot) ?fat ?n"
    by (auto simp: fc_counts_def g)
  have cnt: "counted (unat tot) ?n c \<longleftrightarrow> c < unat tot" for c
    using assms(3) by (auto simp: counted_def)
  have "unat (ucast (fc_rawOffset t) :: u64) = 32 * length (concat ds)"
    unfolding unat_u64_of_u32 t(4) using assms(4) by (intro unat_of_nat_u32) simp
  moreover have "unat ((ucast tot + 2) * (4 :: u64)) = (unat tot + 2) * 4"
    using unat_u32 [of tot] by (simp add: unat_word_ariths unat_u64_of_u32)
  ultimately have "\<not> ucast (fc_rawOffset t) < (ucast tot + 2) * (4 :: u64)"
    using assms(3) unfolding word_less_nat_alt by simp
  moreover have "\<not> fc_freeClusters t > tot"
    using free_count_le [of "unat tot" ?fat ?n] f by (simp add: word_less_nat_alt not_less)
  ultimately have fin: "fc_finish t = (True, t\<lparr>fc_building := False, fc_valid := True, fc_exactMap := True\<rparr>)"
    (is "_ = (True, ?u)") using t(3) by (simp add: fc_finish_def Let_def g)
  have "fc_allocated (of_nat (c + 2)) ?u = Some (?fat (c + 2))" if c: "c < unat tot" for c
  proof -
    define w where "w = (of_nat (c + 2) :: u32)"
    have uc: "unat w = c + 2"
      unfolding w_def using c k by (intro unat_of_nat_u32) (simp add: kMaximumBytes_def)
    have "unat (tot + 2) = unat tot + 2"
      using unat_add_of_nat [of tot 2] k by (simp add: kMaximumBytes_def)
    then have r: "\<not> w < 2" "\<not> w \<ge> tot + 2"
      unfolding word_less_nat_alt word_le_nat_alt uc using c by auto
    have i: "unat (w - 2) = c" using unat_sub_of_nat [of 2 w] uc by simp
    have "c div 8 < length b" using c b(3) by (auto simp: less_mult_imp_div_less)
    moreover have "(b ! (c div 8) AND push_bit (c mod 8) 1 \<noteq> 0) = ?fat (c + 2)"
      using b(3,4) c cnt by (subst test_bit_u8) (auto simp: map_bit_def)
    ultimately show ?thesis using r unfolding w_def [symmetric]
      by (simp add: fc_allocated_def g b(1) Let_def cluster_split i)
  qed
  with t(1) fin show ?thesis
    by (auto simp: fc_matches_def g f free_count_def cnt)
qed

theorem fat_map_correct_witness:
  "\<exists>s1 s2. fc_ingest_all 0 [[0x07], [0x02]] (snd (fc_prepare (\<lambda>_. True) 14 1 77 0 (snd (fc_begin True FatAllocationCache_init)))) =
       (True, s1) \<and> fc_finish s1 = (True, s2) \<and> unat (fc_freeClusters s2) = 12 \<and>
     fc_allocated 9 s2 = Some True \<and> fc_allocated 3 s2 = Some False"
proof -
  let ?s = "snd (fc_begin True FatAllocationCache_init)"
  have p: "fc_prepare (\<lambda>_. True) 14 1 77 0 ?s = (True, snd (fc_prepare (\<lambda>_. True) 14 1 77 0 ?s))"
    by (simp add: fc_prepare_def fc_begin_def FatAllocationCache_init_def fc_clear_def fc_release_def
        fc_allocate_def kMaximumBytes_def Let_def)
  have m: "map_bit [0x07, 0x02] 2" "map_bit [0x07, 0x02] 9" "\<not> map_bit [0x07, 0x02] 3"
    by (simp_all add: map_bit_def)
  have "card {c. c < 14 \<and> \<not> map_bit [0x07, 0x02] (c + 2)} = 12"
  proof -
    have "{c. c < (14 :: nat) \<and> \<not> map_bit [0x07, 0x02] (c + 2)} = set (filter (\<lambda>c. \<not> map_bit [0x07, 0x02] (c + 2)) [0..<14])"
      by auto
    also have "filter (\<lambda>c. \<not> map_bit [0x07, 0x02] (c + 2)) [0..<14] = [1, 2, 3, 4, 5, 6, 8, 9, 10, 11, 12, 13]"
      by code_simp
    finally show ?thesis by simp
  qed
  moreover obtain s1 s2 where r: "fc_ingest_all 0 [[0x07], [0x02]] (snd (fc_prepare (\<lambda>_. True) 14 1 77 0 ?s)) = (True, s1)"
      "fc_finish s1 = (True, s2)"
    and f: "unat (fc_freeClusters s2) = card {c. c < unat (14 :: u32) \<and> \<not> map_bit (concat [[0x07], [0x02]]) (c + 2)}"
    and a: "\<forall>c < unat (14 :: u32). fc_allocated (of_nat (c + 2)) s2 = Some (map_bit (concat [[0x07], [0x02]]) (c + 2))"
    using fat_map_correct [OF p, of "[[0x07], [0x02]]"] by auto
  moreover have "fc_allocated 9 s2 = Some True" "fc_allocated 3 s2 = Some False"
    using a [rule_format, of 7] a [rule_format, of 1] m by (simp_all add: numeral_3_eq_3 [symmetric])
  ultimately show ?thesis by auto
qed

subsection \<open>Keeping the count\<close>

lemma clusters_of_nat:
  assumes "bpc \<noteq> 0"
  shows "unat (clusters_of n bpc) = (unat n + unat bpc - 1) div unat bpc"
proof -
  have b: "1 \<le> unat bpc" using assms by (simp add: Suc_le_eq unat_gt_0)
  have "unat (ucast n + ucast bpc :: u64) = unat n + unat bpc"
    using unat_u32 [of n] unat_u32 [of bpc] by (simp add: unat_word_ariths unat_u64_of_u32)
  then have s: "unat (ucast n + ucast bpc - 1 :: u64) = unat n + unat bpc - 1"
    using unat_sub_of_nat [of 1 "ucast n + ucast bpc :: u64"] b by simp
  have "(unat n + unat bpc - 1) div unat bpc \<le> unat n"
  proof -
    have "unat n + unat bpc - 1 < (unat n + 1) * unat bpc"
    proof -
      have "unat n \<le> unat n * unat bpc" using b by simp
      then show ?thesis using b by (simp only: distrib_right mult_1)
    qed
    then have "(unat n + unat bpc - 1) div unat bpc < unat n + 1" by (rule less_mult_imp_div_less)
    then show ?thesis by simp
  qed
  then have "(unat n + unat bpc - 1) div unat bpc < 2 ^ 32" using unat_u32 [of n] by simp
  then show ?thesis
    unfolding clusters_of_def unsigned_ucast_eq [of "(ucast n + ucast bpc - 1) div (ucast bpc :: u64)"]
      unat_div s unat_u64_of_u32
    by (simp add: take_bit_nat_eq_self)
qed

lemma note_resize_count:
  assumes "unat (fc_freeClusters s) \<le> unat (fc_totalClusters s)"
  shows "let t = fc_noteResize oldSize newSize bpc s;
             used = (\<lambda>n. (unat n + unat bpc - 1) div unat bpc) in
    (fc_valid s \<and> \<not> fc_building s \<and> bpc \<noteq> 0 \<longrightarrow>
       unat (fc_freeClusters t) =
         min (unat (fc_totalClusters s)) (unat (fc_freeClusters s) + used oldSize - used newSize)) \<and>
    t = s\<lparr>fc_freeClusters := fc_freeClusters t, fc_exactMap := fc_exactMap t\<rparr> \<and>
    (\<not> fc_valid s \<or> fc_building s \<or> bpc = 0 \<longrightarrow> t = s) \<and>
    unat (fc_freeClusters t) \<le> unat (fc_totalClusters s)"
proof (cases "\<not> fc_valid s \<or> fc_building s \<or> bpc = 0 \<or> oldSize = newSize")
  case True
  then show ?thesis using assms by (auto simp: fc_noteResize_def Let_def)
next
  case False
  define b where "b = clusters_of oldSize bpc"
  define a where "a = clusters_of newSize bpc"
  define f where "f = fc_freeClusters s"
  define tot where "tot = fc_totalClusters s"
  have ua: "unat a = (unat newSize + unat bpc - 1) div unat bpc"
    and ub: "unat b = (unat oldSize + unat bpc - 1) div unat bpc"
    using False by (simp_all add: a_def b_def clusters_of_nat)
  define r where "r = (if a = b then f else if a > b then (if f > a - b then f - (a - b) else 0)
      else (if f + (b - a) < f \<or> f + (b - a) > tot then tot else f + (b - a)))"
  have r: "unat r = min (unat tot) (unat f + unat b - unat a)"
  proof (cases "a > b")
    case True
    then have "unat (a - b) = unat a - unat b" "unat b < unat a"
      by (simp add: unat_sub less_imp_le, simp add: word_less_nat_alt)
    moreover have "a - b < f \<Longrightarrow> unat (f - (a - b)) = unat f - unat (a - b)"
      by (simp add: unat_sub less_imp_le)
    ultimately show ?thesis using True assms by (auto simp: r_def word_less_nat_alt f_def tot_def)
  next
    case ab: False
    then have d: "unat (b - a) = unat b - unat a" "unat a \<le> unat b" by (simp_all add: unat_sub word_le_nat_alt not_less)
    show ?thesis
    proof (cases "unat f + unat (b - a) < 2 ^ 32")
      case True
      then have "unat (f + (b - a)) = unat f + unat (b - a)" using unat_add_of_nat [of f "unat (b - a)"] by simp
      then show ?thesis using ab d assms by (auto simp: r_def word_less_nat_alt f_def tot_def)
    next
      case False
      then have "f + (b - a) < f" using no_olen_add_nat [of f "b - a"] by (simp add: not_le)
      then show ?thesis using ab d assms False unat_u32 [of tot] by (auto simp: r_def f_def tot_def)
    qed
  qed
  have t: "fc_noteResize oldSize newSize bpc s =
      (if a = b then s else s\<lparr>fc_exactMap := False, fc_freeClusters := r\<rparr>)"
    using False by (auto simp: fc_noteResize_def Let_def a_def [symmetric] b_def [symmetric] r_def f_def tot_def)
  have "a = b \<Longrightarrow> r = f" by (simp add: r_def)
  with r show ?thesis using assms False unfolding Let_def t ua [symmetric] ub [symmetric]
    by (auto simp: f_def tot_def)
qed

text \<open>
  On a valid map noteResize moves the free count by exactly the change in the number
  of clusters the file occupies (sizes rounded up to whole clusters; the subtraction of
  naturals stops at zero), kept within the size of the volume, never wraps around, and changes nothing else but the
  exactMap flag; on an invalid map and for a zero cluster size it does nothing.
\<close>

theorem note_resize_exact:
  assumes "unat (fc_freeClusters s) \<le> unat (fc_totalClusters s)"
  shows "let t = fc_noteResize oldSize newSize bpc s;
             used = (\<lambda>n. (unat n + unat bpc - 1) div unat bpc) in
    (fc_valid s \<and> \<not> fc_building s \<and> bpc \<noteq> 0 \<longrightarrow>
       unat (fc_freeClusters t) =
         min (unat (fc_totalClusters s)) (unat (fc_freeClusters s) + used oldSize - used newSize)) \<and>
    t = s\<lparr>fc_freeClusters := fc_freeClusters t, fc_exactMap := fc_exactMap t\<rparr> \<and>
    (\<not> fc_valid s \<or> fc_building s \<or> bpc = 0 \<longrightarrow> t = s) \<and>
    unat (fc_freeClusters t) \<le> unat (fc_totalClusters s)"
  using assms by (rule note_resize_count)

theorem note_resize_exact_witness:
  "unat (fc_freeClusters (fc_noteResize 1000 9000 4096
     (FatAllocationCache_init\<lparr>fc_valid := True, fc_totalClusters := 50, fc_freeClusters := 10\<rparr>))) = 8"
proof -
  let ?s = "FatAllocationCache_init\<lparr>fc_valid := True, fc_totalClusters := 50, fc_freeClusters := 10\<rparr>"
  have "unat (fc_freeClusters ?s) \<le> unat (fc_totalClusters ?s)" by simp
  from note_resize_exact [OF this, of 1000 9000 4096, unfolded Let_def, THEN conjunct1]
  show ?thesis by (simp add: FatAllocationCache_init_def)
qed

subsection \<open>Any sequence of operations\<close>

datatype fc_op =
    Op_begin bool
  | Op_invalidate
  | Op_prepare u32 u32 u32 u8
  | Op_ingest u32 "bytes option"
  | Op_finish
  | Op_resize u32 u32 u32

fun fc_apply :: "(nat \<Rightarrow> bool) \<Rightarrow> fc_op \<Rightarrow> fat_cache \<Rightarrow> fat_cache" where
  "fc_apply heap (Op_begin p) s = snd (fc_begin p s)"
| "fc_apply heap Op_invalidate s = fc_invalidate s"
| "fc_apply heap (Op_prepare t f n a) s = snd (fc_prepare heap t f n a s)"
| "fc_apply heap (Op_ingest r d) s = snd (fc_ingestMap r d s)"
| "fc_apply heap Op_finish s = snd (fc_finish s)"
| "fc_apply heap (Op_resize x y b) s = fc_noteResize x y b s"

definition fc_shape :: "fat_cache \<Rightarrow> bool" where
  "fc_shape s \<longleftrightarrow> (\<exists>b. fc_bits s = Some b \<and> unat (fc_totalClusters s) \<le> 8 * length b) \<and>
     unat (fc_totalClusters s) \<le> 8 * kMaximumBytes"

definition fc_inv :: "fat_cache \<Rightarrow> bool" where
  "fc_inv s \<longleftrightarrow> (fc_building s \<or> fc_valid s \<longrightarrow> fc_shape s) \<and> \<not> (fc_building s \<and> fc_valid s) \<and>
     (fc_valid s \<longrightarrow> unat (fc_freeClusters s) \<le> unat (fc_totalClusters s))"

definition fc_keeps :: "(fat_cache \<Rightarrow> fat_cache) \<Rightarrow> bool" where
  "fc_keeps f \<longleftrightarrow> (\<forall>s. fc_shape s \<longrightarrow> fc_shape (f s) \<and> fc_building (f s) = fc_building s \<and> fc_valid (f s) = fc_valid s)"

lemma ingest_entry_keeps: "fc_keeps (ingest_entry e busy)"
  by (auto simp: fc_keeps_def fc_shape_def ingest_entry_def Let_def)

lemma foldl_keeps: "(\<And>x. fc_keeps (\<lambda>s. f s x)) \<Longrightarrow> fc_keeps (\<lambda>s. foldl f s xs)"
  by (induction xs) (auto simp: fc_keeps_def)

lemma fc_invalidate_inv [inv_intros]: "fc_inv (fc_invalidate s)"
  by (simp add: fc_inv_def fc_invalidate_def)

lemma fc_ingest_inv: "fc_inv s \<Longrightarrow> fc_inv (snd (fc_ingestMap r d s))"
proof (cases "fc_building s")
  case True
  assume s: "fc_inv s"
  with True have sh: "fc_shape s" "\<not> fc_valid s" by (auto simp: fc_inv_def)
  have loops: "fc_inv ((foldl (\<lambda>s k. foldl (\<lambda>s b. ingest_entry (e k b) (p k b) s) s bs) s ks)\<lparr>fc_rawOffset := x\<rparr>)"
    for e p bs ks x
  proof -
    have "fc_keeps (\<lambda>s. foldl (\<lambda>s k. foldl (\<lambda>s b. ingest_entry (e k b) (p k b) s) s bs) s ks)"
      by (intro foldl_keeps ingest_entry_keeps)
    with sh show ?thesis by (simp add: fc_keeps_def fc_inv_def fc_shape_def)
  qed
  show ?thesis
    unfolding fc_ingestMap_def Let_def
    by (auto simp: fc_invalidate_inv simp del: of_nat_add of_nat_mult push_bit_of_1 split: option.splits intro!: loops)
qed (auto simp: fc_ingestMap_def fc_invalidate_inv split: option.splits)

lemma fc_prepare_inv:
  assumes "fc_inv s" "\<And>n. heap n"
  shows "fc_inv (snd (fc_prepare heap tot fs serial af s))"
proof (cases "fst (fc_prepare heap tot fs serial af s)")
  case True
  then have p: "fc_prepare heap tot fs serial af s = (True, snd (fc_prepare heap tot fs serial af s))"
    by (metis prod.collapse)
  have "\<not> fc_valid (snd (fc_prepare heap tot fs serial af s))"
    using True by (auto simp: fc_prepare_def Let_def split: if_splits option.splits)
  then show ?thesis using fc_prepare_counts(1) [OF p, where fat = "\<lambda>_. False"] fc_prepare_counts(3) [OF p]
    by (auto simp: fc_inv_def fc_shape_def fc_counts_def)
next
  case False
  have "fc_prepare heap tot fs serial af s = (False, s)"
    using False assms(2)
    by (auto simp: fc_prepare_def Let_def fc_allocate_def fc_release_def split: if_splits)
  then show ?thesis using assms(1) by simp
qed

lemma fc_apply_inv:
  assumes "fc_inv s" "\<And>n. heap n"
  shows "fc_inv (fc_apply heap op s)"
proof (cases op)
  case (Op_resize x y b)
  have "fc_bits (fc_noteResize x y b s) = fc_bits s \<and> fc_valid (fc_noteResize x y b s) = fc_valid s \<and>
      fc_building (fc_noteResize x y b s) = fc_building s \<and>
      fc_totalClusters (fc_noteResize x y b s) = fc_totalClusters s"
    by (simp add: fc_noteResize_def Let_def)
  moreover have "unat (fc_freeClusters (fc_noteResize x y b s)) \<le> unat (fc_totalClusters s)" if "fc_valid s"
  proof -
    have "unat (fc_freeClusters s) \<le> unat (fc_totalClusters s)" using assms(1) that by (simp add: fc_inv_def)
    from note_resize_count [OF this, of x y b] show ?thesis by (simp only: Let_def)
  qed
  ultimately show ?thesis using assms(1) by (auto simp: Op_resize fc_inv_def fc_shape_def)
next
  case Op_finish
  then show ?thesis using assms(1)
    by (auto simp: fc_finish_def Let_def fc_invalidate_inv fc_inv_def fc_shape_def fc_invalidate_def
        word_le_nat_alt not_less)
qed (use assms fc_ingest_inv fc_prepare_inv fc_invalidate_inv in
  \<open>auto simp: fc_begin_def fc_clear_def fc_inv_def\<close>)

text \<open>
  As long as the heap has the memory asked for, no sequence of calls, with any
  arguments and in any order, makes allocated read through a null pointer or past the
  bitmap, and the free count of a valid map never exceeds the number of clusters.
\<close>

theorem fat_cache_safe:
  assumes "\<And>n. heap n"
  shows "let s = foldl (\<lambda>s op. fc_apply heap op s) FatAllocationCache_init ops in
    (\<forall>c. fc_allocated c s \<noteq> None) \<and>
    (fc_valid s \<longrightarrow> unat (fc_freeClusters s) \<le> unat (fc_totalClusters s) \<and> \<not> fc_building s)"
proof -
  let ?s = "foldl (\<lambda>s op. fc_apply heap op s) FatAllocationCache_init ops"
  have "fc_inv s \<Longrightarrow> fc_inv (foldl (\<lambda>s op. fc_apply heap op s) s ops)" for s
    using assms by (induction ops arbitrary: s) (auto intro: fc_apply_inv)
  then have inv: "fc_inv ?s" by (simp add: fc_inv_def FatAllocationCache_init_def)
  have "fc_allocated c ?s \<noteq> None" for c
  proof (cases "\<not> fc_valid ?s \<or> c < 2 \<or> c \<ge> fc_totalClusters ?s + 2")
    case False
    then obtain b where b: "fc_bits ?s = Some b" "unat (fc_totalClusters ?s) \<le> 8 * length b"
      "unat (fc_totalClusters ?s) \<le> 8 * kMaximumBytes" using inv by (auto simp: fc_inv_def fc_shape_def)
    have "unat (fc_totalClusters ?s + 2) = unat (fc_totalClusters ?s) + 2"
      using unat_add_of_nat [of "fc_totalClusters ?s" 2] b by (simp add: kMaximumBytes_def)
    then have "2 \<le> unat c" "unat c < unat (fc_totalClusters ?s) + 2"
      using False by (auto simp: word_less_nat_alt word_le_nat_alt not_le)
    moreover from this have "unat (c - 2) = unat c - 2" using unat_sub_of_nat [of 2 c] by simp
    ultimately have "unat (c - 2) div 8 < length b" using b(2) by (auto simp: less_mult_imp_div_less)
    with False b show ?thesis by (simp add: fc_allocated_def Let_def cluster_split)
  qed (auto simp: fc_allocated_def)
  with inv show ?thesis by (auto simp: Let_def fc_inv_def)
qed

theorem fat_cache_safe_witness:
  "fc_allocated 5 (foldl (\<lambda>s op. fc_apply (\<lambda>_. True) op s) FatAllocationCache_init
     [Op_begin True, Op_prepare 14 1 77 0, Op_ingest 0 (Some [7, 2]), Op_finish]) \<noteq> None"
  using fat_cache_safe [of "\<lambda>_. True" "[Op_begin True, Op_prepare 14 1 77 0, Op_ingest 0 (Some [7, 2]), Op_finish]"]
  by (simp only: Let_def) blast

text \<open>
  When the heap refuses the larger bitmap of a new volume, prepare has already freed the
  old one but leaves the old map marked valid: allocated then reads through a null pointer.
\<close>

lemma failed_prepare_leaves_null_map:
  "fc_allocated 5 (snd (fc_prepare (\<lambda>n. n < 3) 40 1 78 0
     (FatAllocationCache_init\<lparr>fc_enabled := True, fc_bits := Some [7, 2], fc_bytes := 2,
        fc_totalClusters := 14, fc_fatSectors := 1, fc_valid := True\<rparr>))) = None"
  by (simp add: FatAllocationCache_init_def fc_prepare_def fc_allocated_def fc_release_def
      fc_allocate_def kMaximumBytes_def Let_def)

end
