(* ===== verification/VfsClient.thy ===== *)
theory VfsClient
  imports Protocol FatCache
begin

text \<open>
  \<open>src/vfs_client.cpp\<close>: the client of the file API of Wild Commander, which turns file
  operations into requests over the UART. The transport (class \<open>UartTransport\<close>) is a record
  of its two operations the client uses, \<open>send\<close> and \<open>waitFor\<close> with the client's handler of
  unexpected packets; theory \<open>Uart\<close> gives the record for the real transport. A wait that
  never returns, because the handler restarts the chip, is \<open>None\<close>, and so is the client
  operation that waits. The scratch array \<open>fragment_\<close> keeps nothing between calls and is not
  part of the state. The callbacks of the window transfers are functions with the context
  they work on.
\<close>

subsection \<open>Requests\<close>

definition kVfsStat :: u8 where "kVfsStat = 0x40"
definition kVfsOpenDir :: u8 where "kVfsOpenDir = 0x41"
definition kVfsReadDir :: u8 where "kVfsReadDir = 0x42"
definition kVfsFsInfo :: u8 where "kVfsFsInfo = 0x43"
definition kVfsFatWindow :: u8 where "kVfsFatWindow = 0x44"
definition kVfsOpen :: u8 where "kVfsOpen = 0x50"
definition kVfsRead :: u8 where "kVfsRead = 0x51"
definition kVfsClose :: u8 where "kVfsClose = 0x53"
definition kVfsDelete :: u8 where "kVfsDelete = 0x54"
definition kVfsMkdir :: u8 where "kVfsMkdir = 0x55"
definition kVfsBlock :: u8 where "kVfsBlock = 0x56"
definition kVfsWriteWindow :: u8 where "kVfsWriteWindow = 0x57"
definition kVfsReadWindow :: u8 where "kVfsReadWindow = 0x58"
definition kVfsRename :: u8 where "kVfsRename = 0x59"
definition kVfsExtend :: u8 where "kVfsExtend = 0x5A"
definition kVfsSeek :: u8 where "kVfsSeek = 0x5B"
definition kVfsSetEof :: u8 where "kVfsSetEof = 0x5C"
definition kVfsMoveRename :: u8 where "kVfsMoveRename = 0x5D"
definition kVfsSetMetadata :: u8 where "kVfsSetMetadata = 0x5E"

definition kNormalTimeoutMs :: u32 where "kNormalTimeoutMs = 5000"
definition kFragmentTimeoutMs :: u32 where "kFragmentTimeoutMs = 30000"
definition kMutateTimeoutMs :: u32 where "kMutateTimeoutMs = 60000"
definition kCloseTimeoutMs :: u32 where "kCloseTimeoutMs = 180000"

definition kTransferWindowSize :: nat where "kTransferWindowSize = 16 * 1024"
definition kFilexTransferWindowSize :: nat where "kFilexTransferWindowSize = kTransferWindowSize - 32"
definition kBlockSize :: nat where "kBlockSize = 512"
definition kMetadataSize :: nat where "kMetadataSize = 16"
definition kFirstData :: nat where "kFirstData = 248"
definition kContinueData :: nat where "kContinueData = 252"
definition kWriteWindowHeader :: nat where "kWriteWindowHeader = 8"
definition kReadWindowHeader :: nat where "kReadWindowHeader = 9"
definition kFatTransferWindowSize :: nat where "kFatTransferWindowSize = 31 * 512"
definition kWriteWindowData :: nat where "kWriteWindowData = kMaxPayload - kWriteWindowHeader"
definition kCapabilityWriteWindow :: u8 where "kCapabilityWriteWindow = 0x01"
definition kCapabilityReadWindow :: u8 where "kCapabilityReadWindow = 0x02"
definition kCapabilityExtend :: u8 where "kCapabilityExtend = 0x04"
definition kWindowStart :: u8 where "kWindowStart = 0x01"
definition kWindowEnd :: u8 where "kWindowEnd = 0x02"
definition kDirectoryCapabilityBatch :: u8 where "kDirectoryCapabilityBatch = 0x01"
definition kDirectoryBatchMore :: u8 where "kDirectoryBatchMore = 2"
definition kDirectoryBatchEntries :: nat where "kDirectoryBatchEntries = 16"

record 't transport =
  tr_send :: "u8 \<Rightarrow> bytes \<Rightarrow> 't \<Rightarrow> bool \<times> 't"
  tr_wait :: "u8 \<Rightarrow> u32 \<Rightarrow> 't \<Rightarrow> (packet option \<times> 't) option"

record vfs_entry =
  ve_isDirectory :: bool
  ve_size :: u32
  ve_writeDate :: u16
  ve_writeTime :: u16
  ve_hasMetadata :: bool
  ve_attributes :: u8
  ve_createTenth :: u8
  ve_createTime :: u16
  ve_createDate :: u16
  ve_accessDate :: u16
  ve_name :: bytes

definition VfsEntry_init :: vfs_entry where
  "VfsEntry_init = \<lparr>ve_isDirectory = False, ve_size = 0, ve_writeDate = 0, ve_writeTime = 0,
     ve_hasMetadata = False, ve_attributes = 0, ve_createTenth = 0, ve_createTime = 0,
     ve_createDate = 0, ve_accessDate = 0, ve_name = []\<rparr>"

record vfs_fs_info =
  fi_flags :: u8
  fi_sectorsPerCluster :: u8
  fi_bytesPerSector :: u16
  fi_totalClusters :: u32
  fi_freeClusters :: u32
  fi_serial :: u32
  fi_label :: bytes
  fi_totalSectors :: u32
  fi_nextFree :: u32
  fi_fatCount :: u8
  fi_activeFat :: u8
  fi_fatFlags :: u8
  fi_mediaState :: u8
  fi_fatSectors :: u32

record vfs_metadata =
  vm_attrMask :: u8
  vm_attrValue :: u8
  vm_timeMask :: u8
  vm_createTenth :: u8
  vm_createTime :: u16
  vm_createDate :: u16
  vm_accessDate :: u16
  vm_writeTime :: u16
  vm_writeDate :: u16
  vm_createFileTime :: u64
  vm_accessFileTime :: u64
  vm_writeFileTime :: u64

text \<open>
  The state. \<open>vc_writeBuffer\<close> holds the first \<open>writeCount_\<close> bytes of the array, and
  \<open>vc_directoryEntries\<close> the first \<open>directoryCount_\<close> entries; \<open>vc_directoryMemory\<close> says whether
  \<open>directoryEntries_\<close> was allocated.
\<close>

record 't vfs_client =
  vc_transport :: 't
  vc_lastError :: string
  vc_writeBuffer :: bytes
  vc_writeSequence :: u8
  vc_readSequence :: u8
  vc_fatSequence :: u8
  vc_capabilities :: u8
  vc_filexCapabilities :: u8
  vc_lastStatus :: u8
  vc_openMode :: u8
  vc_randomOffset :: u32
  vc_randomOffsetValid :: bool
  vc_writeActive :: bool
  vc_writeFailed :: bool
  vc_fatCache :: fat_cache
  vc_fsInfoCache :: vfs_fs_info
  vc_fsInfoValid :: bool
  vc_directoryBatch :: bool
  vc_directoryEnded :: bool
  vc_directoryNext :: nat
  vc_directoryMemory :: bool
  vc_directoryEntries :: "vfs_entry list"

text \<open>\<open>fi_label\<close> is the label without its closing null byte.\<close>

definition VfsFsInfo_init :: vfs_fs_info where
  "VfsFsInfo_init =
     \<lparr>fi_flags = 0, fi_sectorsPerCluster = 0, fi_bytesPerSector = 0, fi_totalClusters = 0, fi_freeClusters = 0xFFFFFFFF,
      fi_serial = 0, fi_label = replicate 11 0, fi_totalSectors = 0, fi_nextFree = 0xFFFFFFFF, fi_fatCount = 0,
      fi_activeFat = 0, fi_fatFlags = 0, fi_mediaState = 0, fi_fatSectors = 0\<rparr>"

definition VfsClient_init :: "'t \<Rightarrow> 't vfs_client" where
  "VfsClient_init t =
     \<lparr>vc_transport = t, vc_lastError = ''none'', vc_writeBuffer = [], vc_writeSequence = 0, vc_readSequence = 0,
      vc_fatSequence = 0, vc_capabilities = 0, vc_filexCapabilities = 0, vc_lastStatus = 0, vc_openMode = 0,
      vc_randomOffset = 0, vc_randomOffsetValid = False, vc_writeActive = False, vc_writeFailed = False,
      vc_fatCache = FatAllocationCache_init, vc_fsInfoCache = VfsFsInfo_init, vc_fsInfoValid = False,
      vc_directoryBatch = False, vc_directoryEnded = False, vc_directoryNext = 0, vc_directoryMemory = False,
      vc_directoryEntries = []\<rparr>"

text \<open>\<open>vsnprintf\<close> into the 64-byte message array; \<open>%02x\<close>, and the status a message shows.\<close>

definition setError :: "string \<Rightarrow> 't vfs_client \<Rightarrow> 't vfs_client" where
  "setError message s = s\<lparr>vc_lastError := take 63 message\<rparr>"

lemma setError_sel [simp]:
  "vc_transport (setError m s) = vc_transport s" "vc_writeBuffer (setError m s) = vc_writeBuffer s"
  "vc_writeSequence (setError m s) = vc_writeSequence s" "vc_readSequence (setError m s) = vc_readSequence s"
  "vc_fatSequence (setError m s) = vc_fatSequence s" "vc_capabilities (setError m s) = vc_capabilities s"
  "vc_lastStatus (setError m s) = vc_lastStatus s" "vc_openMode (setError m s) = vc_openMode s"
  "vc_randomOffset (setError m s) = vc_randomOffset s" "vc_randomOffsetValid (setError m s) = vc_randomOffsetValid s"
  "vc_writeActive (setError m s) = vc_writeActive s" "vc_writeFailed (setError m s) = vc_writeFailed s"
  "vc_fatCache (setError m s) = vc_fatCache s" "vc_fsInfoCache (setError m s) = vc_fsInfoCache s"
  "vc_fsInfoValid (setError m s) = vc_fsInfoValid s" "vc_directoryEntries (setError m s) = vc_directoryEntries s"
  "vc_directoryNext (setError m s) = vc_directoryNext s" "vc_directoryEnded (setError m s) = vc_directoryEnded s"
  "vc_directoryBatch (setError m s) = vc_directoryBatch s"
  by (simp_all add: setError_def)

definition hex2 :: "u8 \<Rightarrow> string" where
  "hex2 b = [''0123456789abcdef'' ! unat (drop_bit 4 b), ''0123456789abcdef'' ! unat (b AND 0x0F)]"

definition status_of :: "bytes \<Rightarrow> u8" where
  "status_of d = (if d = [] then 0xFF else d ! 0)"

definition status_text :: "bytes \<Rightarrow> string" where
  "status_text d = dec_digits (uint (status_of d))"

definition failed :: "string \<Rightarrow> 't vfs_client \<Rightarrow> (bool \<times> 't vfs_client) option" where
  "failed message s = Some (False, setError message s)"

definition vc_wait :: "'t transport \<Rightarrow> u8 \<Rightarrow> u32 \<Rightarrow> 't vfs_client \<Rightarrow> (bytes option \<times> 't vfs_client) option" where
  "vc_wait tr command timeoutMs s =
     (case tr_wait tr command timeoutMs (vc_transport s) of
        None \<Rightarrow> None
      | Some (r, t) \<Rightarrow> Some (map_option pkt_data r, s\<lparr>vc_transport := t\<rparr>))"

definition vc_send :: "'t transport \<Rightarrow> u8 \<Rightarrow> bytes \<Rightarrow> 't vfs_client \<Rightarrow> bool \<times> 't vfs_client" where
  "vc_send tr command data s =
     (let (ok, t) = tr_send tr command data (vc_transport s) in (ok, s\<lparr>vc_transport := t\<rparr>))"

definition vc_request :: "'t transport \<Rightarrow> u8 \<Rightarrow> bytes \<Rightarrow> u32 \<Rightarrow> 't vfs_client \<Rightarrow>
    (bytes option \<times> 't vfs_client) option" where
  "vc_request tr command data timeoutMs s =
     (let (ok, s1) = vc_send tr command data (setError ''none'' s)
      in if \<not> ok then Some (None, setError (''uart-send-'' @ hex2 command) s1)
         else Option.bind (vc_wait tr command timeoutMs s1) (\<lambda>(r, s2).
           case r of None \<Rightarrow> Some (None, setError (''timeout-'' @ hex2 command) s2)
                   | Some d \<Rightarrow> Some (Some d, s2)))"

definition pathRequest :: "'t transport \<Rightarrow> u8 \<Rightarrow> bytes option \<Rightarrow> u32 \<Rightarrow> 't vfs_client \<Rightarrow>
    (bytes option \<times> 't vfs_client) option" where
  "pathRequest tr command path timeoutMs s =
     (case path of None \<Rightarrow> Some (None, setError ''path-null'' s)
      | Some p \<Rightarrow>
          if length p + 1 > kMaxPayload then Some (None, setError ''path-long'' s)
          else vc_request tr command (p @ [0]) timeoutMs s)"

definition vc_stat :: "'t transport \<Rightarrow> bytes option \<Rightarrow> vfs_entry \<Rightarrow> 't vfs_client \<Rightarrow>
    (bool \<times> vfs_entry \<times> 't vfs_client) option" where
  "vc_stat tr path entry s =
     Option.bind (pathRequest tr kVfsStat path kNormalTimeoutMs s) (\<lambda>(r, s1).
       case r of None \<Rightarrow> Some (False, entry, s1)
       | Some d \<Rightarrow>
         if length d < 6 \<or> d ! 0 \<noteq> 0
         then Some (False, entry, setError (''stat-'' @ status_text d) s1)
         else
           let e = entry\<lparr>ve_isDirectory := (d ! 1 \<noteq> 0), ve_size := readLe32 (drop 2 d), ve_name := [],
                 ve_writeDate := 0, ve_writeTime := 0, ve_hasMetadata := False, ve_attributes := 0,
                 ve_createTenth := 0, ve_createTime := 0, ve_createDate := 0, ve_accessDate := 0\<rparr>;
               m = drop 6 d
           in if length d \<ge> 6 + kMetadataSize \<and> unat (d ! 6) = kMetadataSize
              then Some (True, e\<lparr>ve_hasMetadata := True, ve_attributes := m ! 2, ve_createTenth := m ! 4,
                 ve_createTime := readLe16 (drop 5 m), ve_createDate := readLe16 (drop 7 m),
                 ve_accessDate := readLe16 (drop 9 m), ve_writeTime := readLe16 (drop 11 m),
                 ve_writeDate := readLe16 (drop 13 m)\<rparr>, s1)
              else Some (True, e, s1))"

subsection \<open>Directories\<close>

definition vc_openDirectory :: "'t transport \<Rightarrow> bytes option \<Rightarrow> 't vfs_client \<Rightarrow> (bool \<times> 't vfs_client) option" where
  "vc_openDirectory tr path s =
     Option.bind (pathRequest tr kVfsOpenDir path kNormalTimeoutMs
        (s\<lparr>vc_directoryBatch := False, vc_directoryEnded := False, vc_directoryEntries := [],
           vc_directoryNext := 0\<rparr>)) (\<lambda>(r, s1).
       case r of None \<Rightarrow> Some (False, s1)
       | Some d \<Rightarrow>
         if length d < 1 \<or> d ! 0 \<noteq> 0 then failed (''opendir-'' @ status_text d) s1
         else Some (True, s1\<lparr>vc_directoryBatch :=
                (vc_directoryMemory s1 \<and> length d \<ge> 2 \<and> d ! 1 AND kDirectoryCapabilityBatch \<noteq> 0)\<rparr>))"

definition strip_name :: "bytes \<Rightarrow> bytes" where
  "strip_name n = rev (dropWhile (\<lambda>c. c = 0 \<or> c = 0x20) (rev n))"

definition parseDirectoryEntry :: "bytes \<Rightarrow> vfs_entry \<Rightarrow> vfs_entry" where
  "parseDirectoryEntry d entry =
     (let stamped = (length d \<ge> 12 \<and> d ! (length d - 5) = 0);
          e = entry\<lparr>ve_isDirectory := (d ! 1 \<noteq> 0), ve_size := readLe32 (drop 2 d),
                ve_writeDate := (if stamped then readLe16 (drop (length d - 4) d) else 0),
                ve_writeTime := (if stamped then readLe16 (drop (length d - 2) d) else 0),
                ve_hasMetadata := False\<rparr>;
          nameLength0 = length d - 6 - (if stamped then 5 else 0);
          nameLength = (if nameLength0 \<ge> 256 then 255 else nameLength0)
      in e\<lparr>ve_name := strip_name (take nameLength (drop 6 d))\<rparr>)"

text \<open>
  The loop over the frames of a batch. It takes at most 16 entries and one closing frame,
  so it is a recursion on the room that is left.
\<close>

fun batch_loop :: "'t transport \<Rightarrow> nat \<Rightarrow> bytes \<Rightarrow> 't vfs_client \<Rightarrow> (bool \<times> 't vfs_client) option" where
  "batch_loop tr room d s =
     (if length d \<ge> 6 \<and> d ! 0 = 0 then
        (case room of 0 \<Rightarrow> failed ''readdir-batch-overflow'' s
         | Suc room1 \<Rightarrow>
           let s1 = s\<lparr>vc_directoryEntries := vc_directoryEntries s @ [parseDirectoryEntry d VfsEntry_init]\<rparr>
           in Option.bind (vc_wait tr kVfsReadDir kNormalTimeoutMs s1) (\<lambda>(r, s2).
                case r of None \<Rightarrow> failed (''timeout-'' @ hex2 kVfsReadDir) s2
                | Some d2 \<Rightarrow> batch_loop tr room1 d2 s2))
      else if length d < 1 \<or> d ! 0 = 0 then failed ''readdir-short'' s
      else Some (True,
             if d ! 0 \<noteq> kDirectoryBatchMore \<or> vc_directoryEntries s = [] then s\<lparr>vc_directoryEnded := True\<rparr> else s))"

declare batch_loop.simps [simp del]

definition fetchDirectoryBatch :: "'t transport \<Rightarrow> 't vfs_client \<Rightarrow> (bool \<times> 't vfs_client) option" where
  "fetchDirectoryBatch tr s =
     Option.bind (vc_request tr kVfsReadDir [of_nat kDirectoryBatchEntries] kNormalTimeoutMs
        (s\<lparr>vc_directoryEntries := [], vc_directoryNext := 0\<rparr>)) (\<lambda>(r, s1).
       case r of None \<Rightarrow> Some (False, s1)
       | Some d \<Rightarrow> batch_loop tr kDirectoryBatchEntries d s1)"

text \<open>The results are success, the entry, and the end-of-directory flag.\<close>

definition vc_readDirectory :: "'t transport \<Rightarrow> vfs_entry \<Rightarrow> 't vfs_client \<Rightarrow>
    (bool \<times> vfs_entry \<times> bool \<times> 't vfs_client) option" where
  "vc_readDirectory tr entry s =
     (let take_one = (\<lambda>s. Some (True, vc_directoryEntries s ! vc_directoryNext s, False,
                           s\<lparr>vc_directoryNext := vc_directoryNext s + 1\<rparr>))
      in if vc_directoryBatch s then
           (if vc_directoryNext s \<ge> length (vc_directoryEntries s) then
              (if vc_directoryEnded s then Some (True, entry, True, s)
               else Option.bind (fetchDirectoryBatch tr s) (\<lambda>(ok, s1).
                 if \<not> ok then Some (False, entry, False, s1)
                 else if vc_directoryNext s1 \<ge> length (vc_directoryEntries s1) then Some (True, entry, True, s1)
                 else take_one s1))
            else take_one s)
         else Option.bind (vc_request tr kVfsReadDir [] kNormalTimeoutMs s) (\<lambda>(r, s1).
           case r of None \<Rightarrow> Some (False, entry, False, s1)
           | Some d \<Rightarrow>
             if length d \<ge> 1 \<and> d ! 0 \<noteq> 0 then Some (True, entry, True, s1)
             else if length d < 6 then Some (False, entry, False, setError ''readdir-short'' s1)
             else Some (True, parseDirectoryEntry d entry, False, s1)))"

subsection \<open>Opening and positions\<close>

definition resetWriteState :: "bool \<Rightarrow> 't vfs_client \<Rightarrow> 't vfs_client" where
  "resetWriteState active s =
     s\<lparr>vc_writeBuffer := [], vc_writeSequence := 0, vc_writeActive := active, vc_writeFailed := False\<rparr>"

definition invalidateFsCache :: "'t vfs_client \<Rightarrow> 't vfs_client" where
  "invalidateFsCache s = s\<lparr>vc_fsInfoValid := False, vc_fatCache := fc_invalidate (vc_fatCache s)\<rparr>"

definition openFileMode :: "'t transport \<Rightarrow> bytes option \<Rightarrow> u8 \<Rightarrow> 't vfs_client \<Rightarrow> (bool \<times> 't vfs_client) option" where
  "openFileMode tr path mode s =
     (case path of None \<Rightarrow> failed ''open-path-null'' s
      | Some p \<Rightarrow>
        if length p + 1 + 1 > kMaxPayload then failed ''open-path-long'' s
        else
          let forWrite = (mode = 1 \<or> mode = 2);
              s1 = (if forWrite \<or> mode = 3 then resetWriteState False s else s)
                     \<lparr>vc_readSequence := 0, vc_capabilities := 0, vc_filexCapabilities := 0,
                      vc_lastStatus := 0, vc_randomOffset := 0, vc_randomOffsetValid := False\<rparr>
          in Option.bind (vc_request tr kVfsOpen (mode # p @ [0])
                (if forWrite then kMutateTimeoutMs else kNormalTimeoutMs) s1) (\<lambda>(r, s2).
             case r of None \<Rightarrow> Some (False, s2)
             | Some d \<Rightarrow>
               if length d < 1 \<or> d ! 0 \<noteq> 0
               then failed (''open-'' @ status_text d) (s2\<lparr>vc_lastStatus := status_of d\<rparr>)
               else
                 let s3 = (if length d \<ge> 2 then s2\<lparr>vc_capabilities := d ! 1\<rparr> else s2);
                     s4 = (if length d \<ge> 3 then s3\<lparr>vc_filexCapabilities := d ! 2\<rparr> else s3)
                 in if mode = 3 \<and> vc_filexCapabilities s4 = 0
                    then Some (False, (setError ''open-filex-unsupported'' s4)\<lparr>vc_lastStatus := 0x15\<rparr>)
                    else
                      let s5 = s4\<lparr>vc_openMode := mode, vc_randomOffsetValid := (mode = 3)\<rparr>;
                          s6 = (if forWrite then resetWriteState True s5 else s5)
                      in Some (True, if mode = 1 then invalidateFsCache s6 else s6)))"

definition vc_openFile :: "'t transport \<Rightarrow> bytes option \<Rightarrow> bool \<Rightarrow> 't vfs_client \<Rightarrow> (bool \<times> 't vfs_client) option" where
  "vc_openFile tr path forWrite s = openFileMode tr path (if forWrite then 1 else 0) s"

definition openFileAppend :: "'t transport \<Rightarrow> bytes option \<Rightarrow> 't vfs_client \<Rightarrow> (bool \<times> 't vfs_client) option" where
  "openFileAppend tr path s = openFileMode tr path 2 s"

definition openFileRandom :: "'t transport \<Rightarrow> bytes option \<Rightarrow> 't vfs_client \<Rightarrow> (bool \<times> 't vfs_client) option" where
  "openFileRandom tr path s = openFileMode tr path 3 s"

definition seekFile :: "'t transport \<Rightarrow> u32 \<Rightarrow> 't vfs_client \<Rightarrow> (bool \<times> 't vfs_client) option" where
  "seekFile tr offset s =
     (if vc_openMode s \<noteq> 3 then Some (False, (setError ''seek-not-random'' s)\<lparr>vc_lastStatus := 0x15\<rparr>)
      else Option.bind (vc_request tr kVfsSeek (writeLe32 offset) kNormalTimeoutMs s) (\<lambda>(r, s1).
        case r of None \<Rightarrow> Some (False, s1\<lparr>vc_lastStatus := 0xFF\<rparr>)
        | Some d \<Rightarrow>
          if length d < 1 \<or> d ! 0 \<noteq> 0
          then failed (''seek-'' @ status_text d) (s1\<lparr>vc_lastStatus := status_of d\<rparr>)
          else Some (True, s1\<lparr>vc_lastStatus := 0, vc_randomOffset := offset, vc_randomOffsetValid := True\<rparr>)))"

subsection \<open>Reading\<close>

text \<open>The bytes read are returned; \<open>output\<close> is false for a null pointer.\<close>

definition vc_readFile :: "'t transport \<Rightarrow> bool \<Rightarrow> nat \<Rightarrow> nat \<Rightarrow> 't vfs_client \<Rightarrow>
    (bool \<times> bytes \<times> 't vfs_client) option" where
  "vc_readFile tr output capacity wanted0 s =
     (if \<not> output \<or> capacity = 0 then Some (False, [], setError ''read-range'' s)
      else
        let wanted = min (min wanted0 capacity) kBlockSize
        in Option.bind (vc_request tr kVfsRead (writeLe16 (of_nat wanted)) kNormalTimeoutMs s) (\<lambda>(r, s1).
           case r of None \<Rightarrow> Some (False, [], s1)
           | Some d \<Rightarrow>
             if length d < 1 \<or> d ! 0 \<noteq> 0
             then Some (False, [], setError (''read-'' @ status_text d) (s1\<lparr>vc_lastStatus := status_of d\<rparr>))
             else if length d - 1 > capacity \<or> length d - 1 > wanted
             then Some (False, [], setError ''read-overrun'' s1)
             else Some (True, tl d, s1)))"

text \<open>
  One frame of a window: \<open>Inl\<close> the reason for which it is refused, or the data it
  carries, the length of the whole window and whether it is the last frame.
\<close>

definition window_check :: "(nat \<Rightarrow> bool) \<Rightarrow> u8 \<Rightarrow> nat \<Rightarrow> nat \<Rightarrow> bytes \<Rightarrow> string + (bytes \<times> nat \<times> bool)" where
  "window_check okTotal sequence received windowTotal d =
     (if length d \<le> kReadWindowHeader then Inl ''len''
      else if d ! 1 AND NOT (kWindowStart OR kWindowEnd) \<noteq> 0 \<or> d ! 2 \<noteq> sequence then Inl ''header''
      else
        let flags = d ! 1; offset = unat (readLe16 (drop 3 d)); frameTotal = unat (readLe16 (drop 5 d));
            part = drop kReadWindowHeader d;
            isStart = (flags AND kWindowStart \<noteq> 0); isEnd = (flags AND kWindowEnd \<noteq> 0)
        in if isStart \<noteq> (received = 0) \<or> offset \<noteq> received \<or> \<not> okTotal frameTotal \<or>
              offset > frameTotal \<or> (windowTotal \<noteq> 0 \<and> frameTotal \<noteq> windowTotal) \<or>
              length part > frameTotal - offset then Inl ''order''
           else
             let next = received + length part
             in if (isEnd \<and> next \<noteq> frameTotal) \<or> (\<not> isEnd \<and> next \<ge> frameTotal) then Inl ''end''
                else Inr (part, frameTotal, isEnd))"

text \<open>
  The loop over the frames, shared by file windows and map windows. The results are
  success, whether the window was completed and its checksum verified, the bytes received,
  the context of the sink and the client. \<open>emptyOk\<close> is the end-of-file answer of file windows.
\<close>

partial_function (option) window_loop ::
    "'t transport \<Rightarrow> u8 \<Rightarrow> string \<Rightarrow> bool \<Rightarrow> (nat \<Rightarrow> bool) \<Rightarrow> u8 \<Rightarrow> ('c \<Rightarrow> bytes \<Rightarrow> bool \<times> 'c) \<Rightarrow>
     nat \<Rightarrow> nat \<Rightarrow> u16 \<Rightarrow> 'c \<Rightarrow> 't vfs_client \<Rightarrow> (bool \<times> bool \<times> nat \<times> 'c \<times> 't vfs_client) option" where
  "window_loop tr command tag emptyOk okTotal sequence sink received windowTotal crc ctx s =
     Option.bind (vc_wait tr command kFragmentTimeoutMs s) (\<lambda>(r, s1).
       case r of None \<Rightarrow> Some (False, False, received, ctx, setError (tag @ ''timeout'') s1)
       | Some d \<Rightarrow>
         if emptyOk \<and> length d = 1 \<and> d ! 0 = 1
         then Some (True, False, received, ctx, s1\<lparr>vc_lastStatus := 1\<rparr>)
         else if length d < 1 \<or> d ! 0 \<noteq> 0
         then Some (False, False, received, ctx,
                setError (tag @ ''status-'' @ status_text d) (s1\<lparr>vc_lastStatus := status_of d\<rparr>))
         else
           (case window_check okTotal sequence received windowTotal d of
              Inl reason \<Rightarrow> Some (False, False, received, ctx, setError (tag @ reason) s1)
            | Inr (part, frameTotal, isEnd) \<Rightarrow>
              let (taken, ctx1) = sink ctx part
              in if \<not> taken then Some (False, False, received, ctx1, setError (tag @ ''sink'') s1)
                 else
                   let crc1 = crc16CcittFalseUpdate crc part; next = received + length part
                   in if isEnd then
                        (if crc1 \<noteq> readLe16 (drop 7 d)
                         then Some (False, False, next, ctx1, setError (tag @ ''crc'') s1)
                         else Some (True, True, next, ctx1, s1))
                      else window_loop tr command tag emptyOk okTotal sequence sink next frameTotal crc1 ctx1 s1))"

declare window_loop.simps [code]

text \<open>The fallback for old plugins: sectors of 512 bytes.\<close>

partial_function (option) sector_loop ::
    "'t transport \<Rightarrow> ('c \<Rightarrow> bytes \<Rightarrow> bool \<times> 'c) \<Rightarrow> nat \<Rightarrow> nat \<Rightarrow> 'c \<Rightarrow> 't vfs_client \<Rightarrow>
     (bool \<times> nat \<times> 'c \<times> 't vfs_client) option" where
  "sector_loop tr sink wanted received ctx s =
     (if received \<ge> wanted then Some (True, received, ctx, s)
      else
        let partWanted = min (wanted - received) kBlockSize
        in Option.bind (vc_readFile tr True kMaxPayload partWanted s) (\<lambda>(ok, part, s1).
           if \<not> ok then Some (False, received, ctx, s1)
           else if part = [] then Some (False, received, ctx, setError ''read-window-empty'' s1)
           else
             let (taken, ctx1) = sink ctx part
             in if \<not> taken then Some (False, received, ctx1, setError ''read-window-sink'' s1)
                else
                  let next = received + length part
                  in if length part < partWanted then Some (True, next, ctx1, s1)
                     else sector_loop tr sink wanted next ctx1 s1))"

declare sector_loop.simps [code]

definition readFileWindow :: "'t transport \<Rightarrow> nat \<Rightarrow> ('c \<Rightarrow> bytes \<Rightarrow> bool \<times> 'c) option \<Rightarrow> 'c \<Rightarrow> 't vfs_client \<Rightarrow>
    (bool \<times> nat \<times> 'c \<times> 't vfs_client) option" where
  "readFileWindow tr wanted sinkp ctx s =
     (case sinkp of None \<Rightarrow> Some (False, 0, ctx, setError ''read-window-range'' s)
      | Some sink \<Rightarrow>
        let windowLimit = (if vc_openMode s = 3 then kFilexTransferWindowSize else kTransferWindowSize)
        in if wanted = 0 \<or> wanted > windowLimit then Some (False, 0, ctx, setError ''read-window-range'' s)
           else if vc_capabilities s AND kCapabilityReadWindow = 0 then sector_loop tr sink wanted 0 ctx s
           else
             let (ok, s1) = vc_send tr kVfsReadWindow (vc_readSequence s # writeLe16 (of_nat wanted))
                              (setError ''none'' s)
             in if \<not> ok then Some (False, 0, ctx, setError ''read-window-send'' s1)
                else Option.bind (window_loop tr kVfsReadWindow ''read-window-'' True
                       (\<lambda>frameTotal. frameTotal \<noteq> 0 \<and> frameTotal \<le> wanted) (vc_readSequence s1) sink 0 0 0xFFFF ctx s1)
                     (\<lambda>(ok, complete, received, ctx1, s2).
                       if complete then
                         Some (ok, received, ctx1,
                           s2\<lparr>vc_readSequence := vc_readSequence s1 + 1, vc_lastStatus := 0,
                              vc_randomOffset := (if vc_openMode s2 = 3 \<and> vc_randomOffsetValid s2
                                then vc_randomOffset s2 + of_nat received else vc_randomOffset s2)\<rparr>)
                       else Some (ok, received, ctx1, s2)))"

definition readFatWindow :: "'t transport \<Rightarrow> u32 \<Rightarrow> nat \<Rightarrow> ('c \<Rightarrow> bytes \<Rightarrow> bool \<times> 'c) option \<Rightarrow> 'c \<Rightarrow> 't vfs_client \<Rightarrow>
    (bool \<times> nat \<times> 'c \<times> 't vfs_client) option" where
  "readFatWindow tr rawOffset wanted sinkp ctx s =
     (case sinkp of None \<Rightarrow> Some (False, 0, ctx, setError ''fat-window-range'' s)
      | Some sink \<Rightarrow>
        if wanted = 0 \<or> wanted > kFatTransferWindowSize \<or> rawOffset AND 511 \<noteq> 0 \<or> wanted mod 512 \<noteq> 0
        then Some (False, 0, ctx, setError ''fat-window-range'' s)
        else
          let (ok, s1) = vc_send tr kVfsFatWindow
                (vc_fatSequence s # writeLe32 rawOffset @ writeLe16 (of_nat wanted)) (setError ''none'' s)
          in if \<not> ok then Some (False, 0, ctx, setError ''fat-window-send'' s1)
             else Option.bind (window_loop tr kVfsFatWindow ''fat-window-'' False
                    (\<lambda>frameTotal. frameTotal = wanted div 32) (vc_fatSequence s1) sink 0 0 0xFFFF ctx s1)
                  (\<lambda>(ok, complete, received, ctx1, s2).
                    if complete then
                      Some (ok, received, ctx1, s2\<lparr>vc_fatSequence := vc_fatSequence s1 + 1, vc_lastStatus := 0\<rparr>)
                    else Some (ok, received, ctx1, s2)))"

subsection \<open>The map of free clusters\<close>

definition ingestFatWindow :: "fat_cache \<times> u32 \<Rightarrow> bytes \<Rightarrow> bool \<times> fat_cache \<times> u32" where
  "ingestFatWindow context data =
     (case context of (cache, rawOffset) \<Rightarrow>
        case fc_ingestMap rawOffset (Some data) cache of
          (False, cache1) \<Rightarrow> (False, cache1, rawOffset)
        | (True, cache1) \<Rightarrow> (True, cache1, rawOffset + of_nat (length data * 32)))"

partial_function (option) fat_build_loop ::
    "'t transport \<Rightarrow> nat \<Rightarrow> nat \<Rightarrow> 't vfs_client \<Rightarrow> (bool \<times> 't vfs_client) option" where
  "fat_build_loop tr rounded rawOffset s =
     (if rawOffset \<ge> rounded then Some (True, s)
      else
        let wanted = min (rounded - rawOffset) kFatTransferWindowSize
        in Option.bind (readFatWindow tr (of_nat rawOffset) wanted (Some ingestFatWindow)
              (vc_fatCache s, of_nat rawOffset) s) (\<lambda>(ok, received, (cache, sinkOffset), s1).
           let s2 = s1\<lparr>vc_fatCache := cache\<rparr>
           in if \<not> ok \<or> received \<noteq> wanted div 32 \<or> sinkOffset \<noteq> of_nat (rawOffset + wanted)
              then Some (False, s2\<lparr>vc_fatCache := fc_invalidate cache\<rparr>)
              else fat_build_loop tr rounded (rawOffset + wanted) s2))"

declare fat_build_loop.simps [code]

definition buildFatCache :: "'t transport \<Rightarrow> (nat \<Rightarrow> bool) \<Rightarrow> vfs_fs_info \<Rightarrow> 't vfs_client \<Rightarrow>
    (bool \<times> vfs_fs_info \<times> 't vfs_client) option" where
  "buildFatCache tr heap info s =
     (let fill = (\<lambda>s. info\<lparr>fi_freeClusters := fc_freeClusters (vc_fatCache s), fi_flags := fi_flags info OR 0x04\<rparr>)
      in if fc_matches (fi_totalClusters info) (fi_fatSectors info) (fi_serial info) (fi_activeFat info) (vc_fatCache s)
         then Some (True, fill s, s)
         else if fi_bytesPerSector info \<noteq> 512 then Some (False, info, setError ''fat-cache-memory'' s)
         else
           let (ok, cache) = fc_prepare heap (fi_totalClusters info) (fi_fatSectors info) (fi_serial info)
                 (fi_activeFat info) (vc_fatCache s);
               s1 = s\<lparr>vc_fatCache := cache\<rparr>
           in if \<not> ok then Some (False, info, setError ''fat-cache-memory'' s1)
              else
                let required = (unat (fi_totalClusters info) + 2) * 4;
                    rounded = (required + 511) div 512 * 512
                in if rounded > unat (fi_fatSectors info) * 512 \<or> rounded > 0xFFFFFFFF
                   then Some (False, info, setError ''fat-cache-geometry'' (s1\<lparr>vc_fatCache := fc_invalidate cache\<rparr>))
                   else Option.bind (fat_build_loop tr rounded 0 s1) (\<lambda>(ok, s2).
                     if \<not> ok then Some (False, info, s2)
                     else
                       let (fin, cache2) = fc_finish (vc_fatCache s2); s3 = s2\<lparr>vc_fatCache := cache2\<rparr>
                       in if \<not> fin then Some (False, info, setError ''fat-cache-incomplete'' s3)
                          else Some (True, fill s3, s3)))"

subsection \<open>Writing\<close>

text \<open>\<open>checkBlockAck\<close>: the message is set only on failure.\<close>

definition checkBlockAck :: "bytes \<Rightarrow> u8 \<Rightarrow> u16 \<Rightarrow> 't vfs_client \<Rightarrow> bool \<times> 't vfs_client" where
  "checkBlockAck d sequence accepted s =
     (if length d < 4 then (False, setError ''block-ack-len'' s)
      else if d ! 0 \<noteq> 0
      then (False, setError (''block-status-'' @ status_text d) (s\<lparr>vc_lastStatus := d ! 0\<rparr>))
      else if d ! 1 \<noteq> sequence then (False, setError (''block-seq-'' @ dec_digits (uint (d ! 1))) s)
      else
        let got = readLe16 (drop 2 d)
        in if got \<noteq> accepted then (False, setError (''block-accepted-'' @ dec_digits (uint got)) s)
           else (True, s))"

definition block_exchange :: "'t transport \<Rightarrow> bytes \<Rightarrow> u8 \<Rightarrow> nat \<Rightarrow> 't vfs_client \<Rightarrow> (bool \<times> 't vfs_client) option" where
  "block_exchange tr fragment sequence accepted s =
     Option.bind (vc_request tr kVfsBlock fragment kFragmentTimeoutMs s) (\<lambda>(r, s1).
       case r of None \<Rightarrow> Some (False, s1)
       | Some d \<Rightarrow> Some (checkBlockAck d sequence (of_nat accepted) s1))"

function block_continue :: "'t transport \<Rightarrow> bytes \<Rightarrow> u8 \<Rightarrow> nat \<Rightarrow> 't vfs_client \<Rightarrow> (bool \<times> 't vfs_client) option" where
  "block_continue tr data sequence offset s =
     (if offset \<ge> length data then Some (True, s)
      else
        let count = min (length data - offset) kContinueData
        in Option.bind (block_exchange tr (0x80 # sequence # writeLe16 (of_nat offset) @ take count (drop offset data))
              sequence (offset + count) s) (\<lambda>(ok, s1).
           if \<not> ok then Some (False, s1) else block_continue tr data sequence (offset + count) s1))"
  by pat_completeness auto
termination
  by (relation "measure (\<lambda>(tr, data, sequence, offset, s). length data - offset)")
    (auto simp: kContinueData_def)

declare block_continue.simps [simp del]

definition flushWriteBlock :: "'t transport \<Rightarrow> 't vfs_client \<Rightarrow> (bool \<times> 't vfs_client) option" where
  "flushWriteBlock tr s =
     (let data = vc_writeBuffer s; rawLength = length data
      in if rawLength = 0 \<or> rawLength > kBlockSize then failed ''block-range'' s
         else
           let sequence = vc_writeSequence s; crc = crc16CcittFalse data;
               s1 = s\<lparr>vc_fatCache := fc_invalidate (vc_fatCache s)\<rparr>;
               count = min rawLength kFirstData
           in Option.bind (block_exchange tr (0x00 # sequence # writeLe16 (of_nat rawLength) @
                 writeLe16 (of_nat rawLength) @ writeLe16 crc @ take count data) sequence count s1) (\<lambda>(ok, s2).
              if \<not> ok then Some (False, s2)
              else Option.bind (block_continue tr data sequence count s2) (\<lambda>(ok2, s3).
                if \<not> ok2 then Some (False, s3)
                else Some (True, s3\<lparr>vc_writeSequence := sequence + 1\<rparr>))))"

text \<open>
  The copy loop of \<open>writeFile\<close>: fill the block, send it when it is full. A block that is
  already full leaves no room and the loop of the code would not end; the buffer of a
  client never holds more than 511 bytes between calls.
\<close>

partial_function (option) write_loop :: "'t transport \<Rightarrow> bytes \<Rightarrow> 't vfs_client \<Rightarrow> (bool \<times> 't vfs_client) option" where
  "write_loop tr data s =
     (if data = [] then Some (True, s)
      else
        let room = kBlockSize - length (vc_writeBuffer s); part = min (length data) room;
            s1 = s\<lparr>vc_writeBuffer := vc_writeBuffer s @ take part data\<rparr>
        in if length (vc_writeBuffer s1) = kBlockSize
           then Option.bind (flushWriteBlock tr s1) (\<lambda>(ok, s2).
             if \<not> ok then Some (False, s2\<lparr>vc_writeFailed := True\<rparr>)
             else write_loop tr (drop part data) (s2\<lparr>vc_writeBuffer := []\<rparr>))
           else write_loop tr (drop part data) s1)"

declare write_loop.simps [code]

text \<open>\<open>None\<close> is a null pointer with a length other than zero.\<close>

definition vc_writeFile :: "'t transport \<Rightarrow> bytes option \<Rightarrow> 't vfs_client \<Rightarrow> (bool \<times> 't vfs_client) option" where
  "vc_writeFile tr data s =
     (if \<not> vc_writeActive s then failed ''write-not-open'' s
      else if vc_writeFailed s then Some (False, s)
      else case data of
             None \<Rightarrow> Some (False, (setError ''write-null'' s)\<lparr>vc_writeFailed := True\<rparr>)
           | Some d \<Rightarrow> write_loop tr d s)"

text \<open>\<open>source context offset capacity\<close> gives the bytes the callback stored, at most \<open>capacity\<close>.\<close>

partial_function (option) legacy_window_loop ::
    "'t transport \<Rightarrow> ('c \<Rightarrow> nat \<Rightarrow> nat \<Rightarrow> bytes \<times> 'c) \<Rightarrow> nat \<Rightarrow> nat \<Rightarrow> 'c \<Rightarrow> 't vfs_client \<Rightarrow>
     (bool \<times> 'c \<times> 't vfs_client) option" where
  "legacy_window_loop tr source len offset ctx s =
     (if offset \<ge> len then Some (True, ctx, s)
      else
        let wanted = min (len - offset) kMaxPayload; (part, ctx1) = source ctx offset wanted
        in if length part \<noteq> wanted
           then Some (False, ctx1, (setError ''write-window-source'' s)\<lparr>vc_writeFailed := True\<rparr>)
           else Option.bind (vc_writeFile tr (Some part) s) (\<lambda>(ok, s1).
             if \<not> ok then Some (False, ctx1, s1\<lparr>vc_writeFailed := True\<rparr>)
             else legacy_window_loop tr source len (offset + wanted) ctx1 s1))"

declare legacy_window_loop.simps [code]

definition window_frame :: "u8 \<Rightarrow> nat \<Rightarrow> nat \<Rightarrow> u16 \<Rightarrow> bytes \<Rightarrow> bytes" where
  "window_frame sequence offset len crc data =
     ((if offset = 0 then kWindowStart else 0) OR (if offset + length data = len then kWindowEnd else 0))
     # sequence # writeLe16 (of_nat offset) @ writeLe16 (of_nat len) @
     writeLe16 (if offset + length data = len then crc else 0) @ data"

function window_send_loop :: "'t transport \<Rightarrow> ('c \<Rightarrow> nat \<Rightarrow> nat \<Rightarrow> bytes \<times> 'c) \<Rightarrow> u8 \<Rightarrow> nat \<Rightarrow> nat \<Rightarrow> u16 \<Rightarrow> 'c \<Rightarrow>
    't vfs_client \<Rightarrow> bool \<times> 'c \<times> 't vfs_client" where
  "window_send_loop tr source sequence len offset crc ctx s =
     (if offset \<ge> len then (True, ctx, s)
      else
        let count = min (len - offset) kWriteWindowData; (part, ctx1) = source ctx offset count
        in if length part \<noteq> count
           then (False, ctx1, (setError ''write-window-source'' s)\<lparr>vc_writeFailed := True\<rparr>)
           else
             let crc1 = crc16CcittFalseUpdate crc part;
                 (ok, s1) = vc_send tr kVfsWriteWindow (window_frame sequence offset len crc1 part) s
             in if \<not> ok then (False, ctx1, (setError ''write-window-send'' s1)\<lparr>vc_writeFailed := True\<rparr>)
                else window_send_loop tr source sequence len (offset + count) crc1 ctx1 s1)"
  by pat_completeness auto
termination
  by (relation "measure (\<lambda>(tr, source, sequence, len, offset, crc, ctx, s). len - offset)")
    (auto simp: kWriteWindowData_def kMaxPayload_def kWriteWindowHeader_def)

declare window_send_loop.simps [simp del]

definition writeFileWindow :: "'t transport \<Rightarrow> nat \<Rightarrow> ('c \<Rightarrow> nat \<Rightarrow> nat \<Rightarrow> bytes \<times> 'c) option \<Rightarrow> 'c \<Rightarrow>
    't vfs_client \<Rightarrow> (bool \<times> 'c \<times> 't vfs_client) option" where
  "writeFileWindow tr len sourcep ctx s =
     (let randomWrite = (vc_openMode s = 3)
      in if \<not> vc_writeActive s \<and> \<not> randomWrite then Some (False, ctx, setError ''write-not-open'' s)
         else if vc_writeFailed s then Some (False, ctx, s)
         else
           let windowLimit = (if randomWrite then kFilexTransferWindowSize else kTransferWindowSize);
               bad = (\<lambda>message. Some (False, ctx, (setError message s)\<lparr>vc_writeFailed := True\<rparr>))
           in case sourcep of None \<Rightarrow> bad ''write-window-range''
              | Some source \<Rightarrow>
                if len = 0 \<or> len > windowLimit then bad ''write-window-range''
                else if vc_capabilities s AND kCapabilityWriteWindow = 0 then
                  (if randomWrite then bad ''write-window-unsupported''
                   else legacy_window_loop tr source len 0 ctx s)
                else
                  let s1 = setError ''none'' s; s2 = s1\<lparr>vc_fatCache := fc_invalidate (vc_fatCache s1)\<rparr>;
                      sequence = vc_writeSequence s2;
                      (sent, ctx1, s3) = window_send_loop tr source sequence len 0 0xFFFF ctx s2
                  in if \<not> sent then Some (False, ctx1, s3)
                     else Option.bind (vc_wait tr kVfsWriteWindow kCloseTimeoutMs s3) (\<lambda>(r, s4).
                       let (ok, s5) = (case r of None \<Rightarrow> (False, s4)
                                       | Some d \<Rightarrow> checkBlockAck d sequence (of_nat len) s4)
                       in if \<not> ok then
                            Some (False, ctx1,
                              (if vc_lastError s5 = ''none'' then setError ''write-window-timeout'' s5 else s5)
                                \<lparr>vc_writeFailed := True\<rparr>)
                          else
                            Some (True, ctx1,
                              s5\<lparr>vc_writeSequence := sequence + 1, vc_lastStatus := 0,
                                 vc_randomOffset := (if randomWrite \<and> vc_randomOffsetValid s5
                                   then vc_randomOffset s5 + of_nat len else vc_randomOffset s5)\<rparr>)))"

definition extendFile :: "'t transport \<Rightarrow> u32 \<Rightarrow> 't vfs_client \<Rightarrow> (bool \<times> 't vfs_client) option" where
  "extendFile tr len s =
     (if \<not> vc_writeActive s then failed ''extend-not-open'' s
      else if vc_writeFailed s then Some (False, s)
      else if len = 0 then Some (True, s)
      else if vc_capabilities s AND kCapabilityExtend = 0 then failed ''extend-unsupported'' s
      else if vc_writeBuffer s \<noteq> [] then Some (False, (setError ''extend-buffered'' s)\<lparr>vc_writeFailed := True\<rparr>)
      else Option.bind (vc_request tr kVfsExtend (writeLe32 len) kCloseTimeoutMs
             (s\<lparr>vc_fatCache := fc_invalidate (vc_fatCache s)\<rparr>)) (\<lambda>(r, s1).
        case r of None \<Rightarrow> Some (False, s1\<lparr>vc_writeFailed := True\<rparr>)
        | Some d \<Rightarrow>
          if length d < 1 \<or> d ! 0 \<noteq> 0
          then Some (False, (setError (''extend-'' @ status_text d) s1)\<lparr>vc_writeFailed := True\<rparr>)
          else Some (True, s1)))"

definition setFileSize :: "'t transport \<Rightarrow> u32 \<Rightarrow> 't vfs_client \<Rightarrow> (bool \<times> u32 \<times> 't vfs_client) option" where
  "setFileSize tr newSize s =
     (if vc_openMode s \<noteq> 3 then Some (False, 0, (setError ''set-eof-not-random'' s)\<lparr>vc_lastStatus := 0x15\<rparr>)
      else Option.bind (vc_request tr kVfsSetEof (writeLe32 newSize) kMutateTimeoutMs
             (s\<lparr>vc_fatCache := fc_invalidate (vc_fatCache s)\<rparr>)) (\<lambda>(r, s1).
        case r of None \<Rightarrow> Some (False, 0, s1\<lparr>vc_lastStatus := 0xFF\<rparr>)
        | Some d \<Rightarrow>
          if length d < 1 \<or> (d ! 0 \<noteq> 0 \<and> d ! 0 \<noteq> 0x25)
          then Some (False, 0, setError (''set-eof-'' @ status_text d) (s1\<lparr>vc_lastStatus := status_of d\<rparr>))
          else if length d < 5 then Some (False, 0, (setError ''set-eof-short'' s1)\<lparr>vc_lastStatus := 0xFF\<rparr>)
          else Some (True, readLe32 (drop 1 d), s1\<lparr>vc_lastStatus := d ! 0\<rparr>)))"

subsection \<open>The volume\<close>

definition rememberFsInfo :: "vfs_fs_info \<Rightarrow> 't vfs_client \<Rightarrow> 't vfs_client" where
  "rememberFsInfo info s = s\<lparr>vc_fsInfoCache := info, vc_fsInfoValid := True\<rparr>"

definition parse_fs_info :: "bytes \<Rightarrow> vfs_fs_info" where
  "parse_fs_info data =
     \<lparr>fi_flags = data ! 2, fi_sectorsPerCluster = data ! 3, fi_bytesPerSector = readLe16 (drop 4 data),
      fi_totalClusters = readLe32 (drop 8 data), fi_freeClusters = readLe32 (drop 12 data),
      fi_serial = readLe32 (drop 16 data), fi_label = take 11 (drop 20 data),
      fi_totalSectors = readLe32 (drop 32 data), fi_nextFree = readLe32 (drop 36 data),
      fi_fatCount = data ! 40, fi_activeFat = data ! 41, fi_fatFlags = data ! 42,
      fi_mediaState = data ! 43, fi_fatSectors = readLe32 (drop 44 data)\<rparr>"

definition info_matches :: "vfs_fs_info \<Rightarrow> 't vfs_client \<Rightarrow> bool" where
  "info_matches info s =
     fc_matches (fi_totalClusters info) (fi_fatSectors info) (fi_serial info) (fi_activeFat info) (vc_fatCache s)"

definition with_free :: "'t vfs_client \<Rightarrow> vfs_fs_info \<Rightarrow> vfs_fs_info" where
  "with_free s info =
     info\<lparr>fi_freeClusters := fc_freeClusters (vc_fatCache s), fi_flags := fi_flags info OR 0x04\<rparr>"

text \<open>The caller's structure is passed in and returned: the cached answer overwrites it first.\<close>

definition getFsInfo :: "'t transport \<Rightarrow> (nat \<Rightarrow> bool) \<Rightarrow> bool \<Rightarrow> bool \<Rightarrow> vfs_fs_info \<Rightarrow> 't vfs_client \<Rightarrow>
    (bool \<times> vfs_fs_info \<times> 't vfs_client) option" where
  "getFsInfo tr heap refreshFree cacheOnly info0 s =
     (let cached = (if info_matches (vc_fsInfoCache s) s then with_free s (vc_fsInfoCache s) else vc_fsInfoCache s);
          info1 = (if vc_fsInfoValid s then cached else info0)
      in if vc_fsInfoValid s \<and> (fi_flags cached AND 0x04 \<noteq> 0 \<or> \<not> refreshFree) then Some (True, cached, s)
         else if cacheOnly then Some (False, info1, (setError ''fs-info-miss'' s)\<lparr>vc_lastStatus := 0\<rparr>)
         else Option.bind (vc_request tr kVfsFsInfo [0] kMutateTimeoutMs s) (\<lambda>(r, s1).
           case r of None \<Rightarrow> Some (False, info1, s1\<lparr>vc_lastStatus := 0xFF\<rparr>)
           | Some d \<Rightarrow>
             if length d < 1 \<or> d ! 0 \<noteq> 0
             then Some (False, info1, setError (''fs-info-'' @ status_text d) (s1\<lparr>vc_lastStatus := status_of d\<rparr>))
             else if length d < 49 \<or> d ! 1 < 48 \<or> d ! 2 \<noteq> 1
             then Some (False, info1, (setError ''fs-info-short'' s1)\<lparr>vc_lastStatus := 0xFF\<rparr>)
             else
               let info2 = parse_fs_info (tl d); s2 = s1\<lparr>vc_lastStatus := 0\<rparr>
               in if fi_flags info2 AND 0x04 \<noteq> 0 \<and> fi_freeClusters info2 \<le> fi_totalClusters info2
                  then Some (True, info2, rememberFsInfo info2 s2)
                  else
                    let info3 = info2\<lparr>fi_flags := fi_flags info2 AND NOT 0x04, fi_freeClusters := 0xFFFFFFFF\<rparr>
                    in if info_matches info3 s2
                       then (let info4 = with_free s2 info3 in Some (True, info4, rememberFsInfo info4 s2))
                       else if \<not> refreshFree then Some (True, info3, rememberFsInfo info3 s2)
                       else Option.bind (buildFatCache tr heap info3 s2) (\<lambda>(ok, info4, s3).
                         if \<not> ok then Some (False, info4, s3)
                         else Some (True, info4, rememberFsInfo info4 s3))))"

definition noteFileResized :: "u32 \<Rightarrow> u32 \<Rightarrow> 't vfs_client \<Rightarrow> 't vfs_client" where
  "noteFileResized oldSize newSize s =
     (let info = vc_fsInfoCache s;
          bytesPerCluster = (ucast (fi_bytesPerSector info) :: u32) * ucast (fi_sectorsPerCluster info)
      in if \<not> vc_fsInfoValid s \<or> bytesPerCluster = 0 then invalidateFsCache s
         else
           let s1 = s\<lparr>vc_fatCache := fc_noteResize oldSize newSize bytesPerCluster (vc_fatCache s)\<rparr>
           in if info_matches info s1 then s1\<lparr>vc_fsInfoCache := with_free s1 info\<rparr>
              else if fi_flags info AND 0x04 = 0 then s1
              else
                let before = clusters_of oldSize bytesPerCluster; after = clusters_of newSize bytesPerCluster
                in if after > before then
                     let taken = after - before
                     in s1\<lparr>vc_fsInfoCache := info\<lparr>fi_freeClusters :=
                          (if fi_freeClusters info > taken then fi_freeClusters info - taken else 0)\<rparr>\<rparr>
                   else if before > after then
                     let released = before - after; free = fi_freeClusters info + released
                     in s1\<lparr>vc_fsInfoCache := info\<lparr>fi_freeClusters :=
                          (if free < fi_freeClusters info \<or> free > fi_totalClusters info
                           then fi_totalClusters info else free)\<rparr>\<rparr>
                   else s1)"

definition beginFatCache :: "bool \<Rightarrow> bool \<Rightarrow> 't vfs_client \<Rightarrow> 't vfs_client" where
  "beginFatCache memory psramAvailable s =
     s\<lparr>vc_fsInfoValid := False, vc_fatCache := snd (fc_begin psramAvailable (vc_fatCache s)),
       vc_directoryMemory := (vc_directoryMemory s \<or> (psramAvailable \<and> memory))\<rparr>"

subsection \<open>Names, metadata and closing\<close>

definition simple_status :: "string \<Rightarrow> (bytes option \<times> 't vfs_client) option \<Rightarrow> (bool \<times> 't vfs_client) option" where
  "simple_status name answer =
     Option.bind answer (\<lambda>(r, s).
       case r of None \<Rightarrow> Some (False, s)
       | Some d \<Rightarrow> if length d < 1 \<or> d ! 0 \<noteq> 0 then failed (name @ status_text d) s else Some (True, s))"

definition moveRename :: "'t transport \<Rightarrow> bytes option \<Rightarrow> bytes option \<Rightarrow> bool \<Rightarrow> bool \<Rightarrow> 't vfs_client \<Rightarrow>
    (bool \<times> 't vfs_client) option" where
  "moveRename tr oldPath newPath directory replace s =
     (case (oldPath, newPath) of
        (Some p, Some q) \<Rightarrow>
          if p = [] \<or> q = [] then failed ''move-path-null'' s
          else if 2 + (length p + 1) + (length q + 1) > kMaxPayload then failed ''move-path-long'' s
          else Option.bind (vc_request tr kVfsMoveRename
                 ((if replace then 1 else 0) # (if directory then 0x10 else 0) # (p @ [0]) @ (q @ [0]))
                 kMutateTimeoutMs (invalidateFsCache s)) (\<lambda>(r, s1).
            case r of None \<Rightarrow> Some (False, s1\<lparr>vc_lastStatus := 0xFF\<rparr>)
            | Some d \<Rightarrow>
              if length d < 1 \<or> d ! 0 \<noteq> 0
              then failed (''move-'' @ status_text d) (s1\<lparr>vc_lastStatus := status_of d\<rparr>)
              else Some (True, s1\<lparr>vc_lastStatus := 0\<rparr>))
      | _ \<Rightarrow> failed ''move-path-null'' s)"

text \<open>The applied attributes are returned where the code stores them.\<close>

definition setMetadata :: "'t transport \<Rightarrow> vfs_metadata \<Rightarrow> 't vfs_client \<Rightarrow>
    (bool \<times> u8 option \<times> 't vfs_client) option" where
  "setMetadata tr m s =
     (if vc_openMode s \<noteq> 3 then Some (False, None, (setError ''metadata-not-random'' s)\<lparr>vc_lastStatus := 0x15\<rparr>)
      else Option.bind (vc_request tr kVfsSetMetadata
             ([16, vm_attrMask m, vm_attrValue m, vm_timeMask m, vm_createTenth m] @ writeLe16 (vm_createTime m) @
              writeLe16 (vm_createDate m) @ writeLe16 (vm_accessDate m) @ writeLe16 (vm_writeTime m) @
              writeLe16 (vm_writeDate m) @ [0]) kMutateTimeoutMs s) (\<lambda>(r, s1).
        case r of None \<Rightarrow> Some (False, None, s1\<lparr>vc_lastStatus := 0xFF\<rparr>)
        | Some d \<Rightarrow>
          if length d < 1 \<or> d ! 0 \<noteq> 0
          then Some (False, None, setError (''metadata-'' @ status_text d) (s1\<lparr>vc_lastStatus := status_of d\<rparr>))
          else if length d < 2
          then Some (False, None, (setError ''metadata-short'' s1)\<lparr>vc_lastStatus := 0xFF\<rparr>)
          else Some (True, Some (d ! 1), s1\<lparr>vc_lastStatus := 0\<rparr>)))"

definition abort_close :: "'t transport \<Rightarrow> 't vfs_client \<Rightarrow> (bool \<times> 't vfs_client) option" where
  "abort_close tr s =
     (let saved = vc_lastError s
      in Option.bind (vc_request tr kVfsClose [0] kCloseTimeoutMs s) (\<lambda>(ignored, s1).
           Some (False, (resetWriteState False s1)\<lparr>vc_lastError := saved\<rparr>)))"

definition close_request :: "'t transport \<Rightarrow> bool \<Rightarrow> 't vfs_client \<Rightarrow> (bool \<times> 't vfs_client) option" where
  "close_request tr commit s =
     Option.bind (vc_request tr kVfsClose (if commit then [] else [0]) kCloseTimeoutMs s) (\<lambda>(r, s1).
       let closed = (case r of None \<Rightarrow> False | Some d \<Rightarrow> length d \<ge> 1 \<and> d ! 0 = 0);
           s2 = (case r of None \<Rightarrow> s1 | Some d \<Rightarrow> if closed then s1 else setError (''close-'' @ status_text d) s1);
           s3 = (resetWriteState False s2)\<lparr>vc_capabilities := 0, vc_filexCapabilities := 0, vc_openMode := 0,
                   vc_randomOffsetValid := False\<rparr>
       in Some (closed, case r of None \<Rightarrow> s3 | Some d \<Rightarrow> s3\<lparr>vc_lastStatus := status_of d\<rparr>))"

definition closeFile :: "'t transport \<Rightarrow> bool \<Rightarrow> 't vfs_client \<Rightarrow> (bool \<times> 't vfs_client) option" where
  "closeFile tr commit s =
     (if vc_writeActive s \<and> commit \<and> vc_writeFailed s then abort_close tr s
      else if vc_writeActive s \<and> commit \<and> vc_writeBuffer s \<noteq> [] then
        Option.bind (flushWriteBlock tr s) (\<lambda>(ok, s1).
          if \<not> ok then abort_close tr s1 else close_request tr commit s1)
      else close_request tr commit s)"

definition vc_remove :: "'t transport \<Rightarrow> bytes option \<Rightarrow> 't vfs_client \<Rightarrow> (bool \<times> 't vfs_client) option" where
  "vc_remove tr path s =
     simple_status ''delete-''
       (pathRequest tr kVfsDelete path kMutateTimeoutMs (s\<lparr>vc_fatCache := fc_invalidate (vc_fatCache s)\<rparr>))"

definition makeDirectory :: "'t transport \<Rightarrow> bytes option \<Rightarrow> 't vfs_client \<Rightarrow> (bool \<times> 't vfs_client) option" where
  "makeDirectory tr path s =
     simple_status ''mkdir-'' (pathRequest tr kVfsMkdir path kMutateTimeoutMs (invalidateFsCache s))"

definition vc_rename :: "'t transport \<Rightarrow> bytes option \<Rightarrow> bytes option \<Rightarrow> bool \<Rightarrow> 't vfs_client \<Rightarrow>
    (bool \<times> 't vfs_client) option" where
  "vc_rename tr oldPath newName directory s =
     (case (oldPath, newName) of
        (Some p, Some q) \<Rightarrow>
          if q = [] then failed ''rename-path-null'' s
          else if 1 + (length p + 1) + (length q + 1) > kMaxPayload then failed ''rename-path-long'' s
          else simple_status ''rename-''
                 (vc_request tr kVfsRename ((if directory then 0x10 else 0x00) # (p @ [0]) @ (q @ [0]))
                    kMutateTimeoutMs s)
      | _ \<Rightarrow> failed ''rename-path-null'' s)"

end
