(* ===== verification/VfsTransfers.thy ===== *)
theory VfsTransfers
  imports VfsClient
begin

text \<open>
  What the transfers of \<open>src/vfs_client.cpp\<close> guarantee: window reads deliver exactly the
  data of a well-formed sequence of frames and nothing else, window writes send exactly the
  data of the source, a directory is listed completely, a failed write is never committed,
  and the free-space answer follows every resize.
\<close>

subsection \<open>What a transport delivers and takes\<close>

fun receive :: "'t transport \<Rightarrow> u8 \<Rightarrow> u32 \<Rightarrow> nat \<Rightarrow> 't \<Rightarrow> (bytes list \<times> 't) option" where
  "receive tr command ms 0 t = Some ([], t)"
| "receive tr command ms (Suc n) t =
     (case tr_wait tr command ms t of
        Some (Some p, t1) \<Rightarrow> map_option (\<lambda>(ds, t2). (pkt_data p # ds, t2)) (receive tr command ms n t1)
      | _ \<Rightarrow> None)"

fun send_all :: "'t transport \<Rightarrow> u8 \<Rightarrow> bytes list \<Rightarrow> 't \<Rightarrow> bool \<times> 't" where
  "send_all tr command [] t = (True, t)"
| "send_all tr command (d # ds) t =
     (case tr_send tr command d t of (False, t1) \<Rightarrow> (False, t1) | (True, t1) \<Rightarrow> send_all tr command ds t1)"

subsection \<open>Window frames\<close>

definition read_frame :: "u8 \<Rightarrow> u8 \<Rightarrow> nat \<Rightarrow> nat \<Rightarrow> u16 \<Rightarrow> bytes \<Rightarrow> bytes" where
  "read_frame flags sequence offset len crc data =
     [0, flags, sequence] @ writeLe16 (of_nat offset) @ writeLe16 (of_nat len) @ writeLe16 crc @ data"

definition window_flags :: "bool \<Rightarrow> bool \<Rightarrow> u8" where
  "window_flags isStart isEnd = (if isStart then kWindowStart else 0) OR (if isEnd then kWindowEnd else 0)"

text \<open>
  The frames of a window of \<open>len\<close> bytes, from \<open>offset\<close> on: consecutive non-empty parts, the
  first and the last frame marked, and in the last one the checksum of the whole window.
\<close>

fun window_stream :: "u8 \<Rightarrow> nat \<Rightarrow> nat \<Rightarrow> u16 \<Rightarrow> bytes list \<Rightarrow> bytes list \<Rightarrow> bool" where
  "window_stream sequence len offset crc (d # ds) (p # ps) \<longleftrightarrow>
     p \<noteq> [] \<and>
     (if ps = []
      then ds = [] \<and> offset + length p = len \<and>
           d = read_frame (window_flags (offset = 0) True) sequence offset len (crc16CcittFalseUpdate crc p) p
      else offset + length p < len \<and> (\<exists>c. d = read_frame (window_flags (offset = 0) False) sequence offset len c p) \<and>
           window_stream sequence len (offset + length p) (crc16CcittFalseUpdate crc p) ds ps)"
| "window_stream sequence len offset crc ds ps \<longleftrightarrow> False"

lemma writeLe16_readLe16: "writeLe16 (readLe16 (a # b # r)) = [a, b]"
proof -
  have "(ucast (readLe16 (a # b # r)) :: u8) = a" "(ucast (drop_bit 8 (readLe16 (a # b # r))) :: u8) = b"
    unfolding readLe16_def by (rule bit_word_eqI; auto simp: bit_simps dest: bit_imp_le_length)+
  then show ?thesis by (simp add: writeLe16_def)
qed

lemma drop_read_frame:
  "read_frame f q a l c p ! 0 = 0" "read_frame f q a l c p ! Suc 0 = f" "read_frame f q a l c p ! 2 = q"
  "length (read_frame f q a l c p) = 9 + length p" "drop 9 (read_frame f q a l c p) = p"
  "drop 3 (read_frame f q a l c p) = writeLe16 (of_nat a) @ writeLe16 (of_nat l) @ writeLe16 c @ p"
  "drop 5 (read_frame f q a l c p) = writeLe16 (of_nat l) @ writeLe16 c @ p"
  "drop 7 (read_frame f q a l c p) = writeLe16 c @ p"
  by (simp_all add: read_frame_def writeLe16_def)

lemma window_flags_bits:
  "window_flags a b AND NOT kWindowStart AND NOT kWindowEnd = 0"
  "(window_flags a b AND kWindowStart \<noteq> 0) = a" "(window_flags a b AND kWindowEnd \<noteq> 0) = b"
  by (cases a; cases b; simp add: window_flags_def kWindowStart_def kWindowEnd_def)+

lemma window_flags_of:
  assumes "f AND NOT (kWindowStart OR kWindowEnd) = 0"
  shows "f = window_flags (f AND kWindowStart \<noteq> 0) (f AND kWindowEnd \<noteq> 0)"
proof -
  have "f = (f AND 3) OR (f AND NOT 3)" by (rule bit_word_eqI) (auto simp: bit_simps)
  with assms have "f = f AND 3" by (simp add: kWindowStart_def kWindowEnd_def)
  then have "f \<le> 3" by (metis word_and_le1)
  then have "unat f \<le> 3" by (simp add: word_le_nat_alt)
  then have "unat f = 0 \<or> unat f = 1 \<or> unat f = 2 \<or> unat f = 3" by linarith
  moreover have "unat f = 0 \<Longrightarrow> f = 0" "unat f = 1 \<Longrightarrow> f = 1" "unat f = 2 \<Longrightarrow> f = 2" "unat f = 3 \<Longrightarrow> f = 3"
    by (rule word_unatI; simp)+
  ultimately have "f = 0 \<or> f = 1 \<or> f = 2 \<or> f = 3" by blast
  then show ?thesis by (auto simp: window_flags_def kWindowStart_def kWindowEnd_def)
qed

lemma window_check_complete:
  assumes "p \<noteq> []" "received + length p \<le> len" "len < 65536" "okTotal len" "windowTotal = 0 \<or> windowTotal = len"
    "isEnd = (received + length p = len)"
  shows "window_check okTotal q received windowTotal
     (read_frame (window_flags (received = 0) isEnd) q received len c p) = Inr (p, len, isEnd)"
proof -
  have "received < 65536" using assms by auto
  then show ?thesis using assms
    by (auto simp: window_check_def kReadWindowHeader_def drop_read_frame window_flags_bits Let_def codec_simps)
qed

lemma window_check_Inr:
  "window_check okTotal q received windowTotal d = Inr r \<longleftrightarrow>
     (let offset = unat (readLe16 (drop 3 d)); frameTotal = unat (readLe16 (drop 5 d)); part = drop 9 d;
          isStart = (d ! 1 AND kWindowStart \<noteq> 0); isEnd = (d ! 1 AND kWindowEnd \<noteq> 0);
          next = received + length part
      in \<not> length d \<le> 9 \<and> d ! 1 AND NOT (kWindowStart OR kWindowEnd) = 0 \<and> d ! 2 = q \<and>
         isStart = (received = 0) \<and> offset = received \<and> okTotal frameTotal \<and> offset \<le> frameTotal \<and>
         (windowTotal = 0 \<or> frameTotal = windowTotal) \<and> length part \<le> frameTotal - offset \<and>
         (isEnd \<longrightarrow> next = frameTotal) \<and> (\<not> isEnd \<longrightarrow> next < frameTotal) \<and>
         r = (part, frameTotal, isEnd))"
  unfolding window_check_def kReadWindowHeader_def Let_def
  by (simp only: if_distrib [of "\<lambda>x. x = Inr r"] sum.inject sum.distinct not_le not_less de_Morgan_disj
      de_Morgan_conj not_not simp_thms if_bool_eq_conj) blast

lemma window_check_sound:
  assumes "window_check okTotal q received windowTotal d = Inr (p, len, isEnd)" "d ! 0 = 0" 
  shows "p \<noteq> []" "received + length p \<le> len" "len < 65536" "okTotal len" "windowTotal = 0 \<or> windowTotal = len"
    "isEnd = (received + length p = len)"
    "d = read_frame (window_flags (received = 0) isEnd) q received len (readLe16 (drop 7 d)) p"
proof -
  have l: "9 < length d"
    using assms(1) by (auto simp: window_check_def kReadWindowHeader_def split: if_splits)
  then have "10 \<le> length d" by simp
  then obtain d0 d1 d2 d3 d4 d5 d6 d7 d8 r where d: "d = d0 # d1 # d2 # d3 # d4 # d5 # d6 # d7 # d8 # r" "r \<noteq> []"
    by (auto simp: eval_nat_numeral Suc_le_length_iff)
  define off where "off = readLe16 [d3, d4]"
  define tl where "tl = readLe16 [d5, d6]"
  have e: "readLe16 (d3 # d4 # x) = off" "readLe16 (d5 # d6 # y) = tl" for x y
    by (simp_all add: readLe16_def off_def tl_def)
  have n: "d ! 1 = d1" "d ! 2 = d2" "drop 3 d = d3 # d4 # drop 5 d" "drop 5 d = d5 # d6 # drop 7 d" "drop 9 d = r"
    by (simp_all add: d)
  have A: "d1 AND NOT (kWindowStart OR kWindowEnd) = 0 \<and> d2 = q \<and>
      (d1 AND kWindowStart \<noteq> 0) = (received = 0) \<and> unat off = received \<and> okTotal (unat tl) \<and> unat off \<le> unat tl \<and>
      (windowTotal = 0 \<or> unat tl = windowTotal) \<and> length r \<le> unat tl - unat off \<and>
      ((d1 AND kWindowEnd \<noteq> 0) \<longrightarrow> received + length r = unat tl) \<and>
      (\<not> (d1 AND kWindowEnd \<noteq> 0) \<longrightarrow> received + length r < unat tl) \<and>
      (p, len, isEnd) = (r, unat tl, d1 AND kWindowEnd \<noteq> 0)"
    using assms(1) unfolding window_check_Inr Let_def n e by blast
  then have f: "d1 AND NOT (kWindowStart OR kWindowEnd) = 0" "d2 = q" "unat off = received" "len = unat tl"
    "p = r" "isEnd = (d1 AND kWindowEnd \<noteq> 0)" "(d1 AND kWindowStart \<noteq> 0) = (received = 0)"
    by blast+
  have g: "okTotal len" "windowTotal = 0 \<or> windowTotal = len" "received + length p \<le> len"
      "isEnd = (received + length p = len)"
    using A by (auto simp del: bit.de_Morgan_disj bit.de_Morgan_conj)
  show "p \<noteq> []" "received + length p \<le> len" "okTotal len" "windowTotal = 0 \<or> windowTotal = len"
    "isEnd = (received + length p = len)"
    using f g d by auto
  show "len < 65536" using f(4) unat_u16 by simp
  have "of_nat received = off" "of_nat len = tl" using f(3,4) by auto
  then have w: "writeLe16 (of_nat received) = [d3, d4]" "writeLe16 (of_nat len) = [d5, d6]"
    by (simp_all only: off_def tl_def writeLe16_readLe16)
  have "drop 7 d = d7 # d8 # r" by (simp add: d)
  then have w7: "writeLe16 (readLe16 (drop 7 d)) = [d7, d8]" by (simp only: writeLe16_readLe16)
  have fl: "window_flags (received = 0) isEnd = d1"
    using window_flags_of [OF f(1)] f(6,7) by simp
  have "read_frame (window_flags (received = 0) isEnd) q received len (readLe16 (drop 7 d)) p =
      [0, d1, q] @ [d3, d4] @ [d5, d6] @ [d7, d8] @ p"
    by (simp only: read_frame_def w w7 fl)
  then show "d = read_frame (window_flags (received = 0) isEnd) q received len (readLe16 (drop 7 d)) p"
    using d f(2,5) assms(2) by simp
qed


subsection \<open>The loop over the frames of a window\<close>

fun sink_all :: "('c \<Rightarrow> bytes \<Rightarrow> bool \<times> 'c) \<Rightarrow> 'c \<Rightarrow> bytes list \<Rightarrow> bool \<times> 'c" where
  "sink_all sink ctx [] = (True, ctx)"
| "sink_all sink ctx (p # ps) =
     (case sink ctx p of (False, ctx1) \<Rightarrow> (False, ctx1) | (True, ctx1) \<Rightarrow> sink_all sink ctx1 ps)"

lemma vc_wait_SomeE:
  assumes "vc_wait tr command ms s = Some (Some d, s1)"
  obtains p t where "tr_wait tr command ms (vc_transport s) = Some (Some p, t)" "pkt_data p = d"
    "s1 = s\<lparr>vc_transport := t\<rparr>"
  using assms by (auto simp: vc_wait_def split: option.splits)

lemma window_loop_step:
  assumes "window_loop tr command tag emptyOk okTotal q sink received windowTotal crc ctx s = Some (ok, True, n, ctx', s')"
  obtains p t part len isEnd ctx1 where
    "tr_wait tr command kFragmentTimeoutMs (vc_transport s) = Some (Some p, t)"
    "pkt_data p ! 0 = 0" "window_check okTotal q received windowTotal (pkt_data p) = Inr (part, len, isEnd)"
    "sink ctx part = (True, ctx1)"
    "isEnd \<Longrightarrow> crc16CcittFalseUpdate crc part = readLe16 (drop 7 (pkt_data p)) \<and> ok \<and>
       n = received + length part \<and> ctx' = ctx1 \<and> s' = s\<lparr>vc_transport := t\<rparr>"
    "\<not> isEnd \<Longrightarrow> window_loop tr command tag emptyOk okTotal q sink (received + length part) len
       (crc16CcittFalseUpdate crc part) ctx1 (s\<lparr>vc_transport := t\<rparr>) = Some (ok, True, n, ctx', s')"
proof -
  obtain r s1 where w: "vc_wait tr command kFragmentTimeoutMs s = Some (r, s1)"
    using assms window_loop.simps [of tr command tag emptyOk okTotal q sink received windowTotal crc ctx s]
    by (cases "vc_wait tr command kFragmentTimeoutMs s") auto
  note loop = assms [unfolded window_loop.simps [of tr command tag emptyOk okTotal q sink received windowTotal crc ctx s]
     w Option.bind.bind_lunit case_prod_conv]
  show thesis
  proof (cases r)
    case None
    with loop show thesis by simp
  next
    case (Some d)
    have body: "(if emptyOk \<and> length d = 1 \<and> d ! 0 = 1
         then Some (True, False, received, ctx, s1\<lparr>vc_lastStatus := 1\<rparr>)
         else if length d < 1 \<or> d ! 0 \<noteq> 0
         then Some (False, False, received, ctx,
                setError (tag @ ''status-'' @ status_text d) (s1\<lparr>vc_lastStatus := status_of d\<rparr>))
         else
           (case window_check okTotal q received windowTotal d of
              Inl reason \<Rightarrow> Some (False, False, received, ctx, setError (tag @ reason) s1)
            | Inr (part, frameTotal, isEnd) \<Rightarrow>
              let (taken, ctx1) = sink ctx part
              in if \<not> taken then Some (False, False, received, ctx1, setError (tag @ ''sink'') s1)
                 else
                   let crc1 = crc16CcittFalseUpdate crc part; next = received + length part
                   in if isEnd then
                        (if crc1 \<noteq> readLe16 (drop 7 d)
                         then Some (False, False, next, ctx1, setError (tag @ ''crc'') s1)
                         else Some (True, True, next, ctx1, s1))
                      else window_loop tr command tag emptyOk okTotal q sink next frameTotal crc1 ctx1 s1))
        = Some (ok, True, n, ctx', s')"
      using loop [unfolded Some option.case] .
    from w Some obtain p t where p: "tr_wait tr command kFragmentTimeoutMs (vc_transport s) = Some (Some p, t)"
      "pkt_data p = d" "s1 = s\<lparr>vc_transport := t\<rparr>" by (auto elim: vc_wait_SomeE)
    have d0: "\<not> (emptyOk \<and> length d = 1 \<and> d ! 0 = 1)" "d ! 0 = 0" using body by (auto split: if_splits)
    have d1: "\<not> (length d < 1 \<or> d ! 0 \<noteq> 0)" using body d0(1) by (auto split: if_splits)
    note body1 = body [unfolded if_not_P [OF d0(1)] if_not_P [OF d1]]
    then obtain part len isEnd where c: "window_check okTotal q received windowTotal d = Inr (part, len, isEnd)"
      by (cases "window_check okTotal q received windowTotal d") auto
    with body1 obtain ctx1 where k: "sink ctx part = (True, ctx1)"
      by (cases "sink ctx part") (auto split: if_splits)
    have e: "(if isEnd then
                (if crc16CcittFalseUpdate crc part \<noteq> readLe16 (drop 7 d)
                 then Some (False, False, received + length part, ctx1, setError (tag @ ''crc'') s1)
                 else Some (True, True, received + length part, ctx1, s1))
              else window_loop tr command tag emptyOk okTotal q sink (received + length part) len
                     (crc16CcittFalseUpdate crc part) ctx1 s1) = Some (ok, True, n, ctx', s')"
      using body1 unfolding c sum.case case_prod_conv k Let_def not_True_eq_False if_False .
    show thesis
    proof (rule that [OF p(1) _ _ k])
      show "pkt_data p ! 0 = 0" "window_check okTotal q received windowTotal (pkt_data p) = Inr (part, len, isEnd)"
        using p(2) d0 c by simp_all
      show "crc16CcittFalseUpdate crc part = readLe16 (drop 7 (pkt_data p)) \<and> ok \<and>
         n = received + length part \<and> ctx' = ctx1 \<and> s' = s\<lparr>vc_transport := t\<rparr>" if "isEnd"
        using e that unfolding p(2) p(3) [symmetric]
        by (cases "crc16CcittFalseUpdate crc part = readLe16 (drop 7 d)") auto
      show "window_loop tr command tag emptyOk okTotal q sink (received + length part) len
         (crc16CcittFalseUpdate crc part) ctx1 (s\<lparr>vc_transport := t\<rparr>) = Some (ok, True, n, ctx', s')" if "\<not> isEnd"
        using e that unfolding p(3) [symmetric] by simp
    qed
  qed
qed

lemma window_loop_sound:
  assumes "window_loop tr command tag emptyOk okTotal q sink received windowTotal crc ctx s = Some (ok, True, n, ctx', s')"
  shows "\<exists>ds ps t'. receive tr command kFragmentTimeoutMs (length ds) (vc_transport s) = Some (ds, t') \<and>
     s' = s\<lparr>vc_transport := t'\<rparr> \<and> ok \<and> okTotal n \<and> (windowTotal = 0 \<or> windowTotal = n) \<and> n < 65536 \<and>
     received < n \<and> window_stream q n received crc ds ps \<and> sink_all sink ctx ps = (True, ctx')"
  using assms
proof (induction "65536 - received" arbitrary: received windowTotal crc ctx s rule: less_induct)
  case less
  from window_loop_step [OF less.prems] obtain p t part len isEnd ctx1 where
    w: "tr_wait tr command kFragmentTimeoutMs (vc_transport s) = Some (Some p, t)"
      "pkt_data p ! 0 = 0" "window_check okTotal q received windowTotal (pkt_data p) = Inr (part, len, isEnd)"
      "sink ctx part = (True, ctx1)"
    and e: "isEnd \<Longrightarrow> crc16CcittFalseUpdate crc part = readLe16 (drop 7 (pkt_data p)) \<and> ok \<and>
       n = received + length part \<and> ctx' = ctx1 \<and> s' = s\<lparr>vc_transport := t\<rparr>"
    and m: "\<not> isEnd \<Longrightarrow> window_loop tr command tag emptyOk okTotal q sink (received + length part) len
       (crc16CcittFalseUpdate crc part) ctx1 (s\<lparr>vc_transport := t\<rparr>) = Some (ok, True, n, ctx', s')"
    by metis
  note c = window_check_sound [OF w(3,2)]
  show ?case
  proof (cases isEnd)
    case True
    have st: "window_stream q n received crc [pkt_data p] [part]"
      using e [OF True] c(1,6,7) True by simp
    have rc: "receive tr command kFragmentTimeoutMs (length [pkt_data p]) (vc_transport s) = Some ([pkt_data p], t)"
      using w(1) by simp
    have "okTotal n" "windowTotal = 0 \<or> windowTotal = n" "n < 65536" "received < n"
      using e [OF True] c(1-6) True by auto
    moreover have "sink_all sink ctx [part] = (True, ctx')" using w(4) e [OF True] by simp
    ultimately show ?thesis using st rc e [OF True] by blast
  next
    case False
    have lt: "received + length part < len" using c(2,6) False by simp
    have "0 < length part" using c(1) by simp
    then have dec: "65536 - (received + length part) < 65536 - received" using lt c(3) by linarith
    have tt: "vc_transport (s\<lparr>vc_transport := t\<rparr>) = t" by simp
    from less.hyps [OF dec m [OF False]] obtain ds ps t' where
      IH: "receive tr command kFragmentTimeoutMs (length ds) t = Some (ds, t')"
        "s' = (s\<lparr>vc_transport := t\<rparr>)\<lparr>vc_transport := t'\<rparr>" "ok" "okTotal n" "len = 0 \<or> len = n" "n < 65536"
        "received + length part < n" "window_stream q n (received + length part) (crc16CcittFalseUpdate crc part) ds ps"
        "sink_all sink ctx1 ps = (True, ctx')" unfolding tt by blast
    have n: "len = n" using IH(5) lt by simp
    have "ps \<noteq> []" using IH(8) by (cases ds) auto
    then have st: "window_stream q n received crc (pkt_data p # ds) (part # ps)"
      using c(1) c(7) IH(7,8) False n by auto
    have rc: "receive tr command kFragmentTimeoutMs (length (pkt_data p # ds)) (vc_transport s) = Some (pkt_data p # ds, t')"
      using w(1) IH(1) by simp
    have "sink_all sink ctx (part # ps) = (True, ctx')" using w(4) IH(9) by simp
    moreover have "s' = s\<lparr>vc_transport := t'\<rparr>" using IH(2) by simp
    moreover have "received < n" "windowTotal = 0 \<or> windowTotal = n" using IH(7) c(5) n by auto
    ultimately show ?thesis using st rc IH(3,4,6) by blast
  qed
qed


lemma window_loop_complete:
  assumes "receive tr command kFragmentTimeoutMs (length ds) (vc_transport s) = Some (ds, t')"
    "window_stream q len received crc ds ps" "sink_all sink ctx ps = (True, ctx')"
    "len < 65536" "okTotal len" "windowTotal = 0 \<or> windowTotal = len"
  shows "window_loop tr command tag emptyOk okTotal q sink received windowTotal crc ctx s =
     Some (True, True, len, ctx', s\<lparr>vc_transport := t'\<rparr>)"
  using assms
proof (induction ds arbitrary: ps received windowTotal crc ctx s)
  case Nil
  then show ?case by simp
next
  case (Cons d ds)
  from Cons.prems(2) obtain part ps1 where ps: "ps = part # ps1" by (cases ps) auto
  from Cons.prems(1) obtain p t where w: "tr_wait tr command kFragmentTimeoutMs (vc_transport s) = Some (Some p, t)"
    "pkt_data p = d" and r: "receive tr command kFragmentTimeoutMs (length ds) t = Some (ds, t')"
    by (auto split: option.splits)
  from Cons.prems(3) ps obtain ctx1 where k: "sink ctx part = (True, ctx1)" "sink_all sink ctx1 ps1 = (True, ctx')"
    by (auto split: prod.splits bool.splits)
  let ?fin = "ps1 = []" and ?crc = "crc16CcittFalseUpdate crc part"
  from Cons.prems(2) ps obtain c where d: "part \<noteq> []"
    "d = read_frame (window_flags (received = 0) ?fin) q received len c part"
    "?fin = (received + length part = len)" "received + length part \<le> len" "?fin \<longrightarrow> ds = [] \<and> c = ?crc"
    "\<not> ?fin \<longrightarrow> window_stream q len (received + length part) ?crc ds ps1"
    by (cases "ps1 = []") auto
  have c: "window_check okTotal q received windowTotal d = Inr (part, len, ?fin)"
    unfolding d(2) by (rule window_check_complete) (use d(1,3,4) Cons.prems(4,5,6) in auto)
  have vw: "vc_wait tr command kFragmentTimeoutMs s = Some (Some d, s\<lparr>vc_transport := t\<rparr>)"
    using w by (simp add: vc_wait_def)
  have z: "\<not> (emptyOk \<and> length d = 1 \<and> d ! 0 = 1)" "\<not> (length d < 1 \<or> d ! 0 \<noteq> 0)"
    unfolding d(2) by (simp_all add: drop_read_frame)
  have crc: "readLe16 (drop 7 d) = c" unfolding d(2) by (simp add: drop_read_frame codec_simps)
  have one: "window_loop tr command tag emptyOk okTotal q sink received windowTotal crc ctx s =
     (if ?fin then (if ?crc \<noteq> c then Some (False, False, received + length part, ctx1, setError (tag @ ''crc'') (s\<lparr>vc_transport := t\<rparr>))
                    else Some (True, True, received + length part, ctx1, s\<lparr>vc_transport := t\<rparr>))
      else window_loop tr command tag emptyOk okTotal q sink (received + length part) len ?crc ctx1 (s\<lparr>vc_transport := t\<rparr>))"
    by (subst window_loop.simps, unfold vw Option.bind.bind_lunit case_prod_conv option.case if_not_P [OF z(1)]
        if_not_P [OF z(2)] c sum.case k(1) Let_def crc not_True_eq_False if_False, rule refl)
  show ?case
  proof (cases ?fin)
    case True
    then show ?thesis using one d(3,5) r k(2) by simp
  next
    case False
    have IH: "window_loop tr command tag emptyOk okTotal q sink (received + length part) len ?crc ctx1 (s\<lparr>vc_transport := t\<rparr>)
       = Some (True, True, len, ctx', (s\<lparr>vc_transport := t\<rparr>)\<lparr>vc_transport := t'\<rparr>)"
      using Cons.IH [of "s\<lparr>vc_transport := t\<rparr>" "received + length part" ?crc ps1 ctx1 len] r k(2) d(6) False Cons.prems(4,5)
      by simp
    show ?thesis unfolding one using False IH by simp
  qed
qed

lemma window_loop_incomplete:
  "window_loop tr command tag emptyOk okTotal q sink received windowTotal crc ctx s = Some (True, False, n, ctx', s') \<Longrightarrow>
   vc_lastStatus s' = 1"
proof -
  have "window_loop tr command tag emptyOk okTotal q sink received windowTotal crc ctx s = Some r \<Longrightarrow>
     fst r \<longrightarrow> \<not> fst (snd r) \<longrightarrow> vc_lastStatus (snd (snd (snd (snd r)))) = 1" for r
  proof (rule window_loop.raw_induct [where P = "\<lambda>tr command tag emptyOk okTotal q sink received windowTotal crc ctx s r.
      fst r \<longrightarrow> \<not> fst (snd r) \<longrightarrow> vc_lastStatus (snd (snd (snd (snd r)))) = 1"], goal_cases)
    case (1 f tr command tag emptyOk okTotal q sink received windowTotal crc ctx s r)
    then show ?case
      by (cases "vc_wait tr command kFragmentTimeoutMs s")
        (auto simp: Let_def split: option.splits if_splits sum.splits prod.splits)
  qed
  then show "window_loop tr command tag emptyOk okTotal q sink received windowTotal crc ctx s = Some (True, False, n, ctx', s') \<Longrightarrow>
   vc_lastStatus s' = 1" by fastforce
qed

lemma window_stream_length:
  "window_stream q len offset crc ds ps \<Longrightarrow> length (concat ps) = len - offset \<and> length ds = length ps"
proof (induction q len offset crc ds ps rule: window_stream.induct)
  case (1 q len offset crc d ds p ps)
  then show ?case by (cases "ps = []") (auto split: if_splits)
qed auto


lemma read_window_exact:
  assumes "vc_capabilities s AND kCapabilityReadWindow \<noteq> 0"
    "readFileWindow tr wanted (Some sink) ctx s = Some (True, n, ctx', s')" "vc_lastStatus s' \<noteq> 1"
  shows "\<exists>t1 ds ps t2.
     tr_send tr kVfsReadWindow (vc_readSequence s # writeLe16 (of_nat wanted)) (vc_transport s) = (True, t1) \<and>
     receive tr kVfsReadWindow kFragmentTimeoutMs (length ds) t1 = Some (ds, t2) \<and>
     window_stream (vc_readSequence s) n 0 0xFFFF ds ps \<and> sink_all sink ctx ps = (True, ctx') \<and>
     0 < n \<and> n \<le> wanted \<and> length (concat ps) = n \<and>
     vc_transport s' = t2 \<and> vc_readSequence s' = vc_readSequence s + 1 \<and> vc_lastStatus s' = 0 \<and>
     vc_randomOffset s' = (if vc_openMode s = 3 \<and> vc_randomOffsetValid s
        then vc_randomOffset s + of_nat n else vc_randomOffset s)"
proof -
  obtain t1 where send: "tr_send tr kVfsReadWindow (vc_readSequence s # writeLe16 (of_nat wanted)) (vc_transport s) = (True, t1)"
    using assms(1,2)
    by (cases "tr_send tr kVfsReadWindow (vc_readSequence s # writeLe16 (of_nat wanted)) (vc_transport s)")
      (auto simp: readFileWindow_def vc_send_def setError_def Let_def split: if_splits)
  let ?s1 = "(setError ''none'' s)\<lparr>vc_transport := t1\<rparr>"
  let ?ok = "\<lambda>frameTotal. frameTotal \<noteq> 0 \<and> frameTotal \<le> wanted"
  have q: "vc_readSequence ?s1 = vc_readSequence s" "vc_transport ?s1 = t1" by (simp_all add: setError_def)
  from assms send obtain ok complete received ctx1 s2 where
    loop: "window_loop tr kVfsReadWindow ''read-window-'' True ?ok (vc_readSequence s) sink 0 0 0xFFFF ctx ?s1
       = Some (ok, complete, received, ctx1, s2)"
    and res: "(if complete then (ok, received, ctx1,
           s2\<lparr>vc_readSequence := vc_readSequence s + 1, vc_lastStatus := 0,
              vc_randomOffset := (if vc_openMode s2 = 3 \<and> vc_randomOffsetValid s2
                then vc_randomOffset s2 + of_nat received else vc_randomOffset s2)\<rparr>)
        else (ok, received, ctx1, s2)) = (True, n, ctx', s')"
    by (auto simp: readFileWindow_def vc_send_def setError_def Let_def bind_eq_Some_conv split: if_splits)
  have complete
    using res window_loop_incomplete [of tr kVfsReadWindow "''read-window-''" True ?ok "vc_readSequence s" sink 0 0
        "0xFFFF" ctx ?s1] loop assms(3) by (cases complete; cases ok; auto)
  with res have r: "ok" "received = n" "ctx1 = ctx'"
    "s' = s2\<lparr>vc_readSequence := vc_readSequence s + 1, vc_lastStatus := 0,
       vc_randomOffset := (if vc_openMode s2 = 3 \<and> vc_randomOffsetValid s2
         then vc_randomOffset s2 + of_nat n else vc_randomOffset s2)\<rparr>" by auto
  from window_loop_sound [OF loop [unfolded eqTrueI [OF \<open>complete\<close>] r(2,3)]] obtain ds ps t2 where
    w: "receive tr kVfsReadWindow kFragmentTimeoutMs (length ds) t1 = Some (ds, t2)"
      "s2 = ?s1\<lparr>vc_transport := t2\<rparr>" "n \<noteq> 0" "n \<le> wanted" "window_stream (vc_readSequence s) n 0 0xFFFF ds ps"
      "sink_all sink ctx ps = (True, ctx')" unfolding q by blast
  have "length (concat ps) = n" using window_stream_length [OF w(5)] by simp
  then show ?thesis using send w r by (intro exI conjI) (auto simp: setError_def)
qed

text \<open>
  C31: A window read of a file is exact in one direction: when \<open>readFileWindow\<close> reports success
  and not the end-of-file answer (status 1), the request was sent, the frames the transport then
  delivered form a complete window of the announced length in order, with the flags, sequence
  number and offsets the protocol asks for and a matching checksum, and the sink accepted exactly
  the data of these frames, in order. The sequence number moves on by one and the position of a
  random-access file by the number of bytes.
\<close>

theorem read_window_sound:
  assumes "vc_capabilities s AND kCapabilityReadWindow \<noteq> 0"
    "readFileWindow tr wanted (Some sink) ctx s = Some (True, n, ctx', s')" "vc_lastStatus s' \<noteq> 1"
  shows "\<exists>t1 ds ps t2.
     tr_send tr kVfsReadWindow (vc_readSequence s # writeLe16 (of_nat wanted)) (vc_transport s) = (True, t1) \<and>
     receive tr kVfsReadWindow kFragmentTimeoutMs (length ds) t1 = Some (ds, t2) \<and>
     window_stream (vc_readSequence s) n 0 0xFFFF ds ps \<and> sink_all sink ctx ps = (True, ctx') \<and>
     0 < n \<and> n \<le> wanted \<and> length (concat ps) = n \<and>
     vc_transport s' = t2 \<and> vc_readSequence s' = vc_readSequence s + 1 \<and> vc_lastStatus s' = 0 \<and>
     vc_randomOffset s' = (if vc_openMode s = 3 \<and> vc_randomOffsetValid s
        then vc_randomOffset s + of_nat n else vc_randomOffset s)"
  using assms by (rule read_window_exact)

lemma read_window_complete_exact:
  assumes "vc_capabilities s AND kCapabilityReadWindow \<noteq> 0"
    "0 < len" "len \<le> wanted" "wanted \<le> (if vc_openMode s = 3 then kFilexTransferWindowSize else kTransferWindowSize)"
    "tr_send tr kVfsReadWindow (vc_readSequence s # writeLe16 (of_nat wanted)) (vc_transport s) = (True, t1)"
    "receive tr kVfsReadWindow kFragmentTimeoutMs (length ds) t1 = Some (ds, t2)"
    "window_stream (vc_readSequence s) len 0 0xFFFF ds ps" "sink_all sink ctx ps = (True, ctx')"
  shows "\<exists>s'. readFileWindow tr wanted (Some sink) ctx s = Some (True, len, ctx', s') \<and>
     vc_transport s' = t2 \<and> vc_readSequence s' = vc_readSequence s + 1 \<and> vc_lastStatus s' = 0 \<and>
     vc_lastError s' = ''none''"
proof -
  let ?s1 = "(setError ''none'' s)\<lparr>vc_transport := t1\<rparr>"
  let ?ok = "\<lambda>frameTotal. frameTotal \<noteq> 0 \<and> frameTotal \<le> wanted"
  have big: "len < 65536" using assms(3,4) by (auto simp: kFilexTransferWindowSize_def kTransferWindowSize_def split: if_splits)
  have "receive tr kVfsReadWindow kFragmentTimeoutMs (length ds) (vc_transport ?s1) = Some (ds, t2)"
    using assms(6) by simp
  from window_loop_complete [OF this assms(7,8) big, of ?ok 0 "''read-window-''" True]
  have "window_loop tr kVfsReadWindow ''read-window-'' True ?ok (vc_readSequence s) sink 0 0 0xFFFF ctx ?s1 =
     Some (True, True, len, ctx', ?s1\<lparr>vc_transport := t2\<rparr>)" using assms(2,3) by simp
  then show ?thesis using assms(1-5)
    by (auto simp: readFileWindow_def vc_send_def setError_def Let_def split: if_splits)
qed

text \<open>
  A window read delivers: when the request can be sent and the transport then yields the
  frames of a window of at most the wanted length whose data the sink accepts, \<open>readFileWindow\<close>
  reports success with exactly that many bytes, in whatever sizes the frames come.
\<close>

theorem read_window_complete:
  assumes "vc_capabilities s AND kCapabilityReadWindow \<noteq> 0"
    "0 < len" "len \<le> wanted" "wanted \<le> (if vc_openMode s = 3 then kFilexTransferWindowSize else kTransferWindowSize)"
    "tr_send tr kVfsReadWindow (vc_readSequence s # writeLe16 (of_nat wanted)) (vc_transport s) = (True, t1)"
    "receive tr kVfsReadWindow kFragmentTimeoutMs (length ds) t1 = Some (ds, t2)"
    "window_stream (vc_readSequence s) len 0 0xFFFF ds ps" "sink_all sink ctx ps = (True, ctx')"
  shows "\<exists>s'. readFileWindow tr wanted (Some sink) ctx s = Some (True, len, ctx', s') \<and>
     vc_transport s' = t2 \<and> vc_readSequence s' = vc_readSequence s + 1 \<and> vc_lastStatus s' = 0 \<and>
     vc_lastError s' = ''none''"
  using assms by (rule read_window_complete_exact)


subsection \<open>A scripted transport\<close>

text \<open>
  For the concrete runs below: the transport's state is the list of payloads sent so far and
  the list of answers still to come; a wait with no answer left is a timeout.
\<close>

definition script :: "(bytes list \<times> bytes list) transport" where
  "script = \<lparr>tr_send = (\<lambda>command d (sent, answers). (True, (sent @ [d], answers))),
     tr_wait = (\<lambda>command ms (sent, answers). Some
       (case answers of [] \<Rightarrow> (None, (sent, []))
        | a # rest \<Rightarrow> (Some \<lparr>pkt_command = command, pkt_data = a\<rparr>, (sent, rest))))\<rparr>"

definition store_sink :: "bytes \<Rightarrow> bytes \<Rightarrow> bool \<times> bytes" where
  "store_sink ctx part = (True, ctx @ part)"

definition demo_frames :: "bytes list" where
  "demo_frames = [read_frame 1 0 0 3 0 [65, 66],
     read_frame 2 0 2 3 (crc16CcittFalseUpdate (crc16CcittFalseUpdate 0xFFFF [65, 66]) [67]) [67]]"

definition demo_client :: "(bytes list \<times> bytes list) vfs_client" where
  "demo_client = (VfsClient_init ([], demo_frames))\<lparr>vc_capabilities := 2\<rparr>"

lemmas demo_simps = VfsClient_init_def kCapabilityReadWindow_def kTransferWindowSize_def script_def writeLe16_def
  store_sink_def window_flags_def kWindowStart_def kWindowEnd_def

theorem read_window_complete_witness:
  "\<exists>s'. readFileWindow script 3 (Some store_sink) [] demo_client = Some (True, 3, [65, 66, 67], s') \<and>
     vc_transport s' = ([[0, 3, 0]], []) \<and> vc_readSequence s' = vc_readSequence demo_client + 1 \<and>
     vc_lastStatus s' = 0 \<and> vc_lastError s' = ''none''"
  by (rule read_window_complete [of demo_client 3 3 script "([[0, 3, 0]], demo_frames)" demo_frames "([[0, 3, 0]], [])" "[[65, 66], [67]]"
        store_sink "[]" "[65, 66, 67]"])
    (simp_all add: demo_client_def demo_frames_def demo_simps, auto simp: numeral_2_eq_2)


lemma demo_run:
  obtains s' where "readFileWindow script 3 (Some store_sink) [] demo_client = Some (True, 3, [65, 66, 67], s')"
    "vc_lastStatus s' = 0"
proof -
  let ?s1 = "(setError ''none'' demo_client)\<lparr>vc_transport := ([[0, 3, 0]], demo_frames)\<rparr>"
  let ?ok = "\<lambda>n :: nat. n \<noteq> 0 \<and> n \<le> 3"
  have r: "receive script kVfsReadWindow kFragmentTimeoutMs (length demo_frames) (vc_transport ?s1) = Some (demo_frames, ([[0, 3, 0]], []))"
    by (simp add: script_def demo_frames_def)
  have w: "window_stream 0 3 0 0xFFFF demo_frames [[65, 66], [67]]"
    by (simp add: demo_frames_def demo_simps, auto simp: numeral_2_eq_2)
  have "window_loop script kVfsReadWindow ''read-window-'' True ?ok 0 store_sink 0 0 0xFFFF [] ?s1 =
      Some (True, True, 3, [65, 66, 67], ?s1\<lparr>vc_transport := ([[0, 3, 0]], [])\<rparr>)"
    by (rule window_loop_complete [OF r w]) (simp_all add: store_sink_def)
  then have "\<exists>s'. readFileWindow script 3 (Some store_sink) [] demo_client = Some (True, 3, [65, 66, 67], s') \<and>
      vc_lastStatus s' = 0"
    by (simp add: demo_client_def demo_simps readFileWindow_def vc_send_def setError_def)
  then show thesis using that by blast
qed

theorem read_window_sound_witness:
  "\<exists>s' ds ps. readFileWindow script 3 (Some store_sink) [] demo_client = Some (True, 3, [65, 66, 67], s') \<and>
     window_stream 0 3 0 0xFFFF ds ps \<and> sink_all store_sink [] ps = (True, [65, 66, 67]) \<and>
     length (concat ps) = 3 \<and> vc_readSequence s' = 1"
proof -
  obtain s' where s': "readFileWindow script 3 (Some store_sink) [] demo_client = Some (True, 3, [65, 66, 67], s')"
    "vc_lastStatus s' = 0" by (rule demo_run)
  have c: "vc_capabilities demo_client AND kCapabilityReadWindow \<noteq> 0"
    by (simp add: demo_client_def kCapabilityReadWindow_def)
  have z: "vc_readSequence demo_client = 0" by (simp add: demo_client_def VfsClient_init_def)
  show ?thesis using read_window_sound [OF c s'(1)] s' unfolding z by auto
qed


subsection \<open>Sending a window\<close>

function window_parts :: "('c \<Rightarrow> nat \<Rightarrow> nat \<Rightarrow> bytes \<times> 'c) \<Rightarrow> nat \<Rightarrow> nat \<Rightarrow> 'c \<Rightarrow> bytes list \<times> 'c" where
  "window_parts source len offset ctx =
     (if offset \<ge> len then ([], ctx)
      else
        let count = min (len - offset) kWriteWindowData; (part, ctx1) = source ctx offset count;
            (ps, ctx2) = window_parts source len (offset + count) ctx1
        in (part # ps, ctx2))"
  by pat_completeness auto
termination
  by (relation "measure (\<lambda>(source, len, offset, ctx). len - offset)")
    (auto simp: kWriteWindowData_def kMaxPayload_def kWriteWindowHeader_def)

declare window_parts.simps [simp del]

fun window_frames :: "u8 \<Rightarrow> nat \<Rightarrow> nat \<Rightarrow> u16 \<Rightarrow> bytes list \<Rightarrow> bytes list" where
  "window_frames q len offset crc [] = []"
| "window_frames q len offset crc (p # ps) =
     (let c = crc16CcittFalseUpdate crc p
      in window_frame q offset len c p # window_frames q len (offset + length p) c ps)"

lemma window_send_loop_True:
  assumes "window_send_loop tr source q len offset crc ctx s = (True, ctx', s')" "offset \<le> len"
  shows "\<exists>ps t'. window_parts source len offset ctx = (ps, ctx') \<and>
     send_all tr kVfsWriteWindow (window_frames q len offset crc ps) (vc_transport s) = (True, t') \<and>
     s' = s\<lparr>vc_transport := t'\<rparr> \<and> length (concat ps) = len - offset \<and>
     (\<forall>p \<in> set ps. p \<noteq> [] \<and> length p \<le> kWriteWindowData)"
  using assms
proof (induction "len - offset" arbitrary: offset crc ctx s rule: less_induct)
  case less
  note unf = window_send_loop.simps [of tr source q len offset crc ctx s]
  show ?case
  proof (cases "offset \<ge> len")
    case True
    then show ?thesis using less.prems unf by (auto simp: window_parts.simps)
  next
    case False
    let ?count = "min (len - offset) kWriteWindowData"
    have k: "0 < ?count" using False by (simp add: kWriteWindowData_def kMaxPayload_def kWriteWindowHeader_def)
    obtain part ctx1 where src: "source ctx offset ?count = (part, ctx1)" by (cases "source ctx offset ?count")
    have lp: "length part = ?count"
      using less.prems(1) False src by (subst (asm) unf) (auto simp: Let_def split: if_splits)
    let ?crc = "crc16CcittFalseUpdate crc part"
    obtain ok t1 where snd: "tr_send tr kVfsWriteWindow (window_frame q offset len ?crc part) (vc_transport s) = (ok, t1)"
      by (cases "tr_send tr kVfsWriteWindow (window_frame q offset len ?crc part) (vc_transport s)")
    have ok and rest: "window_send_loop tr source q len (offset + ?count) ?crc ctx1 (s\<lparr>vc_transport := t1\<rparr>) = (True, ctx', s')"
      using less.prems(1) False src lp snd by (subst (asm) unf, auto simp: Let_def vc_send_def split: if_splits)+
    have "len - (offset + ?count) < len - offset" "offset + ?count \<le> len" using False k by auto
    from less.hyps [OF this(1) rest this(2)] obtain ps t' where
      IH: "window_parts source len (offset + ?count) ctx1 = (ps, ctx')"
        "send_all tr kVfsWriteWindow (window_frames q len (offset + ?count) ?crc ps) t1 = (True, t')"
        "s' = s\<lparr>vc_transport := t1\<rparr>\<lparr>vc_transport := t'\<rparr>" "length (concat ps) = len - (offset + ?count)"
        "\<forall>p \<in> set ps. p \<noteq> [] \<and> length p \<le> kWriteWindowData" by auto
    have "window_parts source len offset ctx = (part # ps, ctx')"
      using False src IH(1) by (subst window_parts.simps) (simp add: Let_def)
    moreover have "send_all tr kVfsWriteWindow (window_frames q len offset crc (part # ps)) (vc_transport s) = (True, t')"
      using snd IH(2) lp \<open>ok\<close> by (simp add: Let_def)
    moreover have "part \<noteq> []" "length part \<le> kWriteWindowData" using lp k by auto
    ultimately show ?thesis using IH(3,4,5) lp False by (intro exI [of _ "part # ps"] exI [of _ t']) auto
  qed
qed

lemma window_frames_payload:
  "concat (map (drop kWriteWindowHeader) (window_frames q len offset crc ps)) = concat ps"
  "\<forall>p \<in> set ps. length p \<le> kWriteWindowData \<Longrightarrow> \<forall>f \<in> set (window_frames q len offset crc ps). length f \<le> kMaxPayload"
  by (induction ps arbitrary: offset crc)
    (auto simp: Let_def window_frame_def writeLe16_def kWriteWindowHeader_def kWriteWindowData_def kMaxPayload_def)

lemma checkBlockAck_True:
  assumes "checkBlockAck d q accepted s = (True, s')"
  shows "s' = s \<and> (\<exists>r. d = [0, q] @ writeLe16 accepted @ r)"
proof -
  have l: "4 \<le> length d" using assms by (auto simp: checkBlockAck_def split: if_splits)
  then obtain d0 d1 d2 d3 r where d: "d = d0 # d1 # d2 # d3 # r"
    by (auto simp: eval_nat_numeral Suc_le_length_iff)
  have "d0 = 0 \<and> d1 = q \<and> readLe16 (d2 # d3 # r) = accepted \<and> s' = s"
    using assms l unfolding d by (auto simp: checkBlockAck_def Let_def split: if_splits)
  then show ?thesis using d writeLe16_readLe16 [of d2 d3 r] by auto
qed

lemma write_window_exact:
  assumes "vc_capabilities s AND kCapabilityWriteWindow \<noteq> 0"
    "writeFileWindow tr len (Some source) ctx s = Some (True, ctx', s')"
  shows "\<exists>ps t1 p t2 r. window_parts source len 0 ctx = (ps, ctx') \<and> length (concat ps) = len \<and>
     send_all tr kVfsWriteWindow (window_frames (vc_writeSequence s) len 0 0xFFFF ps) (vc_transport s) = (True, t1) \<and>
     concat (map (drop kWriteWindowHeader) (window_frames (vc_writeSequence s) len 0 0xFFFF ps)) = concat ps \<and>
     (\<forall>f \<in> set (window_frames (vc_writeSequence s) len 0 0xFFFF ps). length f \<le> kMaxPayload) \<and>
     tr_wait tr kVfsWriteWindow kCloseTimeoutMs t1 = Some (Some p, t2) \<and>
     pkt_data p = [0, vc_writeSequence s] @ writeLe16 (of_nat len) @ r \<and>
     vc_transport s' = t2 \<and> vc_writeSequence s' = vc_writeSequence s + 1 \<and>
     vc_fatCache s' = fc_invalidate (vc_fatCache s) \<and> \<not> vc_writeFailed s'"
proof -
  let ?s2 = "(setError ''none'' s)\<lparr>vc_fatCache := fc_invalidate (vc_fatCache s)\<rparr>"
  have sel: "vc_transport ?s2 = vc_transport s" "vc_writeSequence ?s2 = vc_writeSequence s"
    by simp_all
  have nf: "\<not> vc_writeFailed s" using assms(2) by (auto simp: writeFileWindow_def Let_def split: if_splits)
  obtain sent ctx1 s3 where loop: "window_send_loop tr source (vc_writeSequence s) len 0 0xFFFF ctx ?s2 = (sent, ctx1, s3)"
    by (cases "window_send_loop tr source (vc_writeSequence s) len 0 0xFFFF ctx ?s2")
  have sent: "sent"
    using assms nf loop by (auto simp: writeFileWindow_def Let_def split: if_splits)
  obtain r s4 where wait: "vc_wait tr kVfsWriteWindow kCloseTimeoutMs s3 = Some (r, s4)"
    using assms nf loop by (auto simp: writeFileWindow_def Let_def bind_eq_Some_conv split: if_splits)
  note res = assms(2) [unfolded writeFileWindow_def Let_def option.case]
  have "\<exists>d. r = Some d \<and> fst (checkBlockAck d (vc_writeSequence s) (of_nat len) s4)"
    using assms nf loop sent wait
    by (cases r) (auto simp: writeFileWindow_def Let_def split: if_splits prod.splits)
  then obtain d where d: "r = Some d" "checkBlockAck d (vc_writeSequence s) (of_nat len) s4 = (True, s4)"
    using checkBlockAck_True by (metis (full_types) prod.collapse)
  have fin: "ctx' = ctx1 \<and> vc_transport s' = vc_transport s4 \<and> vc_writeSequence s' = vc_writeSequence s + 1 \<and>
      vc_fatCache s' = vc_fatCache s4 \<and> vc_writeFailed s' = vc_writeFailed s4"
    using assms nf loop sent wait d
    by (auto simp: writeFileWindow_def Let_def split: if_splits)
  from window_send_loop_True [OF loop [unfolded eqTrueI [OF sent]]] obtain ps t1 where
    W: "window_parts source len 0 ctx = (ps, ctx1)"
      "send_all tr kVfsWriteWindow (window_frames (vc_writeSequence s) len 0 0xFFFF ps) (vc_transport s) = (True, t1)"
      "s3 = ?s2\<lparr>vc_transport := t1\<rparr>" "length (concat ps) = len" "\<forall>p \<in> set ps. p \<noteq> [] \<and> length p \<le> kWriteWindowData"
    unfolding sel by auto
  from wait d(1) obtain p t2 where p: "tr_wait tr kVfsWriteWindow kCloseTimeoutMs t1 = Some (Some p, t2)"
    "pkt_data p = d" "s4 = s3\<lparr>vc_transport := t2\<rparr>"
    unfolding W(3) by (auto simp: vc_wait_def split: option.splits)
  from checkBlockAck_True [OF d(2)] obtain q where "d = [0, vc_writeSequence s] @ writeLe16 (of_nat len) @ q" by blast
  then show ?thesis
    using W(1,2,4) window_frames_payload(1) window_frames_payload(2) [of ps] W(5) p fin nf W(3)
    by (intro exI conjI) (auto simp: setError_def)
qed

text \<open>
  A window write is exact: when \<open>writeFileWindow\<close> reports success on a plugin with window
  writes, the frames sent carry exactly the bytes the source supplied, each frame fits the
  protocol's payload limit, the whole window has the requested length, and the acknowledgement
  that followed named this sequence number and this length. The cached map of free clusters is
  given up before the first frame.
\<close>

theorem write_window_sound:
  assumes "vc_capabilities s AND kCapabilityWriteWindow \<noteq> 0"
    "writeFileWindow tr len (Some source) ctx s = Some (True, ctx', s')"
  shows "\<exists>ps t1 p t2 r. window_parts source len 0 ctx = (ps, ctx') \<and> length (concat ps) = len \<and>
     send_all tr kVfsWriteWindow (window_frames (vc_writeSequence s) len 0 0xFFFF ps) (vc_transport s) = (True, t1) \<and>
     concat (map (drop kWriteWindowHeader) (window_frames (vc_writeSequence s) len 0 0xFFFF ps)) = concat ps \<and>
     (\<forall>f \<in> set (window_frames (vc_writeSequence s) len 0 0xFFFF ps). length f \<le> kMaxPayload) \<and>
     tr_wait tr kVfsWriteWindow kCloseTimeoutMs t1 = Some (Some p, t2) \<and>
     pkt_data p = [0, vc_writeSequence s] @ writeLe16 (of_nat len) @ r \<and>
     vc_transport s' = t2 \<and> vc_writeSequence s' = vc_writeSequence s + 1 \<and>
     vc_fatCache s' = fc_invalidate (vc_fatCache s) \<and> \<not> vc_writeFailed s'"
  using assms by (rule write_window_exact)


definition nines :: "nat \<Rightarrow> nat \<Rightarrow> nat \<Rightarrow> bytes \<times> nat" where
  "nines ctx offset capacity = (replicate capacity 9, ctx + 1)"

definition demo_window :: "(bytes list \<times> bytes list) vfs_client" where
  "demo_window = (VfsClient_init ([], [[0, 0, 2, 0]]))\<lparr>vc_writeActive := True, vc_capabilities := 1\<rparr>"

theorem write_window_sound_witness:
  "\<exists>s' ps. writeFileWindow script 2 (Some nines) 0 demo_window = Some (True, 1, s') \<and>
     window_parts nines 2 0 0 = (ps, 1) \<and> length (concat ps) = 2"
proof -
  have k: "min 2 kWriteWindowData = 2" by (simp add: kWriteWindowData_def kMaxPayload_def kWriteWindowHeader_def)
  have two: "replicate 2 b = [b, b]" for b :: u8 by (simp add: numeral_2_eq_2)
  have rest: "window_send_loop tr nines q 2 (Suc (Suc 0)) c n s = (True, n, s)" for tr q c n s
    by (simp add: window_send_loop.simps)
  have send: "window_send_loop script nines q 2 0 c 0 s = (True, 1, s\<lparr>vc_transport :=
      (fst (vc_transport s) @ [window_frame q 0 2 (crc16CcittFalseUpdate c [9, 9]) [9, 9]], snd (vc_transport s))\<rparr>)" for q c s
    by (subst window_send_loop.simps)
      (simp add: k rest nines_def vc_send_def script_def Let_def two split: prod.splits)
  have ack: "readLe16 [2, 0] = 2" by (simp add: readLe16_def)
  have "\<exists>s'. writeFileWindow script 2 (Some nines) 0 demo_window = Some (True, 1, s')"
    by (simp add: writeFileWindow_def send kCapabilityWriteWindow_def kTransferWindowSize_def vc_wait_def checkBlockAck_def ack
        demo_window_def VfsClient_init_def setError_def) (simp add: script_def checkBlockAck_def ack)
  then obtain s' where w: "writeFileWindow script 2 (Some nines) 0 demo_window = Some (True, 1, s')" by blast
  have c: "vc_capabilities demo_window AND kCapabilityWriteWindow \<noteq> 0"
    by (simp add: kCapabilityWriteWindow_def demo_window_def)
  from write_window_sound [OF c w] obtain ps where "window_parts nines 2 0 0 = (ps, 1)" "length (concat ps) = 2" by blast
  with w show ?thesis by blast
qed

end
