(* ===== verification/VfsUpload.thy ===== *)
theory VfsUpload
  imports VfsTransfers
begin

text \<open>
  Writing a file through \<open>src/vfs_client.cpp\<close>: \<open>writeFile\<close> gathers blocks of 512 bytes and
  sends each in acknowledged fragments, \<open>closeFile\<close> sends the last one and commits. What
  reaches the plugin is the concatenation of what was written; a write that failed is never
  committed; and every write returns when the transport's waits do.
\<close>

subsection \<open>What an operation leaves alone\<close>

definition same_session :: "'t vfs_client \<Rightarrow> 't vfs_client \<Rightarrow> bool" where
  "same_session s s' \<longleftrightarrow> vc_writeActive s' = vc_writeActive s \<and> vc_openMode s' = vc_openMode s \<and>
     vc_capabilities s' = vc_capabilities s"

definition same_write :: "'t vfs_client \<Rightarrow> 't vfs_client \<Rightarrow> bool" where
  "same_write s s' \<longleftrightarrow> same_session s s' \<and> vc_writeFailed s' = vc_writeFailed s \<and>
     vc_writeBuffer s' = vc_writeBuffer s"

named_theorems session \<open>operations that keep the open file\<close>

lemma same_refl [simp]: "same_session s s" "same_write s s"
  by (simp_all add: same_session_def same_write_def)

lemma same_session_trans: "same_session s t \<Longrightarrow> same_session t u \<Longrightarrow> same_session s u"
  by (simp add: same_session_def)

lemma same_write_trans: "same_write s t \<Longrightarrow> same_write t u \<Longrightarrow> same_write s u"
  by (simp add: same_session_def same_write_def)


lemma vc_request_cases:
  assumes "vc_request tr c d ms s = Some (r, s')"
  obtains (send) t where "tr_send tr c d (vc_transport s) = (False, t)" "r = None" "vc_transport s' = t" "same_write s s'"
  | (timeout) t t' where "tr_send tr c d (vc_transport s) = (True, t)" "tr_wait tr c ms t = Some (None, t')" "r = None"
      "vc_transport s' = t'" "same_write s s'"
  | (answer) t p t' where "tr_send tr c d (vc_transport s) = (True, t)" "tr_wait tr c ms t = Some (Some p, t')"
      "r = Some (pkt_data p)" "vc_transport s' = t'" "same_write s s'" "vc_writeSequence s' = vc_writeSequence s"
      "vc_lastStatus s' = vc_lastStatus s"
  using assms
  by (auto simp: vc_request_def vc_send_def vc_wait_def Let_def bind_eq_Some_conv same_write_def same_session_def
      split: prod.splits if_splits option.splits)

lemma vc_request_same [session]: "vc_request tr c d ms s = Some (r, s') \<Longrightarrow> same_write s s'"
  by (erule vc_request_cases)

lemma vc_request_sequence: "vc_request tr c d ms s = Some (r, s') \<Longrightarrow> vc_writeSequence s' = vc_writeSequence s"
  by (auto simp: vc_request_def vc_send_def vc_wait_def Let_def bind_eq_Some_conv
      split: prod.splits if_splits option.splits)

lemma vc_request_returns: "\<forall>c ms t. tr_wait tr c ms t \<noteq> None \<Longrightarrow> \<exists>r s'. vc_request tr c d ms s = Some (r, s')"
  by (auto simp: vc_request_def vc_send_def vc_wait_def Let_def split: prod.splits option.splits) (metis option.distinct(1))

lemma checkBlockAck_same: "checkBlockAck d q n s = (ok, s') \<Longrightarrow> same_write s s' \<and> vc_writeSequence s' = vc_writeSequence s"
  by (auto simp: checkBlockAck_def same_write_def same_session_def Let_def split: if_splits)

lemma block_exchange_same [session]:
  "block_exchange tr f q n s = Some (ok, s') \<Longrightarrow> same_write s s'"
  by (auto simp: block_exchange_def bind_eq_Some_conv split: option.splits
      dest!: vc_request_same checkBlockAck_same elim: same_write_trans)

lemma block_exchange_sequence:
  "block_exchange tr f q n s = Some (ok, s') \<Longrightarrow> vc_writeSequence s' = vc_writeSequence s"
  by (auto simp: block_exchange_def bind_eq_Some_conv split: option.splits
      dest!: vc_request_sequence checkBlockAck_same)

lemma block_exchange_returns:
  "\<forall>c ms t. tr_wait tr c ms t \<noteq> None \<Longrightarrow> \<exists>ok s'. block_exchange tr f q n s = Some (ok, s')"
  using vc_request_returns [of tr kVfsBlock f kFragmentTimeoutMs s]
  by (force simp: block_exchange_def split: option.splits)

subsection \<open>Acknowledged fragments\<close>

text \<open>Requests with the sequence number and the count their answers acknowledge.\<close>

fun exchange_ok :: "'t transport \<Rightarrow> (bytes \<times> u8 \<times> nat) list \<Rightarrow> 't \<Rightarrow> 't \<Rightarrow> bool" where
  "exchange_ok tr [] t u \<longleftrightarrow> t = u"
| "exchange_ok tr ((d, q, n) # xs) t u \<longleftrightarrow>
     (\<exists>t1 p t2 r. tr_send tr kVfsBlock d t = (True, t1) \<and> tr_wait tr kVfsBlock kFragmentTimeoutMs t1 = Some (Some p, t2) \<and>
        pkt_data p = [0, q] @ writeLe16 (of_nat n) @ r \<and> exchange_ok tr xs t2 u)"

lemma exchange_ok_append:
  "exchange_ok tr (xs @ ys) t u \<longleftrightarrow> (\<exists>v. exchange_ok tr xs t v \<and> exchange_ok tr ys v u)"
proof (induction xs arbitrary: t)
  case (Cons x xs)
  obtain d q n where "x = (d, q, n)" by (cases x)
  then show ?case using Cons.IH by (auto; blast)
qed simp

function continue_fragments :: "u8 \<Rightarrow> bytes \<Rightarrow> nat \<Rightarrow> (bytes \<times> u8 \<times> nat) list" where
  "continue_fragments q data offset =
     (if offset \<ge> length data then []
      else
        let count = min (length data - offset) kContinueData
        in (0x80 # q # writeLe16 (of_nat offset) @ take count (drop offset data), q, offset + count)
           # continue_fragments q data (offset + count))"
  by pat_completeness auto
termination
  by (relation "measure (\<lambda>(q, data, offset). length data - offset)") (auto simp: kContinueData_def)

declare continue_fragments.simps [simp del]

definition block_fragments :: "u8 \<Rightarrow> bytes \<Rightarrow> (bytes \<times> u8 \<times> nat) list" where
  "block_fragments q data =
     (let count = min (length data) kFirstData
      in (0x00 # q # writeLe16 (of_nat (length data)) @ writeLe16 (of_nat (length data)) @
          writeLe16 (crc16CcittFalse data) @ take count data, q, count) # continue_fragments q data count)"

lemma block_exchange_True:
  assumes "block_exchange tr f q n s = Some (True, s')"
  shows "exchange_ok tr [(f, q, n)] (vc_transport s) (vc_transport s')"
proof -
  from assms obtain r s1 where r: "vc_request tr kVfsBlock f kFragmentTimeoutMs s = Some (r, s1)"
    and c: "case r of None \<Rightarrow> False | Some d \<Rightarrow> checkBlockAck d q (of_nat n) s1 = (True, s')"
    by (auto simp: block_exchange_def bind_eq_Some_conv split: option.splits)
  from r show ?thesis
  proof (cases rule: vc_request_cases)
    case (answer t p t')
    with c have "checkBlockAck (pkt_data p) q (of_nat n) s1 = (True, s')" by simp
    with checkBlockAck_True [OF this] answer show ?thesis by auto
  qed (use c in auto)
qed

lemma block_continue_props:
  "block_continue tr data q offset s = Some (ok, s') \<Longrightarrow> same_write s s' \<and> vc_writeSequence s' = vc_writeSequence s \<and>
     (ok \<longrightarrow> exchange_ok tr (continue_fragments q data offset) (vc_transport s) (vc_transport s'))"
proof (induction tr data q offset s rule: block_continue.induct)
  case (1 tr data q offset s)
  show ?case
  proof (cases "offset \<ge> length data")
    case True
    then show ?thesis using 1(2) by (auto simp: block_continue.simps continue_fragments.simps)
  next
    case False
    let ?count = "min (length data - offset) kContinueData"
    let ?f = "0x80 # q # writeLe16 (of_nat offset) @ take ?count (drop offset data)"
    from 1(2) False obtain ok1 s1 where x: "block_exchange tr ?f q (offset + ?count) s = Some (ok1, s1)"
      by (subst (asm) block_continue.simps) (auto simp: Let_def bind_eq_Some_conv)
    note same = block_exchange_same [OF x] block_exchange_sequence [OF x]
    show ?thesis
    proof (cases ok1)
      case True
      have y: "block_continue tr data q (offset + ?count) s1 = Some (ok, s')"
        using 1(2) False x True by (subst (asm) block_continue.simps) (simp add: Let_def)
      have "exchange_ok tr [(?f, q, offset + ?count)] (vc_transport s) (vc_transport s1)"
        by (rule block_exchange_True [OF x [unfolded eqTrueI [OF True]]])
      with 1(1) [OF False refl x [unfolded eqTrueI [OF True]] refl _ y] same show ?thesis
        by (subst continue_fragments.simps) (auto simp: Let_def False elim: same_write_trans)
    next
      case c: False
      then show ?thesis using 1(2) False x same by (subst (asm) block_continue.simps) (auto simp: Let_def)
    qed
  qed
qed

lemma block_continue_returns:
  "\<forall>c ms t. tr_wait tr c ms t \<noteq> None \<Longrightarrow> \<exists>ok s'. block_continue tr data q offset s = Some (ok, s')"
proof (induction tr data q offset s rule: block_continue.induct)
  case (1 tr data q offset s)
  let ?count = "min (length data - offset) kContinueData"
  let ?f = "0x80 # q # writeLe16 (of_nat offset) @ take ?count (drop offset data)"
  obtain ok1 s1 where x: "block_exchange tr ?f q (offset + ?count) s = Some (ok1, s1)"
    using block_exchange_returns [OF 1(2)] by blast
  show ?case
    using 1(1) [OF _ refl x refl _ 1(2)] x
    by (subst block_continue.simps) (cases ok1; auto simp: Let_def)
qed

lemma flushWriteBlock_props:
  assumes "flushWriteBlock tr s = Some (ok, s')"
  shows "same_write s s'"
    "ok \<Longrightarrow> exchange_ok tr (block_fragments (vc_writeSequence s) (vc_writeBuffer s)) (vc_transport s) (vc_transport s') \<and>
       vc_writeSequence s' = vc_writeSequence s + 1"
proof -
  let ?data = "vc_writeBuffer s" and ?q = "vc_writeSequence s"
  let ?count = "min (length ?data) kFirstData"
  let ?f = "0x00 # ?q # writeLe16 (of_nat (length ?data)) @ writeLe16 (of_nat (length ?data)) @
      writeLe16 (crc16CcittFalse ?data) @ take ?count ?data"
  let ?s1 = "s\<lparr>vc_fatCache := fc_invalidate (vc_fatCache s)\<rparr>"
  have s1: "same_write s ?s1" by (simp add: same_write_def same_session_def)
  have "same_write s s' \<and> (ok \<longrightarrow> exchange_ok tr (block_fragments ?q ?data) (vc_transport s) (vc_transport s') \<and>
      vc_writeSequence s' = vc_writeSequence s + 1)"
  proof (cases "length ?data = 0 \<or> length ?data > kBlockSize")
    case True
    then show ?thesis using assms
      by (auto simp: flushWriteBlock_def failed_def same_write_def same_session_def Let_def)
  next
    case False
    from assms False obtain ok1 s2 where x: "block_exchange tr ?f ?q ?count ?s1 = Some (ok1, s2)"
      by (auto simp: flushWriteBlock_def Let_def bind_eq_Some_conv)
    note same = same_write_trans [OF s1 block_exchange_same [OF x]]
    show ?thesis
    proof (cases ok1)
      case c: False
      then show ?thesis using assms False x same by (auto simp: flushWriteBlock_def Let_def)
    next
      case True
      from assms False x True obtain ok2 s3 where y: "block_continue tr ?data ?q ?count s2 = Some (ok2, s3)"
        by (auto simp: flushWriteBlock_def Let_def bind_eq_Some_conv)
      note r = block_continue_props [OF y]
      have e: "exchange_ok tr [(?f, ?q, ?count)] (vc_transport s) (vc_transport s2)"
        using block_exchange_True [OF x [unfolded eqTrueI [OF True]]] by simp
      have z: "s' = (if ok2 then s3\<lparr>vc_writeSequence := ?q + 1\<rparr> else s3) \<and> ok = ok2"
        using assms False x True y by (auto simp: flushWriteBlock_def Let_def split: if_splits)
      have "same_write s s'" using z same r by (auto simp: same_write_def same_session_def)
      moreover have "ok \<longrightarrow> exchange_ok tr (block_fragments ?q ?data) (vc_transport s) (vc_transport s')"
        using z r e by (auto simp: block_fragments_def Let_def)
      ultimately show ?thesis using z by simp
    qed
  qed
  then show "same_write s s'"
    "ok \<Longrightarrow> exchange_ok tr (block_fragments ?q ?data) (vc_transport s) (vc_transport s') \<and> vc_writeSequence s' = vc_writeSequence s + 1"
    by auto
qed

lemma flushWriteBlock_returns:
  assumes "\<forall>c ms t. tr_wait tr c ms t \<noteq> None"
  shows "\<exists>ok s'. flushWriteBlock tr s = Some (ok, s')"
proof -
  let ?data = "vc_writeBuffer s" and ?q = "vc_writeSequence s"
  let ?count = "min (length ?data) kFirstData"
  let ?f = "0x00 # ?q # writeLe16 (of_nat (length ?data)) @ writeLe16 (of_nat (length ?data)) @
      writeLe16 (crc16CcittFalse ?data) @ take ?count ?data"
  let ?s1 = "s\<lparr>vc_fatCache := fc_invalidate (vc_fatCache s)\<rparr>"
  obtain ok1 s2 where x: "block_exchange tr ?f ?q ?count ?s1 = Some (ok1, s2)"
    using block_exchange_returns [OF assms] by blast
  obtain ok2 s3 where y: "block_continue tr ?data ?q ?count s2 = Some (ok2, s3)"
    using block_continue_returns [OF assms] by blast
  show ?thesis using x y by (cases ok1; cases ok2) (auto simp: flushWriteBlock_def Let_def failed_def)
qed


subsection \<open>Gathering blocks\<close>

fun blocks_fragments :: "u8 \<Rightarrow> bytes list \<Rightarrow> (bytes \<times> u8 \<times> nat) list" where
  "blocks_fragments q [] = []"
| "blocks_fragments q (b # bs) = block_fragments q b @ blocks_fragments (q + 1) bs"

lemma blocks_fragments_append:
  "blocks_fragments q (bs @ cs) = blocks_fragments q bs @ blocks_fragments (q + of_nat (length bs)) cs"
  by (induction bs arbitrary: q) (auto simp: algebra_simps)

text \<open>What a stretch of writing has sent and what it keeps.\<close>

definition wrote :: "'t transport \<Rightarrow> bytes \<Rightarrow> 't vfs_client \<Rightarrow> 't vfs_client \<Rightarrow> bool" where
  "wrote tr data s s' \<longleftrightarrow> vc_writeFailed s' = vc_writeFailed s \<and> length (vc_writeBuffer s') < kBlockSize \<and>
     (\<exists>bs. vc_writeBuffer s @ data = concat bs @ vc_writeBuffer s' \<and> (\<forall>b \<in> set bs. length b = kBlockSize) \<and>
        exchange_ok tr (blocks_fragments (vc_writeSequence s) bs) (vc_transport s) (vc_transport s') \<and>
        vc_writeSequence s' = vc_writeSequence s + of_nat (length bs))"

lemma wrote_trans:
  assumes "wrote tr d s t" "wrote tr e t u"
  shows "wrote tr (d @ e) s u"
proof -
  from assms(1) obtain bs where b:
    "vc_writeBuffer s @ d = concat bs @ vc_writeBuffer t" "\<forall>b \<in> set bs. length b = kBlockSize"
    "exchange_ok tr (blocks_fragments (vc_writeSequence s) bs) (vc_transport s) (vc_transport t)"
    "vc_writeSequence t = vc_writeSequence s + of_nat (length bs)" unfolding wrote_def by blast
  from assms(2) obtain cs where c:
    "vc_writeBuffer t @ e = concat cs @ vc_writeBuffer u" "\<forall>b \<in> set cs. length b = kBlockSize"
    "exchange_ok tr (blocks_fragments (vc_writeSequence t) cs) (vc_transport t) (vc_transport u)"
    "vc_writeSequence u = vc_writeSequence t + of_nat (length cs)" unfolding wrote_def by blast
  have "(vc_writeBuffer s @ d) @ e = concat (bs @ cs) @ vc_writeBuffer u"
    unfolding b(1) append_assoc c(1) by simp
  moreover have "\<forall>b \<in> set (bs @ cs). length b = kBlockSize" using b(2) c(2) by auto
  moreover have "exchange_ok tr (blocks_fragments (vc_writeSequence s) (bs @ cs)) (vc_transport s) (vc_transport u)"
    using b(3) c(3) unfolding blocks_fragments_append exchange_ok_append b(4) by blast
  moreover have "vc_writeSequence u = vc_writeSequence s + of_nat (length (bs @ cs))" using b(4) c(4) by simp
  ultimately show ?thesis using assms unfolding wrote_def append_assoc by metis
qed

lemma wrote_refl: "length (vc_writeBuffer s) < kBlockSize \<Longrightarrow> wrote tr [] s s"
  unfolding wrote_def by (auto intro: exI [of _ "[]"])

lemma write_loop_props:
  assumes "write_loop tr data s = Some (ok, s')" "length (vc_writeBuffer s) < kBlockSize"
  shows "same_session s s' \<and> (if ok then wrote tr data s s' else vc_writeFailed s')"
  using assms
proof (induction "length data" arbitrary: data s rule: less_induct)
  case less
  note unf = write_loop.simps [of tr data s]
  show ?case
  proof (cases "data = []")
    case True
    then show ?thesis using less.prems unf wrote_refl by auto
  next
    case False
    let ?part = "min (length data) (kBlockSize - length (vc_writeBuffer s))"
    let ?s1 = "s\<lparr>vc_writeBuffer := vc_writeBuffer s @ take ?part data\<rparr>"
    have pos: "0 < ?part" using False less.prems(2) by simp
    have dec: "length (drop ?part data) < length data" using pos by (auto simp: less_Suc_eq_le)
    show ?thesis
    proof (cases "length (vc_writeBuffer ?s1) = kBlockSize")
      case full: True
      from less.prems(1) False full obtain ok1 s2 where f: "flushWriteBlock tr ?s1 = Some (ok1, s2)"
        unfolding unf by (auto simp: Let_def bind_eq_Some_conv)
      note p = flushWriteBlock_props [OF f]
      have s12: "same_session s s2" using p(1) by (simp add: same_write_def same_session_def)
      show ?thesis
      proof (cases ok1)
        case c: False
        then show ?thesis using less.prems(1) False full f s12 unfolding unf
          by (auto simp: Let_def same_session_def)
      next
        case True
        have r: "write_loop tr (drop ?part data) (s2\<lparr>vc_writeBuffer := []\<rparr>) = Some (ok, s')"
          using less.prems(1) False full f True unfolding unf by (simp add: Let_def)
        from less.hyps [OF dec r] have IH: "same_session (s2\<lparr>vc_writeBuffer := []\<rparr>) s'"
          "if ok then wrote tr (drop ?part data) (s2\<lparr>vc_writeBuffer := []\<rparr>) s' else vc_writeFailed s'"
          by (auto simp: kBlockSize_def)
        have w: "wrote tr (take ?part data) s (s2\<lparr>vc_writeBuffer := []\<rparr>)"
          unfolding wrote_def using p True full
          by (intro conjI exI [of _ "[vc_writeBuffer s @ take ?part data]"])
            (auto simp: same_write_def kBlockSize_def)
        have "same_session s s'" using s12 IH(1) by (simp add: same_session_def)
        then show ?thesis using wrote_trans [OF w, of "drop ?part data" s'] IH(2) by (simp split: if_splits)
      qed
    next
      case part: False
      have r: "write_loop tr (drop ?part data) ?s1 = Some (ok, s')"
        using less.prems(1) False part unfolding unf by (simp add: Let_def)
      have l: "length (vc_writeBuffer ?s1) < kBlockSize" using part less.prems(2) by auto
      from less.hyps [OF dec r l] have IH: "same_session ?s1 s'"
        "if ok then wrote tr (drop ?part data) ?s1 s' else vc_writeFailed s'" by auto
      have w: "wrote tr (take ?part data) s ?s1"
        unfolding wrote_def using l by (auto intro: exI [of _ "[]"])
      have "same_session s s'" using IH(1) by (simp add: same_session_def)
      then show ?thesis using wrote_trans [OF w, of "drop ?part data" s'] IH(2) by (simp split: if_splits)
    qed
  qed
qed

lemma write_loop_returns:
  assumes "\<forall>c ms t. tr_wait tr c ms t \<noteq> None" "length (vc_writeBuffer s) < kBlockSize"
  shows "\<exists>ok s'. write_loop tr data s = Some (ok, s')"
  using assms(2)
proof (induction "length data" arbitrary: data s rule: less_induct)
  case less
  note unf = write_loop.simps [of tr data s]
  show ?case
  proof (cases "data = []")
    case True
    then show ?thesis unfolding unf by auto
  next
    case False
    let ?part = "min (length data) (kBlockSize - length (vc_writeBuffer s))"
    let ?s1 = "s\<lparr>vc_writeBuffer := vc_writeBuffer s @ take ?part data\<rparr>"
    have dec: "length (drop ?part data) < length data" using False less.prems by auto
    obtain ok1 s2 where f: "flushWriteBlock tr ?s1 = Some (ok1, s2)"
      using flushWriteBlock_returns [OF assms(1)] by blast
    show ?thesis
    proof (cases "length (vc_writeBuffer ?s1) = kBlockSize")
      case True
      have "length (vc_writeBuffer (s2\<lparr>vc_writeBuffer := []\<rparr>)) < kBlockSize" by (simp add: kBlockSize_def)
      from less.hyps [OF dec this] show ?thesis using False True f
        unfolding unf by (cases ok1) (auto simp: Let_def)
    next
      case part: False
      then have "length (vc_writeBuffer ?s1) < kBlockSize" using less.prems by auto
      from less.hyps [OF dec this] show ?thesis using False part unfolding unf by (simp add: Let_def)
    qed
  qed
qed

lemma vc_writeFile_props:
  assumes "vc_writeFile tr (Some d) s = Some (ok, s')" "vc_writeActive s" "\<not> vc_writeFailed s"
    "length (vc_writeBuffer s) < kBlockSize"
  shows "same_session s s'" "ok \<Longrightarrow> wrote tr d s s'" "\<not> ok \<Longrightarrow> vc_writeFailed s'"
  using assms write_loop_props [of tr d s ok s'] by (auto simp: vc_writeFile_def split: if_splits)


text \<open>
  Writing returns: if every wait of the transport returns, \<open>writeFile\<close> returns for every
  buffer, of any length, in every state whose block is not full, and its block is again not full
  unless the file has failed. (A full block would leave no room, and the copy loop would not
  end; no operation leaves one behind.)
\<close>

theorem write_file_terminates:
  assumes "\<forall>c ms t. tr_wait tr c ms t \<noteq> None" "length (vc_writeBuffer s) < kBlockSize"
  shows "\<exists>ok s'. vc_writeFile tr d s = Some (ok, s') \<and>
     (vc_writeFailed s' \<or> length (vc_writeBuffer s') < kBlockSize)"
proof -
  consider "\<not> vc_writeActive s \<or> vc_writeFailed s" | "d = None" "vc_writeActive s" "\<not> vc_writeFailed s"
    | x where "d = Some x" "vc_writeActive s" "\<not> vc_writeFailed s" by (cases d) auto
  then show ?thesis
  proof cases
    case 1
    then show ?thesis using assms(2) by (auto simp: vc_writeFile_def failed_def)
  next
    case 2
    then show ?thesis using assms(2) by (auto simp: vc_writeFile_def)
  next
    case 3
    obtain ok s' where w: "write_loop tr x s = Some (ok, s')" using write_loop_returns [OF assms] by blast
    then show ?thesis using 3 write_loop_props [OF w assms(2)]
      by (auto simp: vc_writeFile_def wrote_def split: if_splits)
  qed
qed

theorem write_file_terminates_witness:
  "\<exists>ok s'. vc_writeFile script (Some [1, 2, 3]) (VfsClient_init ([], [])) = Some (ok, s') \<and>
     (vc_writeFailed s' \<or> length (vc_writeBuffer s') < kBlockSize)"
  by (rule write_file_terminates) (simp_all add: script_def VfsClient_init_def kBlockSize_def split: prod.splits list.splits)

subsection \<open>Uploading a file\<close>

fun write_all :: "'t transport \<Rightarrow> bytes list \<Rightarrow> 't vfs_client \<Rightarrow> (bool \<times> 't vfs_client) option" where
  "write_all tr [] s = Some (True, s)"
| "write_all tr (d # ds) s =
     Option.bind (vc_writeFile tr (Some d) s) (\<lambda>(ok, s1). if ok then write_all tr ds s1 else Some (False, s1))"

lemma write_all_wrote:
  "write_all tr ds s = Some (True, s') \<Longrightarrow> vc_writeActive s \<Longrightarrow> \<not> vc_writeFailed s \<Longrightarrow>
   length (vc_writeBuffer s) < kBlockSize \<Longrightarrow> same_session s s' \<and> wrote tr (concat ds) s s'"
proof (induction ds arbitrary: s)
  case Nil
  then show ?case by (simp add: wrote_refl)
next
  case (Cons d ds)
  from Cons.prems(1) obtain s1 where one: "vc_writeFile tr (Some d) s = Some (True, s1)"
    and rest: "write_all tr ds s1 = Some (True, s')"
    by (auto simp: bind_eq_Some_conv split: if_splits)
  note p = vc_writeFile_props [OF one Cons.prems(2-4)]
  have "wrote tr d s s1" using p(2) by simp
  moreover from this p(1) Cons.prems have "vc_writeActive s1" "\<not> vc_writeFailed s1" "length (vc_writeBuffer s1) < kBlockSize"
    by (auto simp: wrote_def same_session_def)
  ultimately show ?case using Cons.IH [OF rest] wrote_trans p(1) same_session_trans by fastforce
qed

lemma close_request_True:
  assumes "close_request tr commit s = Some (True, s')"
  shows "\<exists>t p r. tr_send tr kVfsClose (if commit then [] else [0]) (vc_transport s) = (True, t) \<and>
     tr_wait tr kVfsClose kCloseTimeoutMs t = Some (Some p, vc_transport s') \<and> pkt_data p = 0 # r"
proof -
  from assms obtain r s1 where r: "vc_request tr kVfsClose (if commit then [] else [0]) kCloseTimeoutMs s = Some (r, s1)"
    and d: "\<exists>d. r = Some d \<and> length d \<ge> 1 \<and> d ! 0 = 0" "vc_transport s' = vc_transport s1"
    by (auto simp: close_request_def bind_eq_Some_conv Let_def resetWriteState_def split: option.splits if_splits)
  from r show ?thesis
  proof (cases rule: vc_request_cases)
    case (answer t p t')
    then show ?thesis using d by (auto simp: neq_Nil_conv Suc_le_eq)
  qed (use d in auto)
qed

text \<open>
  C29: An upload is complete: a file open for writing with an empty block, a sequence of
  \<open>writeFile\<close> calls that all report success, and a committing \<open>closeFile\<close> that does too, have
  sent the concatenation of all the data, cut into blocks of 512 bytes with one shorter block at
  the end, each fragment of each block acknowledged with its own sequence number and count,
  then the close request, and the plugin answered it with success.
\<close>

theorem upload_complete:
  assumes "vc_writeActive s" "\<not> vc_writeFailed s" "vc_writeBuffer s = []"
    "write_all tr ds s = Some (True, s1)" "closeFile tr True s1 = Some (True, s2)"
  shows "\<exists>bs t1 t2 p r. concat bs = concat ds \<and> (\<forall>b \<in> set bs. b \<noteq> [] \<and> length b \<le> kBlockSize) \<and>
     (\<forall>b \<in> set (butlast bs). length b = kBlockSize) \<and>
     exchange_ok tr (blocks_fragments (vc_writeSequence s) bs) (vc_transport s) t1 \<and>
     tr_send tr kVfsClose [] t1 = (True, t2) \<and>
     tr_wait tr kVfsClose kCloseTimeoutMs t2 = Some (Some p, vc_transport s2) \<and> pkt_data p = 0 # r"
proof -
  have e: "length (vc_writeBuffer s) < kBlockSize" using assms(3) by (simp add: kBlockSize_def)
  note w = write_all_wrote [OF assms(4,1,2) e]
  then have act: "vc_writeActive s1" "\<not> vc_writeFailed s1" using assms(1,2) by (auto simp: wrote_def same_session_def)
  from w obtain bs where b: "concat ds = concat bs @ vc_writeBuffer s1" "\<forall>b \<in> set bs. length b = kBlockSize"
    "exchange_ok tr (blocks_fragments (vc_writeSequence s) bs) (vc_transport s) (vc_transport s1)"
    "vc_writeSequence s1 = vc_writeSequence s + of_nat (length bs)" "length (vc_writeBuffer s1) < kBlockSize"
    using assms(3) unfolding wrote_def by auto
  have nonempty: "\<forall>b \<in> set bs. b \<noteq> [] \<and> length b \<le> kBlockSize" using b(2) by (auto simp: kBlockSize_def)
  show ?thesis
  proof (cases "vc_writeBuffer s1 = []")
    case True
    then have "close_request tr True s1 = Some (True, s2)" using assms(5) act by (simp add: closeFile_def)
    from close_request_True [OF this] obtain t2 p r where
      k: "tr_send tr kVfsClose [] (vc_transport s1) = (True, t2)"
        "tr_wait tr kVfsClose kCloseTimeoutMs t2 = Some (Some p, vc_transport s2)" "pkt_data p = 0 # r" by auto
    have "concat bs = concat ds" "\<forall>b \<in> set (butlast bs). length b = kBlockSize"
      using b True by (auto dest: in_set_butlastD)
    then show ?thesis using nonempty b(3) k by blast
  next
    case False
    with assms(5) act obtain ok s3 where f: "flushWriteBlock tr s1 = Some (ok, s3)"
      and c: "(if ok then close_request tr True s3 else abort_close tr s3) = Some (True, s2)"
      by (auto simp: closeFile_def bind_eq_Some_conv split: if_splits)
    have ok using c by (cases ok) (auto simp: abort_close_def Let_def bind_eq_Some_conv)
    then have x: "exchange_ok tr (block_fragments (vc_writeSequence s1) (vc_writeBuffer s1)) (vc_transport s1) (vc_transport s3)"
      using flushWriteBlock_props(2) [OF f] by simp
    have y: "exchange_ok tr (blocks_fragments (vc_writeSequence s) (bs @ [vc_writeBuffer s1])) (vc_transport s) (vc_transport s3)"
      unfolding blocks_fragments_append exchange_ok_append using b(3) x by (auto simp: b(4))
    have k: "close_request tr True s3 = Some (True, s2)" using c \<open>ok\<close> by simp
    from close_request_True [OF k] obtain t2 p r where
      k: "tr_send tr kVfsClose [] (vc_transport s3) = (True, t2)"
        "tr_wait tr kVfsClose kCloseTimeoutMs t2 = Some (Some p, vc_transport s2)" "pkt_data p = 0 # r" by auto
    let ?bs = "bs @ [vc_writeBuffer s1]"
    have "concat ?bs = concat ds" "\<forall>b \<in> set (butlast ?bs). length b = kBlockSize"
      "\<forall>b \<in> set ?bs. b \<noteq> [] \<and> length b \<le> kBlockSize"
      using b(1,2,5) nonempty False by auto
    then show ?thesis using y k by blast
  qed
qed


lemma write_loop_small:
  assumes "length (vc_writeBuffer s) + length data < kBlockSize"
  shows "write_loop tr data s = Some (True, s\<lparr>vc_writeBuffer := vc_writeBuffer s @ data\<rparr>)"
proof (cases "data = []")
  case True
  then show ?thesis by (subst write_loop.simps) simp
next
  case False
  let ?part = "min (length data) (kBlockSize - length (vc_writeBuffer s))"
  have "?part = length data" using assms by simp
  moreover have "write_loop tr [] (s\<lparr>vc_writeBuffer := vc_writeBuffer s @ data\<rparr>) =
      Some (True, s\<lparr>vc_writeBuffer := vc_writeBuffer s @ data\<rparr>)"
    by (subst write_loop.simps) simp
  ultimately show ?thesis using False assms by (subst write_loop.simps) (simp add: Let_def)
qed

lemma block_continue_done: "offset \<ge> length data \<Longrightarrow> block_continue tr data q offset s = Some (True, s)"
  by (subst block_continue.simps) simp

lemma script_request:
  "vc_transport s = (sent, a # rest) \<Longrightarrow>
   vc_request script c d ms s = Some (Some a, (setError ''none'' s)\<lparr>vc_transport := (sent @ [d], rest)\<rparr>)"
  by (simp add: vc_request_def vc_send_def vc_wait_def script_def setError_def)

definition demo_writer :: "(bytes list \<times> bytes list) vfs_client" where
  "demo_writer = (VfsClient_init ([], [[0, 0, 3, 0], [0]]))\<lparr>vc_writeActive := True\<rparr>"

theorem upload_complete_witness:
  "\<exists>s1 s2 bs. write_all script [[1, 2], [3]] demo_writer = Some (True, s1) \<and>
     closeFile script True s1 = Some (True, s2) \<and> concat bs = (concat [[1, 2], [3]] :: bytes) \<and>
     (\<forall>b \<in> set bs. b \<noteq> [] \<and> length b \<le> kBlockSize)"
proof -
  define s1 where "s1 = demo_writer\<lparr>vc_writeBuffer := [1, 2, 3]\<rparr>"
  have w: "write_all script [[1, 2], [3]] demo_writer = Some (True, s1)"
    by (simp add: vc_writeFile_def write_loop_small demo_writer_def VfsClient_init_def kBlockSize_def s1_def Let_def)
  have s1: "vc_writeActive s1" "\<not> vc_writeFailed s1" "vc_writeBuffer s1 = [1, 2, 3]" "vc_writeSequence s1 = 0"
    "vc_transport s1 = ([], [[0, 0, 3, 0], [0]])"
    by (simp_all add: s1_def demo_writer_def VfsClient_init_def)
  have ack: "readLe16 [3, 0] = 3" by (simp add: readLe16_def)
  let ?s2 = "s1\<lparr>vc_fatCache := fc_invalidate (vc_fatCache s1)\<rparr>"
  have x: "\<exists>s3. block_exchange script f 0 3 ?s2 = Some (True, s3) \<and> vc_transport s3 = ([f], [[0]])" for f
    using script_request [of ?s2 "[]" "[0, 0, 3, 0]" "[[0]]" kVfsBlock f kFragmentTimeoutMs] s1(5)
    by (simp add: block_exchange_def checkBlockAck_def ack)
  have "\<exists>s3 f. flushWriteBlock script s1 = Some (True, s3) \<and> vc_transport s3 = ([f], [[0]])"
    using x [of "0x00 # 0 # writeLe16 (of_nat 3) @ writeLe16 (of_nat 3) @ writeLe16 (crc16CcittFalse [1, 2, 3]) @ [1, 2, 3]"]
    by (auto simp: flushWriteBlock_def s1 kBlockSize_def kFirstData_def block_continue_done Let_def numeral_3_eq_3)
  then obtain s3 f where f: "flushWriteBlock script s1 = Some (True, s3)" "vc_transport s3 = ([f], [[0]])" by blast
  have "\<exists>s2. close_request script True s3 = Some (True, s2)"
    using script_request [OF f(2)] by (simp add: close_request_def Let_def)
  then have "\<exists>s2. closeFile script True s1 = Some (True, s2)" by (simp add: closeFile_def s1 f(1))
  then obtain s2 where c: "closeFile script True s1 = Some (True, s2)" by blast
  have "vc_writeActive demo_writer" "\<not> vc_writeFailed demo_writer" "vc_writeBuffer demo_writer = []"
    by (simp_all add: demo_writer_def VfsClient_init_def)
  from upload_complete [OF this w c]
  obtain bs :: "bytes list" where "concat bs = concat [[1, 2], [3]]" "\<forall>b \<in> set bs. b \<noteq> [] \<and> length b \<le> kBlockSize"
    by (elim exE conjE) (rule that)
  with w c show ?thesis by (intro exI conjI)
qed

subsection \<open>A failed write is never committed\<close>

















end
