(* ===== verification/VfsVolume.thy ===== *)
theory VfsVolume
  imports VfsUpload
begin

text \<open>
  Directories and free space through \<open>src/vfs_client.cpp\<close>: a directory read in batches is
  listed completely and the listing ends, and the answer about free space follows every change
  of a file's size without asking the plugin.
\<close>

subsection \<open>Listing a directory in batches\<close>

text \<open>
  The caller's loop over \<open>readDirectory\<close>: success, the entries up to the end, and the client.
\<close>

partial_function (option) list_directory :: "'t transport \<Rightarrow> 't vfs_client \<Rightarrow> (bool \<times> vfs_entry list \<times> 't vfs_client) option" where
  "list_directory tr s =
     Option.bind (vc_readDirectory tr VfsEntry_init s) (\<lambda>(ok, e, ended, s1).
       if \<not> ok then Some (False, [], s1)
       else if ended then Some (True, [], s1)
       else Option.bind (list_directory tr s1) (\<lambda>(ok2, es, s2). Some (ok2, e # es, s2)))"

definition entry_frame :: "bytes \<Rightarrow> bool" where
  "entry_frame d \<longleftrightarrow> 6 \<le> length d \<and> d ! 0 = 0"

definition closing_frame :: "bytes \<Rightarrow> bool" where
  "closing_frame d \<longleftrightarrow> d \<noteq> [] \<and> d ! 0 \<noteq> 0"

text \<open>
  What a plugin that knows batches delivers, from transport state \<open>t\<close> to \<open>u\<close>: each request for
  16 entries is answered by at most 16 entry frames and a closing frame; every batch but the
  last has entries and says there are more, the last says it is the end.
\<close>

fun dir_served :: "'t transport \<Rightarrow> bytes list list \<Rightarrow> 't \<Rightarrow> 't \<Rightarrow> bool" where
  "dir_served tr [] t u \<longleftrightarrow> False"
| "dir_served tr (b # bs) t u \<longleftrightarrow>
     length b \<le> kDirectoryBatchEntries \<and> list_all entry_frame b \<and>
     (\<exists>t1 t2 c. tr_send tr kVfsReadDir [of_nat kDirectoryBatchEntries] t = (True, t1) \<and>
        receive tr kVfsReadDir kNormalTimeoutMs (length b + 1) t1 = Some (b @ [c], t2) \<and> closing_frame c \<and>
        (if bs = [] then (c ! 0 \<noteq> kDirectoryBatchMore \<or> b = []) \<and> u = t2
         else c ! 0 = kDirectoryBatchMore \<and> b \<noteq> [] \<and> dir_served tr bs t2 u))"

definition dir_entry :: "bytes \<Rightarrow> vfs_entry" where
  "dir_entry d = parseDirectoryEntry d VfsEntry_init"

lemma receive_Suc:
  "receive tr command ms (Suc n) t = Some (d # ds, u) \<longleftrightarrow>
     (\<exists>p t1. tr_wait tr command ms t = Some (Some p, t1) \<and> pkt_data p = d \<and> receive tr command ms n t1 = Some (ds, u))"
  by (auto split: option.splits)

lemma batch_loop_run:
  assumes "receive tr kVfsReadDir kNormalTimeoutMs (length b) (vc_transport s) = Some (tl (b @ [c]), u)"
    "length b \<le> room" "list_all entry_frame b" "closing_frame c"
  shows "batch_loop tr room (hd (b @ [c])) s = Some (True,
     (let s1 = s\<lparr>vc_directoryEntries := vc_directoryEntries s @ map dir_entry b, vc_transport := u\<rparr>
      in if c ! 0 \<noteq> kDirectoryBatchMore \<or> vc_directoryEntries s1 = [] then s1\<lparr>vc_directoryEnded := True\<rparr> else s1))"
  using assms
proof (induction b arbitrary: s room)
  case Nil
  then have "u = vc_transport s" by simp
  then show ?case using Nil.prems(4)
    by (subst batch_loop.simps) (auto simp: closing_frame_def Let_def Suc_le_eq)
next
  case (Cons d b)
  obtain room1 where room: "room = Suc room1" using Cons.prems(2) by (cases room) auto
  have split: "tl ((d # b) @ [c]) = hd (b @ [c]) # tl (b @ [c])" by (cases b) auto
  from Cons.prems(1) [unfolded split list.size receive_Suc] obtain p t1 where
    w: "tr_wait tr kVfsReadDir kNormalTimeoutMs (vc_transport s) = Some (Some p, t1)" "pkt_data p = hd (b @ [c])"
    "receive tr kVfsReadDir kNormalTimeoutMs (length b) t1 = Some (tl (b @ [c]), u)"
    by (auto simp only: add_0_right add_Suc_right receive_Suc One_nat_def)
  let ?s2 = "s\<lparr>vc_directoryEntries := vc_directoryEntries s @ [dir_entry d], vc_transport := t1\<rparr>"
  have IH: "batch_loop tr room1 (hd (b @ [c])) ?s2 = Some (True,
     (let s1 = ?s2\<lparr>vc_directoryEntries := vc_directoryEntries ?s2 @ map dir_entry b, vc_transport := u\<rparr>
      in if c ! 0 \<noteq> kDirectoryBatchMore \<or> vc_directoryEntries s1 = [] then s1\<lparr>vc_directoryEnded := True\<rparr> else s1))"
    by (rule Cons.IH) (use Cons.prems w room in simp_all)
  have "entry_frame d" using Cons.prems(3) by simp
  then show ?case using w IH
    by (subst batch_loop.simps) (simp add: room entry_frame_def vc_wait_def dir_entry_def Let_def)
qed

lemma list_directory_take:
  assumes "vc_directoryBatch s" "vc_directoryNext s < length (vc_directoryEntries s)"
  shows "list_directory tr s =
     Option.bind (list_directory tr (s\<lparr>vc_directoryNext := vc_directoryNext s + 1\<rparr>))
       (\<lambda>(ok, es, s2). Some (ok, vc_directoryEntries s ! vc_directoryNext s # es, s2))"
  using assms by (subst list_directory.simps) (simp add: vc_readDirectory_def)

lemma list_directory_drain:
  assumes "vc_directoryBatch s" "vc_directoryNext s \<le> length (vc_directoryEntries s)"
  shows "list_directory tr s =
     Option.bind (list_directory tr (s\<lparr>vc_directoryNext := length (vc_directoryEntries s)\<rparr>))
       (\<lambda>(ok, es, s2). Some (ok, drop (vc_directoryNext s) (vc_directoryEntries s) @ es, s2))"
  using assms
proof (induction "length (vc_directoryEntries s) - vc_directoryNext s" arbitrary: s)
  case 0
  then have e: "vc_directoryNext s = length (vc_directoryEntries s)" by simp
  then have u: "s\<lparr>vc_directoryNext := length (vc_directoryEntries s)\<rparr> = s" by (cases s) simp
  show ?case unfolding u by (cases "list_directory tr s") (auto simp: e)
next
  case (Suc n)
  let ?s1 = "s\<lparr>vc_directoryNext := vc_directoryNext s + 1\<rparr>"
  have lt: "vc_directoryNext s < length (vc_directoryEntries s)" using Suc.hyps(2) by simp
  have "list_directory tr ?s1 = Option.bind (list_directory tr (s\<lparr>vc_directoryNext := length (vc_directoryEntries s)\<rparr>))
       (\<lambda>(ok, es, s2). Some (ok, drop (vc_directoryNext s + 1) (vc_directoryEntries s) @ es, s2))"
    using Suc.hyps(1) [of ?s1] Suc.hyps(2) Suc.prems lt by simp
  then show ?case
    using list_directory_take [OF Suc.prems(1) lt] Cons_nth_drop_Suc [OF lt]
    by (cases "list_directory tr (s\<lparr>vc_directoryNext := length (vc_directoryEntries s)\<rparr>)") auto
qed

lemma list_directory_served:
  assumes "dir_served tr bs (vc_transport s) u" "vc_directoryBatch s" "\<not> vc_directoryEnded s"
    "vc_directoryNext s = length (vc_directoryEntries s)"
  shows "\<exists>s'. list_directory tr s = Some (True, map dir_entry (concat bs), s') \<and> vc_transport s' = u \<and> vc_directoryEnded s'"
  using assms
proof (induction bs arbitrary: s)
  case Nil
  then show ?case by simp
next
  case (Cons b bs)
  from Cons.prems(1) obtain t1 t2 c where
    v: "length b \<le> kDirectoryBatchEntries" "list_all entry_frame b"
      "tr_send tr kVfsReadDir [of_nat kDirectoryBatchEntries] (vc_transport s) = (True, t1)"
      "receive tr kVfsReadDir kNormalTimeoutMs (length b + 1) t1 = Some (b @ [c], t2)" "closing_frame c"
      "if bs = [] then (c ! 0 \<noteq> kDirectoryBatchMore \<or> b = []) \<and> u = t2
       else c ! 0 = kDirectoryBatchMore \<and> b \<noteq> [] \<and> dir_served tr bs t2 u" by auto
  have "b @ [c] = hd (b @ [c]) # tl (b @ [c])" by (cases b) auto
  with v(4) obtain p t0 where w: "tr_wait tr kVfsReadDir kNormalTimeoutMs t1 = Some (Some p, t0)"
    "pkt_data p = hd (b @ [c])" "receive tr kVfsReadDir kNormalTimeoutMs (length b) t0 = Some (tl (b @ [c]), t2)"
    using receive_Suc [of tr kVfsReadDir kNormalTimeoutMs "length b" t1 "hd (b @ [c])" "tl (b @ [c])" t2] by auto
  let ?s0 = "(setError ''none'' (s\<lparr>vc_directoryEntries := [], vc_directoryNext := 0\<rparr>))\<lparr>vc_transport := t0\<rparr>"
  have req: "vc_request tr kVfsReadDir [of_nat kDirectoryBatchEntries] kNormalTimeoutMs
      (s\<lparr>vc_directoryEntries := [], vc_directoryNext := 0\<rparr>) = Some (Some (hd (b @ [c])), ?s0)"
    using v(3) w(1,2) by (simp add: vc_request_def vc_send_def vc_wait_def setError_def)
  let ?last = "bs = []"
  let ?s1 = "?s0\<lparr>vc_directoryEntries := map dir_entry b, vc_transport := t2, vc_directoryEnded := ?last\<rparr>"
  have tr0: "vc_transport ?s0 = t0" "vc_directoryEntries ?s0 = []" by simp_all
  have "receive tr kVfsReadDir kNormalTimeoutMs (length b) (vc_transport ?s0) = Some (tl (b @ [c]), t2)"
    unfolding tr0(1) by (rule w(3))
  note run = batch_loop_run [OF this v(1,2,5), unfolded tr0(2) append_Nil Let_def]
  have "(c ! 0 \<noteq> kDirectoryBatchMore \<or> map dir_entry b = []) = ?last" using v(6) by (auto split: if_splits)
  then have "batch_loop tr kDirectoryBatchEntries (hd (b @ [c])) ?s0 = Some (True, ?s1)"
    unfolding run using Cons.prems(3) by (auto simp: setError_def intro!: vfs_client.equality)
  then have fetch: "fetchDirectoryBatch tr s = Some (True, ?s1)"
    unfolding fetchDirectoryBatch_def req by simp
  show ?case
  proof (cases "b = []")
    case True
    then have "bs = []" using v(6) by (auto split: if_splits)
    then show ?thesis using True fetch Cons.prems v(6)
      by (subst list_directory.simps) (simp add: vc_readDirectory_def)
  next
    case False
    have one: "list_directory tr s = list_directory tr ?s1"
      using Cons.prems(2,3,4) fetch False
      by (subst list_directory.simps, subst (2) list_directory.simps) (simp add: vc_readDirectory_def)
    let ?s2 = "?s1\<lparr>vc_directoryNext := length (vc_directoryEntries ?s1)\<rparr>"
    have drain: "list_directory tr ?s1 = Option.bind (list_directory tr ?s2)
        (\<lambda>(ok, es, s2). Some (ok, drop (vc_directoryNext ?s1) (vc_directoryEntries ?s1) @ es, s2))"
      by (rule list_directory_drain) (use Cons.prems(2) in simp_all)
    have n1: "vc_directoryNext ?s1 = 0" by (simp add: setError_def)
    show ?thesis
    proof (cases ?last)
      case True
      have "list_directory tr ?s2 = Some (True, [], ?s2)"
        using Cons.prems(2) True by (subst list_directory.simps) (simp add: vc_readDirectory_def)
      then show ?thesis using one drain n1 True v(6) by simp
    next
      case more: False
      have "dir_served tr bs (vc_transport ?s2) u" using v(6) more by simp
      from Cons.IH [OF this] Cons.prems(2) more obtain s' where
        "list_directory tr ?s2 = Some (True, map dir_entry (concat bs), s')" "vc_transport s' = u" "vc_directoryEnded s'"
        by auto
      then show ?thesis using one drain n1 by simp
    qed
  qed
qed

text \<open>
  C32: A directory that was opened in batch mode is listed completely: however the plugin cuts the
  entries into batches of at most 16 frames, the loop over \<open>readDirectory\<close> ends, reports success
  and yields the parsed entries of all frames, each once and in order.
\<close>

theorem directory_complete:
  assumes "vc_directoryBatch s" "\<not> vc_directoryEnded s" "vc_directoryEntries s = []" "vc_directoryNext s = 0"
    "dir_served tr bs (vc_transport s) u"
  shows "\<exists>s'. list_directory tr s = Some (True, map (\<lambda>d. parseDirectoryEntry d VfsEntry_init) (concat bs), s') \<and>
     vc_transport s' = u \<and> vc_directoryEnded s'"
  using list_directory_served [OF assms(5,1,2)] assms(3,4) by (simp add: dir_entry_def [abs_def])

definition demo_directory :: "(bytes list \<times> bytes list) vfs_client" where
  "demo_directory = (VfsClient_init ([], [[0, 1, 0, 0, 0, 0, 65], [2], [0, 0, 5, 0, 0, 0, 66], [1]]))\<lparr>vc_directoryBatch := True\<rparr>"

theorem directory_complete_witness:
  "\<exists>s'. list_directory script demo_directory =
     Some (True, map (\<lambda>d. parseDirectoryEntry d VfsEntry_init) (concat [[[0, 1, 0, 0, 0, 0, 65]], [[0, 0, 5, 0, 0, 0, 66]]]), s') \<and>
     vc_transport s' = ([[16], [16]], []) \<and> vc_directoryEnded s'"
  by (rule directory_complete)
    (simp_all add: demo_directory_def VfsClient_init_def script_def entry_frame_def closing_frame_def kDirectoryBatchEntries_def
      kDirectoryBatchMore_def)


subsection \<open>Free space after a change of size\<close>

text \<open>
  The number the server reports: from the map of clusters when it belongs to the volume the
  client knows, from the last answer about the volume otherwise.
\<close>

definition reported_free :: "'t vfs_client \<Rightarrow> u32" where
  "reported_free s = (if info_matches (vc_fsInfoCache s) s then fc_freeClusters (vc_fatCache s)
     else fi_freeClusters (vc_fsInfoCache s))"

definition volume_known :: "'t vfs_client \<Rightarrow> bool" where
  "volume_known s \<longleftrightarrow> vc_fsInfoValid s \<and> fc_inv (vc_fatCache s) \<and>
     (info_matches (vc_fsInfoCache s) s \<or>
      fi_flags (vc_fsInfoCache s) AND 0x04 \<noteq> 0 \<and>
      unat (fi_freeClusters (vc_fsInfoCache s)) \<le> unat (fi_totalClusters (vc_fsInfoCache s)))"

definition cluster_bytes :: "'t vfs_client \<Rightarrow> u32" where
  "cluster_bytes s = ucast (fi_bytesPerSector (vc_fsInfoCache s)) * ucast (fi_sectorsPerCluster (vc_fsInfoCache s))"

lemma or_flag: "(f OR 4) AND 4 \<noteq> (0 :: u8)"
proof -
  have "bit ((f OR 4) AND 4) 2" by (simp add: bit_simps)
  then show ?thesis by (metis bit_0_eq bot_apply bot_bool_def)
qed

lemma noteResize_frame:
  "fc_valid (fc_noteResize a b c s) = fc_valid s" "fc_totalClusters (fc_noteResize a b c s) = fc_totalClusters s"
  "fc_fatSectors (fc_noteResize a b c s) = fc_fatSectors s" "fc_serial (fc_noteResize a b c s) = fc_serial s"
  "fc_activeFat (fc_noteResize a b c s) = fc_activeFat s"
  by (simp_all add: fc_noteResize_def Let_def)

text \<open>The same arithmetic as on the map, without one.\<close>

lemma noteFileResized_without_map:
  assumes "vc_fsInfoValid s" "cluster_bytes s \<noteq> 0" "\<not> info_matches (vc_fsInfoCache s) s"
    "fi_flags (vc_fsInfoCache s) AND 0x04 \<noteq> 0"
  shows "noteFileResized oldSize newSize s =
     (let s1 = s\<lparr>vc_fatCache := fc_noteResize oldSize newSize (cluster_bytes s) (vc_fatCache s)\<rparr>;
          c = FatAllocationCache_init\<lparr>fc_valid := True, fc_totalClusters := fi_totalClusters (vc_fsInfoCache s),
                fc_freeClusters := fi_freeClusters (vc_fsInfoCache s)\<rparr>
      in s1\<lparr>vc_fsInfoCache := (vc_fsInfoCache s)\<lparr>fi_freeClusters :=
           fc_freeClusters (fc_noteResize oldSize newSize (cluster_bytes s) c)\<rparr>\<rparr>)"
proof -
  let ?i = "vc_fsInfoCache s"
  define b where "b = cluster_bytes s"
  define x where "x = clusters_of oldSize b"
  define y where "y = clusters_of newSize b"
  define s1 where "s1 = s\<lparr>vc_fatCache := fc_noteResize oldSize newSize b (vc_fatCache s)\<rparr>"
  define c where "c = FatAllocationCache_init\<lparr>fc_valid := True, fc_totalClusters := fi_totalClusters ?i,
      fc_freeClusters := fi_freeClusters ?i\<rparr>"
  have i: "vc_fsInfoCache s1 = ?i" by (simp add: s1_def)
  have nm: "\<not> info_matches ?i s1"
    using assms(3) by (simp add: s1_def info_matches_def fc_matches_def noteResize_frame)
  have l: "noteFileResized oldSize newSize s =
     (if y > x then s1\<lparr>vc_fsInfoCache := ?i\<lparr>fi_freeClusters :=
         (if fi_freeClusters ?i > y - x then fi_freeClusters ?i - (y - x) else 0)\<rparr>\<rparr>
      else if x > y then s1\<lparr>vc_fsInfoCache := ?i\<lparr>fi_freeClusters :=
         (if fi_freeClusters ?i + (x - y) < fi_freeClusters ?i \<or> fi_freeClusters ?i + (x - y) > fi_totalClusters ?i
          then fi_totalClusters ?i else fi_freeClusters ?i + (x - y))\<rparr>\<rparr>
      else s1)"
    using assms(1,2,4) nm
    by (simp add: noteFileResized_def cluster_bytes_def [symmetric] Let_def x_def y_def s1_def b_def)
  have r: "fc_freeClusters (fc_noteResize oldSize newSize b c) =
     (if y > x then (if fi_freeClusters ?i > y - x then fi_freeClusters ?i - (y - x) else 0)
      else if x > y then (if fi_freeClusters ?i + (x - y) < fi_freeClusters ?i \<or> fi_freeClusters ?i + (x - y) > fi_totalClusters ?i
          then fi_totalClusters ?i else fi_freeClusters ?i + (x - y))
      else fi_freeClusters ?i)"
    using assms(2)
    by (cases "oldSize = newSize")
      (simp_all add: fc_noteResize_def c_def FatAllocationCache_init_def Let_def x_def y_def b_def)
  have same: "s1 = s1\<lparr>vc_fsInfoCache := ?i\<lparr>fi_freeClusters := fi_freeClusters ?i\<rparr>\<rparr>"
    by (simp add: i [symmetric])
  show ?thesis unfolding Let_def b_def [symmetric] c_def [symmetric] s1_def [symmetric] l r
    using same by (simp split: if_split)
qed

lemma resized_free:
  assumes "volume_known s" "cluster_bytes s \<noteq> 0"
  shows "let s' = noteFileResized oldSize newSize s; used = (\<lambda>n. (unat n + unat (cluster_bytes s) - 1) div unat (cluster_bytes s)) in
    vc_fsInfoValid s' \<and> fi_flags (vc_fsInfoCache s') AND 0x04 \<noteq> 0 \<and> vc_transport s' = vc_transport s \<and>
    reported_free s' = fi_freeClusters (vc_fsInfoCache s') \<and>
    unat (reported_free s') = min (unat (fi_totalClusters (vc_fsInfoCache s)))
      (unat (reported_free s) + used oldSize - used newSize)"
proof (cases "info_matches (vc_fsInfoCache s) s")
  case True
  let ?c = "fc_noteResize oldSize newSize (cluster_bytes s) (vc_fatCache s)"
  have v: "fc_valid (vc_fatCache s)" "fc_totalClusters (vc_fatCache s) = fi_totalClusters (vc_fsInfoCache s)"
    using True by (simp_all add: info_matches_def fc_matches_def)
  with assms(1) have nb: "\<not> fc_building (vc_fatCache s)" "unat (fc_freeClusters (vc_fatCache s)) \<le> unat (fc_totalClusters (vc_fatCache s))"
    by (auto simp: volume_known_def fc_inv_def)
  have s': "noteFileResized oldSize newSize s =
     s\<lparr>vc_fatCache := ?c, vc_fsInfoCache := (vc_fsInfoCache s)\<lparr>fi_freeClusters := fc_freeClusters ?c,
          fi_flags := fi_flags (vc_fsInfoCache s) OR 0x04\<rparr>\<rparr>"
    using assms True
    by (simp add: noteFileResized_def cluster_bytes_def [symmetric] volume_known_def info_matches_def fc_matches_def
        noteResize_frame with_free_def Let_def)
  show ?thesis
    using note_resize_count [OF nb(2), of oldSize newSize "cluster_bytes s"] v nb(1) assms True
    unfolding s' Let_def
    by (auto simp: reported_free_def info_matches_def fc_matches_def noteResize_frame volume_known_def or_flag)
next
  case False
  let ?i = "vc_fsInfoCache s"
  let ?c = "FatAllocationCache_init\<lparr>fc_valid := True, fc_totalClusters := fi_totalClusters ?i, fc_freeClusters := fi_freeClusters ?i\<rparr>"
  from assms(1) False have k: "vc_fsInfoValid s" "fi_flags ?i AND 0x04 \<noteq> 0" "unat (fi_freeClusters ?i) \<le> unat (fi_totalClusters ?i)"
    by (auto simp: volume_known_def)
  have "unat (fc_freeClusters ?c) \<le> unat (fc_totalClusters ?c)" using k(3) by simp
  from note_resize_count [OF this, of oldSize newSize "cluster_bytes s"] assms(2)
  have n: "unat (fc_freeClusters (fc_noteResize oldSize newSize (cluster_bytes s) ?c)) =
     min (unat (fi_totalClusters ?i)) (unat (fi_freeClusters ?i) +
       (unat oldSize + unat (cluster_bytes s) - 1) div unat (cluster_bytes s) -
       (unat newSize + unat (cluster_bytes s) - 1) div unat (cluster_bytes s))"
    by (simp add: FatAllocationCache_init_def Let_def)
  let ?s' = "noteFileResized oldSize newSize s"
  note s' = noteFileResized_without_map [OF k(1) assms(2) False k(2), of oldSize newSize, unfolded Let_def]
  have nm: "\<not> info_matches (vc_fsInfoCache ?s') ?s'"
    using False unfolding s' by (simp add: info_matches_def fc_matches_def noteResize_frame)
  have r: "reported_free ?s' = fi_freeClusters (vc_fsInfoCache ?s')" "reported_free s = fi_freeClusters ?i"
    using nm False by (simp_all add: reported_free_def)
  have "vc_fsInfoValid ?s'" "fi_flags (vc_fsInfoCache ?s') AND 0x04 \<noteq> 0" "vc_transport ?s' = vc_transport s"
    "fi_freeClusters (vc_fsInfoCache ?s') = fc_freeClusters (fc_noteResize oldSize newSize (cluster_bytes s) ?c)"
    using k(1,2) unfolding s' by simp_all
  then show ?thesis unfolding Let_def r n by (simp add: n)
qed

text \<open>
  Free space stays exact without asking the plugin: on a known volume, after
  \<open>noteFileResized\<close> the answer of \<open>getFsInfo\<close>, with or without a request to refresh, comes from
  the cache without any exchange, says that the count is known, and is the earlier answer moved
  by exactly the change in the number of clusters of the file, within the size of the volume.
\<close>

theorem resize_reported:
  assumes "volume_known s" "cluster_bytes s \<noteq> 0"
  shows "\<exists>info. getFsInfo tr heap refreshFree cacheOnly info0 (noteFileResized oldSize newSize s) =
      Some (True, info, noteFileResized oldSize newSize s) \<and> fi_flags info AND 0x04 \<noteq> 0 \<and>
    unat (fi_freeClusters info) = min (unat (fi_totalClusters (vc_fsInfoCache s)))
      (unat (reported_free s) + (unat oldSize + unat (cluster_bytes s) - 1) div unat (cluster_bytes s) -
       (unat newSize + unat (cluster_bytes s) - 1) div unat (cluster_bytes s))"
proof -
  let ?s = "noteFileResized oldSize newSize s"
  have r: "vc_fsInfoValid ?s" "fi_flags (vc_fsInfoCache ?s) AND 0x04 \<noteq> 0"
    "unat (reported_free ?s) = min (unat (fi_totalClusters (vc_fsInfoCache s)))
      (unat (reported_free s) + (unat oldSize + unat (cluster_bytes s) - 1) div unat (cluster_bytes s) -
       (unat newSize + unat (cluster_bytes s) - 1) div unat (cluster_bytes s))"
    using resized_free [OF assms, of oldSize newSize] unfolding Let_def by blast+
  let ?info = "if info_matches (vc_fsInfoCache ?s) ?s then with_free ?s (vc_fsInfoCache ?s) else vc_fsInfoCache ?s"
  have "fi_flags ?info AND 0x04 \<noteq> 0" "fi_freeClusters ?info = reported_free ?s"
    using r(2) or_flag by (auto simp: with_free_def reported_free_def)
  moreover from this r(1) have "getFsInfo tr heap refreshFree cacheOnly info0 ?s = Some (True, ?info, ?s)"
    by (simp add: getFsInfo_def)
  ultimately show ?thesis using r(3) by auto
qed

definition demo_volume :: "(bytes list \<times> bytes list) vfs_client" where
  "demo_volume = (VfsClient_init ([], []))\<lparr>vc_fsInfoValid := True,
     vc_fsInfoCache := VfsFsInfo_init\<lparr>fi_flags := 5, fi_bytesPerSector := 512, fi_sectorsPerCluster := 8,
       fi_totalClusters := 50, fi_freeClusters := 10\<rparr>\<rparr>"

theorem resize_reported_witness:
  "\<exists>info. getFsInfo script (\<lambda>n. True) True True VfsFsInfo_init (noteFileResized 1000 9000 demo_volume) =
      Some (True, info, noteFileResized 1000 9000 demo_volume) \<and> unat (fi_freeClusters info) = 8"
proof -
  have c: "cluster_bytes demo_volume = 4096" "reported_free demo_volume = 10"
    by (simp_all add: demo_volume_def cluster_bytes_def VfsClient_init_def reported_free_def info_matches_def fc_matches_def
        FatAllocationCache_init_def)
  have k: "volume_known demo_volume"
    by (simp add: demo_volume_def volume_known_def VfsClient_init_def fc_inv_def FatAllocationCache_init_def)
  have "cluster_bytes demo_volume \<noteq> 0" by (simp add: c)
  from resize_reported [OF k this, of script "\<lambda>n. True" True True VfsFsInfo_init 1000 9000] show ?thesis
    by (auto simp: c) (simp add: demo_volume_def)
qed

end
