(* ===== verification/UartTransport.thy ===== *)
theory UartTransport
  imports VfsClient
begin

text \<open>
  \<open>src/uart_transport.cpp\<close>: frames over the serial line. The Arduino objects the code calls,
  \<open>HardwareSerial\<close>, \<open>millis\<close>, \<open>delay\<close> and \<open>yield\<close>, are a record of functions on the state \<open>'e\<close> of
  the outside world; \<open>port_log\<close> states what the driver documents of them. Loops that a silent
  clock or an endless stream could keep running are partial functions: \<open>None\<close> is "does not
  return", and a send that does not return leaves the state \<open>None\<close>. A delivered packet is a
  copy of the parser's buffer, which the next \<open>poll\<close> reuses. The record \<open>uart_link\<close> at the
  end gives the file API client its transport.
\<close>

subsection \<open>State and operations\<close>

definition kPing :: u8 where "kPing = 0x04"
definition kSysReset :: u8 where "kSysReset = 0x0F"
definition kAck :: u8 where "kAck = 0xFE"
definition kError :: u8 where "kError = 0xEE"
definition kReady :: u8 where "kReady = 0xF0"
definition kRxChunkSize :: nat where "kRxChunkSize = 256"
definition kTxChunkSize :: nat where "kTxChunkSize = kMaxPayload"

record 'e serial_port =
  sp_begin :: "'e \<Rightarrow> 'e"
  sp_available :: "'e \<Rightarrow> int \<times> 'e"
  sp_read :: "nat \<Rightarrow> 'e \<Rightarrow> bytes \<times> 'e"
  sp_write :: "bytes \<Rightarrow> 'e \<Rightarrow> nat \<times> 'e"
  sp_flush :: "'e \<Rightarrow> 'e"
  sp_millis :: "'e \<Rightarrow> u32 \<times> 'e"
  sp_delay :: "u32 \<Rightarrow> 'e \<Rightarrow> 'e"
  sp_yield :: "'e \<Rightarrow> 'e"

text \<open>\<open>ua_chunk\<close> holds the first \<open>rxChunkLength_\<close> bytes of the array.\<close>

record 'e uart =
  ua_env :: 'e
  ua_parser :: frame_parser
  ua_chunk :: bytes
  ua_offset :: nat

definition UartTransport_init :: "'e \<Rightarrow> 'e uart" where
  "UartTransport_init e = \<lparr>ua_env = e, ua_parser = FrameParser_init, ua_chunk = [], ua_offset = 0\<rparr>"

definition uart_begin :: "'e serial_port \<Rightarrow> 'e uart \<Rightarrow> 'e uart" where
  "uart_begin sp u = u\<lparr>ua_env := sp_begin sp (ua_env u), ua_chunk := [], ua_offset := 0\<rparr>"

text \<open>The loop over the bytes of the chunk: the packet, the bytes used and the parser.\<close>

fun feed_chunk :: "u32 \<Rightarrow> bytes \<Rightarrow> frame_parser \<Rightarrow> packet option \<times> nat \<times> frame_parser" where
  "feed_chunk receivedAt [] p = (None, 0, p)"
| "feed_chunk receivedAt (b # bs) p =
     (case feed b receivedAt p of
        (p1, Some pk) \<Rightarrow> (Some pk, 1, p1)
      | (p1, None) \<Rightarrow> (case feed_chunk receivedAt bs p1 of (r, n, p2) \<Rightarrow> (r, Suc n, p2)))"

definition poll_silence :: "'e serial_port \<Rightarrow> 'e uart \<Rightarrow> packet option \<times> 'e uart" where
  "poll_silence sp u =
     (let (now, e) = sp_millis sp (ua_env u)
      in (None, u\<lparr>ua_parser := fst (checkTimeout now (ua_parser u)), ua_env := e\<rparr>))"

definition poll_chunk :: "'e serial_port \<Rightarrow> 'e uart \<Rightarrow> packet option \<times> 'e uart" where
  "poll_chunk sp u =
     (let (now, e) = sp_millis sp (ua_env u); (r, n, p) = feed_chunk now (drop (ua_offset u) (ua_chunk u)) (ua_parser u)
      in (r, u\<lparr>ua_env := e, ua_parser := p, ua_offset := ua_offset u + n\<rparr>))"

partial_function (option) uart_poll :: "'e serial_port \<Rightarrow> 'e uart \<Rightarrow> (packet option \<times> 'e uart) option" where
  "uart_poll sp u =
     (if ua_offset u = length (ua_chunk u) then
        let u0 = u\<lparr>ua_offset := 0, ua_chunk := []\<rparr>; (available, e1) = sp_available sp (ua_env u0);
            u1 = u0\<lparr>ua_env := e1\<rparr>
        in if available \<le> 0 then Some (poll_silence sp u1)
           else
             let wanted = (if nat available < kRxChunkSize then nat available else kRxChunkSize);
                 (d, e2) = sp_read sp wanted (ua_env u1); u2 = u1\<lparr>ua_env := e2, ua_chunk := d\<rparr>
             in if d = [] then Some (poll_silence sp u2)
                else (case poll_chunk sp u2 of
                        (Some p, u3) \<Rightarrow> Some (Some p, u3) | (None, u3) \<Rightarrow> uart_poll sp u3)
      else (case poll_chunk sp u of
              (Some p, u3) \<Rightarrow> Some (Some p, u3) | (None, u3) \<Rightarrow> uart_poll sp u3))"

partial_function (option) write_all_loop ::
    "'e serial_port \<Rightarrow> bytes \<Rightarrow> u32 \<Rightarrow> 'e uart \<Rightarrow> (bool \<times> 'e uart) option" where
  "write_all_loop sp data idleSince u =
     (if data = [] then Some (True, u)
      else
        let part = take kTxChunkSize data; (written, e1) = sp_write sp part (ua_env u);
            (now, e2) = sp_millis sp e1
        in if written \<noteq> 0 then write_all_loop sp (drop written data) now (u\<lparr>ua_env := sp_yield sp e2\<rparr>)
           else if now - idleSince \<ge> 2000 then Some (False, u\<lparr>ua_env := e2\<rparr>)
           else write_all_loop sp data idleSince (u\<lparr>ua_env := sp_delay sp 1 e2\<rparr>))"

definition writeAll :: "'e serial_port \<Rightarrow> bytes \<Rightarrow> 'e uart \<Rightarrow> (bool \<times> 'e uart) option" where
  "writeAll sp data u =
     (let (now, e) = sp_millis sp (ua_env u) in write_all_loop sp data now (u\<lparr>ua_env := e\<rparr>))"

text \<open>The thunk \<open>writeFrame\<close> calls; its context is the transport, \<open>None\<close> once a write hangs.\<close>

definition writerThunk :: "'e serial_port \<Rightarrow> 'e uart option \<Rightarrow> bytes \<Rightarrow> bool \<times> 'e uart option" where
  "writerThunk sp context data =
     (case Option.bind context (writeAll sp data) of None \<Rightarrow> (False, None) | Some (ok, u) \<Rightarrow> (ok, Some u))"

definition uart_send :: "'e serial_port \<Rightarrow> u8 \<Rightarrow> bytes option \<Rightarrow> u16 \<Rightarrow> 'e uart option \<Rightarrow> bool \<times> 'e uart option" where
  "uart_send sp command data len context = writeFrame (Some (writerThunk sp)) context command data len"

definition sendAck :: "'e serial_port \<Rightarrow> 'e uart option \<Rightarrow> bool \<times> 'e uart option" where
  "sendAck sp = uart_send sp kAck None 0"

definition sendError :: "'e serial_port \<Rightarrow> string option \<Rightarrow> 'e uart option \<Rightarrow> bool \<times> 'e uart option" where
  "sendError sp message =
     (let m = (case message of None \<Rightarrow> ''error'' | Some m \<Rightarrow> m);
          sendLength = (if length m < 48 then length m else 48)
      in uart_send sp kError (Some (bytes_of m)) (of_nat sendLength))"

definition uart_flush :: "'e serial_port \<Rightarrow> 'e uart \<Rightarrow> 'e uart" where
  "uart_flush sp u = u\<lparr>ua_env := sp_flush sp (ua_env u)\<rparr>"

text \<open>
  Waiting for an answer. The handler of other packets may not return (a reset restarts the
  chip), which is \<open>None\<close>.
\<close>

partial_function (option) wait_loop ::
    "'e serial_port \<Rightarrow> u8 \<Rightarrow> u32 \<Rightarrow> u32 \<Rightarrow> ('e uart \<Rightarrow> 'e uart) option \<Rightarrow> (packet \<Rightarrow> 'e uart \<Rightarrow> 'e uart option) option \<Rightarrow>
     'e uart \<Rightarrow> (packet option \<times> 'e uart) option" where
  "wait_loop sp wanted timeoutMs started idleHook unexpected u =
     (let (now, e) = sp_millis sp (ua_env u); u1 = u\<lparr>ua_env := e\<rparr>
      in if \<not> now - started < timeoutMs then Some (None, u1)
         else
           let u2 = (case idleHook of None \<Rightarrow> u1 | Some h \<Rightarrow> h u1)
           in Option.bind (uart_poll sp u2) (\<lambda>(r, u3).
             case r of
               Some p \<Rightarrow>
                 if pkt_command p = wanted then Some (Some p, u3)
                 else Option.bind (case unexpected of None \<Rightarrow> Some u3 | Some f \<Rightarrow> f p u3) (\<lambda>u4.
                   wait_loop sp wanted timeoutMs started idleHook unexpected (u4\<lparr>ua_env := sp_yield sp (ua_env u4)\<rparr>))
             | None \<Rightarrow>
                 wait_loop sp wanted timeoutMs started idleHook unexpected
                   (u3\<lparr>ua_env := sp_yield sp (sp_delay sp 1 (ua_env u3))\<rparr>)))"

definition waitFor ::
    "'e serial_port \<Rightarrow> u8 \<Rightarrow> u32 \<Rightarrow> ('e uart \<Rightarrow> 'e uart) option \<Rightarrow> (packet \<Rightarrow> 'e uart \<Rightarrow> 'e uart option) option \<Rightarrow>
     'e uart \<Rightarrow> (packet option \<times> 'e uart) option" where
  "waitFor sp wanted timeoutMs idleHook unexpected u =
     (let (started, e) = sp_millis sp (ua_env u)
      in wait_loop sp wanted timeoutMs started idleHook unexpected (u\<lparr>ua_env := e\<rparr>))"

text \<open>\<open>VfsClient::handleUnexpected\<close>: PING is answered, RESET acknowledges and restarts the chip.\<close>

definition handleUnexpected :: "'e serial_port \<Rightarrow> packet \<Rightarrow> 'e uart \<Rightarrow> 'e uart option" where
  "handleUnexpected sp packet u =
     (if pkt_command packet = kPing then snd (uart_send sp kReady None 0 (Some u))
      else if pkt_command packet = kSysReset then None
      else Some u)"

definition uart_link :: "'e serial_port \<Rightarrow> 'e uart option transport" where
  "uart_link sp =
     \<lparr>tr_send = (\<lambda>command data t. uart_send sp command (Some data) (of_nat (length data)) t),
      tr_wait = (\<lambda>command timeoutMs t. Option.bind t (\<lambda>u.
         map_option (\<lambda>(r, u1). (r, Some u1)) (waitFor sp command timeoutMs None (Some (handleUnexpected sp)) u)))\<rparr>"


subsection \<open>What the driver documents\<close>

text \<open>
  The bytes the port has delivered and taken so far: a read delivers at most what was asked
  for, a write takes a prefix, and nothing else moves data.
\<close>

definition port_log :: "'e serial_port \<Rightarrow> ('e \<Rightarrow> bytes) \<Rightarrow> ('e \<Rightarrow> bytes) \<Rightarrow> bool" where
  "port_log sp rx tx \<longleftrightarrow>
     (\<forall>n e d e'. sp_read sp n e = (d, e') \<longrightarrow> length d \<le> n \<and> rx e' = rx e @ d \<and> tx e' = tx e) \<and>
     (\<forall>d e n e'. sp_write sp d e = (n, e') \<longrightarrow> n \<le> length d \<and> tx e' = tx e @ take n d \<and> rx e' = rx e) \<and>
     (\<forall>e x e'. sp_available sp e = (x, e') \<longrightarrow> rx e' = rx e \<and> tx e' = tx e) \<and>
     (\<forall>e x e'. sp_millis sp e = (x, e') \<longrightarrow> rx e' = rx e \<and> tx e' = tx e) \<and>
     (\<forall>e n. rx (sp_delay sp n e) = rx e \<and> tx (sp_delay sp n e) = tx e) \<and>
     (\<forall>e. rx (sp_yield sp e) = rx e \<and> tx (sp_yield sp e) = tx e)"

definition pending :: "'e uart \<Rightarrow> bytes" where
  "pending u = drop (ua_offset u) (ua_chunk u)"

definition same_rx :: "('e \<Rightarrow> bytes) \<Rightarrow> 'e uart \<Rightarrow> 'e uart \<Rightarrow> bool" where
  "same_rx rx u u' \<longleftrightarrow> ua_parser u' = ua_parser u \<and> ua_chunk u' = ua_chunk u \<and> ua_offset u' = ua_offset u \<and>
     rx (ua_env u') = rx (ua_env u)"

lemma same_rx_trans: "same_rx rx u v \<Longrightarrow> same_rx rx v w \<Longrightarrow> same_rx rx u w"
  by (simp add: same_rx_def)

subsection \<open>Sending\<close>

lemma write_all_loop_log:
  assumes "port_log sp rx tx" "write_all_loop sp data idle u = Some (ok, u')"
  shows "same_rx rx u u' \<and> (ok \<longrightarrow> tx (ua_env u') = tx (ua_env u) @ data)"
proof -
  have "write_all_loop sp data idle u = Some r \<Longrightarrow> port_log sp rx tx \<longrightarrow>
     same_rx rx u (snd r) \<and> (fst r \<longrightarrow> tx (ua_env (snd r)) = tx (ua_env u) @ data)" for r
  proof (rule write_all_loop.raw_induct [where P = "\<lambda>sp data idle u r. port_log sp rx tx \<longrightarrow>
     same_rx rx u (snd r) \<and> (fst r \<longrightarrow> tx (ua_env (snd r)) = tx (ua_env u) @ data)"], goal_cases)
    case (1 f sp data idle u r)
    obtain written e1 where w: "sp_write sp (take kTxChunkSize data) (ua_env u) = (written, e1)"
      by (cases "sp_write sp (take kTxChunkSize data) (ua_env u)")
    obtain now e2 where m: "sp_millis sp e1 = (now, e2)" by (cases "sp_millis sp e1")
    show ?case
    proof (intro impI)
      assume log: "port_log sp rx tx"
      have e1: "written \<le> length data" "tx e1 = tx (ua_env u) @ take written data" "rx e1 = rx (ua_env u)"
        using log w unfolding port_log_def by (fastforce simp: min_def split: if_splits)+
      have e2: "tx e2 = tx e1" "rx e2 = rx e1" using log m unfolding port_log_def by blast+
      show "same_rx rx u (snd r) \<and> (fst r \<longrightarrow> tx (ua_env (snd r)) = tx (ua_env u) @ data)"
      proof (cases "data = []")
        case True
        then show ?thesis using 1(3) by (auto simp: same_rx_def)
      next
        case False
        note k = 1(3) [unfolded if_not_P [OF False] Let_def w m case_prod_conv]
        consider (part) "written \<noteq> 0" | (stuck) "written = 0" "now - idle \<ge> 2000" | (wait) "written = 0" "\<not> now - idle \<ge> 2000" by blast
        then show ?thesis
        proof cases
          case part
          then have "f sp (drop written data) now (u\<lparr>ua_env := sp_yield sp e2\<rparr>) = Some r" using k by simp
          from 1(2) [OF this] log e1 e2 show ?thesis
            by (auto simp: same_rx_def port_log_def)
        next
          case stuck
          then show ?thesis using k e1 e2 by (auto simp: same_rx_def)
        next
          case wait
          then have "f sp data idle (u\<lparr>ua_env := sp_delay sp 1 e2\<rparr>) = Some r" using k by simp
          from 1(2) [OF this] log e1 e2 wait show ?thesis
            by (auto simp: same_rx_def port_log_def)
        qed
      qed
    qed
  qed
  from this [OF assms(2)] assms(1) show ?thesis by simp
qed

lemma writeAll_log:
  assumes "port_log sp rx tx" "writeAll sp data u = Some (ok, u')"
  shows "same_rx rx u u' \<and> (ok \<longrightarrow> tx (ua_env u') = tx (ua_env u) @ data)"
proof -
  obtain now e where m: "sp_millis sp (ua_env u) = (now, e)" by (cases "sp_millis sp (ua_env u)")
  with assms(1) have e: "tx e = tx (ua_env u)" "rx e = rx (ua_env u)" unfolding port_log_def by blast+
  have "write_all_loop sp data now (u\<lparr>ua_env := e\<rparr>) = Some (ok, u')"
    using assms(2) m by (simp add: writeAll_def)
  from write_all_loop_log [OF assms(1) this] e show ?thesis by (simp add: same_rx_def)
qed

lemma writerThunk_log:
  assumes "port_log sp rx tx" "writerThunk sp (Some u) d = (ok, Some u')"
  shows "same_rx rx u u'" "ok \<Longrightarrow> tx (ua_env u') = tx (ua_env u) @ d"
  using assms writeAll_log [OF assms(1), of d u] by (auto simp: writerThunk_def split: option.splits)

lemma writerThunk_None [simp]: "writerThunk sp None d = (False, None)"
  by (simp add: writerThunk_def)

lemma writerThunk_True: "writerThunk sp c d = (True, c') \<Longrightarrow> \<exists>u u'. c = Some u \<and> c' = Some u'"
  by (cases c) (auto simp: writerThunk_def split: option.splits)

lemma uart_send_log:
  assumes "port_log sp rx tx" "uart_send sp c d n (Some u) = (ok, Some u')"
  shows "same_rx rx u u'"
    "ok \<Longrightarrow> unat n \<le> kMaxPayload \<and> tx (ua_env u') = tx (ua_env u) @
        (let header = [kSync, c, ucast n, ucast (drop_bit 8 n)]; body = (case d of None \<Rightarrow> [] | Some d \<Rightarrow> take (unat n) d)
         in header @ (if n = 0 then [] else body) @ [xor_all ((header ! 1 XOR header ! 2) XOR header ! 3) body])"
proof -
  let ?h = "[kSync, c, ucast n, ucast (drop_bit 8 n)] :: bytes"
  let ?b = "case d of None \<Rightarrow> [] | Some d \<Rightarrow> take (unat n) d"
  let ?c = "xor_all ((?h ! 1 XOR ?h ! 2) XOR ?h ! 3) ?b"
  have "same_rx rx u u' \<and> (ok \<longrightarrow> unat n \<le> kMaxPayload \<and>
      tx (ua_env u') = tx (ua_env u) @ ?h @ (if n = 0 then [] else ?b) @ [?c])"
  proof (cases "unat n > kMaxPayload \<or> (n \<noteq> 0 \<and> d = None)")
    case True
    then show ?thesis using assms(2) by (auto simp: uart_send_def writeFrame_def same_rx_def)
  next
    case False
    obtain ok1 c1 where w1: "writerThunk sp (Some u) ?h = (ok1, c1)" by (cases "writerThunk sp (Some u) ?h")
    obtain ok2 c2 where w2: "(if n = 0 then (True, c1) else writerThunk sp c1 ?b) = (ok2, c2)"
      by (cases "if n = 0 then (True, c1) else writerThunk sp c1 ?b")
    have eq: "(if \<not> ok1 then (False, c1) else if \<not> ok2 then (False, c2) else writerThunk sp c2 [?c]) = (ok, Some u')"
      using assms(2) False w1 w2
      by (simp add: uart_send_def writeFrame_def Let_def split: if_splits)
    show ?thesis
    proof (cases ok1)
      case c: False
      with eq w1 writerThunk_log(1) [OF assms(1), of u ?h False u'] show ?thesis by auto
    next
      case True
      with writerThunk_True [of sp "Some u" ?h c1] w1 obtain u1 where u1: "c1 = Some u1" by auto
      note l1 = writerThunk_log [OF assms(1) w1 [unfolded u1 eqTrueI [OF True]]]
      have "\<exists>u2. c2 = Some u2"
        using eq True w2 u1 writerThunk_True [of sp c2 "[?c]"] by (cases ok2; cases c2) auto
      then obtain u2 where u2: "c2 = Some u2" by blast
      have l2: "same_rx rx u1 u2" "ok2 \<Longrightarrow> tx (ua_env u2) = tx (ua_env u1) @ (if n = 0 then [] else ?b)"
        using w2 u1 u2 writerThunk_log [OF assms(1), of u1 ?b ok2 u2] by (auto simp: same_rx_def split: if_splits)
      show ?thesis
      proof (cases ok2)
        case c: False
        with eq True u2 l1 l2 show ?thesis using same_rx_trans by auto
      next
        case c: True
        have w3: "writerThunk sp (Some u2) [?c] = (ok, Some u')" using eq True c u2 by simp
        have "same_rx rx u u'"
          using writerThunk_log(1) [OF assms(1) w3] l1(1) l2(1) by (auto simp: same_rx_def)
        with writerThunk_log(2) [OF assms(1) w3] l1(2) l2(2) True c False show ?thesis by (auto simp: not_less)
      qed
    qed
  qed
  then show "same_rx rx u u'"
    "ok \<Longrightarrow> unat n \<le> kMaxPayload \<and> tx (ua_env u') = tx (ua_env u) @
        (let header = ?h; body = ?b in header @ (if n = 0 then [] else body) @ [xor_all ((header ! 1 XOR header ! 2) XOR header ! 3) body])"
    by (simp_all add: Let_def)
qed


subsection \<open>Receiving\<close>

text \<open>
  The parser has been fed everything the port delivered but the tail of the chunk, with the
  packets \<open>ps\<close> on the way.
\<close>

definition uart_fed :: "('e \<Rightarrow> bytes) \<Rightarrow> packet list \<Rightarrow> 'e uart \<Rightarrow> bool" where
  "uart_fed rx ps u \<longleftrightarrow> ua_offset u \<le> length (ua_chunk u) \<and>
     (\<exists>es. rx_run es FrameParser_init = (ua_parser u, ps) \<and> rx (ua_env u) = rx_bytes es @ pending u)"

lemma rx_bytes_chunk: "rx_bytes (map (\<lambda>b. Byte b t) bs) = bs"
  by (induction bs) auto

lemma feed_chunk_run:
  "feed_chunk t bs p = (r, n, q) \<Longrightarrow> n \<le> length bs \<and>
     rx_run (map (\<lambda>b. Byte b t) (take n bs)) p = (q, case r of None \<Rightarrow> [] | Some k \<Rightarrow> [k]) \<and> (r = None \<longrightarrow> n = length bs)"
proof (induction t bs p arbitrary: r n q rule: feed_chunk.induct)
  case (2 t b bs p)
  obtain p1 x where f: "feed b t p = (p1, x)" by (cases "feed b t p")
  show ?case
  proof (cases x)
    case None
    obtain r2 n2 p2 where k: "feed_chunk t bs p1 = (r2, n2, p2)" by (cases "feed_chunk t bs p1")
    from 2(1) [OF f [symmetric] None k] 2(2) f None k show ?thesis by auto
  next
    case (Some pk)
    with 2(2) f show ?thesis by auto
  qed
qed auto

text \<open>One step of feeding: the events, the packets they complete and what remains.\<close>

lemma uart_fed_step:
  assumes "uart_fed rx ps u" "rx_run es (ua_parser u) = (ua_parser u', qs)"
    "\<exists>d. rx (ua_env u') = rx (ua_env u) @ d \<and> pending u @ d = rx_bytes es @ pending u'"
    "ua_offset u' \<le> length (ua_chunk u')"
  shows "uart_fed rx (ps @ qs) u'"
proof -
  from assms(1) obtain fs where f: "rx_run fs FrameParser_init = (ua_parser u, ps)" "rx (ua_env u) = rx_bytes fs @ pending u"
    unfolding uart_fed_def by blast
  from assms(3) obtain d where d: "rx (ua_env u') = rx (ua_env u) @ d" "pending u @ d = rx_bytes es @ pending u'" by blast
  have "rx_run (fs @ es) FrameParser_init = (ua_parser u', ps @ qs)"
    using run_stream_appendI [OF f(1) assms(2)] .
  moreover have "rx (ua_env u') = rx_bytes (fs @ es) @ pending u'"
    unfolding d(1) f(2) rx_bytes_append append_assoc d(2) ..
  ultimately show ?thesis using assms(4) unfolding uart_fed_def by blast
qed

lemma poll_silence_fed:
  assumes "port_log sp rx tx" "uart_fed rx ps u" "poll_silence sp u = (r, u')"
  shows "r = None \<and> uart_fed rx ps u' \<and> tx (ua_env u') = tx (ua_env u)"
proof -
  obtain now e where m: "sp_millis sp (ua_env u) = (now, e)" by (cases "sp_millis sp (ua_env u)")
  with assms(1) have e: "rx e = rx (ua_env u)" "tx e = tx (ua_env u)" unfolding port_log_def by blast+
  have u': "u' = u\<lparr>ua_parser := fst (checkTimeout now (ua_parser u)), ua_env := e\<rparr>" "r = None"
    using assms(3) m by (auto simp: poll_silence_def)
  have "uart_fed rx (ps @ []) u'"
    by (rule uart_fed_step [OF assms(2), of "[Tick now]"]) (use assms(2) e in \<open>auto simp: u' pending_def uart_fed_def\<close>)
  then show ?thesis using e u' by simp
qed

lemma poll_chunk_fed:
  assumes "port_log sp rx tx" "uart_fed rx ps u" "poll_chunk sp u = (r, u')"
  shows "uart_fed rx (ps @ (case r of None \<Rightarrow> [] | Some k \<Rightarrow> [k])) u' \<and> tx (ua_env u') = tx (ua_env u)"
proof -
  obtain now e where m: "sp_millis sp (ua_env u) = (now, e)" by (cases "sp_millis sp (ua_env u)")
  with assms(1) have e: "rx e = rx (ua_env u)" "tx e = tx (ua_env u)" unfolding port_log_def by blast+
  obtain r1 n p where k: "feed_chunk now (pending u) (ua_parser u) = (r1, n, p)"
    by (cases "feed_chunk now (pending u) (ua_parser u)")
  have u': "u' = u\<lparr>ua_env := e, ua_parser := p, ua_offset := ua_offset u + n\<rparr>" "r = r1"
    using assms(3) m k by (auto simp: poll_chunk_def pending_def)
  note run = feed_chunk_run [OF k]
  have off: "ua_offset u \<le> length (ua_chunk u)" using assms(2) by (simp add: uart_fed_def)
  have "uart_fed rx (ps @ (case r of None \<Rightarrow> [] | Some k \<Rightarrow> [k])) u'"
  proof (rule uart_fed_step [OF assms(2)])
    show "rx_run (map (\<lambda>b. Byte b now) (take n (pending u))) (ua_parser u) = (ua_parser u', case r of None \<Rightarrow> [] | Some k \<Rightarrow> [k])"
      using run by (simp add: u')
    have "pending u' = drop n (pending u)" by (simp add: u' pending_def add.commute)
    then show "\<exists>d. rx (ua_env u') = rx (ua_env u) @ d \<and>
        pending u @ d = rx_bytes (map (\<lambda>b. Byte b now) (take n (pending u))) @ pending u'"
      using e by (intro exI [of _ "[]"]) (simp add: u'(1) rx_bytes_chunk)
    show "ua_offset u' \<le> length (ua_chunk u')" using run off by (auto simp: u' pending_def)
  qed
  then show ?thesis using e u' by simp
qed

lemma uart_poll_fed:
  assumes "port_log sp rx tx" "uart_fed rx ps u" "uart_poll sp u = Some (r, u')"
  shows "uart_fed rx (ps @ (case r of None \<Rightarrow> [] | Some k \<Rightarrow> [k])) u' \<and> tx (ua_env u') = tx (ua_env u)"
proof -
  have "uart_poll sp u = Some x \<Longrightarrow> port_log sp rx tx \<longrightarrow> uart_fed rx ps u \<longrightarrow>
     uart_fed rx (ps @ (case fst x of None \<Rightarrow> [] | Some k \<Rightarrow> [k])) (snd x) \<and> tx (ua_env (snd x)) = tx (ua_env u)" for x
  proof (rule uart_poll.raw_induct [where P = "\<lambda>sp u x. port_log sp rx tx \<longrightarrow> uart_fed rx ps u \<longrightarrow>
     uart_fed rx (ps @ (case fst x of None \<Rightarrow> [] | Some k \<Rightarrow> [k])) (snd x) \<and> tx (ua_env (snd x)) = tx (ua_env u)"], goal_cases)
    case (1 f sp u x)
    show ?case
    proof (intro impI)
      assume log: "port_log sp rx tx" and fed: "uart_fed rx ps u"
      let ?Q = "\<lambda>u x. uart_fed rx (ps @ (case fst x of None \<Rightarrow> [] | Some k \<Rightarrow> [k])) (snd x) \<and>
          tx (ua_env (snd x)) = tx (ua_env u)"
      have chunk: "?Q u x" if v: "uart_fed rx ps v" "tx (ua_env v) = tx (ua_env u)"
        and x: "(case poll_chunk sp v of (Some p, u3) \<Rightarrow> Some (Some p, u3) | (None, u3) \<Rightarrow> f sp u3) = Some x" for v
      proof -
        obtain r3 u3 where c: "poll_chunk sp v = (r3, u3)" by (cases "poll_chunk sp v")
        note k = poll_chunk_fed [OF log v(1) c]
        show ?thesis
        proof (cases r3)
          case None
          with x c have "f sp u3 = Some x" by simp
          from 1(2) [OF this] log k None v(2) show ?thesis by simp
        next
          case (Some p)
          with x c k v(2) show ?thesis by auto
        qed
      qed
      show "?Q u x"
      proof (cases "ua_offset u = length (ua_chunk u)")
        case False
        then show ?thesis using chunk [OF fed refl] 1(3) by simp
      next
        case True
        let ?u0 = "u\<lparr>ua_offset := 0, ua_chunk := []\<rparr>"
        obtain av e1 where a: "sp_available sp (ua_env u) = (av, e1)" by (cases "sp_available sp (ua_env u)")
        let ?u1 = "?u0\<lparr>ua_env := e1\<rparr>"
        have e1: "rx e1 = rx (ua_env u)" "tx e1 = tx (ua_env u)" using log a unfolding port_log_def by blast+
        have f1: "uart_fed rx ps ?u1" using fed True e1 by (auto simp: uart_fed_def pending_def)
        show ?thesis
        proof (cases "av \<le> 0")
          case le: True
          with 1(3) True a have "x = poll_silence sp ?u1" by (simp add: Let_def)
          with poll_silence_fed [OF log f1, of "fst x" "snd x"] e1 show ?thesis by auto
        next
          case gt: False
          let ?w = "if nat av < kRxChunkSize then nat av else kRxChunkSize"
          obtain d e2 where rd: "sp_read sp ?w e1 = (d, e2)" by (cases "sp_read sp ?w e1")
          let ?u2 = "?u1\<lparr>ua_env := e2, ua_chunk := d\<rparr>"
          have e2: "rx e2 = rx e1 @ d" "tx e2 = tx e1" using log rd unfolding port_log_def by blast+
          have f2: "uart_fed rx ps ?u2" using f1 e2 unfolding uart_fed_def pending_def by auto
          have t2: "tx (ua_env ?u2) = tx (ua_env u)" using e1 e2 by simp
          show ?thesis
          proof (cases "d = []")
            case nil: True
            with 1(3) True gt a rd have "x = poll_silence sp ?u2" by (simp add: Let_def)
            with poll_silence_fed [OF log f2, of "fst x" "snd x"] t2 show ?thesis by auto
          next
            case c: False
            show ?thesis by (rule chunk [OF f2 t2]) (use 1(3) True gt a rd c in \<open>simp add: Let_def\<close>)
          qed
        qed
      qed
    qed
  qed
  from this [OF assms(3)] assms(1,2) show ?thesis by simp
qed


lemma same_rx_fed: "same_rx rx u u' \<Longrightarrow> uart_fed rx ps u \<Longrightarrow> uart_fed rx ps u'"
  by (auto simp: same_rx_def uart_fed_def pending_def)

lemma uart_fed_frame:
  assumes "uart_fed rx ps u" "p \<in> set ps"
  shows "pkt_length p \<le> kMaxPayload \<and> sublist (frame_bytes p) (rx (ua_env u))"
proof -
  from assms(1) obtain es where es: "rx_run es FrameParser_init = (ua_parser u, ps)" "rx (ua_env u) = rx_bytes es @ pending u"
    unfolding uart_fed_def by blast
  from rx_run_sound [OF in_frame_init es(1) assms(2)] have "frame_ok p" "sublist (frame_bytes p) (rx_bytes es)" by simp_all
  then show ?thesis unfolding frame_ok_def es(2) sublist_def by (metis append.assoc)
qed

lemma handleUnexpected_fed:
  assumes "port_log sp rx tx" "handleUnexpected sp p u = Some u'"
  shows "same_rx rx u u'"
proof (cases "pkt_command p = kPing")
  case True
  obtain ok t where s: "uart_send sp kReady None 0 (Some u) = (ok, t)" by (cases "uart_send sp kReady None 0 (Some u)")
  with assms(2) True have "t = Some u'" by (simp add: handleUnexpected_def)
  with s uart_send_log(1) [OF assms(1)] show ?thesis by simp
next
  case False
  with assms(2) show ?thesis by (auto simp: handleUnexpected_def same_rx_def split: if_splits)
qed

lemma wait_loop_fed:
  assumes "port_log sp rx tx" "uart_fed rx ps u"
    "wait_loop sp wanted ms started None (Some (handleUnexpected sp)) u = Some (r, u')"
  shows "\<exists>qs. uart_fed rx (ps @ qs) u' \<and> (\<forall>p. r = Some p \<longrightarrow> p \<in> set qs \<and> pkt_command p = wanted)"
proof -
  have "wait_loop sp wanted ms started idle un u = Some x \<Longrightarrow> port_log sp rx tx \<and> idle = None \<and> un = Some (handleUnexpected sp) \<longrightarrow>
     (\<forall>ps. uart_fed rx ps u \<longrightarrow>
       (\<exists>qs. uart_fed rx (ps @ qs) (snd x) \<and> (\<forall>p. fst x = Some p \<longrightarrow> p \<in> set qs \<and> pkt_command p = wanted)))" for idle un x
  proof (rule wait_loop.raw_induct [where P = "\<lambda>sp wanted ms started idle un u x.
     port_log sp rx tx \<and> idle = None \<and> un = Some (handleUnexpected sp) \<longrightarrow>
     (\<forall>ps. uart_fed rx ps u \<longrightarrow>
       (\<exists>qs. uart_fed rx (ps @ qs) (snd x) \<and> (\<forall>p. fst x = Some p \<longrightarrow> p \<in> set qs \<and> pkt_command p = wanted)))"], goal_cases)
    case (1 f sp wanted ms started idle un u x)
    show ?case
    proof (intro impI allI)
      fix ps
      assume h: "port_log sp rx tx \<and> idle = None \<and> un = Some (handleUnexpected sp)" and fed: "uart_fed rx ps u"
      then have log: "port_log sp rx tx" and [simp]: "idle = None" "un = Some (handleUnexpected sp)" by auto
      obtain now e where m: "sp_millis sp (ua_env u) = (now, e)" by (cases "sp_millis sp (ua_env u)")
      let ?u1 = "u\<lparr>ua_env := e\<rparr>"
      have e: "rx e = rx (ua_env u)" using log m unfolding port_log_def by blast
      have f1: "uart_fed rx ps ?u1" by (rule same_rx_fed [OF _ fed]) (simp add: same_rx_def e)
      let ?Q = "\<lambda>ps x. \<exists>qs. uart_fed rx (ps @ qs) (snd x) \<and> (\<forall>p. fst x = Some p \<longrightarrow> p \<in> set qs \<and> pkt_command p = wanted)"
      have again: "?Q ps x" if v: "uart_fed rx (ps @ qs) v" and k: "f sp wanted ms started idle un v = Some x" for v qs
      proof -
        from 1(2) [OF k] h v obtain qs' where "uart_fed rx ((ps @ qs) @ qs') (snd x)"
          "\<forall>p. fst x = Some p \<longrightarrow> p \<in> set qs' \<and> pkt_command p = wanted" by blast
        then show ?thesis by (intro exI [of _ "qs @ qs'"]) auto
      qed
      show "?Q ps x"
      proof (cases "now - started < ms")
        case False
        with 1(3) m have "x = (None, ?u1)" by (simp add: Let_def)
        then show ?thesis using f1 by (intro exI [of _ "[]"]) simp
      next
        case True
        from 1(3) m True obtain r u3 where pl: "uart_poll sp ?u1 = Some (r, u3)"
          by (auto simp: Let_def bind_eq_Some_conv)
        note pf = uart_poll_fed [OF log f1 pl]
        show ?thesis
        proof (cases r)
          case None
          have "f sp wanted ms started idle un (u3\<lparr>ua_env := sp_yield sp (sp_delay sp 1 (ua_env u3))\<rparr>) = Some x"
            using 1(3) m True pl None by (simp add: Let_def)
          moreover have "uart_fed rx (ps @ []) (u3\<lparr>ua_env := sp_yield sp (sp_delay sp 1 (ua_env u3))\<rparr>)"
            using pf None log by (auto intro: same_rx_fed [of rx u3] simp: same_rx_def port_log_def)
          ultimately show ?thesis using again by blast
        next
          case (Some p)
          show ?thesis
          proof (cases "pkt_command p = wanted")
            case hit: True
            with 1(3) m True pl Some have "x = (Some p, u3)" by (simp add: Let_def)
            then show ?thesis using pf Some hit by (intro exI [of _ "[p]"]) simp
          next
            case miss: False
            from 1(3) m True pl Some miss obtain u4 where un: "handleUnexpected sp p u3 = Some u4"
              and k: "f sp wanted ms started idle un (u4\<lparr>ua_env := sp_yield sp (ua_env u4)\<rparr>) = Some x"
              by (auto simp: Let_def bind_eq_Some_conv)
            have "same_rx rx u3 u4" by (rule handleUnexpected_fed [OF log un])
            moreover have "rx (sp_yield sp (ua_env u4)) = rx (ua_env u4)" using log unfolding port_log_def by blast
            ultimately have "same_rx rx u3 (u4\<lparr>ua_env := sp_yield sp (ua_env u4)\<rparr>)" by (simp add: same_rx_def)
            from same_rx_fed [OF this] pf Some have "uart_fed rx (ps @ [p]) (u4\<lparr>ua_env := sp_yield sp (ua_env u4)\<rparr>)" by simp
            from again [OF this k] show ?thesis .
          qed
        qed
      qed
    qed
  qed
  from this [OF assms(3)] assms(1,2) show ?thesis by auto
qed

lemma frame_bytes_header2:
  assumes "length d \<le> kMaxPayload"
  shows "[kSync, c, ucast (of_nat (length d) :: u16), ucast (drop_bit 8 (of_nat (length d) :: u16))] = kSync # [c, of_nat (length d), of_nat (length d div 256)]"
  using frame_header_of_nat [OF assms, of c] by (simp add: frame_header_def)

text \<open>
  C27: What the file API sends over the real transport is exactly one frame: when \<open>send\<close> reports
  success, the bytes the serial port has taken are the earlier ones followed by the frame of this
  command and payload, however the port cut the writes, and the receiving side is untouched.
\<close>

theorem uart_send_exact:
  assumes "port_log sp rx tx" "length d < 65536" "tr_send (uart_link sp) c d (Some u) = (True, t)"
  shows "\<exists>u'. t = Some u' \<and> length d \<le> kMaxPayload \<and>
     tx (ua_env u') = tx (ua_env u) @ frame_bytes \<lparr>pkt_command = c, pkt_data = d\<rparr> \<and>
     ua_parser u' = ua_parser u \<and> pending u' = pending u \<and> rx (ua_env u') = rx (ua_env u)"
proof -
  let ?n = "of_nat (length d) :: u16"
  have s: "uart_send sp c (Some d) ?n (Some u) = (True, t)" using assms(3) by (simp add: uart_link_def)
  have n: "unat ?n = length d" using assms(2) by simp
  obtain u' where t: "t = Some u'"
  proof (cases t)
    case None
    with s have "\<exists>c2 x. writerThunk sp c2 x = (True, None)"
      by (auto simp: uart_send_def writeFrame_def Let_def split: if_splits prod.splits)
    then show thesis using writerThunk_True by fastforce
  qed (use that in blast)
  have l: "length d \<le> kMaxPayload"
    using uart_send_log(2) [OF assms(1) s [unfolded t]] n by simp
  have z: "(?n = 0) = (d = [])" using n by (simp add: word_unat_eq_iff)
  have "tx (ua_env u') = tx (ua_env u) @ frame_bytes \<lparr>pkt_command = c, pkt_data = d\<rparr>"
    using uart_send_log(2) [OF assms(1) s [unfolded t]] z n frame_bytes_header2 [OF l, of c]
    by (auto simp: frame_bytes_def Let_def)
  with l t uart_send_log(1) [OF assms(1) s [unfolded t]] show ?thesis by (auto simp: same_rx_def pending_def)
qed

text \<open>
  C28: What the file API gets as an answer is a frame with the awaited command, of matching
  length and checksum, in contiguous bytes the serial port delivered: no byte is lost, invented
  or reordered between the port, the chunk buffer and the parser, across any number of polls and
  while PING requests in between are answered.
\<close>

theorem uart_wait_sound:
  assumes "port_log sp rx tx" "uart_fed rx ps u" "tr_wait (uart_link sp) c ms (Some u) = Some (r, t)"
  shows "\<exists>u' qs. t = Some u' \<and> uart_fed rx (ps @ qs) u' \<and>
     (\<forall>p. r = Some p \<longrightarrow> p \<in> set qs \<and> pkt_command p = c \<and> pkt_length p \<le> kMaxPayload \<and>
        sublist (frame_bytes p) (rx (ua_env u')))"
proof -
  obtain now e where m: "sp_millis sp (ua_env u) = (now, e)" by (cases "sp_millis sp (ua_env u)")
  from assms(3) obtain u' where w: "waitFor sp c ms None (Some (handleUnexpected sp)) u = Some (r, u')" "t = Some u'"
    by (auto simp: uart_link_def bind_eq_Some_conv)
  have l: "wait_loop sp c ms now None (Some (handleUnexpected sp)) (u\<lparr>ua_env := e\<rparr>) = Some (r, u')"
    using w(1) m by (simp add: waitFor_def)
  have "rx e = rx (ua_env u)" using assms(1) m unfolding port_log_def by blast
  then have "uart_fed rx ps (u\<lparr>ua_env := e\<rparr>)" using same_rx_fed [OF _ assms(2)] by (simp add: same_rx_def)
  from wait_loop_fed [OF assms(1) this l] obtain qs where
    q: "uart_fed rx (ps @ qs) u'" "\<forall>p. r = Some p \<longrightarrow> p \<in> set qs \<and> pkt_command p = c" by blast
  have "pkt_length p \<le> kMaxPayload \<and> sublist (frame_bytes p) (rx (ua_env u'))" if "r = Some p" for p
    using uart_fed_frame [OF q(1), of p] q(2) that by simp
  with q w(2) show ?thesis by blast
qed


subsection \<open>A port in memory\<close>

text \<open>Bytes still to come, bytes delivered, bytes taken, and a clock that ticks when it is read.\<close>

type_synonym demo_env = "bytes \<times> bytes \<times> bytes \<times> u32"

definition demo_port :: "demo_env serial_port" where
  "demo_port = \<lparr>sp_begin = id,
     sp_available = (\<lambda>(todo, rx, tx, k). (int (length todo), (todo, rx, tx, k))),
     sp_read = (\<lambda>n (todo, rx, tx, k). (take n todo, (drop n todo, rx @ take n todo, tx, k))),
     sp_write = (\<lambda>d (todo, rx, tx, k). (length d, (todo, rx, tx @ d, k))),
     sp_flush = id,
     sp_millis = (\<lambda>(todo, rx, tx, k). (k, (todo, rx, tx, k + 1))),
     sp_delay = (\<lambda>n e. e), sp_yield = id\<rparr>"

definition demo_rx :: "demo_env \<Rightarrow> bytes" where "demo_rx e = (case e of (todo, rx, tx, k) \<Rightarrow> rx)"
definition demo_tx :: "demo_env \<Rightarrow> bytes" where "demo_tx e = (case e of (todo, rx, tx, k) \<Rightarrow> tx)"

lemma demo_log: "port_log demo_port demo_rx demo_tx"
  by (auto simp: port_log_def demo_port_def demo_rx_def demo_tx_def)

lemma demo_port_simps:
  "sp_millis demo_port (todo, rx, tx, k) = (k, (todo, rx, tx, k + 1))"
  "sp_write demo_port d (todo, rx, tx, k) = (length d, (todo, rx, tx @ d, k))"
  "sp_available demo_port (todo, rx, tx, k) = (int (length todo), (todo, rx, tx, k))"
  "sp_read demo_port n (todo, rx, tx, k) = (take n todo, (drop n todo, rx @ take n todo, tx, k))"
  "sp_yield demo_port e = e" "sp_delay demo_port m e = e"
  by (simp_all add: demo_port_def)

lemma demo_writeAll:
  assumes "d \<noteq> []" "length d \<le> kTxChunkSize"
  shows "writeAll demo_port d (u\<lparr>ua_env := (todo, rx, tx, k)\<rparr>) = Some (True, u\<lparr>ua_env := (todo, rx, tx @ d, k + 2)\<rparr>)"
proof -
  have e: "write_all_loop demo_port [] t v = Some (True, v)" for t v by (subst write_all_loop.simps) simp
  have "write_all_loop demo_port d k (u\<lparr>ua_env := (todo, rx, tx, k + 1)\<rparr>) =
      write_all_loop demo_port [] (k + 1) (u\<lparr>ua_env := (todo, rx, tx @ d, k + 2)\<rparr>)"
    using assms by (subst write_all_loop.simps) (simp add: demo_port_simps Let_def add.commute)
  then show ?thesis by (simp add: writeAll_def demo_port_simps e)
qed

theorem uart_send_exact_witness:
  "\<exists>u'. tr_send (uart_link demo_port) 0x54 [65] (Some (UartTransport_init ([], [], [], 0))) = (True, Some u') \<and>
     demo_tx (ua_env u') = frame_bytes \<lparr>pkt_command = 0x54, pkt_data = [65]\<rparr>"
proof -
  let ?u = "UartTransport_init ([], [], [], 0) :: demo_env uart"
  have k: "length d \<le> kTxChunkSize" if "length d \<le> 4" for d :: bytes
    using that by (simp add: kTxChunkSize_def kMaxPayload_def)
  have w: "writerThunk demo_port (Some (?u\<lparr>ua_env := (todo, rx, tx, t)\<rparr>)) d = (True, Some (?u\<lparr>ua_env := (todo, rx, tx @ d, t + 2)\<rparr>))"
    if "d \<noteq> []" "length d \<le> 4" for d todo rx tx t
    using demo_writeAll [OF that(1) k [OF that(2)], where u = ?u and todo = todo and rx = rx and tx = tx and k = t] by (simp add: writerThunk_def)
  have i: "?u = ?u\<lparr>ua_env := ([], [], [], 0)\<rparr>" by (simp add: UartTransport_init_def)
  have "\<exists>t. tr_send (uart_link demo_port) 0x54 [65] (Some ?u) = (True, t)"
    by (subst i) (simp add: uart_link_def uart_send_def writeFrame_def w kMaxPayload_def Let_def)
  then obtain t where t: "tr_send (uart_link demo_port) 0x54 [65] (Some ?u) = (True, t)" by blast
  from uart_send_exact [OF demo_log _ t] obtain u' where "t = Some u'"
    "demo_tx (ua_env u') = demo_tx (ua_env ?u) @ frame_bytes \<lparr>pkt_command = 0x54, pkt_data = [65]\<rparr>" by auto
  then show ?thesis using t by (auto simp: UartTransport_init_def demo_tx_def)
qed

theorem uart_wait_sound_witness:
  "\<exists>u'. tr_wait (uart_link demo_port) 0xFE 1000 (Some (UartTransport_init ([0x5A, 0xFE, 0, 0, 0xFE], [], [], 0))) =
     Some (Some \<lparr>pkt_command = 0xFE, pkt_data = []\<rparr>, Some u') \<and>
     sublist (frame_bytes \<lparr>pkt_command = 0xFE, pkt_data = []\<rparr>) (demo_rx (ua_env u'))"
proof -
  let ?u = "UartTransport_init ([0x5A, 0xFE, 0, 0, 0xFE], [], [], 0) :: demo_env uart"
  let ?pk = "\<lparr>pkt_command = 0xFE, pkt_data = []\<rparr>"
  let ?v = "\<lparr>ua_env = ([], [0x5A, 0xFE, 0, 0, 0xFE], [], 2), ua_parser = FrameParser_init,
      ua_chunk = [0x5A, 0xFE, 0, 0, 0xFE], ua_offset = 0\<rparr> :: demo_env uart"
  obtain q where f: "feed_chunk 2 [0x5A, 0xFE, 0, 0, 0xFE] FrameParser_init = (Some ?pk, 5, q)"
    by (simp add: feed_def FrameParser_init_def kSync_def fp_reset_def kMaxPayload_def Let_def)
  have c: "\<exists>u'. poll_chunk demo_port ?v = (Some ?pk, u')"
    unfolding poll_chunk_def by (simp add: demo_port_simps f del: feed_chunk.simps)
  have p: "\<exists>u'. uart_poll demo_port \<lparr>ua_env = ([0x5A, 0xFE, 0, 0, 0xFE], [], [], 2), ua_parser = FrameParser_init,
      ua_chunk = [], ua_offset = 0\<rparr> = Some (Some ?pk, u')"
    using c by (subst uart_poll.simps) (auto simp: demo_port_simps kRxChunkSize_def Let_def)
  have "\<exists>u'. tr_wait (uart_link demo_port) 0xFE 1000 (Some ?u) = Some (Some \<lparr>pkt_command = 0xFE, pkt_data = []\<rparr>, Some u')"
    using p by (subst uart_link_def) (auto simp: waitFor_def wait_loop.simps [of _ _ _ 0] UartTransport_init_def demo_port_simps Let_def)
  then obtain u' where w: "tr_wait (uart_link demo_port) 0xFE 1000 (Some ?u) = Some (Some \<lparr>pkt_command = 0xFE, pkt_data = []\<rparr>, Some u')"
    by blast
  have "uart_fed demo_rx [] ?u"
    by (auto simp: uart_fed_def UartTransport_init_def demo_rx_def pending_def intro: exI [of _ "[]"])
  from uart_wait_sound [OF demo_log this w] w show ?thesis by auto
qed

end
