(* ===== verification/VfsBridge.thy ===== *)
theory VfsBridge
  imports VfsUpload SpscRing
begin

text \<open>
  \<open>src/vfs_bridge.cpp\<close>: the asynchronous border between the network core 0 and the UART core 1.
  A request and its result share one block of memory (\<open>Exchange\<close>), two queues of one token
  pass its ownership back and forth, and two byte rings carry the data. The queues of FreeRTOS
  are a record of functions on a queue state \<open>'q\<close>; \<open>mailbox\<close> states what a queue of length one
  documents. The blocks \<open>heap_caps_malloc\<close> returns are the argument \<open>malloc\<close>, by memory kind
  and by ring. \<open>waitForResult\<close> and \<open>waitForRequest\<close> only wait and change nothing.
\<close>

subsection \<open>Requests and results\<close>

datatype VfsOperation =
    kResetBuffers | kStat | kOpenDirectory | kReadDirectory | kOpenRead | kOpenWrite | kOpenAppend
  | kOpenRandom | kRead | kWrite | kReadAt | kWriteAt | kExtend | kSetEof | kGetFsInfo | kNoteResize
  | kInvalidateFsInfo | kCloseCommit | kCloseAbort | kDelete | kMkdir | kRename | kMoveRename | kSetMetadata

definition kPsramRingCapacity :: nat where "kPsramRingCapacity = 64 * 1024"
definition kFallbackRingCapacity :: nat where "kFallbackRingCapacity = 4 * 1024"
definition kMaxPumpPerRequest :: nat where "kMaxPumpPerRequest = kTransferWindowSize"

record vfs_request =
  rq_operation :: VfsOperation
  rq_value :: u32
  rq_offset :: u32
  rq_flags :: u8
  rq_metadata :: vfs_metadata
  rq_path :: bytes
  rq_path2 :: bytes

record vfs_result =
  rs_success :: bool
  rs_atEnd :: bool
  rs_wouldBlock :: bool
  rs_isDirectory :: bool
  rs_status :: u8
  rs_appliedAttributes :: u8
  rs_size :: u32
  rs_writeDate :: u16
  rs_writeTime :: u16
  rs_hasMetadata :: bool
  rs_attributes :: u8
  rs_createTenth :: u8
  rs_createTime :: u16
  rs_createDate :: u16
  rs_accessDate :: u16
  rs_transferred :: u32
  rs_name :: bytes
  rs_error :: string
  rs_fsInfo :: vfs_fs_info

text \<open>The zeroed structures \<open>memset\<close> leaves.\<close>

definition zero_metadata :: vfs_metadata where
  "zero_metadata = \<lparr>vm_attrMask = 0, vm_attrValue = 0, vm_timeMask = 0, vm_createTenth = 0, vm_createTime = 0,
     vm_createDate = 0, vm_accessDate = 0, vm_writeTime = 0, vm_writeDate = 0, vm_createFileTime = 0,
     vm_accessFileTime = 0, vm_writeFileTime = 0\<rparr>"

definition zero_result :: vfs_result where
  "zero_result = \<lparr>rs_success = False, rs_atEnd = False, rs_wouldBlock = False, rs_isDirectory = False, rs_status = 0,
     rs_appliedAttributes = 0, rs_size = 0, rs_writeDate = 0, rs_writeTime = 0, rs_hasMetadata = False,
     rs_attributes = 0, rs_createTenth = 0, rs_createTime = 0, rs_createDate = 0, rs_accessDate = 0,
     rs_transferred = 0, rs_name = [], rs_error = '''',
     rs_fsInfo = VfsFsInfo_init\<lparr>fi_freeClusters := 0, fi_nextFree := 0\<rparr>\<rparr>"

record 'q token_queue =
  qu_send :: "u8 \<Rightarrow> 'q \<Rightarrow> bool \<times> 'q"
  qu_receive :: "'q \<Rightarrow> u8 option \<times> 'q"
  qu_overwrite :: "u8 \<Rightarrow> 'q \<Rightarrow> 'q"

record ('t, 'q) vfs_bridge =
  vb_vfs :: "'t vfs_client"
  vb_request :: vfs_request
  vb_result :: vfs_result
  vb_requestQueue :: 'q
  vb_responseQueue :: 'q
  vb_networkToVfs :: ring
  vb_vfsToNetwork :: ring
  vb_ready :: bool
  vb_requestPending :: bool
  vb_pendingOperation :: VfsOperation
  vb_pendingSinceMs :: u32
  vb_buffersInPsram :: bool
  vb_writeSession :: bool

definition minimum :: "nat \<Rightarrow> nat \<Rightarrow> nat" where
  "minimum left right = (if left < right then left else right)"

subsection \<open>Setting up\<close>

definition zero_request :: vfs_request where
  "zero_request = \<lparr>rq_operation = kResetBuffers, rq_value = 0, rq_offset = 0, rq_flags = 0,
     rq_metadata = zero_metadata, rq_path = [], rq_path2 = []\<rparr>"

text \<open>\<open>queue\<close> stands for a queue handle that is not created yet.\<close>

definition VfsBridge_init :: "'t \<Rightarrow> 'q \<Rightarrow> ('t, 'q) vfs_bridge" where
  "VfsBridge_init t queue =
     \<lparr>vb_vfs = VfsClient_init t, vb_request = zero_request, vb_result = zero_result, vb_requestQueue = queue,
      vb_responseQueue = queue, vb_networkToVfs = SpscByteRing_init, vb_vfsToNetwork = SpscByteRing_init,
      vb_ready = False, vb_requestPending = False, vb_pendingOperation = kStat, vb_pendingSinceMs = 0,
      vb_buffersInPsram = False, vb_writeSession = False\<rparr>"

text \<open>\<open>malloc spiram second bytes\<close> is the block for the first or the second ring.\<close>

definition allocateRings :: "(bool \<Rightarrow> bool \<Rightarrow> nat \<Rightarrow> bytes option) \<Rightarrow> bool \<Rightarrow> ('t, 'q) vfs_bridge \<Rightarrow>
    bool \<times> ('t, 'q) vfs_bridge" where
  "allocateRings malloc psramAvailable b =
     (let first = (if psramAvailable then malloc True False kPsramRingCapacity else None);
          second = (if psramAvailable then malloc True True kPsramRingCapacity else None);
          inPsram = (first \<noteq> None \<and> second \<noteq> None);
          capacity = (if inPsram then kPsramRingCapacity else kFallbackRingCapacity);
          first1 = (if inPsram then first else malloc False False capacity);
          second1 = (if inPsram then second else malloc False True capacity);
          b1 = b\<lparr>vb_buffersInPsram := inPsram\<rparr>
      in if first1 = None \<or> second1 = None then (False, b1)
         else
           let (r1, ok1) = attach first1 capacity (vb_networkToVfs b1); b2 = b1\<lparr>vb_networkToVfs := r1\<rparr>
           in if \<not> ok1 then (False, b2)
              else let (r2, ok2) = attach second1 capacity (vb_vfsToNetwork b2) in (ok2, b2\<lparr>vb_vfsToNetwork := r2\<rparr>))"

text \<open>\<open>exchange\<close> and the queues are what \<open>heap_caps_calloc\<close> and \<open>xQueueCreate\<close> return.\<close>

definition bridge_begin :: "bool \<Rightarrow> 'q option \<Rightarrow> 'q option \<Rightarrow> (bool \<Rightarrow> bool \<Rightarrow> nat \<Rightarrow> bytes option) \<Rightarrow> bool \<Rightarrow> bool \<Rightarrow>
    ('t, 'q) vfs_bridge \<Rightarrow> bool \<times> ('t, 'q) vfs_bridge" where
  "bridge_begin exchange requests responses malloc memory psramAvailable b =
     (if vb_ready b then (True, b)
      else
        let b1 = (if exchange then b\<lparr>vb_request := zero_request, vb_result := zero_result\<rparr> else b);
            b2 = (case requests of None \<Rightarrow> b1 | Some q \<Rightarrow> b1\<lparr>vb_requestQueue := q\<rparr>);
            b3 = (case responses of None \<Rightarrow> b2 | Some q \<Rightarrow> b2\<lparr>vb_responseQueue := q\<rparr>)
        in if \<not> exchange \<or> requests = None \<or> responses = None then (False, b3)
           else
             let (ok, b4) = allocateRings malloc psramAvailable b3
             in if \<not> ok then (False, b4)
                else (True, b4\<lparr>vb_vfs := beginFatCache memory psramAvailable (vb_vfs b4), vb_ready := True\<rparr>))"

subsection \<open>Core 0\<close>

definition post_request :: "'q token_queue \<Rightarrow> u32 \<Rightarrow> ('t, 'q) vfs_bridge \<Rightarrow> bool \<times> ('t, 'q) vfs_bridge" where
  "post_request qu nowMs b =
     (let (ok, q) = qu_send qu 1 (vb_requestQueue b); b1 = b\<lparr>vb_requestQueue := q\<rparr>
      in if \<not> ok then (False, b1)
         else (True, b1\<lparr>vb_pendingOperation := rq_operation (vb_request b1), vb_pendingSinceMs := nowMs,
                vb_requestPending := True\<rparr>))"

definition submit :: "'q token_queue \<Rightarrow> u32 \<Rightarrow> VfsOperation \<Rightarrow> bytes option \<Rightarrow> u32 \<Rightarrow> ('t, 'q) vfs_bridge \<Rightarrow>
    bool \<times> ('t, 'q) vfs_bridge" where
  "submit qu nowMs operation path val b =
     (if \<not> vb_ready b \<or> vb_requestPending b then (False, b)
      else
        let rq = \<lparr>rq_operation = operation, rq_value = val, rq_offset = 0, rq_flags = 0, rq_metadata = zero_metadata,
              rq_path = [], rq_path2 = []\<rparr>
        in case path of
             None \<Rightarrow> post_request qu nowMs (b\<lparr>vb_request := rq\<rparr>)
           | Some p \<Rightarrow>
               if length p \<ge> 256 then (False, b\<lparr>vb_request := rq\<rparr>)
               else post_request qu nowMs (b\<lparr>vb_request := rq\<lparr>rq_path := p\<rparr>\<rparr>))"

definition submitAt :: "'q token_queue \<Rightarrow> u32 \<Rightarrow> VfsOperation \<Rightarrow> u32 \<Rightarrow> u32 \<Rightarrow> ('t, 'q) vfs_bridge \<Rightarrow>
    bool \<times> ('t, 'q) vfs_bridge" where
  "submitAt qu nowMs operation offset len b =
     (if \<not> vb_ready b \<or> vb_requestPending b \<or>
         (operation \<noteq> kReadAt \<and> operation \<noteq> kWriteAt \<and> operation \<noteq> kNoteResize) then (False, b)
      else post_request qu nowMs (b\<lparr>vb_request := \<lparr>rq_operation = operation, rq_value = len, rq_offset = offset,
             rq_flags = 0, rq_metadata = zero_metadata, rq_path = [], rq_path2 = []\<rparr>\<rparr>))"

definition submitRename :: "'q token_queue \<Rightarrow> u32 \<Rightarrow> bytes option \<Rightarrow> bytes option \<Rightarrow> bool \<Rightarrow> ('t, 'q) vfs_bridge \<Rightarrow>
    bool \<times> ('t, 'q) vfs_bridge" where
  "submitRename qu nowMs oldPath newName directory b =
     (case (oldPath, newName) of
        (Some p, Some q) \<Rightarrow>
          if \<not> vb_ready b \<or> vb_requestPending b \<or> length p \<ge> 256 \<or> length q \<ge> 256 then (False, b)
          else post_request qu nowMs (b\<lparr>vb_request := \<lparr>rq_operation = kRename, rq_value = (if directory then 1 else 0),
                 rq_offset = 0, rq_flags = 0, rq_metadata = zero_metadata, rq_path = p, rq_path2 = q\<rparr>\<rparr>)
      | _ \<Rightarrow> (False, b))"

definition submitMoveRename :: "'q token_queue \<Rightarrow> u32 \<Rightarrow> bytes option \<Rightarrow> bytes option \<Rightarrow> bool \<Rightarrow> bool \<Rightarrow>
    ('t, 'q) vfs_bridge \<Rightarrow> bool \<times> ('t, 'q) vfs_bridge" where
  "submitMoveRename qu nowMs oldPath newPath directory replace b =
     (case (oldPath, newPath) of
        (Some p, Some q) \<Rightarrow>
          if \<not> vb_ready b \<or> vb_requestPending b \<or> length p \<ge> 256 \<or> length q \<ge> 256 then (False, b)
          else post_request qu nowMs (b\<lparr>vb_request := \<lparr>rq_operation = kMoveRename, rq_value = 0, rq_offset = 0,
                 rq_flags = (if directory then 1 else 0) OR (if replace then 2 else 0),
                 rq_metadata = zero_metadata, rq_path = p, rq_path2 = q\<rparr>\<rparr>)
      | _ \<Rightarrow> (False, b))"

definition submitMetadata :: "'q token_queue \<Rightarrow> u32 \<Rightarrow> vfs_metadata \<Rightarrow> ('t, 'q) vfs_bridge \<Rightarrow>
    bool \<times> ('t, 'q) vfs_bridge" where
  "submitMetadata qu nowMs metadata b =
     (if \<not> vb_ready b \<or> vb_requestPending b then (False, b)
      else post_request qu nowMs (b\<lparr>vb_request := \<lparr>rq_operation = kSetMetadata, rq_value = 0, rq_offset = 0,
             rq_flags = 0, rq_metadata = metadata, rq_path = [], rq_path2 = []\<rparr>\<rparr>))"

definition takeResult :: "'q token_queue \<Rightarrow> ('t, 'q) vfs_bridge \<Rightarrow> vfs_result option \<times> ('t, 'q) vfs_bridge" where
  "takeResult qu b =
     (if \<not> vb_ready b \<or> \<not> vb_requestPending b then (None, b)
      else
        let (token, q) = qu_receive qu (vb_responseQueue b); b1 = b\<lparr>vb_responseQueue := q\<rparr>
        in case token of None \<Rightarrow> (None, b1)
           | Some v \<Rightarrow> (Some (vb_result b1), b1\<lparr>vb_requestPending := False\<rparr>))"

text \<open>
  \<open>reclaim\<close> waits for the result of an abandoned exchange. The clock and what the other core
  does during a pause are functions of the world \<open>'w\<close>.
\<close>

partial_function (option) reclaim_loop ::
    "'q token_queue \<Rightarrow> ('w \<Rightarrow> u32 \<times> 'w) \<Rightarrow> ('w \<Rightarrow> ('t, 'q) vfs_bridge \<Rightarrow> 'w \<times> ('t, 'q) vfs_bridge) \<Rightarrow> u32 \<Rightarrow> u32 \<Rightarrow>
     'w \<Rightarrow> ('t, 'q) vfs_bridge \<Rightarrow> (bool \<times> 'w \<times> ('t, 'q) vfs_bridge) option" where
  "reclaim_loop qu clock pause started timeoutMs w b =
     (case takeResult qu b of
        (Some discarded, b1) \<Rightarrow> Some (True, w, b1)
      | (None, b1) \<Rightarrow>
          let (now, w1) = clock w
          in if now - started \<ge> timeoutMs then Some (False, w1, b1)
             else let (w2, b2) = pause w1 b1 in reclaim_loop qu clock pause started timeoutMs w2 b2)"

definition reclaim :: "'q token_queue \<Rightarrow> ('w \<Rightarrow> u32 \<times> 'w) \<Rightarrow> ('w \<Rightarrow> ('t, 'q) vfs_bridge \<Rightarrow> 'w \<times> ('t, 'q) vfs_bridge) \<Rightarrow>
    u32 \<Rightarrow> 'w \<Rightarrow> ('t, 'q) vfs_bridge \<Rightarrow> (bool \<times> 'w \<times> ('t, 'q) vfs_bridge) option" where
  "reclaim qu clock pause timeoutMs w b =
     (if \<not> vb_ready b \<or> \<not> vb_requestPending b then Some (True, w, b)
      else let (started, w1) = clock w in reclaim_loop qu clock pause started timeoutMs w1 b)"

definition writeFromNetwork :: "bytes \<Rightarrow> ('t, 'q) vfs_bridge \<Rightarrow> nat \<times> ('t, 'q) vfs_bridge" where
  "writeFromNetwork data b =
     (let (r, n) = ring_write (Some data) (length data) (vb_networkToVfs b) in (n, b\<lparr>vb_networkToVfs := r\<rparr>))"

definition readForNetwork :: "nat \<Rightarrow> ('t, 'q) vfs_bridge \<Rightarrow> bytes \<times> ('t, 'q) vfs_bridge" where
  "readForNetwork capacity b =
     (let (r, d) = ring_read True capacity (vb_vfsToNetwork b) in (d, b\<lparr>vb_vfsToNetwork := r\<rparr>))"


subsection \<open>Core 1\<close>

text \<open>\<open>finish\<close>: \<open>error\<close> is \<open>None\<close> for the null pointer.\<close>

definition finish :: "bool \<Rightarrow> string option \<Rightarrow> ('t, 'q) vfs_bridge \<Rightarrow> ('t, 'q) vfs_bridge" where
  "finish success error b =
     b\<lparr>vb_result := (vb_result b)\<lparr>rs_success := success,
         rs_status := (if error = None then vc_lastStatus (vb_vfs b) else 0xFF),
         rs_error := (if success then ''none''
                      else take 63 (case error of None \<Rightarrow> vc_lastError (vb_vfs b) | Some e \<Rightarrow> e))\<rparr>\<rparr>"

definition writeNetworkWindow :: "ring \<Rightarrow> bytes \<Rightarrow> bool \<times> ring" where
  "writeNetworkWindow r data = (let (r1, n) = ring_write (Some data) (length data) r in (n = length data, r1))"

definition readNetworkWindow :: "ring \<Rightarrow> nat \<Rightarrow> nat \<Rightarrow> bytes \<times> ring" where
  "readNetworkWindow r offset capacity = (ring_peekAt offset True capacity r, r)"

definition max_window :: "('t, 'q) vfs_bridge \<Rightarrow> nat" where
  "max_window b = (if vc_openMode (vb_vfs b) = 3 then kFilexTransferWindowSize else kTransferWindowSize)"

definition processRead :: "'t transport \<Rightarrow> ('t, 'q) vfs_bridge \<Rightarrow> ('t, 'q) vfs_bridge option" where
  "processRead tr b =
     (let room = ring_freeSpace (vb_vfsToNetwork b);
          pumpLimit = (if rq_operation (vb_request b) = kReadAt then max_window b else kMaxPumpPerRequest);
          wanted = minimum (minimum (unat (rq_value (vb_request b))) pumpLimit) room
      in if wanted = 0
         then Some (finish True None (b\<lparr>vb_result := (vb_result b)\<lparr>rs_wouldBlock := (room = 0)\<rparr>\<rparr>))
         else Option.bind (readFileWindow tr wanted (Some writeNetworkWindow) (vb_vfsToNetwork b) (vb_vfs b))
           (\<lambda>(ok, received, r, s).
             let b1 = b\<lparr>vb_vfs := s, vb_vfsToNetwork := r\<rparr>
             in if \<not> ok then Some (finish False None b1)
                else Some (finish True None (b1\<lparr>vb_result := (vb_result b1)\<lparr>rs_transferred := of_nat received,
                       rs_atEnd := (received = 0)\<rparr>\<rparr>))))"

text \<open>
  The loop over the windows of a write. A window is at least one byte, since the pump limit
  is positive, so the loop is a recursion on what is left.
\<close>

function write_windows :: "'t transport \<Rightarrow> nat \<Rightarrow> nat \<Rightarrow> nat \<Rightarrow> ('t, 'q) vfs_bridge \<Rightarrow> ('t, 'q) vfs_bridge option" where
  "write_windows tr pumpLimit requested transferred b =
     (if transferred \<ge> requested \<or> pumpLimit = 0 then Some (finish True None b)
      else
        let window = minimum (requested - transferred) pumpLimit
        in Option.bind (writeFileWindow tr window (Some readNetworkWindow) (vb_networkToVfs b) (vb_vfs b))
           (\<lambda>(ok, r, s).
             let b1 = b\<lparr>vb_vfs := s, vb_networkToVfs := r\<rparr>;
                 note = (\<lambda>n b. b\<lparr>vb_result := (vb_result b)\<lparr>rs_transferred := of_nat n\<rparr>\<rparr>)
             in if \<not> ok then Some (finish False None (note transferred b1))
                else
                  let (r2, n) = ring_discard window (vb_networkToVfs b1); b2 = b1\<lparr>vb_networkToVfs := r2\<rparr>
                  in if n \<noteq> window then Some (finish False (Some ''ingress-race'') (note transferred b2))
                     else write_windows tr pumpLimit requested (transferred + window) (note (transferred + window) b2)))"
  by pat_completeness auto
termination
  by (relation "measure (\<lambda>(tr, pumpLimit, requested, transferred, b). requested - transferred)")
    (auto simp: minimum_def)

declare write_windows.simps [simp del]

definition processWrite :: "'t transport \<Rightarrow> ('t, 'q) vfs_bridge \<Rightarrow> ('t, 'q) vfs_bridge option" where
  "processWrite tr b =
     (let pumpLimit = (if rq_operation (vb_request b) = kWriteAt then max_window b else kMaxPumpPerRequest);
          requested = minimum (unat (rq_value (vb_request b))) (ring_available (vb_networkToVfs b))
      in if requested = 0
         then Some (finish True None (b\<lparr>vb_result := (vb_result b)\<lparr>rs_wouldBlock :=
                (ring_available (vb_networkToVfs b) = 0)\<rparr>\<rparr>))
         else write_windows tr pumpLimit requested 0 b)"

definition copyDates :: "vfs_entry \<Rightarrow> vfs_result \<Rightarrow> vfs_result" where
  "copyDates e r = r\<lparr>rs_writeDate := ve_writeDate e, rs_writeTime := ve_writeTime e, rs_hasMetadata := ve_hasMetadata e,
     rs_attributes := ve_attributes e, rs_createTenth := ve_createTenth e, rs_createTime := ve_createTime e,
     rs_createDate := ve_createDate e, rs_accessDate := ve_accessDate e\<rparr>"

text \<open>An operation of the client that answers with success only, and the reply to it.\<close>

definition reply :: "(bool \<times> 't vfs_client) option \<Rightarrow> (bool \<Rightarrow> ('t, 'q) vfs_bridge \<Rightarrow> ('t, 'q) vfs_bridge) \<Rightarrow>
    ('t, 'q) vfs_bridge \<Rightarrow> ('t, 'q) vfs_bridge option" where
  "reply answer after b = Option.bind answer (\<lambda>(ok, s). Some (finish ok None (after ok (b\<lparr>vb_vfs := s\<rparr>))))"

definition keep :: "bool \<Rightarrow> ('t, 'q) vfs_bridge \<Rightarrow> ('t, 'q) vfs_bridge" where
  "keep ok b = b"

definition session :: "bool \<Rightarrow> ('t, 'q) vfs_bridge \<Rightarrow> ('t, 'q) vfs_bridge" where
  "session ok b = b\<lparr>vb_writeSession := ok\<rparr>"

definition set_entry :: "vfs_entry \<Rightarrow> ('t, 'q) vfs_bridge \<Rightarrow> ('t, 'q) vfs_bridge" where
  "set_entry e b = b\<lparr>vb_result := copyDates e ((vb_result b)\<lparr>rs_isDirectory := ve_isDirectory e, rs_size := ve_size e\<rparr>)\<rparr>"

definition c_string :: "nat \<Rightarrow> bytes \<Rightarrow> bytes" where
  "c_string n d = take (n - 1) (takeWhile (\<lambda>c. c \<noteq> 0) d)"

definition process_seek :: "'t transport \<Rightarrow> ('t transport \<Rightarrow> ('t, 'q) vfs_bridge \<Rightarrow> ('t, 'q) vfs_bridge option) \<Rightarrow>
    ('t, 'q) vfs_bridge \<Rightarrow> ('t, 'q) vfs_bridge option" where
  "process_seek tr work b =
     (if vc_openMode (vb_vfs b) = 3
      then Option.bind (seekFile tr (rq_offset (vb_request b)) (vb_vfs b)) (\<lambda>(ok, s).
             let b1 = b\<lparr>vb_vfs := s\<rparr> in if ok then work tr b1 else Some (finish False None b1))
      else work tr b)"

definition processCore1 :: "'t transport \<Rightarrow> (nat \<Rightarrow> bool) \<Rightarrow> ('t, 'q) vfs_bridge \<Rightarrow> ('t, 'q) vfs_bridge option" where
  "processCore1 tr heap b0 =
     (let b = b0\<lparr>vb_result := zero_result\<rparr>; rq = vb_request b; s = vb_vfs b; path = Some (rq_path rq)
      in case rq_operation rq of
           kResetBuffers \<Rightarrow> Some (finish True None (b\<lparr>vb_networkToVfs := ring_reset (vb_networkToVfs b),
               vb_vfsToNetwork := ring_reset (vb_vfsToNetwork b)\<rparr>))
         | kStat \<Rightarrow> Option.bind (vc_stat tr path VfsEntry_init s) (\<lambda>(ok, e, s1).
             let b1 = b\<lparr>vb_vfs := s1\<rparr> in Some (finish ok None (if ok then set_entry e b1 else b1)))
         | kOpenDirectory \<Rightarrow> reply (vc_openDirectory tr path s) keep b
         | kReadDirectory \<Rightarrow> Option.bind (vc_readDirectory tr VfsEntry_init s) (\<lambda>(ok, e, atEnd, s1).
             let b1 = b\<lparr>vb_vfs := s1\<rparr>
             in if \<not> ok then Some (finish False None b1)
                else
                  let b2 = set_entry e (b1\<lparr>vb_result := (vb_result b1)\<lparr>rs_atEnd := atEnd\<rparr>\<rparr>)
                  in Some (finish True None
                       (if atEnd then b2 else b2\<lparr>vb_result := (vb_result b2)\<lparr>rs_name := c_string 256 (ve_name e)\<rparr>\<rparr>)))
         | kOpenRead \<Rightarrow> reply (vc_openFile tr path False s) (\<lambda>ok b. if ok then b\<lparr>vb_writeSession := False\<rparr> else b) b
         | kOpenWrite \<Rightarrow> reply (vc_openFile tr path True s) session b
         | kOpenAppend \<Rightarrow> reply (openFileAppend tr path s) session b
         | kOpenRandom \<Rightarrow> reply (openFileRandom tr path s) session b
         | kRead \<Rightarrow> processRead tr b
         | kWrite \<Rightarrow> processWrite tr b
         | kReadAt \<Rightarrow> process_seek tr processRead b
         | kWriteAt \<Rightarrow> process_seek tr processWrite b
         | kExtend \<Rightarrow> reply (extendFile tr (rq_value rq) s)
             (\<lambda>ok b. if ok then b\<lparr>vb_result := (vb_result b)\<lparr>rs_transferred := rq_value rq\<rparr>\<rparr> else b) b
         | kSetEof \<Rightarrow> Option.bind (setFileSize tr (rq_value rq) s) (\<lambda>(ok, actual, s1).
             let b1 = b\<lparr>vb_vfs := s1\<rparr>
             in Some (finish ok None (if ok then b1\<lparr>vb_result := (vb_result b1)\<lparr>rs_size := actual\<rparr>\<rparr> else b1)))
         | kGetFsInfo \<Rightarrow> Option.bind (getFsInfo tr heap (rq_value rq = 1) (rq_value rq = 2) (rs_fsInfo (vb_result b)) s)
             (\<lambda>(ok, info, s1). Some (finish ok None
                (b\<lparr>vb_vfs := s1, vb_result := (vb_result b)\<lparr>rs_fsInfo := info\<rparr>\<rparr>)))
         | kNoteResize \<Rightarrow> Some (finish True None (b\<lparr>vb_vfs := noteFileResized (rq_offset rq) (rq_value rq) s\<rparr>))
         | kInvalidateFsInfo \<Rightarrow> Some (finish True None (b\<lparr>vb_vfs := invalidateFsCache s\<rparr>))
         | kCloseCommit \<Rightarrow>
             if vb_writeSession b \<and> ring_available (vb_networkToVfs b) \<noteq> 0
             then Some (finish False (Some ''ingress-pending'') b)
             else reply (closeFile tr True s) (\<lambda>ok b. b\<lparr>vb_writeSession := False\<rparr>) b
         | kCloseAbort \<Rightarrow> reply (closeFile tr False s)
             (\<lambda>ok b. b\<lparr>vb_writeSession := False, vb_networkToVfs := ring_reset (vb_networkToVfs b)\<rparr>) b
         | kDelete \<Rightarrow> reply (vc_remove tr path s) keep b
         | kMkdir \<Rightarrow> reply (makeDirectory tr path s) keep b
         | kRename \<Rightarrow> reply (vc_rename tr path (Some (rq_path2 rq)) (rq_value rq \<noteq> 0) s) keep b
         | kMoveRename \<Rightarrow> reply (moveRename tr path (Some (rq_path2 rq)) (rq_flags rq AND 1 \<noteq> 0) (rq_flags rq AND 2 \<noteq> 0) s) keep b
         | kSetMetadata \<Rightarrow> Option.bind (setMetadata tr (rq_metadata rq) s) (\<lambda>(ok, applied, s1).
             let b1 = b\<lparr>vb_vfs := s1\<rparr>
             in Some (finish ok None (case applied of None \<Rightarrow> b1
                  | Some a \<Rightarrow> b1\<lparr>vb_result := (vb_result b1)\<lparr>rs_appliedAttributes := a\<rparr>\<rparr>))))"

definition pollCore1 :: "'q token_queue \<Rightarrow> 't transport \<Rightarrow> (nat \<Rightarrow> bool) \<Rightarrow> ('t, 'q) vfs_bridge \<Rightarrow> ('t, 'q) vfs_bridge option" where
  "pollCore1 qu tr heap b =
     (if \<not> vb_ready b then Some b
      else
        let (token, q) = qu_receive qu (vb_requestQueue b); b1 = b\<lparr>vb_requestQueue := q\<rparr>
        in case token of None \<Rightarrow> Some b1
           | Some v \<Rightarrow> map_option (\<lambda>b2. b2\<lparr>vb_responseQueue := qu_overwrite qu v (vb_responseQueue b2)\<rparr>)
                         (processCore1 tr heap b1))"

end
