(* ===== verification/BridgeFlow.thy ===== *)
theory BridgeFlow
  imports VfsBridge
begin

text \<open>
  What the bridge of \<open>src/vfs_bridge.cpp\<close> guarantees: the two cores take turns on the shared
  exchange block, every result belongs to the request before it, and the pumps between the
  byte rings and the file move exactly the bytes they report.
\<close>

subsection \<open>The pumps\<close>

lemma minimum_min [simp]: "minimum a b = min a b"
  by (simp add: minimum_def)

lemma ring_sink_all:
  "sink_all writeNetworkWindow r ps = (True, r') \<Longrightarrow> ring_inv r \<Longrightarrow>
   ring_inv r' \<and> ring_contents r' = ring_contents r @ concat ps \<and> ring_cap r' = ring_cap r"
proof (induction ps arbitrary: r)
  case Nil
  then show ?case by simp
next
  case (Cons p ps)
  obtain r1 n where k: "ring_write (Some p) (length p) r = (r1, n)" by (cases "ring_write (Some p) (length p) r")
  note w = ring_write_spec [OF Cons.prems(2) order_refl, of p, unfolded k fst_conv snd_conv]
  have s: "writeNetworkWindow r p = (n = length p, r1)" by (simp add: writeNetworkWindow_def k)
  from Cons.prems(1) have n: "n = length p" "sink_all writeNetworkWindow r1 ps = (True, r')"
    by (simp_all add: s split: bool.splits)
  from Cons.IH [OF n(2) w(3)] n(1) w(1,2,4) show ?case by simp
qed








subsection \<open>Taking turns\<close>

text \<open>The part of the bridge that core 1 does not touch while it works on a request.\<close>

definition border :: "('t, 'q) vfs_bridge \<Rightarrow> vfs_request \<times> 'q \<times> 'q \<times> bool \<times> bool" where
  "border b = (vb_request b, vb_requestQueue b, vb_responseQueue b, vb_ready b, vb_requestPending b)"

lemma border_update [simp]:
  "border (b\<lparr>vb_vfs := s\<rparr>) = border b" "border (b\<lparr>vb_result := r\<rparr>) = border b"
  "border (b\<lparr>vb_networkToVfs := g\<rparr>) = border b" "border (b\<lparr>vb_vfsToNetwork := g\<rparr>) = border b"
  "border (b\<lparr>vb_writeSession := w\<rparr>) = border b" "border (finish ok e b) = border b"
  "border (set_entry x b) = border b"
  by (simp_all add: border_def finish_def set_entry_def)

lemma border_processRead: "processRead tr b = Some b' \<Longrightarrow> border b' = border b"
  by (auto simp: processRead_def Let_def bind_eq_Some_conv split: if_splits)

lemma border_write_windows: "write_windows tr lim n m b = Some b' \<Longrightarrow> border b' = border b"
proof (induction "n - m" arbitrary: m b rule: less_induct)
  case less
  note unf = write_windows.simps [of tr lim n m b]
  show ?case
  proof (cases "n \<le> m \<or> lim = 0")
    case True
    then show ?thesis using less.prems unf by auto
  next
    case False
    define w where "w = min (n - m) lim"
    have w: "n - (m + w) < n - m" using False by (auto simp: w_def)
    note unf = unf [unfolded Let_def minimum_min w_def [symmetric]]
    obtain ok r s where wr: "writeFileWindow tr w (Some readNetworkWindow) (vb_networkToVfs b) (vb_vfs b) = Some (ok, r, s)"
      using less.prems False unf by (auto simp: bind_eq_Some_conv)
    obtain r2 k where d: "ring_discard w r = (r2, k)" by (cases "ring_discard w r")
    show ?thesis
    proof (cases "ok \<and> k = w")
      case True
      let ?b = "b\<lparr>vb_vfs := s, vb_networkToVfs := r2, vb_result := (vb_result b)\<lparr>rs_transferred := of_nat (m + w)\<rparr>\<rparr>"
      have "write_windows tr lim n (m + w) ?b = Some b'" using less.prems False unf wr d True by simp
      from less.hyps [OF w this] show ?thesis by simp
    next
      case no: False
      then show ?thesis using less.prems False unf wr d by (auto split: if_splits)
    qed
  qed
qed

lemma border_processWrite: "processWrite tr b = Some b' \<Longrightarrow> border b' = border b"
  by (auto simp: processWrite_def Let_def dest: border_write_windows split: if_splits)

lemma border_reply: "reply answer after b = Some b' \<Longrightarrow> (\<And>ok b. border (after ok b) = border b) \<Longrightarrow> border b' = border b"
  by (auto simp: reply_def bind_eq_Some_conv)

lemma border_seek:
  "process_seek tr work b = Some b' \<Longrightarrow> (\<And>b b'. work tr b = Some b' \<Longrightarrow> border b' = border b) \<Longrightarrow> border b' = border b"
  by (fastforce simp: process_seek_def Let_def bind_eq_Some_conv split: if_splits)

lemma processCore1_border:
  assumes "processCore1 tr heap b = Some b'"
  shows "border b' = border b"
proof (cases "rq_operation (vb_request b)")
  case kReadAt
  with assms show ?thesis by (auto simp: processCore1_def Let_def dest!: border_seek [OF _ border_processRead])
next
  case kWriteAt
  with assms show ?thesis by (auto simp: processCore1_def Let_def dest!: border_seek [OF _ border_processWrite])
qed (use assms in \<open>auto simp: processCore1_def Let_def bind_eq_Some_conv keep_def session_def
      dest!: border_processRead border_processWrite border_reply split: if_splits option.splits\<close>)


text \<open>
  A queue of one token as FreeRTOS documents it: sending to an empty queue stores the token and
  fails on a full one, receiving takes it, overwriting replaces it. \<open>content\<close> reads the queue.
\<close>

definition mailbox :: "'q token_queue \<Rightarrow> ('q \<Rightarrow> u8 option) \<Rightarrow> bool" where
  "mailbox qu content \<longleftrightarrow>
     (\<forall>v q. content q = None \<longrightarrow> fst (qu_send qu v q) \<and> content (snd (qu_send qu v q)) = Some v) \<and>
     (\<forall>v q. content q \<noteq> None \<longrightarrow> qu_send qu v q = (False, q)) \<and>
     (\<forall>q. fst (qu_receive qu q) = content q \<and> content (snd (qu_receive qu q)) = None) \<and>
     (\<forall>v q. content (qu_overwrite qu v q) = Some v)"

lemma mailboxD:
  assumes "mailbox qu content"
  shows "content q = None \<Longrightarrow> qu_send qu v q = (ok, q') \<Longrightarrow> ok \<and> content q' = Some v"
    and "content q \<noteq> None \<Longrightarrow> qu_send qu v q = (False, q)"
    and "qu_receive qu q = (x, q') \<Longrightarrow> x = content q \<and> content q' = None"
    and "content (qu_overwrite qu v q) = Some v"
  using assms by (simp_all add: mailbox_def) (metis fst_conv snd_conv)+

text \<open>
  The two cores interleaved. Core 1 is either waiting for a token or, after taking one, at work
  on the request; \<open>pollCore1\<close> is its two steps in a row.
\<close>

datatype bridge_event = Submitted vfs_request | Processed vfs_request vfs_result | Taken vfs_result | Quiet

definition accepted :: "bool \<times> ('t, 'q) vfs_bridge \<Rightarrow> bridge_event" where
  "accepted r = (if fst r then Submitted (vb_request (snd r)) else Quiet)"

definition taken :: "vfs_result option \<Rightarrow> bridge_event" where
  "taken r = (case r of None \<Rightarrow> Quiet | Some x \<Rightarrow> Taken x)"

inductive bridge_step :: "'q token_queue \<Rightarrow> 't transport \<Rightarrow> (nat \<Rightarrow> bool) \<Rightarrow> ('t, 'q) vfs_bridge \<times> bool \<Rightarrow> bridge_event \<Rightarrow>
    ('t, 'q) vfs_bridge \<times> bool \<Rightarrow> bool" for qu tr heap where
  submit: "submit qu now op path v b = r \<Longrightarrow> bridge_step qu tr heap (b, working) (accepted r) (snd r, working)"
| submit_at: "submitAt qu now op offset len b = r \<Longrightarrow>
    bridge_step qu tr heap (b, working) (accepted r) (snd r, working)"
| submit_rename: "submitRename qu now path name directory b = r \<Longrightarrow>
    bridge_step qu tr heap (b, working) (accepted r) (snd r, working)"
| submit_move: "submitMoveRename qu now path name directory replace b = r \<Longrightarrow>
    bridge_step qu tr heap (b, working) (accepted r) (snd r, working)"
| submit_metadata: "submitMetadata qu now metadata b = r \<Longrightarrow>
    bridge_step qu tr heap (b, working) (accepted r) (snd r, working)"
| take_result: "takeResult qu b = (r, b') \<Longrightarrow> bridge_step qu tr heap (b, working) (taken r) (b', working)"
| network_write: "bridge_step qu tr heap (b, working) Quiet (snd (writeFromNetwork data b), working)"
| network_read: "bridge_step qu tr heap (b, working) Quiet (snd (readForNetwork capacity b), working)"
| receive: "vb_ready b \<Longrightarrow> qu_receive qu (vb_requestQueue b) = (Some v, q) \<Longrightarrow>
    bridge_step qu tr heap (b, False) Quiet (b\<lparr>vb_requestQueue := q\<rparr>, True)"
| answer: "processCore1 tr heap b = Some b' \<Longrightarrow>
    bridge_step qu tr heap (b, True) (Processed (vb_request b) (vb_result b'))
      (b'\<lparr>vb_responseQueue := qu_overwrite qu v (vb_responseQueue b')\<rparr>, False)"

inductive bridge_run :: "'q token_queue \<Rightarrow> 't transport \<Rightarrow> (nat \<Rightarrow> bool) \<Rightarrow> ('t, 'q) vfs_bridge \<times> bool \<Rightarrow> bridge_event list \<Rightarrow>
    ('t, 'q) vfs_bridge \<times> bool \<Rightarrow> bool" for qu tr heap where
  run_nil: "bridge_run qu tr heap x [] x"
| run_cons: "bridge_step qu tr heap x e y \<Longrightarrow> bridge_run qu tr heap y es z \<Longrightarrow> bridge_run qu tr heap x (e # es) z"

inductive_cases bridge_runE: "bridge_run qu tr heap x es y"

text \<open>Where the exchange stands after a sequence of events, if the events take turns.\<close>

datatype turn = Free | Posted vfs_request | Answered vfs_result

fun next_turn :: "turn \<Rightarrow> bridge_event \<Rightarrow> turn option" where
  "next_turn t Quiet = Some t"
| "next_turn Free (Submitted rq) = Some (Posted rq)"
| "next_turn (Posted rq) (Processed rq' r) = (if rq = rq' then Some (Answered r) else None)"
| "next_turn (Answered r) (Taken r') = (if r = r' then Some Free else None)"
| "next_turn _ _ = None"

fun follow :: "turn \<Rightarrow> bridge_event list \<Rightarrow> turn option" where
  "follow t [] = Some t"
| "follow t (e # es) = Option.bind (next_turn t e) (\<lambda>t'. follow t' es)"

fun at_turn :: "('q \<Rightarrow> u8 option) \<Rightarrow> turn \<Rightarrow> ('t, 'q) vfs_bridge \<times> bool \<Rightarrow> bool" where
  "at_turn content Free (b, working) \<longleftrightarrow> vb_ready b \<and> \<not> vb_requestPending b \<and> \<not> working \<and>
     content (vb_requestQueue b) = None \<and> content (vb_responseQueue b) = None"
| "at_turn content (Posted rq) (b, working) \<longleftrightarrow> vb_ready b \<and> vb_requestPending b \<and> vb_request b = rq \<and>
     (content (vb_requestQueue b) = None \<longleftrightarrow> working) \<and> content (vb_responseQueue b) = None"
| "at_turn content (Answered r) (b, working) \<longleftrightarrow> vb_ready b \<and> vb_requestPending b \<and> vb_result b = r \<and> \<not> working \<and>
     content (vb_requestQueue b) = None \<and> content (vb_responseQueue b) \<noteq> None"

lemma submit_refused:
  assumes "vb_requestPending b"
  shows "submit qu now op path v b = (False, b)" "submitAt qu now op offset len b = (False, b)"
    "submitRename qu now path0 name directory b = (False, b)"
    "submitMoveRename qu now path0 name directory replace b = (False, b)" "submitMetadata qu now metadata b = (False, b)"
  using assms by (simp_all add: submit_def submitAt_def submitRename_def submitMoveRename_def submitMetadata_def
      split: option.split)

text \<open>What every kind of submission does from a free exchange.\<close>

definition posts :: "('q \<Rightarrow> u8 option) \<Rightarrow> ('t, 'q) vfs_bridge \<Rightarrow> bool \<times> ('t, 'q) vfs_bridge \<Rightarrow> bool" where
  "posts content b r \<longleftrightarrow> vb_ready (snd r) \<and> vb_responseQueue (snd r) = vb_responseQueue b \<and>
     (if fst r then vb_requestPending (snd r) \<and> content (vb_requestQueue (snd r)) \<noteq> None
      else \<not> vb_requestPending (snd r) \<and> vb_requestQueue (snd r) = vb_requestQueue b)"

lemma post_request_posts:
  assumes "mailbox qu content" "at_turn content Free (b, False)"
  shows "posts content b (post_request qu now (b\<lparr>vb_request := rq\<rparr>))"
  using assms(2) mailboxD(1) [OF assms(1), of "vb_requestQueue b" 1]
  by (cases "qu_send qu 1 (vb_requestQueue b)") (auto simp: post_request_def posts_def)

lemma submit_posts:
  assumes "mailbox qu content" "at_turn content Free (b, False)"
  shows "posts content b (submit qu now op path v b)" "posts content b (submitAt qu now op offset len b)"
    "posts content b (submitRename qu now path0 name directory b)"
    "posts content b (submitMoveRename qu now path0 name directory replace b)"
    "posts content b (submitMetadata qu now metadata b)"
  using assms(2) post_request_posts [OF assms]
  by (auto simp: submit_def submitAt_def submitRename_def submitMoveRename_def submitMetadata_def Let_def
      split: option.split) (auto simp: posts_def)

lemma posts_turn:
  assumes "posts content b r" "at_turn content Free (b, False)"
  shows "\<exists>t. next_turn Free (accepted r) = Some t \<and> at_turn content t (snd r, False)"
  using assms by (cases "fst r") (auto simp: posts_def accepted_def)


lemma submission_turn:
  assumes "at_turn content t (b, working)" "t = Free \<Longrightarrow> posts content b r" "vb_requestPending b \<Longrightarrow> r = (False, b)"
  shows "\<exists>t'. next_turn t (accepted r) = Some t' \<and> at_turn content t' (snd r, working)"
proof (cases t)
  case Free
  with assms posts_turn [OF assms(2)] show ?thesis by simp
qed (use assms in \<open>simp_all add: accepted_def\<close>)

lemma step_turn:
  assumes "mailbox qu content" "bridge_step qu tr heap x e y" "at_turn content t x"
  shows "\<exists>t'. next_turn t e = Some t' \<and> at_turn content t' y"
  using assms(2,3)
proof (cases rule: bridge_step.cases)
  case (submit now op path v b r working)
  with assms(3) show ?thesis
    by (auto intro!: submission_turn submit_posts [OF assms(1)] simp: submit_refused)
next
  case (submit_at now op offset len b r working)
  with assms(3) show ?thesis
    by (auto intro!: submission_turn submit_posts [OF assms(1)] simp: submit_refused)
next
  case (submit_rename now path name directory b r working)
  with assms(3) show ?thesis
    by (auto intro!: submission_turn submit_posts [OF assms(1)] simp: submit_refused)
next
  case (submit_move now path name directory replace b r working)
  with assms(3) show ?thesis
    by (auto intro!: submission_turn submit_posts [OF assms(1)] simp: submit_refused)
next
  case (submit_metadata now metadata b r working)
  with assms(3) show ?thesis
    by (auto intro!: submission_turn submit_posts [OF assms(1)] simp: submit_refused)
next
  case (take_result b r b' working)
  obtain v q where q: "qu_receive qu (vb_responseQueue b) = (v, q)" by (cases "qu_receive qu (vb_responseQueue b)")
  from mailboxD(3) [OF assms(1) q] take_result q assms(3) show ?thesis
    by (cases t) (auto simp: takeResult_def taken_def)
next
  case (network_write b working data)
  with assms(3) show ?thesis by (cases t) (auto simp: writeFromNetwork_def split: prod.split)
next
  case (network_read b working capacity)
  with assms(3) show ?thesis by (cases t) (auto simp: readForNetwork_def split: prod.split)
next
  case (receive b v q)
  with mailboxD(3) [OF assms(1) receive(5)] assms(3) show ?thesis by (cases t) auto
next
  case (answer b b' v)
  with processCore1_border [OF answer(4)] mailboxD(4) [OF assms(1)] assms(3) show ?thesis
    by (cases t) (auto simp: border_def)
qed

lemma run_turn:
  "bridge_run qu tr heap x es y \<Longrightarrow> mailbox qu content \<Longrightarrow> at_turn content t x \<Longrightarrow>
   \<exists>t'. follow t es = Some t' \<and> at_turn content t' y"
proof (induction arbitrary: t rule: bridge_run.induct)
  case (run_cons x e y es z)
  from step_turn [OF run_cons.prems(1) run_cons.hyps(1) run_cons.prems(2)] obtain t1
    where "next_turn t e = Some t1" "at_turn content t1 y" by blast
  with run_cons.IH [OF run_cons.prems(1)] show ?case by auto
qed simp

text \<open>
  C33: The handshake between the cores is safe and does not lose anything. From a bridge that has
  begun and stands idle, however the operations of the network core and the two steps of the
  UART core interleave, the events take turns: a submission, the answer to exactly that request,
  and the pick-up of exactly that answer. At every point the result can be taken exactly when an
  answer stands ready, and while a request is out every further submission is refused and
  changes nothing.
\<close>

theorem bridge_takes_turns:
  assumes "mailbox qu content" "bridge_run qu tr heap (b, False) es (b', working)" "at_turn content Free (b, False)"
  shows "\<exists>t. follow Free es = Some t \<and>
     (\<forall>r. fst (takeResult qu b') = Some r \<longleftrightarrow> t = Answered r) \<and>
     (t \<noteq> Free \<longrightarrow> submit qu now op path v b' = (False, b') \<and> submitAt qu now op offset len b' = (False, b') \<and>
        submitRename qu now path name directory b' = (False, b') \<and>
        submitMoveRename qu now path name directory replace b' = (False, b') \<and>
        submitMetadata qu now metadata b' = (False, b'))"
proof -
  from run_turn [OF assms(2,1,3)] obtain t where t: "follow Free es = Some t" "at_turn content t (b', working)" by blast
  obtain x q where q: "qu_receive qu (vb_responseQueue b') = (x, q)" by (cases "qu_receive qu (vb_responseQueue b')")
  have "fst (takeResult qu b') = Some r \<longleftrightarrow> t = Answered r" for r
    using mailboxD(3) [OF assms(1) q] t(2) q by (cases t) (auto simp: takeResult_def)
  moreover have "t \<noteq> Free \<Longrightarrow> vb_requestPending b'" using t(2) by (cases t) auto
  ultimately show ?thesis using t(1) by (intro exI [of _ t]) (simp add: submit_refused)
qed

definition option_queue :: "u8 option token_queue" where
  "option_queue = \<lparr>qu_send = (\<lambda>v q. case q of None \<Rightarrow> (True, Some v) | Some w \<Rightarrow> (False, q)),
     qu_receive = (\<lambda>q. (q, None)), qu_overwrite = (\<lambda>v q. Some v)\<rparr>"

lemma option_queue_mailbox: "mailbox option_queue (\<lambda>q. q)"
  by (auto simp: mailbox_def option_queue_def)

definition demo_bridge :: "(nat, u8 option) vfs_bridge" where
  "demo_bridge = (VfsBridge_init 0 None)\<lparr>vb_ready := True\<rparr>"

theorem bridge_takes_turns_witness:
  "\<exists>t. follow Free [Submitted (zero_request\<lparr>rq_operation := kInvalidateFsInfo, rq_value := 7\<rparr>)] = Some t \<and> t \<noteq> Free"
proof -
  let ?r = "submit option_queue 0 kInvalidateFsInfo None 7 demo_bridge"
  have r: "accepted ?r = Submitted (zero_request\<lparr>rq_operation := kInvalidateFsInfo, rq_value := 7\<rparr>)"
    by (simp add: accepted_def submit_def post_request_def demo_bridge_def VfsBridge_init_def option_queue_def zero_request_def)
  from run_cons [OF bridge_step.submit [OF refl] run_nil] have
    "bridge_run option_queue tr heap (demo_bridge, False) [accepted ?r] (snd ?r, False)" for tr :: "nat transport" and heap .
  from bridge_takes_turns [OF option_queue_mailbox this, unfolded r] show ?thesis
    by (auto simp: demo_bridge_def VfsBridge_init_def)
qed


subsection \<open>What the pumps report\<close>

lemma zero_result_sel [simp]: "\<not> rs_wouldBlock zero_result" "rs_transferred zero_result = 0" "\<not> rs_atEnd zero_result"
  by (simp_all add: zero_result_def)


text \<open>
  C35: A read request puts into the ring exactly what it reports. When the reply is a success and
  not the end-of-file answer, the ring has grown by exactly the data of one complete and checked
  window and the reply counts it; the ring has room for it, and nothing is read and the reply
  says it would block exactly when the ring was full.
\<close>

theorem read_pump_exact:
  assumes "rq_operation (vb_request b) = kRead" "processCore1 tr heap b = Some b'" "ring_inv (vb_vfsToNetwork b)"
    "vc_capabilities (vb_vfs b) AND kCapabilityReadWindow \<noteq> 0" "rs_success (vb_result b')" "rs_status (vb_result b') \<noteq> 1"
  shows "\<exists>ps. let n = length (concat ps); room = ring_cap (vb_vfsToNetwork b) - length (ring_contents (vb_vfsToNetwork b));
         wanted = min (min (unat (rq_value (vb_request b))) kMaxPumpPerRequest) room in
     ring_inv (vb_vfsToNetwork b') \<and> ring_contents (vb_vfsToNetwork b') = ring_contents (vb_vfsToNetwork b) @ concat ps \<and>
     rs_transferred (vb_result b') = of_nat n \<and> n \<le> wanted \<and> (n = 0 \<longleftrightarrow> wanted = 0) \<and>
     (rs_wouldBlock (vb_result b') \<longleftrightarrow> room = 0) \<and> \<not> rs_atEnd (vb_result b') \<and>
     (0 < n \<longrightarrow> (\<exists>t1 ds t2.
        tr_send tr kVfsReadWindow (vc_readSequence (vb_vfs b) # writeLe16 (of_nat wanted)) (vc_transport (vb_vfs b)) = (True, t1) \<and>
        receive tr kVfsReadWindow kFragmentTimeoutMs (length ds) t1 = Some (ds, t2) \<and>
        window_stream (vc_readSequence (vb_vfs b)) n 0 0xFFFF ds ps))"
proof -
  let ?b = "b\<lparr>vb_result := zero_result\<rparr>" and ?r = "vb_vfsToNetwork b"
  let ?room = "ring_cap ?r - length (ring_contents ?r)"
  define w where "w = min (min (unat (rq_value (vb_request b))) kMaxPumpPerRequest) ?room"
  have room: "ring_freeSpace ?r = ?room" by (rule ring_freeSpace_contents [OF assms(3)])
  from assms(1,2) have pr: "processRead tr ?b = Some b'" by (simp add: processCore1_def Let_def)
  note pr = pr [unfolded processRead_def Let_def minimum_min]
  show ?thesis
  proof (cases "w = 0")
    case True
    with pr room assms(1,3) have "b' = finish True None (?b\<lparr>vb_result := (vb_result ?b)\<lparr>rs_wouldBlock := (?room = 0)\<rparr>\<rparr>)"
      by (simp add: w_def)
    with assms(3) True show ?thesis unfolding w_def [symmetric] Let_def
      by (intro exI [of _ "[]"]) (simp add: finish_def zero_result_def)
  next
    case False
    with pr room assms(1,5) obtain n r s where
      rd: "readFileWindow tr w (Some writeNetworkWindow) ?r (vb_vfs b) = Some (True, n, r, s)" and
      b': "b' = finish True None (?b\<lparr>vb_vfs := s, vb_vfsToNetwork := r,
             vb_result := (vb_result ?b)\<lparr>rs_transferred := of_nat n, rs_atEnd := (n = 0)\<rparr>\<rparr>)"
      by (auto simp: w_def [symmetric] bind_eq_Some_conv finish_def split: if_splits)
    have "vc_lastStatus s \<noteq> 1" using assms(6) b' by (simp add: finish_def)
    from read_window_exact [OF assms(4) rd this] obtain t1 ds ps t2 where x:
      "tr_send tr kVfsReadWindow (vc_readSequence (vb_vfs b) # writeLe16 (of_nat w)) (vc_transport (vb_vfs b)) = (True, t1)"
      "receive tr kVfsReadWindow kFragmentTimeoutMs (length ds) t1 = Some (ds, t2)"
      "window_stream (vc_readSequence (vb_vfs b)) n 0 0xFFFF ds ps" "sink_all writeNetworkWindow ?r ps = (True, r)"
      "0 < n" "n \<le> w" "length (concat ps) = n" by blast
    have "0 < ?room" using False by (simp add: w_def)
    then show ?thesis unfolding w_def [symmetric] Let_def
      using ring_sink_all [OF x(4) assms(3)] x b' False
      by (intro exI [of _ ps]) (auto simp: finish_def zero_result_def)
  qed
qed


definition demo_ring :: "nat \<Rightarrow> ring" where
  "demo_ring n = SpscByteRing_init\<lparr>rg_storage := Some [9, 9, 0, 0], rg_capacity := 4, rg_writePosition := of_nat n\<rparr>"

lemma demo_ring_inv: "n \<le> 4 \<Longrightarrow> ring_inv (demo_ring n)"
  by (auto simp: ring_inv_def demo_ring_def SpscByteRing_init_def unat_of_nat intro: exI [of _ 2])






definition demo_read :: "(bytes list \<times> bytes list, u8 option) vfs_bridge" where
  "demo_read = (VfsBridge_init ([], []) None)\<lparr>vb_ready := True, vb_vfs := demo_client, vb_vfsToNetwork := demo_ring 0,
     vb_request := zero_request\<lparr>rq_operation := kRead, rq_value := 3\<rparr>\<rparr>"

theorem read_pump_exact_witness:
  "\<exists>b' ps. processCore1 script (\<lambda>n. True) demo_read = Some b' \<and> length (concat ps) = 3 \<and>
     ring_contents (vb_vfsToNetwork b') = concat ps \<and> rs_transferred (vb_result b') = 3"
proof -
  have b: "rq_operation (vb_request demo_read) = kRead" "unat (rq_value (vb_request demo_read)) = 3"
    "vb_vfsToNetwork demo_read = demo_ring 0" "vb_vfs demo_read = demo_client"
    by (simp_all add: demo_read_def)
  have c: "vc_capabilities (vb_vfs demo_read) AND kCapabilityReadWindow \<noteq> 0"
    by (simp add: b kCapabilityReadWindow_def demo_client_def)
  have e: "ring_contents (demo_ring 0) = []" "ring_cap (demo_ring 0) = 4"
    by (simp_all add: ring_contents_def ring_cap_def demo_ring_def SpscByteRing_init_def ring_used_def)
  have free: "ring_freeSpace (demo_ring 0) = 4" by (simp add: ring_freeSpace_contents demo_ring_inv e)
  have k: "min 3 kMaxPumpPerRequest = 3" by (simp add: kMaxPumpPerRequest_def kTransferWindowSize_def)
  obtain r1 n1 where w1: "ring_write (Some [65, 66]) 2 (demo_ring 0) = (r1, n1)"
    by (cases "ring_write (Some [65, 66]) 2 (demo_ring 0)")
  note s1 = ring_write_spec [OF demo_ring_inv [of 0], of 2 "[65, 66]", unfolded w1 e, simplified]
  obtain r2 n2 where w2: "ring_write (Some [67]) 1 r1 = (r2, n2)" by (cases "ring_write (Some [67]) 1 r1")
  note s2 = ring_write_spec [OF s1(3), of 1 "[67]", unfolded w2 s1, simplified]
  have sink: "sink_all writeNetworkWindow (demo_ring 0) [[65, 66], [67]] = (True, r2)"
    using w1 w2 s1 s2 by (simp add: writeNetworkWindow_def numeral_2_eq_2)
  have "\<exists>s'. readFileWindow script 3 (Some writeNetworkWindow) (demo_ring 0) demo_client = Some (True, 3, r2, s') \<and>
     vc_transport s' = ([[0, 3, 0]], []) \<and> vc_readSequence s' = vc_readSequence demo_client + 1 \<and>
     vc_lastStatus s' = 0 \<and> vc_lastError s' = ''none''"
    by (rule read_window_complete_exact [of demo_client 3 3 script "([[0, 3, 0]], demo_frames)" demo_frames "([[0, 3, 0]], [])"
          "[[65, 66], [67]]"])
      (simp_all add: sink demo_client_def demo_frames_def demo_simps del: sink_all.simps, auto simp: numeral_2_eq_2)
  then obtain s' where s': "readFileWindow script 3 (Some writeNetworkWindow) (demo_ring 0) demo_client = Some (True, 3, r2, s')"
    "vc_lastStatus s' = 0" by blast
  have "\<exists>b'. processCore1 script (\<lambda>n. True) demo_read = Some b' \<and> rs_success (vb_result b') \<and> rs_status (vb_result b') = 0 \<and>
      rs_transferred (vb_result b') = 3"
    by (simp add: processCore1_def processRead_def b free Let_def k s' finish_def)
  then obtain b' where b': "processCore1 script (\<lambda>n. True) demo_read = Some b'" "rs_success (vb_result b')"
    "rs_status (vb_result b') \<noteq> 1" "rs_transferred (vb_result b') = 3" by auto
  have "ring_inv (vb_vfsToNetwork demo_read)" by (simp add: b demo_ring_inv)
  from read_pump_exact [OF b(1) b'(1) this c b'(2,3)] obtain ps where ps: "length (concat ps) \<le> 3"
    "ring_contents (vb_vfsToNetwork b') = concat ps" "rs_transferred (vb_result b') = of_nat (length (concat ps))"
    by (auto simp: b e k Let_def)
  from ps(1) have "length (concat ps) = 0 \<or> length (concat ps) = 1 \<or> length (concat ps) = 2 \<or> length (concat ps) = 3" by linarith
  with ps(3) b'(4) have "length (concat ps) = 3" by (elim disjE) simp_all
  with ps b' show ?thesis by blast
qed

end
