(* ===== verification/DirectoryCache.thy ===== *)
theory DirectoryCache
  imports Prelude
begin

text \<open>
  \<open>src/directory_cache.cpp\<close>: complete snapshots of directories, kept in PSRAM while the SMB server
  runs, with the least recently used one evicted when the budget is spent. A block of the heap
  is known by its address, a natural number; \<open>malloc live bytes\<close> is what \<open>heap_caps_malloc\<close>
  returns while the blocks in \<open>live\<close> are allocated. The linked lists of the code are lists, a
  pointer to a member is its address, and following a pointer to a freed block is \<open>None\<close>.
\<close>

subsection \<open>State\<close>

definition kMaximumBytes :: nat where "kMaximumBytes = 512 * 1024"

text \<open>\<open>offsetof(Snapshot, path)\<close> and \<open>offsetof(Entry, name)\<close> on the 32-bit chip.\<close>

definition kSnapshotHeader :: nat where "kSnapshotHeader = 22"
definition kEntryHeader :: nat where "kEntryHeader = 13"

record dir_entry =
  de_addr :: nat
  de_size :: u32
  de_writeDate :: u16
  de_writeTime :: u16
  de_isDirectory :: bool
  de_name :: bytes

record snapshot =
  sn_addr :: nat
  sn_entries :: "dir_entry list"
  sn_count :: u32
  sn_lastUse :: u32
  sn_complete :: bool
  sn_uncacheable :: bool
  sn_path :: bytes

record dir_cache =
  dc_snapshots :: "snapshot list"
  dc_building :: "nat option"
  dc_bytesUsed :: nat
  dc_revision :: u32
  dc_useCounter :: u32
  dc_enabled :: bool

record entry_view =
  ev_isDirectory :: bool
  ev_size :: u32
  ev_writeDate :: u16
  ev_writeTime :: u16
  ev_name :: "bytes option"

record cursor =
  cu_next :: "nat option"
  cu_revision :: u32
  cu_opened :: bool

type_synonym malloc = "nat list \<Rightarrow> nat \<Rightarrow> nat option"

definition DirectoryCache_init :: dir_cache where
  "DirectoryCache_init = \<lparr>dc_snapshots = [], dc_building = None, dc_bytesUsed = 0, dc_revision = 1,
     dc_useCounter = 1, dc_enabled = False\<rparr>"

definition entry_bytes :: "dir_entry \<Rightarrow> nat" where
  "entry_bytes e = kEntryHeader + length (de_name e) + 1"

definition snapshot_bytes :: "bytes \<Rightarrow> nat" where
  "snapshot_bytes path = kSnapshotHeader + length path + 1"

definition addresses :: "dir_cache \<Rightarrow> nat list" where
  "addresses s = concat (map (\<lambda>x. sn_addr x # map de_addr (sn_entries x)) (dc_snapshots s))"

subsection \<open>Names\<close>

text \<open>\<open>toupper\<close> below 0x80; bytes of UTF-8 stay as they are.\<close>

definition fold_case :: "u8 \<Rightarrow> u8" where
  "fold_case b = (if 97 \<le> b \<and> b \<le> 122 then b - 32 else b)"

fun same_text :: "bytes \<Rightarrow> bytes \<Rightarrow> bool" where
  "same_text (a # left) (b # right) \<longleftrightarrow> fold_case a = fold_case b \<and> same_text left right"
| "same_text left right \<longleftrightarrow> left = [] \<and> right = []"

definition dc_equalNoCase :: "bytes option \<Rightarrow> bytes option \<Rightarrow> bool" where
  "dc_equalNoCase left right =
     (case (left, right) of (Some l, Some r) \<Rightarrow> same_text l r | _ \<Rightarrow> False)"

fun below_root :: "bytes \<Rightarrow> bytes \<Rightarrow> bool" where
  "below_root [] val \<longleftrightarrow> val = [] \<or> hd val = 47"
| "below_root (r # rs) [] \<longleftrightarrow> False"
| "below_root (r # rs) (v # vs) \<longleftrightarrow> fold_case v = fold_case r \<and> below_root rs vs"

definition belongsToSubtree :: "bytes option \<Rightarrow> bytes option \<Rightarrow> bool" where
  "belongsToSubtree val root =
     (case (val, root) of
        (Some v, Some r) \<Rightarrow> if r = [47] then v \<noteq> [] \<and> hd v = 47 else below_root r v
      | _ \<Rightarrow> False)"

subsection \<open>Memory\<close>

definition advanceRevision :: "dir_cache \<Rightarrow> dir_cache" where
  "advanceRevision s =
     (let r = dc_revision s + 1 in s\<lparr>dc_revision := (if r = 0 then 1 else r)\<rparr>)"

definition release :: "nat \<Rightarrow> dir_cache \<Rightarrow> dir_cache" where
  "release n s = s\<lparr>dc_bytesUsed := (if n \<le> dc_bytesUsed s then dc_bytesUsed s - n else 0)\<rparr>"

text \<open>The snapshot is already unlinked when it is freed.\<close>

definition freeSnapshot :: "snapshot \<Rightarrow> dir_cache \<Rightarrow> dir_cache" where
  "freeSnapshot x s = release (snapshot_bytes (sn_path x)) (fold (release \<circ> entry_bytes) (sn_entries x) s)"

fun oldest :: "nat option \<Rightarrow> snapshot option \<Rightarrow> snapshot list \<Rightarrow> snapshot option" where
  "oldest building victim [] = victim"
| "oldest building victim (x # xs) =
     (if building = Some (sn_addr x) then oldest building victim xs
      else case victim of
             None \<Rightarrow> oldest building (Some x) xs
           | Some v \<Rightarrow> oldest building (if sn_lastUse x < sn_lastUse v then Some x else victim) xs)"

definition unlink :: "nat \<Rightarrow> dir_cache \<Rightarrow> dir_cache" where
  "unlink a s = s\<lparr>dc_snapshots := filter (\<lambda>x. sn_addr x \<noteq> a) (dc_snapshots s)\<rparr>"

definition evictOldest :: "dir_cache \<Rightarrow> bool \<times> dir_cache" where
  "evictOldest s =
     (case oldest (dc_building s) None (dc_snapshots s) of
        None \<Rightarrow> (False, s)
      | Some v \<Rightarrow> (True, advanceRevision (freeSnapshot v (unlink (sn_addr v) s))))"

lemma oldest_mem: "oldest building victim xs = Some v \<Longrightarrow> v \<in> set xs \<or> victim = Some v"
  by (induction xs arbitrary: victim) (auto split: if_splits option.splits)

lemma fold_release_snapshots [simp]: "dc_snapshots (fold (release \<circ> entry_bytes) es s) = dc_snapshots s"
  by (induction es arbitrary: s) (auto simp: release_def)

lemma evictOldest_shorter:
  "evictOldest s = (True, s') \<Longrightarrow> length (dc_snapshots s') < length (dc_snapshots s)"
  by (auto simp: evictOldest_def advanceRevision_def freeSnapshot_def unlink_def release_def Let_def
      dest!: oldest_mem split: option.splits intro!: length_filter_less)

function make_room :: "nat \<Rightarrow> dir_cache \<Rightarrow> bool \<times> dir_cache" where
  "make_room n s =
     (if dc_bytesUsed s > kMaximumBytes \<or> n > kMaximumBytes - dc_bytesUsed s
      then let (ok, s1) = evictOldest s in if ok then make_room n s1 else (False, s1)
      else (True, s))"
  by pat_completeness auto
termination
  by (relation "measure (\<lambda>(n, s). length (dc_snapshots s))") (auto intro: evictOldest_shorter)

declare make_room.simps [simp del]

definition dc_allocate :: "malloc \<Rightarrow> nat \<Rightarrow> dir_cache \<Rightarrow> nat option \<times> dir_cache" where
  "dc_allocate malloc n s =
     (if \<not> dc_enabled s \<or> n = 0 \<or> n > kMaximumBytes then (None, s)
      else
        let (ok, s1) = make_room n s
        in if \<not> ok then (None, s1)
           else case malloc (addresses s1) n of
                  None \<Rightarrow> (None, s1)
                | Some a \<Rightarrow> (Some a, s1\<lparr>dc_bytesUsed := dc_bytesUsed s1 + n\<rparr>))"

definition dc_clear :: "dir_cache \<Rightarrow> dir_cache" where
  "dc_clear s = advanceRevision ((fold freeSnapshot (dc_snapshots s) s)\<lparr>dc_snapshots := [], dc_building := None,
     dc_bytesUsed := 0, dc_enabled := False\<rparr>)"

definition dc_begin :: "bool \<Rightarrow> dir_cache \<Rightarrow> bool \<times> dir_cache" where
  "dc_begin psramAvailable s = (psramAvailable, (dc_clear s)\<lparr>dc_enabled := psramAvailable\<rparr>)"

subsection \<open>Finding snapshots\<close>

definition findAnySnapshot :: "bytes option \<Rightarrow> dir_cache \<Rightarrow> snapshot option" where
  "findAnySnapshot path s = find (\<lambda>x. sn_complete x \<and> dc_equalNoCase (Some (sn_path x)) path) (dc_snapshots s)"

definition on_snapshot :: "nat \<Rightarrow> (snapshot \<Rightarrow> snapshot) \<Rightarrow> dir_cache \<Rightarrow> dir_cache" where
  "on_snapshot a f s = s\<lparr>dc_snapshots := map (\<lambda>x. if sn_addr x = a then f x else x) (dc_snapshots s)\<rparr>"

definition touch :: "nat \<Rightarrow> dir_cache \<Rightarrow> dir_cache" where
  "touch a s =
     (let n = dc_useCounter s + 1 in on_snapshot a (\<lambda>x. x\<lparr>sn_lastUse := n\<rparr>) (s\<lparr>dc_useCounter := n\<rparr>))"

definition findSnapshot :: "bytes option \<Rightarrow> dir_cache \<Rightarrow> snapshot option \<times> dir_cache" where
  "findSnapshot path s =
     (case findAnySnapshot path s of
        None \<Rightarrow> (None, s)
      | Some x \<Rightarrow> if sn_uncacheable x then (None, s)
                  else (Some (x\<lparr>sn_lastUse := dc_useCounter s + 1\<rparr>), touch (sn_addr x) s))"

definition find_enabled :: "bytes option \<Rightarrow> dir_cache \<Rightarrow> snapshot option \<times> dir_cache" where
  "find_enabled path s = (if dc_enabled s then findSnapshot path s else (None, s))"

definition dc_contains :: "bytes option \<Rightarrow> dir_cache \<Rightarrow> bool \<times> dir_cache" where
  "dc_contains path s = (let (x, s1) = find_enabled path s in (x \<noteq> None, s1))"

definition isUncacheable :: "bytes option \<Rightarrow> dir_cache \<Rightarrow> bool" where
  "isUncacheable path s =
     (dc_enabled s \<and> (case findAnySnapshot path s of None \<Rightarrow> False | Some x \<Rightarrow> sn_uncacheable x))"

subsection \<open>Invalidation\<close>

text \<open>The loop that unlinks and frees every snapshot but the one being built that \<open>doomed\<close> names.\<close>

definition drop_snapshots :: "(snapshot \<Rightarrow> bool) \<Rightarrow> dir_cache \<Rightarrow> dir_cache" where
  "drop_snapshots doomed s =
     (let hit = (\<lambda>x. dc_building s \<noteq> Some (sn_addr x) \<and> doomed x); gone = filter hit (dc_snapshots s);
          s1 = fold freeSnapshot gone (s\<lparr>dc_snapshots := filter (\<lambda>x. \<not> hit x) (dc_snapshots s)\<rparr>)
      in if gone \<noteq> [] then advanceRevision s1 else s1)"

definition dc_invalidate :: "bytes option \<Rightarrow> dir_cache \<Rightarrow> dir_cache" where
  "dc_invalidate path s =
     (if path = None then s else drop_snapshots (\<lambda>x. dc_equalNoCase (Some (sn_path x)) path) s)"

definition invalidateSubtree :: "bytes option \<Rightarrow> dir_cache \<Rightarrow> dir_cache" where
  "invalidateSubtree path s =
     (if path = None then s else drop_snapshots (\<lambda>x. belongsToSubtree (Some (sn_path x)) path) s)"

subsection \<open>Building snapshots\<close>

text \<open>What \<open>beginSnapshot\<close> and \<open>markUncacheable\<close> share: a new snapshot at the head of the list.\<close>

definition new_snapshot :: "malloc \<Rightarrow> bytes \<Rightarrow> bool \<Rightarrow> dir_cache \<Rightarrow> nat option \<times> dir_cache" where
  "new_snapshot malloc path uncacheable s =
     (let (memory, s1) = dc_allocate malloc (snapshot_bytes path) (dc_invalidate (Some path) s)
      in case memory of
           None \<Rightarrow> (None, s1)
         | Some a \<Rightarrow>
             let n = dc_useCounter s1 + 1;
                 x = \<lparr>sn_addr = a, sn_entries = [], sn_count = 0, sn_lastUse = n, sn_complete = uncacheable,
                      sn_uncacheable = uncacheable, sn_path = path\<rparr>
             in (Some a, s1\<lparr>dc_useCounter := n, dc_snapshots := x # dc_snapshots s1\<rparr>))"

definition refuses_path :: "bytes \<Rightarrow> dir_cache \<Rightarrow> bool" where
  "refuses_path path s \<longleftrightarrow> \<not> dc_enabled s \<or> path = [] \<or> hd path \<noteq> 47 \<or> dc_building s \<noteq> None"

definition markUncacheable :: "malloc \<Rightarrow> bytes option \<Rightarrow> dir_cache \<Rightarrow> bool \<times> dir_cache" where
  "markUncacheable malloc path s =
     (case path of None \<Rightarrow> (False, s)
      | Some p \<Rightarrow> if refuses_path p s then (False, s)
                  else let (memory, s1) = new_snapshot malloc p True s in (memory \<noteq> None, s1))"

definition beginSnapshot :: "malloc \<Rightarrow> bytes option \<Rightarrow> dir_cache \<Rightarrow> bool \<times> dir_cache" where
  "beginSnapshot malloc path s =
     (case path of None \<Rightarrow> (False, s)
      | Some p \<Rightarrow> if refuses_path p s then (False, s)
                  else let (memory, s1) = new_snapshot malloc p False s
                       in case memory of None \<Rightarrow> (False, s1) | Some a \<Rightarrow> (True, s1\<lparr>dc_building := Some a\<rparr>))"

definition dc_append :: "malloc \<Rightarrow> bool \<Rightarrow> u32 \<Rightarrow> bytes option \<Rightarrow> u16 \<Rightarrow> u16 \<Rightarrow> dir_cache \<Rightarrow> bool \<times> dir_cache" where
  "dc_append malloc isDirectory sz name writeDate writeTime s =
     (case (dc_building s, name) of
        (Some b, Some n) \<Rightarrow>
          if n = [] \<or> length n > 255 then (False, s)
          else
            let (memory, s1) = dc_allocate malloc (kEntryHeader + length n + 1) s
            in (case memory of
                  None \<Rightarrow> (False, s1)
                | Some a \<Rightarrow>
                    let e = \<lparr>de_addr = a, de_size = sz, de_writeDate = writeDate, de_writeTime = writeTime,
                             de_isDirectory = isDirectory, de_name = n\<rparr>
                    in (True, on_snapshot b (\<lambda>x. x\<lparr>sn_entries := sn_entries x @ [e], sn_count := sn_count x + 1\<rparr>) s1))
      | _ \<Rightarrow> (False, s))"

definition finishSnapshot :: "dir_cache \<Rightarrow> bool \<times> dir_cache" where
  "finishSnapshot s =
     (case dc_building s of None \<Rightarrow> (False, s)
      | Some b \<Rightarrow> (True, advanceRevision ((on_snapshot b (\<lambda>x. x\<lparr>sn_complete := True\<rparr>) s)\<lparr>dc_building := None\<rparr>)))"

text \<open>The snapshot being built is always a member of the list, as the invariant in \<open>DirectorySafe\<close> shows.\<close>

definition abortSnapshot :: "dir_cache \<Rightarrow> dir_cache" where
  "abortSnapshot s =
     (case dc_building s of None \<Rightarrow> s
      | Some b \<Rightarrow>
          (case find (\<lambda>x. sn_addr x = b) (dc_snapshots s) of
             None \<Rightarrow> s\<lparr>dc_building := None\<rparr>
           | Some x \<Rightarrow> freeSnapshot x ((unlink b s)\<lparr>dc_building := None\<rparr>)))"

subsection \<open>Entries\<close>

definition view_of :: "dir_entry \<Rightarrow> entry_view" where
  "view_of e = \<lparr>ev_isDirectory = de_isDirectory e, ev_size = de_size e, ev_writeDate = de_writeDate e,
     ev_writeTime = de_writeTime e, ev_name = Some (de_name e)\<rparr>"

definition on_entry :: "nat \<Rightarrow> (dir_entry \<Rightarrow> dir_entry) \<Rightarrow> dir_cache \<Rightarrow> dir_cache" where
  "on_entry a f s = s\<lparr>dc_snapshots := map (\<lambda>x. x\<lparr>sn_entries :=
     map (\<lambda>e. if de_addr e = a then f e else e) (sn_entries x)\<rparr>) (dc_snapshots s)\<rparr>"

definition find_file :: "bytes \<Rightarrow> snapshot \<Rightarrow> dir_entry option" where
  "find_file name x = find (\<lambda>e. \<not> de_isDirectory e \<and> same_text (de_name e) name) (sn_entries x)"

text \<open>The comparison with the first \<open>n\<close> bytes of a path.\<close>

fun same_parent :: "nat \<Rightarrow> bytes \<Rightarrow> bytes \<Rightarrow> bool" where
  "same_parent 0 candidate path \<longleftrightarrow> candidate = []"
| "same_parent (Suc n) (c # cs) (p # ps) \<longleftrightarrow> fold_case c = fold_case p \<and> same_parent n cs ps"
| "same_parent (Suc n) candidate path \<longleftrightarrow> False"

definition findFileAt :: "bytes option \<Rightarrow> nat \<Rightarrow> bytes option \<Rightarrow> dir_cache \<Rightarrow> nat option \<times> dir_cache" where
  "findFileAt path parentLength name s =
     (case (path, name) of
        (Some p, Some n) \<Rightarrow>
          if \<not> dc_enabled s \<or> parentLength = 0 then (None, s)
          else
            (case find (\<lambda>x. sn_complete x \<and> \<not> sn_uncacheable x \<and> same_parent parentLength (sn_path x) p) (dc_snapshots s) of
               None \<Rightarrow> (None, s)
             | Some x \<Rightarrow> (map_option de_addr (find_file n x), touch (sn_addr x) s))
      | _ \<Rightarrow> (None, s))"

definition updateEntrySizeAt :: "bytes option \<Rightarrow> nat \<Rightarrow> bytes option \<Rightarrow> u32 \<Rightarrow> dir_cache \<Rightarrow> bool \<times> dir_cache" where
  "updateEntrySizeAt path parentLength name sz s =
     (let (entry, s1) = findFileAt path parentLength name s
      in case entry of None \<Rightarrow> (False, s1) | Some a \<Rightarrow> (True, on_entry a (\<lambda>e. e\<lparr>de_size := sz\<rparr>) s1))"

definition updateEntryStampAt :: "bytes option \<Rightarrow> nat \<Rightarrow> bytes option \<Rightarrow> u16 \<Rightarrow> u16 \<Rightarrow> dir_cache \<Rightarrow> bool \<times> dir_cache" where
  "updateEntryStampAt path parentLength name writeDate writeTime s =
     (if writeDate = 0 then (False, s)
      else
        let (entry, s1) = findFileAt path parentLength name s
        in case entry of None \<Rightarrow> (False, s1)
           | Some a \<Rightarrow> (True, on_entry a (\<lambda>e. e\<lparr>de_writeDate := writeDate, de_writeTime := writeTime\<rparr>) s1))"

definition updateEntrySize :: "bytes option \<Rightarrow> bytes option \<Rightarrow> u32 \<Rightarrow> dir_cache \<Rightarrow> bool \<times> dir_cache" where
  "updateEntrySize path name sz s =
     (let (found, s1) = find_enabled path s
      in case (found, name) of
           (Some x, Some n) \<Rightarrow>
             (case find_file n x of None \<Rightarrow> (False, s1)
              | Some e \<Rightarrow> (True, on_entry (de_addr e) (\<lambda>e. e\<lparr>de_size := sz\<rparr>) s1))
         | _ \<Rightarrow> (False, s1))"

definition findEntry :: "bytes option \<Rightarrow> bytes option \<Rightarrow> dir_cache \<Rightarrow> entry_view option \<times> dir_cache" where
  "findEntry path name s =
     (let (found, s1) = find_enabled path s
      in (case (found, name) of
            (Some x, Some n) \<Rightarrow> map_option view_of (find (\<lambda>e. same_text (de_name e) n) (sn_entries x))
          | _ \<Rightarrow> None, s1))"

definition findBuildingEntry :: "bytes option \<Rightarrow> bytes option \<Rightarrow> dir_cache \<Rightarrow> entry_view option" where
  "findBuildingEntry path name s =
     (case (Option.bind (dc_building s) (\<lambda>b. find (\<lambda>x. sn_addr x = b) (dc_snapshots s)), name) of
        (Some x, Some n) \<Rightarrow>
          if \<not> dc_enabled s \<or> \<not> dc_equalNoCase (Some (sn_path x)) path then None
          else map_option view_of (find (\<lambda>e. same_text (de_name e) n) (sn_entries x))
      | _ \<Rightarrow> None)"

subsection \<open>Cursors\<close>

definition first_entry :: "dir_entry list \<Rightarrow> nat option" where
  "first_entry es = (case es of [] \<Rightarrow> None | e # rest \<Rightarrow> Some (de_addr e))"

definition openCursor :: "bytes option \<Rightarrow> dir_cache \<Rightarrow> bool \<times> cursor \<times> dir_cache" where
  "openCursor path s =
     (let (found, s1) = find_enabled path s
      in case found of
           None \<Rightarrow> (False, \<lparr>cu_next = None, cu_revision = 0, cu_opened = False\<rparr>, s1)
         | Some x \<Rightarrow> (True, \<lparr>cu_next = first_entry (sn_entries x), cu_revision = dc_revision s1, cu_opened = True\<rparr>, s1))"

definition cursorCurrent :: "cursor \<Rightarrow> dir_cache \<Rightarrow> bool" where
  "cursorCurrent c s \<longleftrightarrow> cu_opened c \<and> cu_revision c = dc_revision s"

text \<open>The block at an address: the entry and the pointer to the one after it.\<close>

fun entry_in :: "nat \<Rightarrow> dir_entry list \<Rightarrow> (dir_entry \<times> nat option) option" where
  "entry_in a [] = None"
| "entry_in a (e # es) = (if de_addr e = a then Some (e, first_entry es) else entry_in a es)"

fun entry_at :: "nat \<Rightarrow> snapshot list \<Rightarrow> (dir_entry \<times> nat option) option" where
  "entry_at a [] = None"
| "entry_at a (x # xs) = (case entry_in a (sn_entries x) of None \<Rightarrow> entry_at a xs | r \<Rightarrow> r)"

text \<open>\<open>None\<close> is the use of a pointer to a block that is not allocated.\<close>

definition dc_next :: "cursor \<Rightarrow> dir_cache \<Rightarrow> (entry_view option \<times> cursor) option" where
  "dc_next c s =
     (if \<not> cursorCurrent c s then Some (None, c)
      else case cu_next c of
             None \<Rightarrow> Some (None, c)
           | Some a \<Rightarrow> map_option (\<lambda>(e, rest). (Some (view_of e), c\<lparr>cu_next := rest\<rparr>)) (entry_at a (dc_snapshots s)))"

subsection \<open>Histories\<close>

datatype dir_op =
    Begin bool | Clear | Contains "bytes option" | BeginSnapshot "bytes option"
  | Append bool u32 "bytes option" u16 u16 | FinishSnapshot | AbortSnapshot | MarkUncacheable "bytes option"
  | UpdateEntrySize "bytes option" "bytes option" u32 | UpdateEntrySizeAt "bytes option" nat "bytes option" u32
  | UpdateEntryStampAt "bytes option" nat "bytes option" u16 u16 | Invalidate "bytes option"
  | InvalidateSubtree "bytes option" | OpenCursor "bytes option" | FindEntry "bytes option" "bytes option"

fun dir_apply :: "malloc \<Rightarrow> dir_op \<Rightarrow> dir_cache \<Rightarrow> dir_cache" where
  "dir_apply malloc (Begin psram) s = snd (dc_begin psram s)"
| "dir_apply malloc Clear s = dc_clear s"
| "dir_apply malloc (Contains path) s = snd (dc_contains path s)"
| "dir_apply malloc (BeginSnapshot path) s = snd (beginSnapshot malloc path s)"
| "dir_apply malloc (Append d n name wd wt) s = snd (dc_append malloc d n name wd wt s)"
| "dir_apply malloc FinishSnapshot s = snd (finishSnapshot s)"
| "dir_apply malloc AbortSnapshot s = abortSnapshot s"
| "dir_apply malloc (MarkUncacheable path) s = snd (markUncacheable malloc path s)"
| "dir_apply malloc (UpdateEntrySize path name n) s = snd (updateEntrySize path name n s)"
| "dir_apply malloc (UpdateEntrySizeAt path len name n) s = snd (updateEntrySizeAt path len name n s)"
| "dir_apply malloc (UpdateEntryStampAt path len name wd wt) s = snd (updateEntryStampAt path len name wd wt s)"
| "dir_apply malloc (Invalidate path) s = dc_invalidate path s"
| "dir_apply malloc (InvalidateSubtree path) s = invalidateSubtree path s"
| "dir_apply malloc (OpenCursor path) s = snd (snd (openCursor path s))"
| "dir_apply malloc (FindEntry path name) s = snd (findEntry path name s)"

definition dir_run :: "malloc \<Rightarrow> dir_op list \<Rightarrow> dir_cache \<Rightarrow> dir_cache" where
  "dir_run malloc ops s = fold (dir_apply malloc) ops s"

end
