(* ===== verification/DirectorySafe.thy ===== *)
theory DirectorySafe
  imports DirectoryCache
begin

text \<open>
  What the directory cache of \<open>src/directory_cache.cpp\<close> guarantees after any history of calls: its
  accounting of memory is exact and within the budget, a cursor never follows a pointer to a
  freed block, and a snapshot that was built completely is read back entry by entry.
\<close>

subsection \<open>The shape of the lists\<close>

text \<open>
  What reading, touching and updating a snapshot leaves alone: addresses, paths and names.
\<close>

definition entry_key :: "dir_entry \<Rightarrow> nat \<times> bool \<times> bytes" where
  "entry_key e = (de_addr e, de_isDirectory e, de_name e)"

definition shape :: "snapshot \<Rightarrow> nat \<times> bytes \<times> bool \<times> bool \<times> (nat \<times> bool \<times> bytes) list" where
  "shape x = (sn_addr x, sn_path x, sn_complete x, sn_uncacheable x, map entry_key (sn_entries x))"

definition block_bytes :: "snapshot \<Rightarrow> nat" where
  "block_bytes x = snapshot_bytes (sn_path x) + sum_list (map entry_bytes (sn_entries x))"

definition total_bytes :: "snapshot list \<Rightarrow> nat" where
  "total_bytes xs = sum_list (map block_bytes xs)"

definition owned :: "snapshot list \<Rightarrow> nat list" where
  "owned xs = concat (map (\<lambda>x. sn_addr x # map de_addr (sn_entries x)) xs)"

lemma owned_simps [simp]:
  "owned [] = []" "owned (x # xs) = sn_addr x # map de_addr (sn_entries x) @ owned xs"
  by (simp_all add: owned_def)

lemma total_simps [simp]: "total_bytes [] = 0" "total_bytes (x # xs) = block_bytes x + total_bytes xs"
  by (simp_all add: total_bytes_def)

lemma addresses_owned: "addresses s = owned (dc_snapshots s)"
  by (simp add: addresses_def owned_def)

lemma shape_eqD:
  assumes "shape x = shape y"
  shows "sn_addr x = sn_addr y" "sn_path x = sn_path y" "sn_complete x = sn_complete y"
    "sn_uncacheable x = sn_uncacheable y" "map entry_key (sn_entries x) = map entry_key (sn_entries y)"
    "map de_addr (sn_entries x) = map de_addr (sn_entries y)" "block_bytes x = block_bytes y"
proof -
  show k: "sn_addr x = sn_addr y" "sn_path x = sn_path y" "sn_complete x = sn_complete y"
    "sn_uncacheable x = sn_uncacheable y" "map entry_key (sn_entries x) = map entry_key (sn_entries y)"
    using assms by (simp_all add: shape_def)
  have a: "map de_addr es = map fst (map entry_key es)" "map entry_bytes es = map (\<lambda>(a, d, n). kEntryHeader + length n + 1) (map entry_key es)" for es
    by (simp_all add: entry_key_def entry_bytes_def)
  show "map de_addr (sn_entries x) = map de_addr (sn_entries y)" by (simp only: a k(5))
  show "block_bytes x = block_bytes y" unfolding block_bytes_def by (simp only: a k)
qed

lemma shapes_eqD:
  "map shape xs = map shape ys \<Longrightarrow> owned xs = owned ys \<and> total_bytes xs = total_bytes ys \<and> length xs = length ys"
proof (induction xs arbitrary: ys)
  case (Cons x xs)
  then obtain y zs where y: "ys = y # zs" "shape x = shape y" "map shape xs = map shape zs" by (cases ys) auto
  with Cons.IH [OF y(3)] shape_eqD [OF y(2)] show ?case by simp
qed simp

definition dc_inv :: "dir_cache \<Rightarrow> bool" where
  "dc_inv s \<longleftrightarrow> distinct (owned (dc_snapshots s)) \<and> dc_bytesUsed s = total_bytes (dc_snapshots s) \<and>
     dc_bytesUsed s \<le> kMaximumBytes \<and> dc_revision s \<noteq> 0 \<and>
     (\<forall>x \<in> set (dc_snapshots s). sn_complete x \<longleftrightarrow> dc_building s \<noteq> Some (sn_addr x)) \<and>
     (\<forall>b. dc_building s = Some b \<longrightarrow> b \<in> sn_addr ` set (dc_snapshots s))"

definition rev_next :: "u32 \<Rightarrow> u32" where
  "rev_next r = (if r + 1 = 0 then 1 else r + 1)"

definition keeps :: "dir_cache \<Rightarrow> dir_cache \<Rightarrow> bool" where
  "keeps s s' \<longleftrightarrow> (\<forall>x \<in> set (dc_snapshots s). sn_complete x \<longrightarrow> shape x \<in> shape ` set (dc_snapshots s'))"

text \<open>
  How an operation moves the cache: it keeps the invariant, and unless it changes the revision it
  keeps every complete snapshot. The revisions and the growth of the list are bounded together
  by \<open>c\<close>, so that a history of \<open>n\<close> operations has at most \<open>n\<close> revisions.
\<close>

definition moves :: "nat \<Rightarrow> dir_cache \<Rightarrow> dir_cache \<Rightarrow> bool" where
  "moves c s s' \<longleftrightarrow> (dc_inv s \<longrightarrow> dc_inv s' \<and>
     (\<exists>n. dc_revision s' = (rev_next ^^ n) (dc_revision s) \<and> (n = 0 \<longrightarrow> keeps s s') \<and>
        n + length (dc_snapshots s') \<le> length (dc_snapshots s) + c))"

lemma keeps_refl [simp]: "keeps s s"
  by (simp add: keeps_def)

lemma keeps_trans: "keeps s t \<Longrightarrow> keeps t u \<Longrightarrow> keeps s u"
  unfolding keeps_def
proof
  fix x assume st: "\<forall>x\<in>set (dc_snapshots s). sn_complete x \<longrightarrow> shape x \<in> shape ` set (dc_snapshots t)"
    and tu: "\<forall>x\<in>set (dc_snapshots t). sn_complete x \<longrightarrow> shape x \<in> shape ` set (dc_snapshots u)"
    and x: "x \<in> set (dc_snapshots s)"
  show "sn_complete x \<longrightarrow> shape x \<in> shape ` set (dc_snapshots u)"
  proof
    assume "sn_complete x"
    with st x obtain y where y: "y \<in> set (dc_snapshots t)" "shape x = shape y" by auto
    with \<open>sn_complete x\<close> shape_eqD(3) [OF y(2)] tu show "shape x \<in> shape ` set (dc_snapshots u)" by simp
  qed
qed

lemma moves_refl [simp]: "moves 0 s s"
  by (auto simp: moves_def intro: exI [of _ 0])

lemma moves_trans [trans]: "moves c s t \<Longrightarrow> moves d t u \<Longrightarrow> moves (c + d) s u"
  unfolding moves_def
proof
  assume st: "dc_inv s \<longrightarrow> dc_inv t \<and> (\<exists>n. dc_revision t = (rev_next ^^ n) (dc_revision s) \<and> (n = 0 \<longrightarrow> keeps s t) \<and>
        n + length (dc_snapshots t) \<le> length (dc_snapshots s) + c)"
    and tu: "dc_inv t \<longrightarrow> dc_inv u \<and> (\<exists>n. dc_revision u = (rev_next ^^ n) (dc_revision t) \<and> (n = 0 \<longrightarrow> keeps t u) \<and>
        n + length (dc_snapshots u) \<le> length (dc_snapshots t) + d)" and "dc_inv s"
  with st obtain n where n: "dc_inv t" "dc_revision t = (rev_next ^^ n) (dc_revision s)" "n = 0 \<longrightarrow> keeps s t"
    "n + length (dc_snapshots t) \<le> length (dc_snapshots s) + c" by blast
  with tu obtain k where k: "dc_inv u" "dc_revision u = (rev_next ^^ k) (dc_revision t)" "k = 0 \<longrightarrow> keeps t u"
    "k + length (dc_snapshots u) \<le> length (dc_snapshots t) + d" by blast
  have "dc_revision u = (rev_next ^^ (k + n)) (dc_revision s)" by (simp add: k(2) n(2) funpow_add)
  with n k show "dc_inv u \<and> (\<exists>n. dc_revision u = (rev_next ^^ n) (dc_revision s) \<and> (n = 0 \<longrightarrow> keeps s u) \<and>
        n + length (dc_snapshots u) \<le> length (dc_snapshots s) + (c + d))"
    by (intro conjI exI [of _ "k + n"]) (auto intro: keeps_trans)
qed

lemma moves_mono: "moves c s s' \<Longrightarrow> c \<le> d \<Longrightarrow> moves d s s'"
  unfolding moves_def by (meson add_left_mono le_trans)

subsection \<open>Updates in place\<close>

definition same_shape :: "dir_cache \<Rightarrow> dir_cache \<Rightarrow> bool" where
  "same_shape s s' \<longleftrightarrow> map shape (dc_snapshots s') = map shape (dc_snapshots s) \<and> dc_bytesUsed s' = dc_bytesUsed s \<and>
     dc_revision s' = dc_revision s \<and> dc_building s' = dc_building s"

lemma same_shape_refl [simp]: "same_shape s s"
  by (simp add: same_shape_def)

lemma same_shape_trans: "same_shape s t \<Longrightarrow> same_shape t u \<Longrightarrow> same_shape s u"
  by (simp add: same_shape_def)

lemma mem_shapes:
  "map shape xs = map shape ys \<Longrightarrow> x \<in> set xs \<Longrightarrow> \<exists>y \<in> set ys. shape x = shape y"
  by (metis (mono_tags, lifting) imageE image_set imageI)

lemma same_shape_moves: "same_shape s s' \<Longrightarrow> moves 0 s s'"
proof -
  assume s: "same_shape s s'"
  then have m: "map shape (dc_snapshots s') = map shape (dc_snapshots s)" by (simp add: same_shape_def)
  from shapes_eqD [OF m] have o: "owned (dc_snapshots s') = owned (dc_snapshots s)"
    "total_bytes (dc_snapshots s') = total_bytes (dc_snapshots s)" "length (dc_snapshots s') = length (dc_snapshots s)" by auto
  have im: "shape ` set (dc_snapshots s') = shape ` set (dc_snapshots s)" using m by (metis image_set)
  have inv: "dc_inv s'" if "dc_inv s"
  proof -
    have "sn_complete x \<longleftrightarrow> dc_building s \<noteq> Some (sn_addr x)" if x: "x \<in> set (dc_snapshots s')" for x
      using mem_shapes [OF m x] \<open>dc_inv s\<close> shape_eqD by (metis dc_inv_def)
    moreover have "sn_addr ` set (dc_snapshots s') = sn_addr ` set (dc_snapshots s)"
      using im by (metis (no_types, lifting) fst_conv image_cong image_image shape_def)
    ultimately show ?thesis using that s o by (simp add: dc_inv_def same_shape_def)
  qed
  show ?thesis
    unfolding moves_def using inv im s o
    by (intro impI conjI exI [of _ 0]) (auto simp: keeps_def same_shape_def)
qed

lemma on_snapshot_shape: "(\<And>x. shape (f x) = shape x) \<Longrightarrow> same_shape s (on_snapshot a f s)"
  by (simp add: same_shape_def on_snapshot_def)

lemma touch_shape: "same_shape s (touch a s)"
  by (auto simp: same_shape_def touch_def on_snapshot_def Let_def shape_def)

lemma on_entry_shape: "(\<And>e. entry_key (f e) = entry_key e) \<Longrightarrow> same_shape s (on_entry a f s)"
  by (auto simp: same_shape_def on_entry_def shape_def)

lemma find_shape: "same_shape s (snd (findSnapshot path s))" "same_shape s (snd (find_enabled path s))"
  by (auto simp: find_enabled_def findSnapshot_def touch_shape split: option.split)

lemma findFileAt_shape: "same_shape s (snd (findFileAt path n name s))"
  by (auto simp: findFileAt_def touch_shape split: option.split)

lemma reading_shape:
  "same_shape s (snd (dc_contains path s))" "same_shape s (snd (findEntry path name s))"
  "same_shape s (snd (snd (openCursor path s)))"
  using find_shape(2) [of s path] by (auto simp: dc_contains_def findEntry_def openCursor_def Let_def split: prod.split option.split)

lemma update_shape:
  "same_shape s (snd (updateEntrySize path name v s))" "same_shape s (snd (updateEntrySizeAt path n name v s))"
  "same_shape s (snd (updateEntryStampAt path n name d t s))"
proof -
  have k: "entry_key (e\<lparr>de_size := v\<rparr>) = entry_key e"
    "entry_key (e\<lparr>de_writeDate := d, de_writeTime := t\<rparr>) = entry_key e" for e by (simp_all add: entry_key_def)
  show "same_shape s (snd (updateEntrySize path name v s))"
    using find_shape(2) [of s path] same_shape_trans [OF _ on_entry_shape [OF k(1)]]
    by (auto simp: updateEntrySize_def Let_def split: prod.split option.split)
  show "same_shape s (snd (updateEntrySizeAt path n name v s))"
    using findFileAt_shape [of s path n name] same_shape_trans [OF _ on_entry_shape [OF k(1)]]
    by (auto simp: updateEntrySizeAt_def Let_def split: prod.split option.split)
  show "same_shape s (snd (updateEntryStampAt path n name d t s))"
    using findFileAt_shape [of s path n name] same_shape_trans [OF _ on_entry_shape [OF k(2)]]
    by (auto simp: updateEntryStampAt_def Let_def split: prod.split option.split)
qed


subsection \<open>Freeing\<close>

lemma advanceRevision_sel [simp]:
  "dc_snapshots (advanceRevision s) = dc_snapshots s" "dc_building (advanceRevision s) = dc_building s"
  "dc_bytesUsed (advanceRevision s) = dc_bytesUsed s" "dc_revision (advanceRevision s) = rev_next (dc_revision s)"
  "dc_enabled (advanceRevision s) = dc_enabled s"
  by (simp_all add: advanceRevision_def rev_next_def Let_def)

lemma rev_next_nonzero [simp]: "rev_next r \<noteq> 0"
  by (simp add: rev_next_def)

lemma fold_release: "fold (release \<circ> entry_bytes) es s = s\<lparr>dc_bytesUsed := dc_bytesUsed s - sum_list (map entry_bytes es)\<rparr>"
  by (induction es arbitrary: s) (auto simp: release_def)

lemma freeSnapshot_eq: "freeSnapshot x s = s\<lparr>dc_bytesUsed := dc_bytesUsed s - block_bytes x\<rparr>"
  by (simp add: freeSnapshot_def fold_release release_def block_bytes_def)

lemma fold_free: "fold freeSnapshot xs s = s\<lparr>dc_bytesUsed := dc_bytesUsed s - total_bytes xs\<rparr>"
  by (induction xs arbitrary: s) (auto simp: freeSnapshot_eq)

lemma total_split: "total_bytes (filter P xs) + total_bytes (filter (\<lambda>x. \<not> P x) xs) = total_bytes xs"
  by (induction xs) auto

lemma owned_set: "set (owned xs) = (\<Union>x \<in> set xs. insert (sn_addr x) (de_addr ` set (sn_entries x)))"
  by (induction xs) auto

lemma owned_filter_mem: "a \<in> set (owned (filter P xs)) \<Longrightarrow> a \<in> set (owned xs)"
  by (auto simp: owned_set)

lemma owned_filter: "distinct (owned xs) \<Longrightarrow> distinct (owned (filter P xs))"
  by (induction xs) (auto dest: owned_filter_mem)

lemma distinct_sn_addr: "distinct (owned xs) \<Longrightarrow> distinct (map sn_addr xs)"
  by (induction xs) (auto simp: owned_set)

lemma snapshot_unique:
  "distinct (owned xs) \<Longrightarrow> x \<in> set xs \<Longrightarrow> y \<in> set xs \<Longrightarrow> sn_addr x = sn_addr y \<Longrightarrow> x = y"
  using distinct_sn_addr by (metis distinct_map inj_onD)

lemma filter_addr:
  "distinct (owned xs) \<Longrightarrow> v \<in> set xs \<Longrightarrow> filter (\<lambda>x. \<not> sn_addr x \<noteq> sn_addr v) xs = [v]"
proof (induction xs)
  case (Cons x xs)
  show ?case
  proof (cases "x = v")
    case True
    with Cons.prems(1) have "\<forall>y \<in> set xs. sn_addr y \<noteq> sn_addr v" by (auto simp: owned_set)
    with True show ?thesis by (auto simp: filter_empty_conv)
  next
    case False
    then show ?thesis using Cons snapshot_unique [OF Cons.prems(1), of x v] by auto
  qed
qed simp

text \<open>Unlinking and freeing the snapshots outside \<open>P\<close> keeps the invariant.\<close>

lemma inv_filter:
  assumes "dc_inv s" "dc_snapshots s' = filter P (dc_snapshots s)"
    "dc_bytesUsed s' = dc_bytesUsed s - total_bytes (filter (\<lambda>x. \<not> P x) (dc_snapshots s))" "dc_revision s' \<noteq> 0"
    "dc_building s' = dc_building s \<and> (\<forall>x \<in> set (dc_snapshots s). dc_building s = Some (sn_addr x) \<longrightarrow> P x) \<or>
     dc_building s' = None \<and> (\<forall>x \<in> set (dc_snapshots s). P x \<longrightarrow> dc_building s \<noteq> Some (sn_addr x))"
  shows "dc_inv s'"
proof -
  have "dc_bytesUsed s' = total_bytes (dc_snapshots s')"
    using assms(1-3) total_split [of P "dc_snapshots s"] by (simp add: dc_inv_def)
  moreover have "dc_bytesUsed s' \<le> kMaximumBytes" using assms(1,3) unfolding dc_inv_def by linarith
  moreover have "distinct (owned (dc_snapshots s'))" using assms(1,2) owned_filter by (simp add: dc_inv_def)
  ultimately show ?thesis using assms(1,2,4,5) by (cases "dc_building s") (auto simp: dc_inv_def image_iff)
qed

text \<open>Snapshots disappear, but not the one being built, and none is changed.\<close>

definition survives :: "dir_cache \<Rightarrow> dir_cache \<Rightarrow> bool" where
  "survives s s' \<longleftrightarrow> dc_building s' = dc_building s \<and> set (dc_snapshots s') \<subseteq> set (dc_snapshots s) \<and>
     (\<forall>x \<in> set (dc_snapshots s). dc_building s = Some (sn_addr x) \<longrightarrow> x \<in> set (dc_snapshots s'))"

lemma survives_refl [simp]: "survives s s"
  by (simp add: survives_def)

lemma survives_trans: "survives s t \<Longrightarrow> survives t u \<Longrightarrow> survives s u"
  by (auto simp: survives_def)

lemma evict_moves:
  assumes "evictOldest s = (ok, s')"
  shows "moves 0 s s'" "dc_building s' = dc_building s" "dc_enabled s' = dc_enabled s" "survives s s'"
proof -
  have "moves 0 s s' \<and> dc_building s' = dc_building s \<and> dc_enabled s' = dc_enabled s \<and> survives s s'"
  proof (cases "oldest (dc_building s) None (dc_snapshots s)")
    case None
    with assms show ?thesis by (simp add: evictOldest_def)
  next
    case (Some v)
    then have v: "v \<in> set (dc_snapshots s)" using oldest_mem by fastforce
    have nb: "dc_building s \<noteq> Some (sn_addr v)"
    proof -
      have "oldest b w xs = Some v \<Longrightarrow> w = Some v \<or> b \<noteq> Some (sn_addr v)" for b w xs
        by (induction xs arbitrary: w) (auto split: if_splits option.splits)
      with Some show ?thesis by fastforce
    qed
    let ?P = "\<lambda>x. sn_addr x \<noteq> sn_addr v"
    have s': "s' = advanceRevision (freeSnapshot v (unlink (sn_addr v) s))" using assms Some by (simp add: evictOldest_def)
    have sel: "dc_snapshots s' = filter ?P (dc_snapshots s)" "dc_revision s' = rev_next (dc_revision s)"
      "dc_building s' = dc_building s" "dc_enabled s' = dc_enabled s" "dc_bytesUsed s' = dc_bytesUsed s - block_bytes v"
      by (simp_all add: s' freeSnapshot_eq unlink_def)
    have len: "length (dc_snapshots s') < length (dc_snapshots s)"
      unfolding sel using v by (intro length_filter_less) auto
    have "dc_inv s'" if inv: "dc_inv s"
    proof (rule inv_filter [OF inv sel(1)])
      show "dc_bytesUsed s' = dc_bytesUsed s - total_bytes (filter (\<lambda>x. \<not> ?P x) (dc_snapshots s))"
        using filter_addr [OF _ v] inv sel(5) by (simp add: dc_inv_def)
    qed (use nb sel in auto)
    then have "moves 0 s s'" unfolding moves_def using len sel by (intro conjI impI exI [of _ 1]) auto
    then show ?thesis using sel nb by (auto simp: survives_def)
  qed
  then show "moves 0 s s'" "dc_building s' = dc_building s" "dc_enabled s' = dc_enabled s" "survives s s'" by auto
qed

lemma make_room_moves:
  "make_room n s = (ok, s') \<Longrightarrow> moves 0 s s' \<and> dc_building s' = dc_building s \<and> dc_enabled s' = dc_enabled s \<and>
     survives s s' \<and> (ok \<longrightarrow> dc_bytesUsed s' + n \<le> kMaximumBytes)"
proof (induction n s rule: make_room.induct)
  case (1 n s)
  note unf = make_room.simps [of n s]
  show ?case
  proof (cases "dc_bytesUsed s > kMaximumBytes \<or> n > kMaximumBytes - dc_bytesUsed s")
    case False
    with "1.prems" unf show ?thesis by auto
  next
    case True
    obtain k t where e: "evictOldest s = (k, t)" by (cases "evictOldest s")
    note ev = evict_moves [OF e]
    show ?thesis
    proof (cases k)
      case k: True
      with "1.prems" True unf e have "make_room n t = (ok, s')" by simp
      from "1.IH" [OF True e [symmetric] refl k this] ev moves_trans [OF ev(1), of 0] survives_trans [OF ev(4)] show ?thesis by auto
    next
      case k: False
      with "1.prems" True unf e ev show ?thesis by auto
    qed
  qed
qed

text \<open>The block \<open>malloc\<close> returns is not one of those in use.\<close>

definition malloc_law :: "malloc \<Rightarrow> bool" where
  "malloc_law malloc \<longleftrightarrow> (\<forall>live n a. malloc live n = Some a \<longrightarrow> a \<notin> set live)"

lemma allocate_cases:
  assumes "dc_allocate malloc n s = (r, s')" "malloc_law malloc"
  obtains (failed) "r = None" "moves 0 s s'" "dc_building s' = dc_building s"
  | (block) a s1 where "r = Some a" "moves 0 s s1" "s' = s1\<lparr>dc_bytesUsed := dc_bytesUsed s1 + n\<rparr>"
      "dc_bytesUsed s1 + n \<le> kMaximumBytes" "a \<notin> set (owned (dc_snapshots s1))" "dc_building s1 = dc_building s"
      "dc_enabled s1 = dc_enabled s" "dc_enabled s" "survives s s1"
proof (cases "\<not> dc_enabled s \<or> n = 0 \<or> n > kMaximumBytes")
  case True
  with assms(1) failed show thesis by (auto simp: dc_allocate_def)
next
  case False
  obtain ok s1 where m: "make_room n s = (ok, s1)" by (cases "make_room n s")
  note k = make_room_moves [OF m]
  show thesis
  proof (cases "ok \<and> malloc (addresses s1) n \<noteq> None")
    case no: True
    then obtain a where "malloc (addresses s1) n = Some a" by auto
    with assms m False no k block [of a s1] show thesis
      by (auto simp: dc_allocate_def malloc_law_def addresses_owned)
  next
    case False
    with assms(1) m k failed \<open>\<not> (\<not> dc_enabled s \<or> n = 0 \<or> n > kMaximumBytes)\<close> show thesis
      by (auto simp: dc_allocate_def split: option.splits)
  qed
qed

lemma drop_moves: "moves 0 s (drop_snapshots doomed s)"
  and drop_sel: "dc_building (drop_snapshots doomed s) = dc_building s" "dc_enabled (drop_snapshots doomed s) = dc_enabled s"
    "dc_snapshots (drop_snapshots doomed s) =
       filter (\<lambda>x. \<not> (dc_building s \<noteq> Some (sn_addr x) \<and> doomed x)) (dc_snapshots s)"
proof -
  let ?hit = "\<lambda>x. dc_building s \<noteq> Some (sn_addr x) \<and> doomed x"
  let ?t = "drop_snapshots doomed s" and ?P = "\<lambda>x. \<not> ?hit x"
  show sel: "dc_building ?t = dc_building s" "dc_enabled ?t = dc_enabled s" "dc_snapshots ?t = filter ?P (dc_snapshots s)"
    by (simp_all add: drop_snapshots_def Let_def fold_free)
  have used: "dc_bytesUsed ?t = dc_bytesUsed s - total_bytes (filter ?hit (dc_snapshots s))"
    by (simp add: drop_snapshots_def Let_def fold_free)
  have inv: "dc_inv ?t" if "dc_inv s"
  proof (rule inv_filter [OF that sel(3)])
    show "dc_bytesUsed ?t = dc_bytesUsed s - total_bytes (filter (\<lambda>x. \<not> ?P x) (dc_snapshots s))" by (simp add: used)
    show "dc_revision ?t \<noteq> 0" using that by (simp add: drop_snapshots_def Let_def fold_free dc_inv_def)
  qed (use sel in auto)
  show "moves 0 s ?t"
  proof (cases "filter ?hit (dc_snapshots s) = []")
    case True
    then have "filter ?P (dc_snapshots s) = dc_snapshots s" by (auto simp: filter_id_conv filter_empty_conv)
    then show ?thesis unfolding moves_def using inv sel True
      by (intro conjI impI exI [of _ 0]) (auto simp: drop_snapshots_def Let_def keeps_def)
  next
    case False
    then obtain y where "y \<in> set (dc_snapshots s)" "\<not> ?P y" by (auto simp: filter_empty_conv)
    then have "length (dc_snapshots ?t) < length (dc_snapshots s)" unfolding sel by (rule length_filter_less)
    then show ?thesis unfolding moves_def using inv False
      by (intro conjI impI exI [of _ 1]) (auto simp: drop_snapshots_def Let_def fold_free)
  qed
qed


subsection \<open>Every operation\<close>

text \<open>A freshly allocated block becomes a snapshot at the head of the list.\<close>

lemma inv_link:
  assumes "dc_inv s" "a \<notin> set (owned (dc_snapshots s))" "dc_bytesUsed s + snapshot_bytes p \<le> kMaximumBytes"
    "dc_snapshots s' = x # dc_snapshots s" "dc_bytesUsed s' = dc_bytesUsed s + snapshot_bytes p"
    "dc_revision s' = dc_revision s" "sn_addr x = a" "sn_path x = p" "sn_entries x = []" "dc_building s = None"
    "dc_building s' = (if sn_complete x then None else Some a)"
  shows "dc_inv s'"
proof -
  have "block_bytes x = snapshot_bytes p" using assms(8,9) by (simp add: block_bytes_def)
  then show ?thesis using assms by (auto simp: dc_inv_def owned_set)
qed

lemma new_snapshot_cases:
  assumes "new_snapshot malloc p u s = (r, s')" "malloc_law malloc"
  obtains (failed) "r = None" "moves 0 s s'"
  | (linked) a s1 x where "r = Some a" "moves 0 s s1" "dc_building s1 = dc_building s" "dc_snapshots s' = x # dc_snapshots s1"
      "sn_addr x = a" "sn_path x = p" "sn_entries x = []" "sn_complete x = u" "sn_uncacheable x = u"
      "a \<notin> set (owned (dc_snapshots s1))"
      "dc_bytesUsed s1 + snapshot_bytes p \<le> kMaximumBytes" "dc_bytesUsed s' = dc_bytesUsed s1 + snapshot_bytes p"
      "dc_revision s' = dc_revision s1" "dc_building s' = dc_building s1" "dc_enabled s' = dc_enabled s"
      "\<forall>y \<in> set (dc_snapshots s1). dc_building s = Some (sn_addr y) \<or> \<not> same_text (sn_path y) p"
proof -
  let ?i = "dc_invalidate (Some p) s"
  have i: "moves 0 s ?i" "dc_building ?i = dc_building s" "dc_enabled ?i = dc_enabled s"
    "\<forall>y \<in> set (dc_snapshots ?i). dc_building s = Some (sn_addr y) \<or> \<not> same_text (sn_path y) p"
    using drop_moves drop_sel by (auto simp: dc_invalidate_def dc_equalNoCase_def)
  obtain m t where al: "dc_allocate malloc (snapshot_bytes p) ?i = (m, t)" by (cases "dc_allocate malloc (snapshot_bytes p) ?i")
  from al assms(2) show thesis
  proof (cases rule: allocate_cases)
    case failed: failed
    with assms(1) al i moves_trans [OF i(1) failed(2)] \<open>\<lbrakk>r = None; moves 0 s s'\<rbrakk> \<Longrightarrow> thesis\<close> show thesis
      by (simp add: new_snapshot_def)
  next
    case (block a s1)
    from moves_trans [OF i(1) block(2)] have "moves 0 s s1" by simp
    then show thesis
      by (rule linked [of a s1 "\<lparr>sn_addr = a, sn_entries = [], sn_count = 0, sn_lastUse = dc_useCounter t + 1,
           sn_complete = u, sn_uncacheable = u, sn_path = p\<rparr>", rotated])
        (use assms(1) al block i in \<open>auto simp: new_snapshot_def Let_def survives_def\<close>)
  qed
qed

lemma keeps_link: "dc_snapshots s' = x # dc_snapshots s \<Longrightarrow> keeps s s'"
  by (auto simp: keeps_def)

lemma moves_link:
  assumes "moves 0 s s1" "keeps s1 s'" "dc_inv s1 \<Longrightarrow> dc_inv s'" "dc_revision s' = dc_revision s1"
    "length (dc_snapshots s') \<le> length (dc_snapshots s1) + c"
  shows "moves c s s'"
proof -
  have "moves c s1 s'" unfolding moves_def using assms(2-5) by (intro conjI impI exI [of _ 0]) auto
  from moves_trans [OF assms(1) this] show ?thesis by simp
qed

lemma refuses_building: "\<not> refuses_path p s \<Longrightarrow> dc_building s = None"
  by (simp add: refuses_path_def)

lemma mark_moves: "malloc_law malloc \<Longrightarrow> moves 1 s (snd (markUncacheable malloc path s))"
proof (cases path)
  case (Some p)
  assume law: "malloc_law malloc"
  show ?thesis
  proof (cases "refuses_path p s")
    case True
    with Some show ?thesis by (auto simp: markUncacheable_def intro: moves_mono [OF moves_refl])
  next
    case False
    note b = refuses_building [OF False]
    obtain r s' where n: "new_snapshot malloc p True s = (r, s')" by (cases "new_snapshot malloc p True s")
    with False Some have e: "snd (markUncacheable malloc path s) = s'" by (simp add: markUncacheable_def)
    from n law show ?thesis
    proof (cases rule: new_snapshot_cases)
      case failed
      show ?thesis unfolding e by (rule moves_mono [OF failed(2)]) simp
    next
      case (linked a s1 x)
      have "dc_inv s1 \<Longrightarrow> dc_inv s'" by (rule inv_link [of s1 a p s' x]) (use linked b in auto)
      with linked show ?thesis unfolding e by (intro moves_link [of s s1 s'] keeps_link) auto
    qed
  qed
qed (auto simp: markUncacheable_def intro: moves_mono [OF moves_refl])

lemma begin_snapshot_cases:
  assumes "beginSnapshot malloc path s = (ok, s')" "malloc_law malloc"
  obtains (refused) "\<not> ok" "moves 0 s s'"
  | (started) p a s1 x where ok "path = Some p" "moves 0 s s1" "dc_snapshots s' = x # dc_snapshots s1" "dc_building s' = Some a"
     "sn_addr x = a" "sn_path x = p" "sn_entries x = []" "\<not> sn_complete x" "\<not> sn_uncacheable x" "dc_revision s' = dc_revision s1"
     "dc_inv s1 \<Longrightarrow> dc_inv s'" "dc_enabled s'" "\<forall>y \<in> set (dc_snapshots s1). \<not> same_text (sn_path y) p"
     "a \<notin> set (owned (dc_snapshots s1))"
proof (cases path)
  case None
  with assms(1) refused show thesis by (auto simp: beginSnapshot_def)
next
  case (Some p)
  show thesis
  proof (cases "refuses_path p s")
    case True
    with assms(1) Some refused show thesis by (auto simp: beginSnapshot_def)
  next
    case False
    note b = refuses_building [OF False]
    obtain r t where n: "new_snapshot malloc p False s = (r, t)" by (cases "new_snapshot malloc p False s")
    from n assms(2) show thesis
    proof (cases rule: new_snapshot_cases)
      case failed
      with n False Some assms(1) refused show thesis by (auto simp: beginSnapshot_def)
    next
      case (linked a s1 x)
      with n False Some assms(1) have s': "ok" "s' = t\<lparr>dc_building := Some a\<rparr>" by (auto simp: beginSnapshot_def)
      have "dc_inv s1 \<Longrightarrow> dc_inv s'" by (rule inv_link [of s1 a p s' x]) (use linked b s' in auto)
      then show thesis using False by (intro started [of p s1 x a]) (use linked s' Some b in \<open>auto simp: refuses_path_def\<close>)
    qed
  qed
qed

lemma begin_snapshot_moves: "malloc_law malloc \<Longrightarrow> moves 1 s (snd (beginSnapshot malloc path s))"
proof -
  assume law: "malloc_law malloc"
  obtain ok s' where b: "beginSnapshot malloc path s = (ok, s')" by (cases "beginSnapshot malloc path s")
  from b law show ?thesis
  proof (cases rule: begin_snapshot_cases)
    case refused
    show ?thesis using moves_mono [OF refused(2), of 1] by (simp add: b)
  next
    case (started p a s1 x)
    have "moves 1 s s'" by (rule moves_link [of s s1 s']) (use started in \<open>auto intro: keeps_link\<close>)
    then show ?thesis by (simp add: b)
  qed
qed


definition add_entry :: "dir_entry \<Rightarrow> snapshot \<Rightarrow> snapshot" where
  "add_entry e x = x\<lparr>sn_entries := sn_entries x @ [e], sn_count := sn_count x + 1\<rparr>"

lemma add_entry_sel [simp]:
  "sn_addr (add_entry e x) = sn_addr x" "sn_path (add_entry e x) = sn_path x" "sn_complete (add_entry e x) = sn_complete x"
  "sn_uncacheable (add_entry e x) = sn_uncacheable x" "sn_entries (add_entry e x) = sn_entries x @ [e]"
  "block_bytes (add_entry e x) = block_bytes x + entry_bytes e"
  by (simp_all add: add_entry_def block_bytes_def)

lemma owned_add_entry:
  fixes xs :: "snapshot list"
  assumes "distinct (owned xs)" "b \<in> sn_addr ` set xs" "de_addr e \<notin> set (owned xs)"
  defines "ys \<equiv> map (\<lambda>x. if sn_addr x = b then add_entry e x else x) xs"
  shows "distinct (owned ys) \<and> set (owned ys) = insert (de_addr e) (set (owned xs)) \<and>
     total_bytes ys = total_bytes xs + entry_bytes e"
  using assms(1-3) unfolding ys_def
proof (induction xs)
  case (Cons x xs)
  show ?case
  proof (cases "sn_addr x = b")
    case True
    with Cons.prems(1) have "\<forall>y \<in> set xs. sn_addr y \<noteq> b" by (auto simp: owned_set)
    then have "map (\<lambda>x. if sn_addr x = b then add_entry e x else x) xs = xs" by (simp add: map_idI)
    with True Cons.prems show ?thesis by auto
  next
    case False
    with Cons show ?thesis by auto
  qed
qed simp

lemma append_cases:
  assumes "dc_append malloc d v name wd wt s = (ok, s')" "malloc_law malloc"
  obtains (refused) "\<not> ok" "moves 0 s s'"
  | (stored) b a n s1 e where ok "dc_building s = Some b" "name = Some n" "moves 0 s s1" "dc_building s1 = dc_building s"
     "e = \<lparr>de_addr = a, de_size = v, de_writeDate = wd, de_writeTime = wt, de_isDirectory = d, de_name = n\<rparr>"
     "a \<notin> set (owned (dc_snapshots s1))" "dc_bytesUsed s1 + entry_bytes e \<le> kMaximumBytes"
     "s' = on_snapshot b (add_entry e) (s1\<lparr>dc_bytesUsed := dc_bytesUsed s1 + entry_bytes e\<rparr>)" "dc_enabled s1 = dc_enabled s"
     "survives s s1"
proof (cases "dc_building s = None \<or> name = None \<or> name = Some [] \<or> (\<exists>n. name = Some n \<and> length n > 255)")
  case True
  with assms(1) have "\<not> ok" "s' = s" by (auto simp: dc_append_def split: option.splits if_splits prod.splits)
  with refused show thesis by simp
next
  case False
  then obtain b n where bn: "dc_building s = Some b" "name = Some n" "n \<noteq> []" "length n \<le> 255" by fastforce
  obtain r t where al: "dc_allocate malloc (kEntryHeader + length n + 1) s = (r, t)"
    by (cases "dc_allocate malloc (kEntryHeader + length n + 1) s")
  from al assms(2) show thesis
  proof (cases rule: allocate_cases)
    case failed
    with refused assms(1) bn al show thesis by (simp add: dc_append_def)
  next
    case (block a s1)
    then show thesis
      by (intro stored [of b n s1 "\<lparr>de_addr = a, de_size = v, de_writeDate = wd, de_writeTime = wt, de_isDirectory = d, de_name = n\<rparr>" a])
        (use assms(1) bn al block in \<open>auto simp: dc_append_def entry_bytes_def add_entry_def [abs_def]\<close>)
  qed
qed

lemma append_moves: "malloc_law malloc \<Longrightarrow> moves 0 s (snd (dc_append malloc d v name wd wt s))"
proof -
  assume law: "malloc_law malloc"
  obtain ok s' where ap: "dc_append malloc d v name wd wt s = (ok, s')" by (cases "dc_append malloc d v name wd wt s")
  from ap law show ?thesis
  proof (cases rule: append_cases)
    case refused
    then show ?thesis by (simp add: ap)
  next
    case (stored b a n s1 e)
    let ?f = "\<lambda>x. if sn_addr x = b then add_entry e x else x"
    have sel: "dc_snapshots s' = map ?f (dc_snapshots s1)" "dc_building s' = Some b" "dc_revision s' = dc_revision s1"
      "dc_bytesUsed s' = dc_bytesUsed s1 + entry_bytes e" using stored by (simp_all add: on_snapshot_def)
    have "dc_inv s'" if inv: "dc_inv s1"
    proof -
      have "distinct (owned (dc_snapshots s1))" "b \<in> sn_addr ` set (dc_snapshots s1)" "de_addr e \<notin> set (owned (dc_snapshots s1))"
        using inv stored by (auto simp: dc_inv_def)
      note own = owned_add_entry [OF this]
      have f: "sn_addr (?f x) = sn_addr x" "sn_complete (?f x) = sn_complete x" for x by simp_all
      have img: "sn_addr ` set (dc_snapshots s') = sn_addr ` set (dc_snapshots s1)"
        unfolding sel by (simp only: set_map image_image f)
      have "\<forall>y \<in> set (dc_snapshots s'). sn_complete y \<longleftrightarrow> Some b \<noteq> Some (sn_addr y)"
        unfolding sel set_map ball_simps f using inv stored(2,5) by (simp add: dc_inv_def)
      then show ?thesis unfolding dc_inv_def img
        using inv stored(2,5,8) sel own by (simp add: dc_inv_def)
    qed
    moreover have "keeps s1 s'" if inv: "dc_inv s1"
      using inv stored(2,5) sel by (auto simp: dc_inv_def keeps_def)
    ultimately have "moves 0 s1 s'"
      unfolding moves_def using sel by (intro conjI impI exI [of _ 0]) auto
    from moves_trans [OF stored(4) this] show ?thesis by (simp add: ap)
  qed
qed

lemma finish_sel:
  assumes "dc_building s = Some b"
  shows "finishSnapshot s = (True, snd (finishSnapshot s))"
    "dc_snapshots (snd (finishSnapshot s)) = map (\<lambda>x. if sn_addr x = b then x\<lparr>sn_complete := True\<rparr> else x) (dc_snapshots s)"
    "dc_building (snd (finishSnapshot s)) = None" "dc_revision (snd (finishSnapshot s)) = rev_next (dc_revision s)"
    "dc_bytesUsed (snd (finishSnapshot s)) = dc_bytesUsed s" "dc_enabled (snd (finishSnapshot s)) = dc_enabled s"
  using assms by (simp_all add: finishSnapshot_def on_snapshot_def)

lemma complete_same: "owned (map (\<lambda>x. if sn_addr x = b then x\<lparr>sn_complete := True\<rparr> else x) xs) = owned xs \<and>
    total_bytes (map (\<lambda>x. if sn_addr x = b then x\<lparr>sn_complete := True\<rparr> else x) xs) = total_bytes xs"
  by (induction xs) (auto simp: block_bytes_def)

lemma finish_moves: "moves 1 s (snd (finishSnapshot s))"
proof (cases "dc_building s")
  case None
  then show ?thesis using moves_mono [OF moves_refl, of 1] by (simp add: finishSnapshot_def)
next
  case (Some b)
  note sel = finish_sel [OF Some]
  have "dc_inv (snd (finishSnapshot s))" if "dc_inv s"
    using that Some sel complete_same by (auto simp: dc_inv_def)
  then show ?thesis unfolding moves_def using sel by (intro conjI impI exI [of _ 1]) auto
qed

lemma abort_moves: "moves 0 s (abortSnapshot s)"
proof (cases "dc_building s")
  case None
  then show ?thesis by (simp add: abortSnapshot_def)
next
  case (Some b)
  let ?t = "abortSnapshot s" and ?P = "\<lambda>x. sn_addr x \<noteq> b"
  have "dc_inv ?t \<and> keeps s ?t \<and> dc_revision ?t = dc_revision s \<and> length (dc_snapshots ?t) \<le> length (dc_snapshots s)"
    if inv: "dc_inv s"
  proof -
    from inv Some obtain v where v: "v \<in> set (dc_snapshots s)" "sn_addr v = b" by (auto simp: dc_inv_def)
    then obtain x where x: "find (\<lambda>x. sn_addr x = b) (dc_snapshots s) = Some x"
      by (metis (mono_tags, lifting) find_None_iff option.exhaust)
    then have x': "x \<in> set (dc_snapshots s)" "sn_addr x = b" by (auto simp: find_Some_iff)
    have sel: "dc_snapshots ?t = filter ?P (dc_snapshots s)" "dc_building ?t = None" "dc_revision ?t = dc_revision s"
      "dc_bytesUsed ?t = dc_bytesUsed s - block_bytes x"
      using Some x by (simp_all add: abortSnapshot_def freeSnapshot_eq unlink_def)
    have "dc_inv ?t"
    proof (rule inv_filter [OF inv sel(1)])
      show "dc_bytesUsed ?t = dc_bytesUsed s - total_bytes (filter (\<lambda>x. \<not> ?P x) (dc_snapshots s))"
        using filter_addr [OF _ x'(1)] inv sel(4) x'(2) by (simp add: dc_inv_def)
    qed (use inv sel Some in \<open>auto simp: dc_inv_def\<close>)
    moreover have "keeps s ?t" using inv sel Some by (auto simp: keeps_def dc_inv_def)
    ultimately show ?thesis using sel by simp
  qed
  then show ?thesis unfolding moves_def by (intro impI conjI exI [of _ 0]) auto
qed

lemma clear_sel [simp]:
  "dc_snapshots (dc_clear s) = []" "dc_building (dc_clear s) = None" "dc_bytesUsed (dc_clear s) = 0"
  "dc_revision (dc_clear s) = rev_next (dc_revision s)" "dc_enabled (dc_clear s) = False"
  by (simp_all add: dc_clear_def fold_free)

lemma clear_moves: "moves 1 s (dc_clear s)" "moves 1 s (snd (dc_begin psram s))"
  unfolding moves_def by (auto simp: dc_begin_def dc_inv_def intro!: exI [of _ 1])

theorem dir_apply_moves: "malloc_law malloc \<Longrightarrow> moves 1 s (dir_apply malloc op s)"
  using moves_mono [OF same_shape_moves [OF reading_shape(1)], of 1] moves_mono [OF same_shape_moves [OF reading_shape(2)], of 1]
    moves_mono [OF same_shape_moves [OF reading_shape(3)], of 1] moves_mono [OF same_shape_moves [OF update_shape(1)], of 1]
    moves_mono [OF same_shape_moves [OF update_shape(2)], of 1] moves_mono [OF same_shape_moves [OF update_shape(3)], of 1]
    moves_mono [OF drop_moves, of 1] moves_mono [OF abort_moves, of 1] moves_mono [OF append_moves, of malloc 1]
    mark_moves begin_snapshot_moves finish_moves clear_moves moves_mono [OF moves_refl, of 1]
  by (cases op) (simp_all add: dc_invalidate_def invalidateSubtree_def)

lemma dir_run_moves: "malloc_law malloc \<Longrightarrow> moves (length ops) s (dir_run malloc ops s)"
proof (induction ops arbitrary: s)
  case (Cons op ops)
  from moves_trans [OF dir_apply_moves [OF Cons.prems] Cons.IH [OF Cons.prems]] show ?case by (simp add: dir_run_def)
qed (simp add: dir_run_def)

lemma dir_run_append: "dir_run malloc (ops @ others) s = dir_run malloc others (dir_run malloc ops s)"
  by (simp add: dir_run_def)

lemma init_inv [simp]: "dc_inv DirectoryCache_init" "dc_snapshots DirectoryCache_init = []"
  by (simp_all add: dc_inv_def DirectoryCache_init_def)


text \<open>
  C38: The directory cache accounts for its memory exactly. After any history of calls, the bytes it
  has counted are the sizes of the blocks it holds, at most half a megabyte; no block is linked
  twice; exactly one snapshot is incomplete while one is being built, and none otherwise, so that
  eviction and invalidation never take the snapshot under construction.
\<close>

theorem dir_cache_accounting:
  assumes "malloc_law malloc"
  shows "let s = dir_run malloc ops DirectoryCache_init in
     dc_bytesUsed s = total_bytes (dc_snapshots s) \<and> dc_bytesUsed s \<le> kMaximumBytes \<and> distinct (addresses s) \<and>
     (\<forall>x \<in> set (dc_snapshots s). sn_complete x \<longleftrightarrow> dc_building s \<noteq> Some (sn_addr x)) \<and>
     (\<forall>b. dc_building s = Some b \<longrightarrow> b \<in> sn_addr ` set (dc_snapshots s))"
  using dir_run_moves [OF assms, of ops DirectoryCache_init]
  by (simp add: moves_def dc_inv_def [of "dir_run malloc ops DirectoryCache_init"] addresses_owned)

definition counting_malloc :: malloc where
  "counting_malloc live n = Some (Suc (sum_list live))"

lemma counting_malloc_law: "malloc_law counting_malloc"
  using member_le_sum_list by (fastforce simp: malloc_law_def counting_malloc_def)

theorem dir_cache_accounting_witness:
  "let s = dir_run counting_malloc [Begin True, BeginSnapshot (Some [47]), Append False 5 (Some [65]) 0 0] DirectoryCache_init in
     dc_bytesUsed s = total_bytes (dc_snapshots s) \<and> distinct (addresses s)"
  using dir_cache_accounting [OF counting_malloc_law] by (simp add: Let_def)

subsection \<open>Cursors\<close>

lemma rev_next_pow: "r \<noteq> 0 \<Longrightarrow> (rev_next ^^ n) r \<noteq> 0"
  by (cases n) auto

lemma unat_rev_next: "r \<noteq> 0 \<Longrightarrow> unat (rev_next r) = (if unat r = 4294967295 then 1 else unat r + 1)"
proof -
  assume "r \<noteq> 0"
  have "r + 1 = 0 \<longleftrightarrow> unat r = 4294967295"
  proof
    assume "r + 1 = 0"
    then have "r = - 1" by (simp add: add_eq_0_iff2)
    then show "unat r = 4294967295" by (simp add: unsigned_minus_1_eq_mask mask_eq_exp_minus_1)
  next
    assume "unat r = 4294967295"
    then have "unat (r + 1) = 0" by (simp add: unat_word_ariths)
    then show "r + 1 = 0" by (simp add: unsigned_eq_0_iff)
  qed
  moreover have "r + 1 \<noteq> 0 \<Longrightarrow> unat (r + 1) = unat r + 1" by (metis Suc_eq_plus1 add.commute unatSuc)
  ultimately show ?thesis by (simp add: rev_next_def)
qed

lemma unat_rev_pow: "r \<noteq> 0 \<Longrightarrow> unat ((rev_next ^^ n) r) = (unat r - 1 + n) mod 4294967295 + 1"
proof (induction n)
  case 0
  then have "0 < unat r" by (simp add: unat_gt_0)
  then show ?case using unat_u32 [of r] by simp
next
  case (Suc n)
  let ?a = "unat r - 1 + n" and ?M = "4294967295 :: nat"
  have "unat ((rev_next ^^ n) r) = ?a mod ?M + 1" by (rule Suc.IH [OF Suc.prems])
  with unat_rev_next [OF rev_next_pow [OF Suc.prems, of n]]
  have "unat ((rev_next ^^ Suc n) r) = (if Suc (?a mod ?M) = ?M then 1 else Suc (?a mod ?M) + 1)" by simp
  also have "\<dots> = Suc ?a mod ?M + 1" by (simp only: mod_Suc split: if_split) simp
  finally show ?case by simp
qed

text \<open>The revision comes back only after all its values.\<close>

lemma rev_returns:
  assumes "r \<noteq> 0" "n < 4294967295" "(rev_next ^^ n) r = r"
  shows "n = 0"
proof -
  have u: "0 < unat r" "unat r \<le> 4294967295" using assms(1) unat_u32 [of r] by (auto simp: unat_gt_0)
  define k where "k = unat r - 1"
  have "(k + n) mod 4294967295 + 1 = unat r" using unat_rev_pow [OF assms(1), of n] assms(3) by (simp only: k_def)
  then have k: "(k + n) mod 4294967295 = k" "k < 4294967295" using u by (auto simp: k_def)
  show ?thesis
  proof (cases "k + n < 4294967295")
    case True
    with k(1) show ?thesis by simp
  next
    case False
    then have "(k + n) mod 4294967295 = (k + n - 4294967295) mod 4294967295" by (simp add: le_mod_geq)
    also have "\<dots> = k + n - 4294967295" by (rule mod_less) (use False k(2) assms(2) in linarith)
    finally show ?thesis using k(1) assms(2) False by linarith
  qed
qed

text \<open>The entries still to come, by their keys, at a cursor whose revision is current.\<close>

definition position :: "(nat \<times> bool \<times> bytes) list \<Rightarrow> cursor \<Rightarrow> dir_cache \<Rightarrow> bool" where
  "position ks c s \<longleftrightarrow> cu_opened c \<and> cu_revision c = dc_revision s \<and>
     cu_next c = (case ks of [] \<Rightarrow> None | k # rest \<Rightarrow> Some (fst k)) \<and>
     (\<exists>x \<in> set (dc_snapshots s). sn_complete x \<and> (\<exists>pre. map entry_key (sn_entries x) = pre @ ks))"

definition view_key :: "entry_view \<Rightarrow> bool \<times> bytes option" where
  "view_key v = (ev_isDirectory v, ev_name v)"

definition key_view :: "nat \<times> bool \<times> bytes \<Rightarrow> bool \<times> bytes option" where
  "key_view k = (fst (snd k), Some (snd (snd k)))"

lemma position_keeps: "position ks c s \<Longrightarrow> keeps s s' \<Longrightarrow> dc_revision s' = dc_revision s \<Longrightarrow> position ks c s'"
  unfolding position_def keeps_def by (metis (mono_tags, lifting) imageE shape_eqD(3,5))

lemma entry_in_suffix:
  "distinct (map de_addr (pre @ e # es)) \<Longrightarrow> entry_in (de_addr e) (pre @ e # es) = Some (e, first_entry es)"
  by (induction pre) auto

lemma entry_in_none: "a \<notin> de_addr ` set es \<Longrightarrow> entry_in a es = None"
  by (induction es) auto

lemma entry_at_found:
  "distinct (owned xs) \<Longrightarrow> x \<in> set xs \<Longrightarrow> sn_entries x = pre @ e # es \<Longrightarrow> entry_at (de_addr e) xs = Some (e, first_entry es)"
proof (induction xs)
  case (Cons y ys)
  show ?case
  proof (cases "x = y")
    case True
    then have "distinct (map de_addr (pre @ e # es))" using Cons.prems(1,3) by (simp only: owned_simps distinct.simps distinct_append)
    from entry_in_suffix [OF this] Cons.prems(3) True show ?thesis by simp
  next
    case False
    then have x: "x \<in> set ys" using Cons.prems(2) by simp
    then have "de_addr e \<in> set (owned ys)" using Cons.prems(3) by (auto simp: owned_set intro!: bexI [of _ x])
    then have "de_addr e \<notin> de_addr ` set (sn_entries y)" using Cons.prems(1) by auto
    then show ?thesis using Cons x by (simp add: entry_in_none)
  qed
qed simp

lemma position_end: "position [] c s \<Longrightarrow> dc_next c s = Some (None, c)"
  by (simp add: position_def dc_next_def cursorCurrent_def)

lemma position_next:
  assumes "dc_inv s" "position (k # ks) c s"
  obtains v c' where "dc_next c s = Some (Some v, c')" "view_key v = key_view k" "position ks c' s"
proof -
  from assms(2) obtain x pre where x: "x \<in> set (dc_snapshots s)" "sn_complete x" "map entry_key (sn_entries x) = pre @ k # ks"
    by (auto simp: position_def)
  then obtain es1 e es2 where es: "sn_entries x = es1 @ e # es2" "entry_key e = k" "map entry_key es2 = ks"
    by (auto simp: map_eq_append_conv map_eq_Cons_conv)
  have cur: "cursorCurrent c s" "cu_next c = Some (de_addr e)" using assms(2) es(2) by (auto simp: position_def cursorCurrent_def entry_key_def)
  have d: "distinct (owned (dc_snapshots s))" using assms(1) by (simp add: dc_inv_def)
  let ?c = "c\<lparr>cu_next := first_entry es2\<rparr>"
  have "position ks ?c s"
    using assms(2) x es by (auto simp: position_def first_entry_def entry_key_def split: list.split intro!: bexI [of _ x])
  then show thesis
    by (rule that [of "view_of e" ?c, rotated 2])
      (use cur entry_at_found [OF d x(1) es(1)] es(2) in \<open>auto simp: dc_next_def view_key_def key_view_def view_of_def entry_key_def\<close>)
qed


text \<open>Reading with a cursor while other calls happen before each step.\<close>

fun walk :: "malloc \<Rightarrow> dir_op list list \<Rightarrow> cursor \<Rightarrow> dir_cache \<Rightarrow> entry_view list option" where
  "walk malloc [] c s = Some []"
| "walk malloc (ops # rest) c s =
     (let s1 = dir_run malloc ops s
      in case dc_next c s1 of
           None \<Rightarrow> None
         | Some (None, c1) \<Rightarrow> Some []
         | Some (Some v, c1) \<Rightarrow> map_option (Cons v) (walk malloc rest c1 s1))"

lemma walk_position:
  "malloc_law malloc \<Longrightarrow> dc_inv s \<Longrightarrow> position ks c s \<Longrightarrow>
   length (dc_snapshots s) + length (concat opss) < 4294967295 \<Longrightarrow>
   \<exists>vs. walk malloc opss c s = Some vs \<and> prefix (map view_key vs) (map key_view ks)"
proof (induction opss arbitrary: ks c s)
  case (Cons ops rest)
  let ?s1 = "dir_run malloc ops s"
  from dir_run_moves [OF Cons.prems(1), of ops s] Cons.prems(2) obtain n where
    n: "dc_inv ?s1" "dc_revision ?s1 = (rev_next ^^ n) (dc_revision s)" "n = 0 \<longrightarrow> keeps s ?s1"
      "n + length (dc_snapshots ?s1) \<le> length (dc_snapshots s) + length ops"
    by (auto simp: moves_def)
  show ?case
  proof (cases "dc_revision ?s1 = dc_revision s")
    case False
    then have "dc_next c ?s1 = Some (None, c)"
      using Cons.prems(3) by (auto simp: dc_next_def cursorCurrent_def position_def)
    then show ?thesis by (simp add: Let_def)
  next
    case True
    have "dc_revision s \<noteq> 0" using Cons.prems(2) by (simp add: dc_inv_def)
    then have "n = 0" using rev_returns [of "dc_revision s" n] n(2,4) Cons.prems(4) True by simp
    with n True position_keeps [OF Cons.prems(3)] have p: "position ks c ?s1" by simp
    show ?thesis
    proof (cases ks)
      case Nil
      with p show ?thesis by (simp add: position_end Let_def)
    next
      case k: (Cons k ks')
      with p n(1) obtain v c' where v: "dc_next c ?s1 = Some (Some v, c')" "view_key v = key_view k" "position ks' c' ?s1"
        by (auto elim: position_next)
      have "length (dc_snapshots ?s1) + length (concat rest) < 4294967295" using n(4) Cons.prems(4) by simp
      from Cons.IH [OF Cons.prems(1) n(1) v(3) this] obtain vs where
        "walk malloc rest c' ?s1 = Some vs" "prefix (map view_key vs) (map key_view ks')" by blast
      with v k show ?thesis by (simp add: Let_def)
    qed
  qed
qed simp

lemma openCursor_position:
  assumes "openCursor path s = (True, c, s1)"
  obtains x where "findAnySnapshot path s = Some x" "\<not> sn_uncacheable x" "position (map entry_key (sn_entries x)) c s1"
proof -
  obtain f t where f: "find_enabled path s = (f, t)" by (cases "find_enabled path s")
  have oc: "openCursor path s = (case f of None \<Rightarrow> (False, \<lparr>cu_next = None, cu_revision = 0, cu_opened = False\<rparr>, t)
     | Some x \<Rightarrow> (True, \<lparr>cu_next = first_entry (sn_entries x), cu_revision = dc_revision t, cu_opened = True\<rparr>, t))"
    by (simp add: openCursor_def f)
  have "f \<noteq> None" using assms by (cases f) (simp_all only: oc option.case prod.inject, simp_all)
  then obtain y where fy: "f = Some y" by blast
  have "(True, \<lparr>cu_next = first_entry (sn_entries y), cu_revision = dc_revision t, cu_opened = True\<rparr>, t) = (True, c, s1)"
    using assms by (simp only: oc fy option.case)
  then have "c = \<lparr>cu_next = first_entry (sn_entries y), cu_revision = dc_revision t, cu_opened = True\<rparr>" "s1 = t"
    by (metis prod.inject)+
  note y = fy this
  have en: "dc_enabled s" using f y(1) by (cases "dc_enabled s") (simp_all add: find_enabled_def)
  have fs: "findSnapshot path s = (Some y, t)" using f y(1) en by (simp add: find_enabled_def)
  obtain x where fx: "findAnySnapshot path s = Some x"
    using fs by (cases "findAnySnapshot path s") (simp_all add: findSnapshot_def)
  have un: "\<not> sn_uncacheable x" using fs fx by (cases "sn_uncacheable x") (simp_all add: findSnapshot_def)
  have "(Some (x\<lparr>sn_lastUse := dc_useCounter s + 1\<rparr>), touch (sn_addr x) s) = (Some y, t)"
    using fs by (simp only: findSnapshot_def fx un option.case if_False)
  then have "y = x\<lparr>sn_lastUse := dc_useCounter s + 1\<rparr>" "t = touch (sn_addr x) s" by (simp_all only: prod.inject option.inject)
  note this = un this
  note x = fx this
  from x(1) have m: "x \<in> set (dc_snapshots s)" "sn_complete x" by (auto simp: findAnySnapshot_def find_Some_iff)
  have mem: "y \<in> set (dc_snapshots s1)"
    unfolding y(3) x(4) touch_def Let_def on_snapshot_def using m(1) x(3) by (auto intro!: image_eqI [of _ _ x])
  have ent: "sn_entries y = sn_entries x" "sn_complete y" using x(3) m(2) by simp_all
  have "cu_next c = (case map entry_key (sn_entries x) of [] \<Rightarrow> None | k # rest \<Rightarrow> Some (fst k))"
    using y(2) ent by (auto simp: first_entry_def entry_key_def split: list.split)
  moreover have "cu_opened c" "cu_revision c = dc_revision s1" using y by simp_all
  ultimately have "position (map entry_key (sn_entries x)) c s1"
    unfolding position_def using mem ent by (intro conjI bexI [of _ y] exI [of _ "[]"]) auto
  with x that show thesis by blast
qed

text \<open>
  C36: A cursor is safe against everything that may happen while it is open. After any history of
  calls, a cursor opened on a directory and read with any further calls in between -- builds,
  evictions, invalidations, size updates, a restart of the cache -- never follows a pointer to a
  freed block, and what it yields is an initial part of the entries of the directory it was
  opened on, in order; this holds as long as fewer than 2^32 - 1 calls are made, before the
  revision counter can come back to an old value.
\<close>

theorem dir_cursor_safe:
  assumes "malloc_law malloc" "openCursor path (dir_run malloc ops DirectoryCache_init) = (True, c, s)"
    "length ops + length (concat opss) < 2 ^ 32 - 1"
  shows "\<exists>x vs. findAnySnapshot path (dir_run malloc ops DirectoryCache_init) = Some x \<and> walk malloc opss c s = Some vs \<and>
     prefix (map view_key vs) (map (key_view \<circ> entry_key) (sn_entries x))"
proof -
  let ?s = "dir_run malloc ops DirectoryCache_init"
  obtain x where x: "findAnySnapshot path ?s = Some x" "position (map entry_key (sn_entries x)) c s"
    by (rule openCursor_position [OF assms(2)])
  have "same_shape ?s s" using reading_shape(3) [of ?s path] assms(2) by simp
  then have m: "moves 0 ?s s" by (rule same_shape_moves)
  with moves_trans [OF dir_run_moves [OF assms(1)] this] have "dc_inv s" "length (dc_snapshots s) \<le> length ops"
    by (auto simp: moves_def)
  with walk_position [OF assms(1) _ x(2), of opss] assms(3) x(1) show ?thesis by (fastforce simp: comp_def)
qed

definition demo_dir :: "dir_op list" where
  "demo_dir = [Begin True, BeginSnapshot (Some [47]), Append False 5 (Some [65]) 0 0, Append True 0 (Some [66]) 0 0, FinishSnapshot]"

theorem dir_cursor_safe_witness:
  "\<exists>c s (x :: snapshot) vs. openCursor (Some [47]) (dir_run counting_malloc demo_dir DirectoryCache_init) = (True, c, s) \<and>
     walk counting_malloc [[UpdateEntrySize (Some [47]) (Some [65]) 9], [Invalidate (Some [47])]] c s = Some vs \<and>
     prefix (map view_key vs) (map (key_view \<circ> entry_key) (sn_entries x))"
proof -
  have room: "make_room n s = (True, s)" if "dc_bytesUsed s + n \<le> kMaximumBytes" for n s
    using that by (subst make_room.simps) auto
  have "fst (openCursor (Some [47]) (dir_run counting_malloc demo_dir DirectoryCache_init))"
    by (simp add: demo_dir_def dir_run_def dc_begin_def beginSnapshot_def refuses_path_def new_snapshot_def dc_invalidate_def
        drop_snapshots_def dc_allocate_def room kMaximumBytes_def kSnapshotHeader_def kEntryHeader_def snapshot_bytes_def
        counting_malloc_def addresses_owned dc_append_def on_snapshot_def finishSnapshot_def openCursor_def find_enabled_def
        findSnapshot_def findAnySnapshot_def dc_equalNoCase_def Let_def)
  then obtain c s where c: "openCursor (Some [47]) (dir_run counting_malloc demo_dir DirectoryCache_init) = (True, c, s)"
    by (cases "openCursor (Some [47]) (dir_run counting_malloc demo_dir DirectoryCache_init)") auto
  have "length demo_dir + length (concat [[UpdateEntrySize (Some [47]) (Some [65]) 9], [Invalidate (Some [47])]]) < 2 ^ 32 - 1"
    by (simp add: demo_dir_def)
  from dir_cursor_safe [OF counting_malloc_law c this] c show ?thesis by blast
qed

subsection \<open>A snapshot is read back\<close>

lemma same_text_fold: "same_text a b \<longleftrightarrow> map fold_case a = map fold_case b"
  by (induction a b rule: same_text.induct) auto

fun append_all :: "malloc \<Rightarrow> (bool \<times> u32 \<times> bytes \<times> u16 \<times> u16) list \<Rightarrow> dir_cache \<Rightarrow> bool \<times> dir_cache" where
  "append_all malloc [] s = (True, s)"
| "append_all malloc ((d, v, name, wd, wt) # es) s =
     (let (ok, s1) = dc_append malloc d v (Some name) wd wt s in if ok then append_all malloc es s1 else (False, s1))"

definition item_view :: "bool \<times> u32 \<times> bytes \<times> u16 \<times> u16 \<Rightarrow> entry_view" where
  "item_view = (\<lambda>(d, v, name, wd, wt). \<lparr>ev_isDirectory = d, ev_size = v, ev_writeDate = wd, ev_writeTime = wt, ev_name = Some name\<rparr>)"

text \<open>The snapshot of \<open>p\<close> under construction holds the entries so far, and no other is of \<open>p\<close>.\<close>

definition building :: "bytes \<Rightarrow> entry_view list \<Rightarrow> dir_cache \<Rightarrow> bool" where
  "building p vs s \<longleftrightarrow> dc_inv s \<and> dc_enabled s \<and> (\<exists>x \<in> set (dc_snapshots s). dc_building s = Some (sn_addr x) \<and>
     \<not> sn_uncacheable x \<and> sn_path x = p \<and> map view_of (sn_entries x) = vs \<and>
     (\<forall>y \<in> set (dc_snapshots s). y \<noteq> x \<longrightarrow> \<not> same_text (sn_path y) p))"

lemma building_survives:
  assumes "building p vs s" "survives s s'" "dc_inv s'" "dc_enabled s' = dc_enabled s"
  shows "building p vs s'"
  using assms unfolding building_def survives_def by fastforce

lemma building_append:
  assumes "building p vs s" "dc_append malloc d v (Some name) wd wt s = (True, s')" "malloc_law malloc"
  shows "building p (vs @ [item_view (d, v, name, wd, wt)]) s'"
  using assms(2,3)
proof (cases rule: append_cases)
  case (stored b a n s1 e)
  have inv: "dc_inv s" using assms(1) by (simp add: building_def)
  have i1: "dc_inv s1" using stored(4) inv by (simp add: moves_def)
  have i2: "dc_inv s'" using append_moves [OF assms(3), of s d v "Some name" wd wt] inv assms(2) by (simp add: moves_def)
  from building_survives [OF assms(1) stored(11) i1 stored(10)] obtain x where
    x: "x \<in> set (dc_snapshots s1)" "dc_building s1 = Some (sn_addr x)" "\<not> sn_uncacheable x" "sn_path x = p"
      "map view_of (sn_entries x) = vs" "dc_enabled s1" "\<forall>y \<in> set (dc_snapshots s1). y \<noteq> x \<longrightarrow> \<not> same_text (sn_path y) p"
    by (auto simp: building_def)
  have b: "b = sn_addr x" using stored(2,5) x(2) by simp
  let ?f = "\<lambda>y. if sn_addr y = b then add_entry e y else y"
  have sel: "dc_snapshots s' = map ?f (dc_snapshots s1)" "dc_building s' = Some b" "dc_enabled s'"
    using stored x by (simp_all add: on_snapshot_def)
  have d: "distinct (owned (dc_snapshots s1))" using i1 by (simp add: dc_inv_def)
  have oth: "\<forall>y \<in> set (dc_snapshots s'). y \<noteq> add_entry e x \<longrightarrow> \<not> same_text (sn_path y) p"
  proof (intro ballI impI)
    fix y assume "y \<in> set (dc_snapshots s')" "y \<noteq> add_entry e x"
    then obtain z where z: "z \<in> set (dc_snapshots s1)" "y = ?f z" unfolding sel by auto
    then have "z \<noteq> x" using \<open>y \<noteq> add_entry e x\<close> b by auto
    then have "sn_addr z \<noteq> b" using snapshot_unique [OF d z(1) x(1)] b by blast
    then show "\<not> same_text (sn_path y) p" using z x(7) \<open>z \<noteq> x\<close> by simp
  qed
  have "add_entry e x \<in> set (dc_snapshots s')" unfolding sel using x(1) b by (auto intro!: image_eqI [of _ _ x])
  then show ?thesis
    unfolding building_def using i2 sel oth x b stored(3,6)
    by (auto simp: view_of_def item_view_def intro!: bexI [of _ "add_entry e x"])
qed simp

lemma building_append_all:
  "building p vs s \<Longrightarrow> append_all malloc es s = (True, s') \<Longrightarrow> malloc_law malloc \<Longrightarrow> building p (vs @ map item_view es) s'"
proof (induction es arbitrary: vs s)
  case (Cons e es)
  obtain d v name wd wt where e: "e = (d, v, name, wd, wt)" by (cases e)
  obtain ok s1 where a: "dc_append malloc d v (Some name) wd wt s = (ok, s1)" by (cases "dc_append malloc d v (Some name) wd wt s")
  with Cons.prems(2) e have ok: ok "append_all malloc es s1 = (True, s')" by (auto split: if_splits)
  from building_append [OF Cons.prems(1) a [unfolded eqTrueI [OF ok(1)]] Cons.prems(3)] have
    "building p (vs @ [item_view e]) s1" by (simp add: e)
  from Cons.IH [OF this ok(2) Cons.prems(3)] show ?case by simp
qed simp


lemma walk_still:
  "dc_inv s \<Longrightarrow> x \<in> set (dc_snapshots s) \<Longrightarrow> sn_entries x = pre @ es \<Longrightarrow> cursorCurrent c s \<Longrightarrow> cu_next c = first_entry es \<Longrightarrow>
   walk malloc (replicate n []) c s = Some (map view_of (take n es))"
proof (induction n arbitrary: pre es c)
  case (Suc n)
  have d: "distinct (owned (dc_snapshots s))" using Suc.prems(1) by (simp add: dc_inv_def)
  show ?case
  proof (cases es)
    case Nil
    with Suc.prems show ?thesis by (simp add: dir_run_def dc_next_def first_entry_def)
  next
    case (Cons e rest)
    let ?c = "c\<lparr>cu_next := first_entry rest\<rparr>"
    have "entry_at (de_addr e) (dc_snapshots s) = Some (e, first_entry rest)"
      by (rule entry_at_found [OF d Suc.prems(2), of pre]) (simp add: Suc.prems(3) Cons)
    then have nxt: "dc_next c s = Some (Some (view_of e), ?c)"
      using Suc.prems(4,5) Cons by (simp add: dc_next_def first_entry_def)
    have "walk malloc (replicate n []) ?c s = Some (map view_of (take n rest))"
      by (rule Suc.IH [of "pre @ [e]" rest ?c]) (use Suc.prems Cons in \<open>auto simp: cursorCurrent_def\<close>)
    with nxt Cons show ?thesis by (simp add: dir_run_def)
  qed
qed simp

lemma find_unique: "x \<in> set xs \<Longrightarrow> P x \<Longrightarrow> (\<And>y. y \<in> set xs \<Longrightarrow> P y \<Longrightarrow> y = x) \<Longrightarrow> find P xs = Some x"
proof (cases "find P xs")
  case None
  assume "x \<in> set xs" "P x"
  with None show ?thesis by (simp add: find_None_iff)
next
  case (Some z)
  then have z: "z \<in> set xs" "P z" by (auto simp: find_Some_iff)
  assume "\<And>y. y \<in> set xs \<Longrightarrow> P y \<Longrightarrow> y = x"
  from this [OF z] Some show ?thesis by simp
qed

lemma find_map_view: "map_option view_of (find (\<lambda>e. same_text (de_name e) n) es) =
    find (\<lambda>v. \<exists>m. ev_name v = Some m \<and> same_text m n) (map view_of es)"
  by (induction es) (auto simp: view_of_def)

text \<open>
  C37: A directory that was cached completely is read back exactly. When \<open>beginSnapshot\<close> of a path,
  every \<open>append\<close> and \<open>finishSnapshot\<close> succeed -- however many other snapshots are evicted on the
  way -- then the path, in any case of its letters, opens a cursor that yields exactly the
  appended entries in order and then ends, and \<open>findEntry\<close> of a name gives the first entry of that
  name, again in any case.
\<close>

theorem dir_snapshot_roundtrip:
  assumes "malloc_law malloc" "beginSnapshot malloc (Some p) (dir_run malloc ops DirectoryCache_init) = (True, s1)"
    "append_all malloc es s1 = (True, s2)" "same_text p q"
  shows "\<exists>s3 c s4. finishSnapshot s2 = (True, s3) \<and> openCursor (Some q) s3 = (True, c, s4) \<and>
     walk malloc (replicate n []) c s4 = Some (take n (map item_view es)) \<and>
     fst (findEntry (Some q) (Some name) s3) = find (\<lambda>v. \<exists>m. ev_name v = Some m \<and> same_text m name) (map item_view es)"
proof -
  let ?s = "dir_run malloc ops DirectoryCache_init"
  have inv: "dc_inv ?s" using dir_run_moves [OF assms(1), of ops DirectoryCache_init] by (simp add: moves_def)
  have "building p [] s1"
    using assms(2,1)
  proof (cases rule: begin_snapshot_cases)
    case (started p' a t x)
    then have "dc_inv s1" using inv by (simp add: moves_def)
    with started show ?thesis by (auto simp: building_def intro!: bexI [of _ x])
  qed simp
  from building_append_all [OF this assms(3,1)] obtain x where
    b: "dc_inv s2" "dc_enabled s2" "x \<in> set (dc_snapshots s2)" "dc_building s2 = Some (sn_addr x)" "\<not> sn_uncacheable x"
      "sn_path x = p" "map view_of (sn_entries x) = map item_view es"
      "\<forall>y \<in> set (dc_snapshots s2). y \<noteq> x \<longrightarrow> \<not> same_text (sn_path y) p"
    by (auto simp: building_def)
  note fin = finish_sel [OF b(4)]
  let ?s3 = "snd (finishSnapshot s2)" and ?x = "x\<lparr>sn_complete := True\<rparr>"
  let ?y = "?x\<lparr>sn_lastUse := dc_useCounter ?s3 + 1\<rparr>" and ?s4 = "touch (sn_addr x) ?s3"
  have inv3: "dc_inv ?s3" using finish_moves [of s2] b(1) by (simp add: moves_def)
  have inv4: "dc_inv ?s4" using same_shape_moves [OF touch_shape, of ?s3 "sn_addr x"] inv3 by (simp add: moves_def)
  have mem: "?x \<in> set (dc_snapshots ?s3)" unfolding fin(2) using b(3) by (auto intro!: image_eqI [of _ _ x])
  have any: "findAnySnapshot (Some q) ?s3 = Some ?x"
    unfolding findAnySnapshot_def
  proof (rule find_unique [OF mem])
    show "sn_complete ?x \<and> dc_equalNoCase (Some (sn_path ?x)) (Some q)" using b(6) assms(4) by (simp add: dc_equalNoCase_def)
    fix y assume y: "y \<in> set (dc_snapshots ?s3)" "sn_complete y \<and> dc_equalNoCase (Some (sn_path y)) (Some q)"
    then obtain z where z: "z \<in> set (dc_snapshots s2)" "y = (if sn_addr z = sn_addr x then z\<lparr>sn_complete := True\<rparr> else z)"
      unfolding fin(2) by auto
    have "same_text (sn_path z) p" using y(2) z(2) assms(4) by (auto simp: dc_equalNoCase_def same_text_fold split: if_splits)
    then have "z = x" using b(8) z(1) by blast
    then show "y = ?x" using z(2) by simp
  qed
  then have fs: "find_enabled (Some q) ?s3 = (Some ?y, ?s4)"
    using fin(6) b(2,5) by (simp add: find_enabled_def findSnapshot_def)
  let ?c = "\<lparr>cu_next = first_entry (sn_entries x), cu_revision = dc_revision ?s4, cu_opened = True\<rparr>"
  have oc: "openCursor (Some q) ?s3 = (True, ?c, ?s4)" by (simp add: openCursor_def fs)
  have mem4: "?y \<in> set (dc_snapshots ?s4)"
    unfolding touch_def Let_def on_snapshot_def using mem by (auto intro!: image_eqI [of _ _ ?x])
  have "walk malloc (replicate n []) ?c ?s4 = Some (map view_of (take n (sn_entries x)))"
    by (rule walk_still [OF inv4 mem4, of "[]"]) (simp_all add: cursorCurrent_def)
  then have "walk malloc (replicate n []) ?c ?s4 = Some (take n (map item_view es))" by (simp add: take_map [symmetric] b(7))
  moreover have "fst (findEntry (Some q) (Some name) ?s3) = find (\<lambda>v. \<exists>m. ev_name v = Some m \<and> same_text m name) (map item_view es)"
    by (simp add: findEntry_def fs find_map_view b(7))
  ultimately show ?thesis using fin(1) oc by blast
qed

theorem dir_snapshot_roundtrip_witness:
  "\<exists>s1 s2 s3 c s4. beginSnapshot counting_malloc (Some [47]) (dir_run counting_malloc [Begin True] DirectoryCache_init) = (True, s1) \<and>
     append_all counting_malloc [(False, 5, [65], 0, 0), (True, 0, [66], 0, 0)] s1 = (True, s2) \<and>
     openCursor (Some [47]) s3 = (True, c, s4) \<and>
     walk counting_malloc (replicate 3 []) c s4 = Some (map item_view [(False, 5, [65], 0, 0), (True, 0, [66], 0, 0)])"
proof -
  have room: "make_room n s = (True, s)" if "dc_bytesUsed s + n \<le> kMaximumBytes" for n s
    using that by (subst make_room.simps) auto
  let ?es = "[(False, 5, [65], 0, 0), (True, 0, [66], 0, 0)]"
  obtain ok s1 where s1: "beginSnapshot counting_malloc (Some [47]) (dir_run counting_malloc [Begin True] DirectoryCache_init) = (ok, s1)"
    by (cases "beginSnapshot counting_malloc (Some [47]) (dir_run counting_malloc [Begin True] DirectoryCache_init)")
  obtain ok2 s2 where s2: "append_all counting_malloc ?es s1 = (ok2, s2)" by (cases "append_all counting_malloc ?es s1")
  have "fst (beginSnapshot counting_malloc (Some [47]) (dir_run counting_malloc [Begin True] DirectoryCache_init)) \<and>
    fst (append_all counting_malloc ?es (snd (beginSnapshot counting_malloc (Some [47]) (dir_run counting_malloc [Begin True] DirectoryCache_init))))"
    by (simp add: dir_run_def dc_begin_def beginSnapshot_def refuses_path_def new_snapshot_def dc_invalidate_def
        drop_snapshots_def dc_allocate_def room kMaximumBytes_def kSnapshotHeader_def kEntryHeader_def snapshot_bytes_def
        counting_malloc_def addresses_owned dc_append_def on_snapshot_def Let_def)
  then have ok: "ok = True" "ok2 = True" using s1 s2 by auto
  from dir_snapshot_roundtrip [OF counting_malloc_law s1 [unfolded ok] s2 [unfolded ok], of "[47]" 3 "[]"]
  obtain s3 c s4 where "openCursor (Some [47]) s3 = (True, c, s4)"
    "walk counting_malloc (replicate 3 []) c s4 = Some (take 3 (map item_view ?es))" by auto
  then show ?thesis using s1 s2 ok by auto
qed

end
