(* ===== verification/ConfigStore.thy ===== *)
theory ConfigStore
  imports Protocol
begin

text \<open>
  \<open>src/config_store.cpp\<close>: the copy of \<open>zifi.ini\<close> in the flash of the adapter. LittleFS is a record
  of functions on its state \<open>'f\<close>; a file that is open for writing is known by its path.
  \<open>lfs_law\<close> states what LittleFS documents, together with a loss of power at any moment: after it
  the state is not alive and no call changes the files any more.
\<close>

subsection \<open>The file system\<close>

record 'f lfs =
  lf_mount :: "'f \<Rightarrow> bool \<times> 'f"
  lf_format :: "'f \<Rightarrow> bool \<times> 'f"
  lf_end :: "'f \<Rightarrow> 'f"
  lf_read :: "string \<Rightarrow> 'f \<Rightarrow> bytes option"
  lf_create :: "string \<Rightarrow> 'f \<Rightarrow> bool \<times> 'f"
  lf_write :: "string \<Rightarrow> bytes \<Rightarrow> 'f \<Rightarrow> nat \<times> 'f"
  lf_flush :: "string \<Rightarrow> 'f \<Rightarrow> 'f"
  lf_close :: "string \<Rightarrow> 'f \<Rightarrow> 'f"
  lf_remove :: "string \<Rightarrow> 'f \<Rightarrow> bool \<times> 'f"
  lf_exists :: "string \<Rightarrow> 'f \<Rightarrow> bool"
  lf_rename :: "string \<Rightarrow> string \<Rightarrow> 'f \<Rightarrow> bool \<times> 'f"

subsection \<open>The store\<close>

definition kConfigPath :: string where "kConfigPath = ''/zifi.cfg''"
definition kNewPath :: string where "kNewPath = ''/zifi.new''"
definition kBackupPath :: string where "kBackupPath = ''/zifi.bak''"
definition kMagic :: bytes where "kMagic = [90, 67, 70, 71]"
definition kFormatVersion :: u16 where "kFormatVersion = 1"
definition kHeaderSize :: nat where "kHeaderSize = 12"
definition kMaxIniSize :: nat where "kMaxIniSize = 1024"

datatype ConfigSaveResult = kUnchanged | kWritten | kSaveError

record config_store =
  cs_available :: bool
  cs_valid :: bool
  cs_checksum :: u32
  cs_length :: u16

definition ConfigStore_init :: config_store where
  "ConfigStore_init = \<lparr>cs_available = False, cs_valid = False, cs_checksum = 0, cs_length = 0\<rparr>"

text \<open>The message is the second result of every operation.\<close>

definition cs_begin :: "'f lfs \<Rightarrow> config_store \<Rightarrow> 'f \<Rightarrow> bool \<times> string \<times> config_store \<times> 'f" where
  "cs_begin fs s f =
     (let (mounted, f1) = lf_mount fs f
      in if mounted then (True, '''', s\<lparr>cs_available := True\<rparr>, lf_end fs f1)
         else
           let (formatted, f2) = lf_format fs f1
           in if \<not> formatted then (False, ''config fs format'', s, f2)
              else
                let (again, f3) = lf_mount fs f2
                in if \<not> again then (False, ''config fs mount'', s, f3)
                   else (True, '''', s\<lparr>cs_available := True\<rparr>, lf_end fs f3))"

text \<open>The checks of \<open>loadPath\<close> on the content of a file that could be opened.\<close>

definition parse_stored :: "nat \<Rightarrow> bytes \<Rightarrow> (bytes \<times> u32) option" where
  "parse_stored capacity content =
     (let header = take kHeaderSize content
      in if length header \<noteq> kHeaderSize \<or> take 4 header \<noteq> kMagic \<or> readLe16 (drop 4 header) \<noteq> kFormatVersion then None
         else
           let storedLength = unat (readLe16 (drop 6 header)); storedChecksum = readLe32 (drop 8 header)
           in if storedLength > kMaxIniSize \<or> storedLength > capacity \<or> length content \<noteq> kHeaderSize + storedLength then None
              else
                let data = take storedLength (drop kHeaderSize content)
                in if length data \<noteq> storedLength \<or> crc32IsoHdlc data \<noteq> storedChecksum then None
                   else Some (data, storedChecksum))"

definition loadPath :: "'f lfs \<Rightarrow> string \<Rightarrow> nat \<Rightarrow> 'f \<Rightarrow> (bytes \<times> u32) option" where
  "loadPath fs path capacity f = Option.bind (lf_read fs path f) (parse_stored capacity)"

fun first_stored :: "(string \<Rightarrow> (bytes \<times> u32) option) \<Rightarrow> string list \<Rightarrow> (bytes \<times> u32) option" where
  "first_stored attempt [] = None"
| "first_stored attempt (p # ps) = (case attempt p of None \<Rightarrow> first_stored attempt ps | Some r \<Rightarrow> Some r)"

text \<open>\<open>capacity\<close> is the size of the output buffer, \<open>None\<close> the null pointer.\<close>

definition cs_load :: "'f lfs \<Rightarrow> nat option \<Rightarrow> config_store \<Rightarrow> 'f \<Rightarrow> bytes option \<times> string \<times> config_store \<times> 'f" where
  "cs_load fs output s0 f =
     (let s = s0\<lparr>cs_valid := False\<rparr>
      in case output of
           None \<Rightarrow> (None, ''config store unavailable'', s, f)
         | Some capacity \<Rightarrow>
             if \<not> cs_available s \<or> capacity < kMaxIniSize then (None, ''config store unavailable'', s, f)
             else
               let (mounted, f1) = lf_mount fs f
               in if \<not> mounted then (None, ''config fs remount'', s, f1)
                  else
                    let found = first_stored (\<lambda>p. loadPath fs p capacity f1) [kConfigPath, kBackupPath, kNewPath];
                        f2 = lf_end fs f1
                    in case found of
                         None \<Rightarrow> (None, ''no saved config'', s, f2)
                       | Some (data, checksum) \<Rightarrow>
                           (Some data, '''', s\<lparr>cs_checksum := checksum, cs_length := of_nat (length data), cs_valid := True\<rparr>, f2))"

definition store_header :: "nat \<Rightarrow> u32 \<Rightarrow> bytes" where
  "store_header len checksum = kMagic @ writeLe16 kFormatVersion @ writeLe16 (of_nat len) @ writeLe32 checksum"

text \<open>
  The first half of \<open>writeNewFile\<close>: the new file beside the old one. The data is written only
  after the whole header, because of \<open>&&\<close>.
\<close>

definition write_new :: "'f lfs \<Rightarrow> bytes \<Rightarrow> u32 \<Rightarrow> 'f \<Rightarrow> bool \<times> 'f" where
  "write_new fs data checksum f =
     (let header = store_header (length data) checksum; (n, f1) = lf_write fs kNewPath header f;
          (m, f2) = (if n = length header then lf_write fs kNewPath data f1 else (0, f1));
          f3 = lf_close fs kNewPath (lf_flush fs kNewPath f2)
      in (n = length header \<and> m = length data, f3))"

text \<open>The second half: the two renames.\<close>

definition replace_config :: "'f lfs \<Rightarrow> 'f \<Rightarrow> bool \<times> string \<times> 'f" where
  "replace_config fs f =
     (let f1 = snd (lf_remove fs kBackupPath f); hadOld = lf_exists fs kConfigPath f1;
          (saved, f2) = (if hadOld then lf_rename fs kConfigPath kBackupPath f1 else (True, f1))
      in if \<not> saved then (False, ''config backup rename'', snd (lf_remove fs kNewPath f2))
         else
           let (committed, f3) = lf_rename fs kNewPath kConfigPath f2
           in if \<not> committed
              then (False, ''config commit rename'', if hadOld then snd (lf_rename fs kBackupPath kConfigPath f3) else f3)
              else (True, '''', snd (lf_remove fs kBackupPath f3)))"

definition writeNewFile :: "'f lfs \<Rightarrow> bytes \<Rightarrow> u32 \<Rightarrow> 'f \<Rightarrow> bool \<times> string \<times> 'f" where
  "writeNewFile fs data checksum f =
     (let f1 = snd (lf_remove fs kNewPath f); (opened, f2) = lf_create fs kNewPath f1
      in if \<not> opened then (False, ''config open new'', f2)
         else
           let (written, f3) = write_new fs data checksum f2
           in if \<not> written then (False, ''config short write'', snd (lf_remove fs kNewPath f3))
              else replace_config fs f3)"

definition saveIfChanged :: "'f lfs \<Rightarrow> bytes option \<Rightarrow> config_store \<Rightarrow> 'f \<Rightarrow>
    ConfigSaveResult \<times> string \<times> config_store \<times> 'f" where
  "saveIfChanged fs input s f =
     (case input of None \<Rightarrow> (kSaveError, ''config save range'', s, f)
      | Some data \<Rightarrow>
          if \<not> cs_available s \<or> length data = 0 \<or> length data > kMaxIniSize
          then (kSaveError, ''config save range'', s, f)
          else
            let nextChecksum = crc32IsoHdlc data
            in if cs_valid s \<and> cs_checksum s = nextChecksum \<and> unat (cs_length s) = length data
               then (kUnchanged, '''', s, f)
               else
                 let (mounted, f1) = lf_mount fs f
                 in if \<not> mounted then (kSaveError, ''config fs remount'', s, f1)
                    else
                      let (written, message, f2) = writeNewFile fs data nextChecksum f1; f3 = lf_end fs f2
                      in if \<not> written then (kSaveError, message, s, f3)
                         else (kWritten, message,
                               s\<lparr>cs_checksum := nextChecksum, cs_length := of_nat (length data), cs_valid := True\<rparr>, f3))"

subsection \<open>What LittleFS documents\<close>

text \<open>
  Every call leaves the files alone once the power is lost. Removing and renaming happen as a whole
  or not at all, and their answer is right while there is power; creating and writing touch
  no other file; a file that was created, written completely and closed under power holds what
  was written.
\<close>

definition outage :: "('f \<Rightarrow> bool) \<Rightarrow> ('f \<Rightarrow> string \<Rightarrow> bytes option) \<Rightarrow> 'f \<Rightarrow> 'f \<Rightarrow> bool" where
  "outage alive files f g \<longleftrightarrow> (alive g \<longrightarrow> alive f) \<and> (\<not> alive f \<longrightarrow> files g = files f)"

definition only :: "('f \<Rightarrow> string \<Rightarrow> bytes option) \<Rightarrow> string \<Rightarrow> 'f \<Rightarrow> 'f \<Rightarrow> bool" where
  "only files p f g \<longleftrightarrow> (\<forall>q. q \<noteq> p \<longrightarrow> files g q = files f q)"

definition moved :: "string \<Rightarrow> string \<Rightarrow> (string \<Rightarrow> bytes option) \<Rightarrow> string \<Rightarrow> bytes option" where
  "moved a b m = m(b := m a, a := None)"

definition lfs_law :: "'f lfs \<Rightarrow> ('f \<Rightarrow> bool) \<Rightarrow> ('f \<Rightarrow> string \<Rightarrow> bytes option) \<Rightarrow> bool" where
  "lfs_law fs alive files \<longleftrightarrow>
     (\<forall>f ok g. lf_mount fs f = (ok, g) \<longrightarrow> outage alive files f g \<and> files g = files f) \<and>
     (\<forall>f. outage alive files f (lf_end fs f) \<and> files (lf_end fs f) = files f) \<and>
     (\<forall>p f. alive f \<longrightarrow> lf_read fs p f = files f p) \<and>
     (\<forall>p f. alive f \<longrightarrow> lf_exists fs p f = (files f p \<noteq> None)) \<and>
     (\<forall>p f ok g. lf_remove fs p f = (ok, g) \<longrightarrow> outage alive files f g \<and>
        (files g = files f \<or> files g = (files f)(p := None)) \<and> (alive g \<and> ok \<longrightarrow> files g = (files f)(p := None))) \<and>
     (\<forall>a b f ok g. lf_rename fs a b f = (ok, g) \<longrightarrow> outage alive files f g \<and>
        (files g = files f \<or> files f a \<noteq> None \<and> files g = moved a b (files f)) \<and>
        (alive g \<longrightarrow> files g = (if ok then moved a b (files f) else files f)) \<and> (alive g \<and> ok \<longrightarrow> files f a \<noteq> None)) \<and>
     (\<forall>p f ok g. lf_create fs p f = (ok, g) \<longrightarrow> outage alive files f g \<and> only files p f g) \<and>
     (\<forall>p d f n g. lf_write fs p d f = (n, g) \<longrightarrow> outage alive files f g \<and> only files p f g) \<and>
     (\<forall>p f. outage alive files f (lf_flush fs p f) \<and> only files p f (lf_flush fs p f)) \<and>
     (\<forall>p f. outage alive files f (lf_close fs p f) \<and> only files p f (lf_close fs p f)) \<and>
     (\<forall>p d e f f1 f2 f3. lf_create fs p f = (True, f1) \<and> lf_write fs p d f1 = (length d, f2) \<and>
        lf_write fs p e f2 = (length e, f3) \<and> alive (lf_close fs p (lf_flush fs p f3)) \<longrightarrow>
        files (lf_close fs p (lf_flush fs p f3)) p = Some (d @ e))"

text \<open>What a start of the adapter finds: the first valid candidate.\<close>

definition stored :: "(string \<Rightarrow> bytes option) \<Rightarrow> bytes option" where
  "stored m = map_option fst (first_stored (\<lambda>p. Option.bind (m p) (parse_stored kMaxIniSize)) [kConfigPath, kBackupPath, kNewPath])"

end
