(* ===== verification/ConfigSafe.thy ===== *)
theory ConfigSafe
  imports ConfigStore
begin

text \<open>
  What the stored configuration of \<open>src/config_store.cpp\<close> survives: a save that is cut off by a loss
  of power at any moment leaves either the old or the new configuration to the next start, and
  a save that is reported is read back. The one weak spot, a store whose only copy is the
  file \<open>zifi.new\<close>, is exhibited at the end.
\<close>

definition parsed :: "bytes option \<Rightarrow> bytes option" where
  "parsed content = map_option fst (Option.bind content (parse_stored kMaxIniSize))"

lemma parsed_None [simp]: "parsed None = None"
  by (simp add: parsed_def)

lemma paths_distinct [simp]:
  "kConfigPath \<noteq> kNewPath" "kConfigPath \<noteq> kBackupPath" "kNewPath \<noteq> kBackupPath"
  "kNewPath \<noteq> kConfigPath" "kBackupPath \<noteq> kConfigPath" "kBackupPath \<noteq> kNewPath"
  by (simp_all add: kConfigPath_def kNewPath_def kBackupPath_def)

lemma stored_parsed:
  "stored m = (case parsed (m kConfigPath) of Some d \<Rightarrow> Some d | None \<Rightarrow>
     (case parsed (m kBackupPath) of Some d \<Rightarrow> Some d | None \<Rightarrow> parsed (m kNewPath)))"
  by (simp add: stored_def parsed_def split: option.split)

lemma length_store_header [simp]: "length (store_header n c) = kHeaderSize"
  by (simp add: store_header_def kMagic_def kHeaderSize_def)

lemma parsed_image:
  assumes "length data \<le> kMaxIniSize"
  shows "parsed (Some (store_header (length data) (crc32IsoHdlc data) @ data)) = Some data"
proof -
  let ?h = "store_header (length data) (crc32IsoHdlc data)"
  have k: "drop 4 ?h = writeLe16 kFormatVersion @ writeLe16 (of_nat (length data)) @ writeLe32 (crc32IsoHdlc data)"
    "drop 6 ?h = writeLe16 (of_nat (length data)) @ writeLe32 (crc32IsoHdlc data)" "drop 8 ?h = writeLe32 (crc32IsoHdlc data) @ []"
    "take 4 ?h = kMagic"
    by (simp_all add: store_header_def kMagic_def)
  have n: "unat (of_nat (length data) :: u16) = length data" using assms by (simp add: kMaxIniSize_def)
  have r: "readLe16 (drop 4 ?h) = kFormatVersion" "unat (readLe16 (drop 6 ?h)) = length data" "readLe32 (drop 8 ?h) = crc32IsoHdlc data"
    unfolding k by (simp_all only: readLe16_writeLe16 readLe32_writeLe32 n)
  show ?thesis using assms r k(4) by (simp add: parsed_def parse_stored_def)
qed

subsection \<open>One call under the law\<close>

lemma lfs_lawD:
  assumes "lfs_law fs alive files"
  shows "\<forall>f ok g. lf_mount fs f = (ok, g) \<longrightarrow> outage alive files f g \<and> files g = files f"
    and "\<forall>f. outage alive files f (lf_end fs f) \<and> files (lf_end fs f) = files f"
    and "\<forall>p f. alive f \<longrightarrow> lf_read fs p f = files f p"
    and "\<forall>p f. alive f \<longrightarrow> lf_exists fs p f = (files f p \<noteq> None)"
    and "\<forall>p f ok g. lf_remove fs p f = (ok, g) \<longrightarrow> outage alive files f g \<and> (files g = files f \<or> files g = (files f)(p := None)) \<and> (alive g \<and> ok \<longrightarrow> files g = (files f)(p := None))"
    and "\<forall>a b f ok g. lf_rename fs a b f = (ok, g) \<longrightarrow> outage alive files f g \<and> (files g = files f \<or> files f a \<noteq> None \<and> files g = moved a b (files f)) \<and> (alive g \<longrightarrow> files g = (if ok then moved a b (files f) else files f)) \<and> (alive g \<and> ok \<longrightarrow> files f a \<noteq> None)"
    and "\<forall>p f ok g. lf_create fs p f = (ok, g) \<longrightarrow> outage alive files f g \<and> only files p f g"
    and "\<forall>p d f n g. lf_write fs p d f = (n, g) \<longrightarrow> outage alive files f g \<and> only files p f g"
    and "\<forall>p f. outage alive files f (lf_flush fs p f) \<and> only files p f (lf_flush fs p f)"
    and "\<forall>p f. outage alive files f (lf_close fs p f) \<and> only files p f (lf_close fs p f)"
    and "\<forall>p d e f f1 f2 f3. lf_create fs p f = (True, f1) \<and> lf_write fs p d f1 = (length d, f2) \<and> lf_write fs p e f2 = (length e, f3) \<and> alive (lf_close fs p (lf_flush fs p f3)) \<longrightarrow> files (lf_close fs p (lf_flush fs p f3)) p = Some (d @ e)"
  by (insert assms, unfold lfs_law_def, elim conjE, assumption)+

lemma remove_cases:
  assumes "lfs_law fs alive files" "lf_remove fs p f = (ok, g)"
  shows "files g = files f \<or> alive f \<and> files g = (files f)(p := None)" "alive g \<Longrightarrow> alive f"
  using lfs_lawD(5) [OF assms(1), rule_format, OF assms(2)] by (auto simp: outage_def)

lemma rename_cases:
  assumes "lfs_law fs alive files" "lf_rename fs a b f = (ok, g)"
  shows "files g = files f \<and> (alive g \<longrightarrow> \<not> ok) \<or>
      alive f \<and> files f a \<noteq> None \<and> files g = moved a b (files f) \<and> (alive g \<longrightarrow> ok \<or> moved a b (files f) = files f)"
    "alive g \<Longrightarrow> alive f"
proof -
  from assms have o: "outage alive files f g" "files g = files f \<or> files f a \<noteq> None \<and> files g = moved a b (files f)"
    "alive g \<longrightarrow> files g = (if ok then moved a b (files f) else files f)" "alive g \<and> ok \<longrightarrow> files f a \<noteq> None"
    using lfs_lawD(6) [OF assms(1), rule_format, OF assms(2)] by blast+
  then show "alive g \<Longrightarrow> alive f" by (simp add: outage_def)
  show "files g = files f \<and> (alive g \<longrightarrow> \<not> ok) \<or>
      alive f \<and> files f a \<noteq> None \<and> files g = moved a b (files f) \<and> (alive g \<longrightarrow> ok \<or> moved a b (files f) = files f)"
    using o unfolding outage_def by (cases "alive f"; cases "alive g"; cases ok) auto
qed

lemma law_rest:
  assumes "lfs_law fs alive files"
  shows "lf_mount fs f = (ok, g) \<Longrightarrow> files g = files f \<and> outage alive files f g"
    "files (lf_end fs f) = files f \<and> outage alive files f (lf_end fs f)"
    "alive f \<Longrightarrow> lf_read fs p f = files f p" "alive f \<Longrightarrow> lf_exists fs p f \<longleftrightarrow> files f p \<noteq> None"
    "lf_create fs p f = (ok, g) \<Longrightarrow> outage alive files f g \<and> only files p f g"
    "lf_write fs p d f = (n, g) \<Longrightarrow> outage alive files f g \<and> only files p f g"
    "outage alive files f (lf_flush fs p f) \<and> only files p f (lf_flush fs p f)"
    "outage alive files f (lf_close fs p f) \<and> only files p f (lf_close fs p f)"
    "lf_create fs p f = (True, f1) \<Longrightarrow> lf_write fs p d f1 = (length d, f2) \<Longrightarrow> lf_write fs p e f2 = (length e, f3) \<Longrightarrow>
     alive (lf_close fs p (lf_flush fs p f3)) \<Longrightarrow> files (lf_close fs p (lf_flush fs p f3)) p = Some (d @ e)"
proof -
  note d = assms [THEN lfs_lawD(1)] assms [THEN lfs_lawD(2)] assms [THEN lfs_lawD(3)] assms [THEN lfs_lawD(4)]
    assms [THEN lfs_lawD(7)] assms [THEN lfs_lawD(8)] assms [THEN lfs_lawD(9)] assms [THEN lfs_lawD(10)] assms [THEN lfs_lawD(11)]
  show "lf_mount fs f = (ok, g) \<Longrightarrow> files g = files f \<and> outage alive files f g" using d(1) by simp
  show "files (lf_end fs f) = files f \<and> outage alive files f (lf_end fs f)" using d(2) by simp
  show "alive f \<Longrightarrow> lf_read fs p f = files f p" using d(3) by simp
  show "alive f \<Longrightarrow> lf_exists fs p f \<longleftrightarrow> files f p \<noteq> None" using d(4) by simp
  show "lf_create fs p f = (ok, g) \<Longrightarrow> outage alive files f g \<and> only files p f g" using d(5) by simp
  show "lf_write fs p d f = (n, g) \<Longrightarrow> outage alive files f g \<and> only files p f g" using d(6) by simp
  show "outage alive files f (lf_flush fs p f) \<and> only files p f (lf_flush fs p f)" using d(7) by simp
  show "outage alive files f (lf_close fs p f) \<and> only files p f (lf_close fs p f)" using d(8) by simp
  show "lf_create fs p f = (True, f1) \<Longrightarrow> lf_write fs p d f1 = (length d, f2) \<Longrightarrow> lf_write fs p e f2 = (length e, f3) \<Longrightarrow>
     alive (lf_close fs p (lf_flush fs p f3)) \<Longrightarrow> files (lf_close fs p (lf_flush fs p f3)) p = Some (d @ e)"
    by (rule d(9) [rule_format]) simp
qed

lemma outage_trans: "outage alive files f g \<Longrightarrow> outage alive files g h \<Longrightarrow> outage alive files f h"
  by (auto simp: outage_def)

lemma only_trans: "only files p f g \<Longrightarrow> only files p g h \<Longrightarrow> only files p f h"
  by (auto simp: only_def)

lemma write_new_law:
  assumes "lfs_law fs alive files" "lf_create fs kNewPath f1 = (True, f2)" "write_new fs data c f2 = (ok, f3)"
  shows "only files kNewPath f1 f3" "outage alive files f1 f3"
    "ok \<Longrightarrow> alive f3 \<Longrightarrow> files f3 kNewPath = Some (store_header (length data) c @ data)"
proof -
  let ?h = "store_header (length data) c"
  note law = law_rest [OF assms(1)]
  obtain n g1 where w1: "lf_write fs kNewPath ?h f2 = (n, g1)" by (cases "lf_write fs kNewPath ?h f2")
  obtain m g2 where w2: "(if n = length ?h then lf_write fs kNewPath data g1 else (0, g1)) = (m, g2)"
    by (cases "if n = length ?h then lf_write fs kNewPath data g1 else (0, g1)")
  have f3: "ok \<longleftrightarrow> n = length ?h \<and> m = length data" "f3 = lf_close fs kNewPath (lf_flush fs kNewPath g2)"
    using assms(3) w1 w2 by (auto simp: write_new_def Let_def)
  have s: "only files kNewPath g1 g2 \<and> outage alive files g1 g2"
    using w2 law(6) [of kNewPath data g1] by (cases "n = length ?h") (auto simp: only_def outage_def)
  show "only files kNewPath f1 f3" unfolding f3
    using law(5) [OF assms(2)] law(6) [OF w1] s law(7) law(8) by (meson only_trans)
  show "outage alive files f1 f3" unfolding f3
    using law(5) [OF assms(2)] law(6) [OF w1] s law(7) law(8) by (meson outage_trans)
  show "ok \<Longrightarrow> alive f3 \<Longrightarrow> files f3 kNewPath = Some (?h @ data)"
    using law(9) [OF assms(2), of ?h g1 data g2] w1 w2 f3 by auto
qed


subsection \<open>The two renames\<close>

definition safe :: "bytes \<Rightarrow> (string \<Rightarrow> bytes option) \<Rightarrow> bool" where
  "safe old m \<longleftrightarrow> parsed (m kConfigPath) = Some old \<or> m kConfigPath = None \<and> parsed (m kBackupPath) = Some old"

text \<open>The states a replacement passes through.\<close>

definition between :: "bytes \<Rightarrow> bytes \<Rightarrow> (string \<Rightarrow> bytes option) \<Rightarrow> bool" where
  "between old new m \<longleftrightarrow> safe old m \<or> parsed (m kConfigPath) = Some new \<or>
     m kConfigPath = None \<and> m kBackupPath = None \<and> parsed (m kNewPath) = Some new"



lemma safe_only: "safe old (files f) \<Longrightarrow> only files kNewPath f g \<Longrightarrow> safe old (files g)"
  by (simp add: safe_def only_def)

lemma replace_law:
  assumes law: "lfs_law fs alive files" and rc: "replace_config fs f = (ok, msg, g)"
    and new: "alive f \<Longrightarrow> parsed (files f kNewPath) = Some new"
  shows "safe old (files f) \<Longrightarrow> between old new (files g)" "ok \<Longrightarrow> alive g \<Longrightarrow> parsed (files g kConfigPath) = Some new"
proof -
  obtain o1 f1 where r1: "lf_remove fs kBackupPath f = (o1, f1)" by (cases "lf_remove fs kBackupPath f")
  let ?had = "lf_exists fs kConfigPath f1"
  obtain saved f2 where r2: "(if ?had then lf_rename fs kConfigPath kBackupPath f1 else (True, f1)) = (saved, f2)"
    by (cases "if ?had then lf_rename fs kConfigPath kBackupPath f1 else (True, f1)")
  obtain committed f3 where r3: "lf_rename fs kNewPath kConfigPath f2 = (committed, f3)"
    by (cases "lf_rename fs kNewPath kConfigPath f2")
  have g: "(ok, msg, g) = (if \<not> saved then (False, ''config backup rename'', snd (lf_remove fs kNewPath f2))
         else if \<not> committed then (False, ''config commit rename'', if ?had then snd (lf_rename fs kBackupPath kConfigPath f3) else f3)
         else (True, '''', snd (lf_remove fs kBackupPath f3)))"
    using rc [symmetric] r1 r2 r3 by (cases saved; cases committed) (simp_all add: replace_config_def Let_def)
  note c1 = remove_cases [OF law r1] and c3 = rename_cases [OF law r3]
  have gone: "moved kConfigPath kBackupPath (files f1) = files f1 \<Longrightarrow> files f1 kConfigPath = None"
    by (metis fun_upd_same moved_def)
  have c2: "files f2 = files f1 \<and> (?had \<and> alive f2 \<longrightarrow> \<not> saved) \<or>
      ?had \<and> alive f1 \<and> files f1 kConfigPath \<noteq> None \<and> files f2 = moved kConfigPath kBackupPath (files f1) \<and>
        (alive f2 \<longrightarrow> saved)"
    "alive f2 \<Longrightarrow> alive f1" "\<not> ?had \<Longrightarrow> f2 = f1 \<and> saved"
    using gone r2 rename_cases [OF law, of kConfigPath kBackupPath f1 saved f2] by (auto split: if_splits)
  have had: "alive f1 \<Longrightarrow> ?had \<longleftrightarrow> files f1 kConfigPath \<noteq> None" by (rule law_rest(4) [OF law])
  have n1: "alive f \<Longrightarrow> parsed (files f1 kNewPath) = Some new" using c1 new by auto
  have n2: "alive f \<Longrightarrow> parsed (files f2 kNewPath) = Some new" using n1 c2(1) by (auto simp: moved_def)
  have a2: "alive f2 \<Longrightarrow> alive f" using c2(2) c1(2) by blast
  have m3: "files f3 = files f2 \<and> (alive f3 \<longrightarrow> \<not> committed) \<or> parsed (files f3 kConfigPath) = Some new \<and>
      (alive f3 \<longrightarrow> committed \<or> files f3 = files f2)"
    using c3(1)
  proof (elim disjE)
    assume m: "alive f2 \<and> files f2 kNewPath \<noteq> None \<and> files f3 = moved kNewPath kConfigPath (files f2) \<and>
      (alive f3 \<longrightarrow> committed \<or> moved kNewPath kConfigPath (files f2) = files f2)"
    then have "files f3 kConfigPath = files f2 kNewPath" by (simp add: moved_def)
    with m n2 a2 show ?thesis by auto
  qed simp
  show "parsed (files g kConfigPath) = Some new" if "ok" "alive g"
  proof -
    have sc: saved committed using g that(1) by (auto split: if_splits)
    obtain x where x: "lf_remove fs kBackupPath f3 = (x, g)" using g sc by (cases "lf_remove fs kBackupPath f3") simp
    from remove_cases [OF law x] that(2) m3 sc show ?thesis by auto
  qed
  show "between old new (files g)" if safe: "safe old (files f)"
  proof -
    have m1: "parsed (files f1 kConfigPath) = Some old \<or>
        files f1 kConfigPath = None \<and> (parsed (files f1 kBackupPath) = Some old \<or> alive f \<and> files f1 kBackupPath = None)"
      using c1 safe by (auto simp: safe_def)
    have m2: "parsed (files f2 kConfigPath) = Some old \<and> (alive f2 \<longrightarrow> \<not> saved) \<or>
        files f2 kConfigPath = None \<and> (parsed (files f2 kBackupPath) = Some old \<or> alive f \<and> files f2 kBackupPath = None)"
      using m1 c2 had by (auto simp: moved_def)
    have b2: "between old new (files f2)" using m2 n2 by (auto simp: between_def safe_def)
    have b3: "between old new (files f3)" using m3 b2 by (auto simp: between_def)
    consider (backup) "\<not> saved" | (commit) saved "\<not> committed" | (done_all) saved committed by blast
    then show ?thesis
    proof cases
      case backup
      obtain x where x: "lf_remove fs kNewPath f2 = (x, g)" using g backup by (cases "lf_remove fs kNewPath f2") simp
      have "parsed (files f2 kConfigPath) = Some old" if "alive f2"
        using that backup c2 had m1 by (auto simp: moved_def)
      then show ?thesis using remove_cases [OF law x] b2 by (auto simp: between_def safe_def)
    next
      case commit
      show ?thesis
      proof (cases ?had)
        case False
        with g commit b3 show ?thesis by simp
      next
        case True
        obtain x where x: "lf_rename fs kBackupPath kConfigPath f3 = (x, g)"
          using g commit True by (cases "lf_rename fs kBackupPath kConfigPath f3") simp
        have "files f3 kConfigPath = None \<and> parsed (files f3 kBackupPath) = Some old" if a3: "alive f3"
        proof -
          have a: "alive f2" "alive f1" using c3(2) [OF a3] c2(2) by auto
          have e: "files f3 = files f2" using c3(1) commit a3 by auto
          have "files f1 kConfigPath \<noteq> None" using had a(2) True by simp
          then have "parsed (files f1 kConfigPath) = Some old" using m1 by auto
          moreover have "files f2 = moved kConfigPath kBackupPath (files f1)" using c2(1) True a(1) commit(1) by auto
          ultimately show ?thesis unfolding e by (simp add: moved_def)
        qed
        then show ?thesis using rename_cases(1) [OF law x] b3 by (auto simp: between_def safe_def moved_def)
      qed
    next
      case done_all
      obtain x where x: "lf_remove fs kBackupPath f3 = (x, g)" using g done_all by (cases "lf_remove fs kBackupPath f3") simp
      have "alive f3 \<Longrightarrow> parsed (files f3 kConfigPath) = Some new" using m3 done_all by auto
      then show ?thesis using remove_cases [OF law x] b3 by (auto simp: between_def safe_def)
    qed
  qed
qed


lemma writeNewFile_law:
  assumes law: "lfs_law fs alive files" and wn: "writeNewFile fs data c f = (ok, msg, g)"
    and fits: "length data \<le> kMaxIniSize" and c: "c = crc32IsoHdlc data"
  shows "safe old (files f) \<Longrightarrow> between old data (files g)" "ok \<Longrightarrow> alive g \<Longrightarrow> parsed (files g kConfigPath) = Some data"
proof -
  obtain x f1 where r1: "lf_remove fs kNewPath f = (x, f1)" by (cases "lf_remove fs kNewPath f")
  obtain opened f2 where cr: "lf_create fs kNewPath f1 = (opened, f2)" by (cases "lf_create fs kNewPath f1")
  have s1: "safe old (files f) \<Longrightarrow> safe old (files f1)" using remove_cases(1) [OF law r1] by (auto simp: safe_def)
  have "(safe old (files f) \<longrightarrow> between old data (files g)) \<and> (ok \<longrightarrow> alive g \<longrightarrow> parsed (files g kConfigPath) = Some data)"
  proof (cases opened)
    case False
    with wn r1 cr have "\<not> ok" "g = f2" by (simp_all add: writeNewFile_def)
    then show ?thesis using safe_only [of old files f1 f2] s1 law_rest(5) [OF law cr] by (simp add: between_def)
  next
    case True
    note cr = cr [unfolded eqTrueI [OF True]]
    obtain written f3 where w: "write_new fs data c f2 = (written, f3)" by (cases "write_new fs data c f2")
    note wl = write_new_law [OF law cr w]
    have s3: "safe old (files f) \<Longrightarrow> safe old (files f3)" using safe_only [OF s1 wl(1)] .
    show ?thesis
    proof (cases written)
      case False
      with wn r1 cr w have g: "\<not> ok" "g = snd (lf_remove fs kNewPath f3)" by (simp_all add: writeNewFile_def)
      obtain y h where "lf_remove fs kNewPath f3 = (y, h)" by (cases "lf_remove fs kNewPath f3")
      with g remove_cases(1) [OF law this] s3 show ?thesis by (auto simp: between_def safe_def)
    next
      case True
      with wn r1 cr w have rc: "replace_config fs f3 = (ok, msg, g)" by (simp add: writeNewFile_def)
      have "alive f3 \<Longrightarrow> parsed (files f3 kNewPath) = Some data"
        using wl(3) True parsed_image [OF fits] by (simp add: c)
      from replace_law [OF law rc this] s3 show ?thesis by blast
    qed
  qed
  then show "safe old (files f) \<Longrightarrow> between old data (files g)" "ok \<Longrightarrow> alive g \<Longrightarrow> parsed (files g kConfigPath) = Some data" by auto
qed

lemma save_law:
  assumes law: "lfs_law fs alive files" and sv: "saveIfChanged fs (Some data) s f = (r, msg, s', g)"
  shows "safe old (files f) \<Longrightarrow> between old data (files g)"
    "r = kWritten \<Longrightarrow> alive g \<Longrightarrow> parsed (files g kConfigPath) = Some data"
    "r = kWritten \<Longrightarrow> cs_valid s' \<and> unat (cs_length s') = length data \<and> cs_checksum s' = crc32IsoHdlc data"
proof -
  let ?c = "crc32IsoHdlc data"
  obtain mounted f1 where m: "lf_mount fs f = (mounted, f1)" by (cases "lf_mount fs f")
  obtain ok ms f2 where w: "writeNewFile fs data ?c f1 = (ok, ms, f2)" by (cases "writeNewFile fs data ?c f1")
  note e = law_rest(2) [OF law, of f2]
  consider (range) "g = f" "r \<noteq> kWritten" | (off) "\<not> mounted" "g = f1" "r \<noteq> kWritten"
    | (tried) "g = lf_end fs f2" "length data \<le> kMaxIniSize" "r = kWritten \<longrightarrow> ok \<and> s' = s\<lparr>cs_checksum := ?c,
        cs_length := of_nat (length data), cs_valid := True\<rparr>"
    using sv m w by (auto simp: saveIfChanged_def Let_def split: if_splits)
  then have "(safe old (files f) \<longrightarrow> between old data (files g)) \<and> (r = kWritten \<longrightarrow> alive g \<longrightarrow> parsed (files g kConfigPath) = Some data) \<and>
     (r = kWritten \<longrightarrow> cs_valid s' \<and> unat (cs_length s') = length data \<and> cs_checksum s' = ?c)"
  proof cases
    case tried
    have "safe old (files f) \<Longrightarrow> between old data (files f2)" "ok \<Longrightarrow> alive f2 \<Longrightarrow> parsed (files f2 kConfigPath) = Some data"
      using writeNewFile_law [OF law w tried(2) refl] law_rest(1) [OF law m] by simp_all
    then show ?thesis using tried e by (auto simp: outage_def kMaxIniSize_def)
  qed (use law_rest(1) [OF law m] in \<open>auto simp: between_def\<close>)
  then show "safe old (files f) \<Longrightarrow> between old data (files g)"
    "r = kWritten \<Longrightarrow> alive g \<Longrightarrow> parsed (files g kConfigPath) = Some data"
    "r = kWritten \<Longrightarrow> cs_valid s' \<and> unat (cs_length s') = length data \<and> cs_checksum s' = ?c" by auto
qed


lemma parse_stored_checksum:
  assumes "parse_stored capacity content = Some (data, x)"
  shows "x = crc32IsoHdlc data"
proof -
  define l where "l = unat (readLe16 (drop 6 (take kHeaderSize content)))"
  define c where "c = readLe32 (drop 8 (take kHeaderSize content))"
  define d where "d = take l (drop kHeaderSize content)"
  note p = assms [unfolded parse_stored_def Let_def l_def [symmetric] c_def [symmetric] d_def [symmetric]]
  have "\<not> (length d \<noteq> l \<or> crc32IsoHdlc d \<noteq> c) \<and> Some (d, c) = Some (data, x)"
    using p by (simp only: not_True_eq_False not_False_eq_True option.distinct simp_thms split: if_splits)
  then show ?thesis by auto
qed

lemma load_stored:
  assumes law: "lfs_law fs alive files" and "lf_mount fs f = (True, f1)" "alive f1" "cs_available s" "kMaxIniSize \<le> capacity"
  shows "fst (cs_load fs (Some capacity) s f) = stored (files f)"
proof -
  have p: "parse_stored capacity x = parse_stored kMaxIniSize x" for x
  proof -
    have "n > kMaxIniSize \<or> n > capacity \<or> q \<longleftrightarrow> n > kMaxIniSize \<or> n > kMaxIniSize \<or> q" for n q using assms(5) by auto
    then show ?thesis unfolding parse_stored_def Let_def by (simp only:)
  qed
  have "(\<lambda>p. loadPath fs p capacity f1) = (\<lambda>p. Option.bind (files f p) (parse_stored kMaxIniSize))"
    using law_rest(1,3) [OF law] assms(2,3) by (intro ext) (simp add: loadPath_def p [abs_def])
  then have "cs_load fs (Some capacity) s f = (let found = first_stored (\<lambda>p. Option.bind (files f p) (parse_stored kMaxIniSize))
       [kConfigPath, kBackupPath, kNewPath]; t = s\<lparr>cs_valid := False\<rparr>
     in case found of None \<Rightarrow> (None, ''no saved config'', t, lf_end fs f1)
      | Some (data, checksum) \<Rightarrow> (Some data, '''', t\<lparr>cs_checksum := checksum, cs_length := of_nat (length data), cs_valid := True\<rparr>, lf_end fs f1))"
    using assms(2,4,5) by (simp only: cs_load_def Let_def option.case prod.case) simp
  then show ?thesis by (simp only: stored_def Let_def) (simp split: option.split prod.split)
qed

text \<open>
  C40: What is saved is loaded. After \<open>saveIfChanged\<close> reported \<open>kWritten\<close> under power, a later start
  that finds the files as they were left -- whatever they were before, with the old store object
  or a new one -- loads exactly the saved text, with an empty message, and notes its length
  and checksum, so that saving the same text again is answered \<open>kUnchanged\<close> without touching the
  files.
\<close>

theorem config_roundtrip:
  assumes "lfs_law fs alive files" "saveIfChanged fs (Some data) s f = (kWritten, msg, s', g)" "alive g"
    "files h = files g" "lf_mount fs h = (True, h1)" "alive h1" "cs_available t" "kMaxIniSize \<le> capacity"
  shows "\<exists>t'. cs_load fs (Some capacity) t h = (Some data, '''', t', lf_end fs h1) \<and>
     saveIfChanged fs (Some data) t' k = (kUnchanged, '''', t', k)"
proof -
  have sv: "stored (files h) = Some data" using save_law(2) [OF assms(1,2) refl assms(3)] by (simp add: stored_parsed assms(4))
  have rng: "length data \<noteq> 0" "length data \<le> kMaxIniSize"
    using assms(2) by (auto simp: saveIfChanged_def Let_def split: if_splits)
  obtain r ms t' h2 where ld: "cs_load fs (Some capacity) t h = (r, ms, t', h2)" by (cases "cs_load fs (Some capacity) t h")
  then have r: "r = Some data" using load_stored [OF assms(1,5-8)] sv by simp
  obtain x where x: "first_stored (\<lambda>p. loadPath fs p capacity h1) [kConfigPath, kBackupPath, kNewPath] = Some (data, x)"
    using ld r assms(5,7,8) by (auto simp: cs_load_def Let_def split: option.splits)
  have "first_stored a ps = Some y \<Longrightarrow> \<exists>p. a p = Some y" for a ps y
    by (induction ps) (auto split: option.splits)
  from this [OF x] obtain p where "loadPath fs p capacity h1 = Some (data, x)" by blast
  then have "x = crc32IsoHdlc data" by (auto simp: loadPath_def bind_eq_Some_conv parse_stored_checksum)
  with x assms(5,7,8) have "cs_load fs (Some capacity) t h = (Some data, '''',
      t\<lparr>cs_valid := True, cs_checksum := crc32IsoHdlc data, cs_length := of_nat (length data)\<rparr>, lf_end fs h1)"
    by (simp add: cs_load_def Let_def)
  then show ?thesis using assms(7) rng by (auto simp: saveIfChanged_def Let_def kMaxIniSize_def)
qed


subsection \<open>A file system with a plug\<close>

text \<open>
  The state is the files and the number of changes the power still lasts for. It obeys the law,
  so the hypotheses of the theorems can be met at every moment of a save.
\<close>

definition plug_fs :: "((string \<Rightarrow> bytes option) \<times> nat) lfs" where
  "plug_fs =
     \<lparr>lf_mount = (\<lambda>f. (True, f)),
      lf_format = (\<lambda>(m, n). if n = 0 then (False, (m, n)) else (True, (\<lambda>p. None, n - 1))),
      lf_end = (\<lambda>f. f), lf_read = (\<lambda>p (m, n). m p),
      lf_create = (\<lambda>p (m, n). if n = 0 then (False, (m, n)) else (True, (m(p \<mapsto> []), n - 1))),
      lf_write = (\<lambda>p d (m, n). case m p of None \<Rightarrow> (0, (m, n))
        | Some c \<Rightarrow> if n = 0 then (0, (m, n)) else (length d, (m(p \<mapsto> c @ d), n - 1))),
      lf_flush = (\<lambda>p f. f), lf_close = (\<lambda>p f. f),
      lf_remove = (\<lambda>p (m, n). if n = 0 then (False, (m, n)) else (True, (m(p := None), n - 1))),
      lf_exists = (\<lambda>p (m, n). m p \<noteq> None),
      lf_rename = (\<lambda>a b (m, n). if n = 0 \<or> m a = None then (False, (m, n)) else (True, (moved a b m, n - 1)))\<rparr>"

definition powered :: "(string \<Rightarrow> bytes option) \<times> nat \<Rightarrow> bool" where
  "powered f \<longleftrightarrow> 0 < snd f"

lemma plug_fs_law: "lfs_law plug_fs powered fst"
  unfolding lfs_law_def
  by (intro conjI allI impI)
    (auto simp: plug_fs_def powered_def outage_def only_def split: if_splits option.splits)

definition one_file :: "string \<Rightarrow> bytes \<Rightarrow> string \<Rightarrow> bytes option" where
  "one_file p data = (\<lambda>q. None)(p \<mapsto> store_header (length data) (crc32IsoHdlc data) @ data)"


lemma plug_save:
  "\<exists>m s'. saveIfChanged plug_fs (Some [66]) (ConfigStore_init\<lparr>cs_available := True\<rparr>) (one_file kConfigPath [65], 50) =
     (kWritten, '''', s', (m, 42))"
  by (simp add: saveIfChanged_def ConfigStore_init_def kMaxIniSize_def plug_fs_def writeNewFile_def write_new_def
      replace_config_def one_file_def moved_def Let_def)

theorem config_roundtrip_witness:
  "\<exists>t' h. cs_load plug_fs (Some 1024) (ConfigStore_init\<lparr>cs_available := True\<rparr>) h = (Some [66], '''', t', h) \<and>
     saveIfChanged plug_fs (Some [66]) t' h = (kUnchanged, '''', t', h)"
proof -
  obtain m s' where sv: "saveIfChanged plug_fs (Some [66]) (ConfigStore_init\<lparr>cs_available := True\<rparr>)
      (one_file kConfigPath [65], 50) = (kWritten, '''', s', (m, 42))" using plug_save by blast
  have "lf_mount plug_fs (m, 42) = (True, (m, 42))" "lf_end plug_fs (m, 42) = (m, 42)" by (simp_all add: plug_fs_def)
  with config_roundtrip [OF plug_fs_law sv _ refl this(1), of "ConfigStore_init\<lparr>cs_available := True\<rparr>" 1024 "(m, 42)"]
  show ?thesis by (auto simp: powered_def ConfigStore_init_def kMaxIniSize_def)
qed

text \<open>
  The hypothesis on the old configuration cannot be dropped. After a first save cut off before
  its last rename, the configuration is in \<open>zifi.new\<close> only; a load finds it there, but the next save
  begins by removing this file, and a loss of power right after it leaves nothing.
\<close>

lemma only_new_is_lost:
  "stored (one_file kNewPath [65]) = Some [65]"
  "\<exists>r msg s' m. saveIfChanged plug_fs (Some [66]) (ConfigStore_init\<lparr>cs_available := True\<rparr>) (one_file kNewPath [65], 1) =
     (r, msg, s', (m, 0)) \<and> stored m = None"
proof -
  show "stored (one_file kNewPath [65]) = Some [65]"
    using parsed_image [of "[65]"] by (simp add: stored_parsed one_file_def kMaxIniSize_def)
  have "stored ((\<lambda>q. None)(kNewPath := None)) = None" by (simp add: stored_parsed)
  then show "\<exists>r msg s' m. saveIfChanged plug_fs (Some [66]) (ConfigStore_init\<lparr>cs_available := True\<rparr>) (one_file kNewPath [65], 1) =
     (r, msg, s', (m, 0)) \<and> stored m = None"
    by (simp add: saveIfChanged_def ConfigStore_init_def kMaxIniSize_def plug_fs_def writeNewFile_def one_file_def Let_def)
qed

end
