(* ===== verification/JsonCursor.thy ===== *)
theory JsonCursor
  imports Prelude
begin

text \<open>
  The \<open>JsonCursor\<close> of \<open>src/github_tree.cpp\<close>: a minimal JSON reader. The cursor is the text from
  \<open>position_\<close> to \<open>end_\<close>, and every operation takes it and returns it moved on; an operation
  that reports failure is \<open>None\<close>. The bytes are 34 for the quote, 92 for the backslash, 44 and 58
  for the comma and the colon, 91, 93, 123, 125 for the brackets and braces.
\<close>

subsection \<open>Spaces and punctuation\<close>

definition js_space :: "u8 \<Rightarrow> bool" where
  "js_space c \<longleftrightarrow> c = 32 \<or> c = 9 \<or> c = 13 \<or> c = 10"

fun skipSpace :: "bytes \<Rightarrow> bytes" where
  "skipSpace [] = []"
| "skipSpace (c # s) = (if js_space c then skipSpace s else c # s)"

definition js_peek :: "u8 \<Rightarrow> bytes \<Rightarrow> bool \<times> bytes" where
  "js_peek expected s = (let r = skipSpace s in (r \<noteq> [] \<and> hd r = expected, r))"

definition js_take :: "u8 \<Rightarrow> bytes \<Rightarrow> bool \<times> bytes" where
  "js_take expected s = (let (ok, r) = js_peek expected s in if ok then (True, tl r) else (False, r))"

subsection \<open>Strings\<close>

text \<open>
  The output buffer is \<open>None\<close> for the null pointer, and otherwise its capacity; what has been put
  into it is the list \<open>acc\<close>.
\<close>

definition js_put :: "nat option \<Rightarrow> u8 \<Rightarrow> bytes \<Rightarrow> bytes option" where
  "js_put output symbol acc =
     (case output of None \<Rightarrow> Some acc
      | Some capacity \<Rightarrow> if length acc + 1 \<ge> capacity then None else Some (acc @ [symbol]))"

fun put_all :: "nat option \<Rightarrow> bytes \<Rightarrow> bytes \<Rightarrow> bytes option" where
  "put_all output [] acc = Some acc"
| "put_all output (c # cs) acc = Option.bind (js_put output c acc) (put_all output cs)"

definition utf8_code :: "u32 \<Rightarrow> bytes" where
  "utf8_code code =
     (if code < 0x80 then [ucast code]
      else if code < 0x800 then [ucast (0xC0 OR drop_bit 6 code), ucast (0x80 OR (code AND 0x3F))]
      else if code < 0x10000
      then [ucast (0xE0 OR drop_bit 12 code), ucast (0x80 OR (drop_bit 6 code AND 0x3F)), ucast (0x80 OR (code AND 0x3F))]
      else [ucast (0xF0 OR drop_bit 18 code), ucast (0x80 OR (drop_bit 12 code AND 0x3F)),
            ucast (0x80 OR (drop_bit 6 code AND 0x3F)), ucast (0x80 OR (code AND 0x3F))])"

definition putUtf8 :: "nat option \<Rightarrow> u32 \<Rightarrow> bytes \<Rightarrow> bytes option" where
  "putUtf8 output code acc = put_all output (utf8_code code) acc"

definition hex_digit :: "u8 \<Rightarrow> u32 option" where
  "hex_digit c =
     (if 48 \<le> c \<and> c \<le> 57 then Some (ucast (c - 48))
      else if 97 \<le> c \<and> c \<le> 102 then Some (ucast (c - 97) + 10)
      else if 65 \<le> c \<and> c \<le> 70 then Some (ucast (c - 65) + 10) else None)"

fun hex_fold :: "u32 \<Rightarrow> bytes \<Rightarrow> u32 option" where
  "hex_fold val [] = Some val"
| "hex_fold val (c # cs) = Option.bind (hex_digit c) (\<lambda>d. hex_fold (push_bit 4 val OR d) cs)"

definition hex4 :: "bytes \<Rightarrow> (u32 \<times> bytes) option" where
  "hex4 s = (if length s < 4 then None else map_option (\<lambda>v. (v, drop 4 s)) (hex_fold 0 (take 4 s)))"

definition simple_escape :: "u8 \<Rightarrow> u8 option" where
  "simple_escape c =
     (if c = 34 \<or> c = 92 \<or> c = 47 then Some c else if c = 98 then Some 8 else if c = 102 then Some 12
      else if c = 110 then Some 10 else if c = 114 then Some 13 else if c = 116 then Some 9 else None)"

definition surrogate_code :: "u32 \<Rightarrow> u32 \<Rightarrow> u32" where
  "surrogate_code code low = 0x10000 + push_bit 10 (code - 0xD800) + (low - 0xDC00)"

text \<open>The escape after \<open>\u\<close>: the code point and the text after it, with a surrogate pair joined.\<close>

definition unicode_escape :: "bytes \<Rightarrow> (u32 \<times> bytes) option" where
  "unicode_escape s =
     Option.bind (hex4 s) (\<lambda>(code, r).
       if code = 0 then None
       else if 0xD800 \<le> code \<and> code \<le> 0xDBFF then
         (if length r < 2 \<or> take 2 r \<noteq> [92, 117] then None
          else Option.bind (hex4 (drop 2 r)) (\<lambda>(low, r2).
            if low < 0xDC00 \<or> 0xDFFF < low then None
            else Some (surrogate_code code low, r2)))
       else if 0xDC00 \<le> code \<and> code \<le> 0xDFFF then None
       else Some (code, r))"

lemma hex4_shorter: "hex4 s = Some (v, r) \<Longrightarrow> length s = length r + 4"
  by (auto simp: hex4_def split: if_splits)

lemma unicode_escape_shorter: "unicode_escape s = Some (v, r) \<Longrightarrow> length r < length s"
  by (auto simp: unicode_escape_def bind_eq_Some_conv dest!: hex4_shorter split: if_splits)

function string_loop :: "nat option \<Rightarrow> bytes \<Rightarrow> bytes \<Rightarrow> (bytes \<times> bytes) option" where
  "string_loop output acc [] = None"
| "string_loop output acc (symbol # s) =
     (if symbol = 34 then Some (acc, s)
      else if symbol < 0x20 then None
      else if symbol \<noteq> 92 then Option.bind (js_put output symbol acc) (\<lambda>acc1. string_loop output acc1 s)
      else
        case s of [] \<Rightarrow> None
        | e # s1 \<Rightarrow>
            (if e = 117 then
               (case unicode_escape s1 of None \<Rightarrow> None
                | Some (code, s2) \<Rightarrow> Option.bind (putUtf8 output code acc) (\<lambda>acc1. string_loop output acc1 s2))
             else
               (case simple_escape e of None \<Rightarrow> None
                | Some c \<Rightarrow> Option.bind (js_put output c acc) (\<lambda>acc1. string_loop output acc1 s1))))"
  by pat_completeness auto
termination
  by (relation "measure (\<lambda>(output, acc, s). length s)") (auto dest: unicode_escape_shorter)

definition js_string :: "nat option \<Rightarrow> bytes \<Rightarrow> (bytes \<times> bytes) option" where
  "js_string output s = (let (ok, r) = js_take 34 s in if ok then string_loop output [] r else None)"

subsection \<open>Numbers and literals\<close>

definition js_digit :: "u8 \<Rightarrow> bool" where
  "js_digit c \<longleftrightarrow> 48 \<le> c \<and> c \<le> 57"

fun number_loop :: "u64 \<Rightarrow> bytes \<Rightarrow> (u64 \<times> bytes) option" where
  "number_loop val [] = Some (val, [])"
| "number_loop val (c # s) =
     (if js_digit c then
        let next = val * 10 + ucast (c - 48) in if next < val then None else number_loop next s
      else Some (val, c # s))"

definition js_number :: "bytes \<Rightarrow> (u64 \<times> bytes) option" where
  "js_number s0 =
     (let s = skipSpace s0
      in if s = [] \<or> \<not> js_digit (hd s) then None
         else if hd s = 48 \<and> 1 < length s \<and> js_digit (s ! 1) then None
         else Option.bind (number_loop 0 s) (\<lambda>(val, r).
           if r = [] \<or> hd r \<noteq> 46 \<and> hd r \<noteq> 101 \<and> hd r \<noteq> 69 then Some (val, r) else None))"

definition js_literal :: "bytes \<Rightarrow> bytes \<Rightarrow> bool \<times> bytes" where
  "js_literal word s0 =
     (let s = skipSpace s0 in if take (length word) s = word then (True, drop (length word) s) else (False, s))"

fun skipDigits :: "bytes \<Rightarrow> bytes" where
  "skipDigits [] = []"
| "skipDigits (c # s) = (if js_digit c then skipDigits s else c # s)"

text \<open>A digit is required, then all digits are skipped.\<close>

definition some_digits :: "bytes \<Rightarrow> bytes option" where
  "some_digits s = (if s = [] \<or> \<not> js_digit (hd s) then None else Some (skipDigits s))"

definition skip_int :: "bytes \<Rightarrow> bytes option" where
  "skip_int s =
     (if s = [] \<or> \<not> js_digit (hd s) then None else Some (if hd s = 48 then tl s else skipDigits s))"

definition skip_fraction :: "bytes \<Rightarrow> bytes option" where
  "skip_fraction s = (if s \<noteq> [] \<and> hd s = 46 then some_digits (tl s) else Some s)"

definition skip_exponent :: "bytes \<Rightarrow> bytes option" where
  "skip_exponent s =
     (if s \<noteq> [] \<and> (hd s = 101 \<or> hd s = 69)
      then let r = tl s in some_digits (if r \<noteq> [] \<and> (hd r = 43 \<or> hd r = 45) then tl r else r)
      else Some s)"

definition skipNumber :: "bytes \<Rightarrow> bytes option" where
  "skipNumber s =
     Option.bind (skip_int (if s \<noteq> [] \<and> hd s = 45 then tl s else s))
       (\<lambda>r. Option.bind (skip_fraction r) skip_exponent)"

subsection \<open>Values\<close>

text \<open>
  \<open>do item while (take(','))\<close>, with a state that the items change. The fuel bounds the number of
  items; \<open>sep_list\<close> starts with the length of the text, and \<open>sep_list_step\<close> below shows that it is
  the loop whenever every item consumes something, as every item of the code does.
\<close>

fun sep_loop :: "nat \<Rightarrow> ('a \<Rightarrow> bytes \<Rightarrow> ('a \<times> bytes) option) \<Rightarrow> 'a \<Rightarrow> bytes \<Rightarrow> ('a \<times> bytes) option" where
  "sep_loop 0 item a s = None"
| "sep_loop (Suc n) item a s =
     Option.bind (item a s) (\<lambda>(a1, r). let (more, r1) = js_take 44 r in if more then sep_loop n item a1 r1 else Some (a1, r1))"

definition sep_list :: "('a \<Rightarrow> bytes \<Rightarrow> ('a \<times> bytes) option) \<Rightarrow> 'a \<Rightarrow> bytes \<Rightarrow> ('a \<times> bytes) option" where
  "sep_list item a s = sep_loop (Suc (length s)) item a s"

definition close_with :: "u8 \<Rightarrow> (unit \<times> bytes) option \<Rightarrow> bytes option" where
  "close_with c result =
     Option.bind result (\<lambda>(u, r). let (ok, r1) = js_take c r in if ok then Some r1 else None)"

text \<open>The two loop bodies of \<open>skipValue\<close>, on the call for the value inside.\<close>

definition js_member :: "(bytes \<Rightarrow> bytes option) \<Rightarrow> unit \<Rightarrow> bytes \<Rightarrow> (unit \<times> bytes) option" where
  "js_member skip u s =
     Option.bind (js_string None s) (\<lambda>(k, s1).
       let (colon, s2) = js_take 58 s1 in if colon then map_option (Pair ()) (skip s2) else None)"

definition js_element :: "(bytes \<Rightarrow> bytes option) \<Rightarrow> unit \<Rightarrow> bytes \<Rightarrow> (unit \<times> bytes) option" where
  "js_element skip u s = map_option (Pair ()) (skip s)"

text \<open>
  \<open>skipValue\<close> on the depth that is left: the code starts at depth 0 and fails above 32, so it is
  \<open>skipValue 33\<close> here.
\<close>

primrec skipValue :: "nat \<Rightarrow> bytes \<Rightarrow> bytes option" where
  "skipValue 0 = (\<lambda>s. None)"
| "skipValue (Suc d) = (\<lambda>s0.
     case skipSpace s0 of [] \<Rightarrow> None
     | c # r \<Rightarrow>
         if c = 34 then map_option snd (js_string None (c # r))
         else if c = 123 then
           (let (empty, r1) = js_take 125 r
            in if empty then Some r1
               else close_with 125 (sep_list (js_member (skipValue d)) () r1))
         else if c = 91 then
           (let (empty, r1) = js_take 93 r
            in if empty then Some r1
               else close_with 93 (sep_list (js_element (skipValue d)) () r1))
         else if c = 116 then (let (ok, r1) = js_literal [116, 114, 117, 101] (c # r) in if ok then Some r1 else None)
         else if c = 102 then (let (ok, r1) = js_literal [102, 97, 108, 115, 101] (c # r) in if ok then Some r1 else None)
         else if c = 110 then (let (ok, r1) = js_literal [110, 117, 108, 108] (c # r) in if ok then Some r1 else None)
         else skipNumber (c # r))"

definition skip_value :: "bytes \<Rightarrow> bytes option" where
  "skip_value s = skipValue 33 s"

definition js_atEnd :: "bytes \<Rightarrow> bool" where
  "js_atEnd s \<longleftrightarrow> skipSpace s = []"

end
