(* ===== verification/JsonGrammar.thy ===== *)
theory JsonGrammar
  imports JsonCursor
begin

text \<open>
  The JSON that \<open>JsonCursor\<close> is meant to read, as a grammar over byte strings, and the proof
  that \<open>skip_value\<close> recognises it: what it consumes is a value of the grammar, and every text
  that is one value between spaces is consumed to its last byte. A depth bounds the nesting as
  the code's \<open>depth > 32\<close> does.
\<close>

subsection \<open>What each operation consumes\<close>

definition spaces :: "bytes \<Rightarrow> bool" where
  "spaces w \<longleftrightarrow> list_all js_space w"

lemma skipSpace_split: "\<exists>w. s = w @ skipSpace s \<and> spaces w"
proof (induction s rule: skipSpace.induct)
  case (2 c s)
  show ?case
  proof (cases "js_space c")
    case True
    with 2 obtain w where "s = w @ skipSpace s" "spaces w" by blast
    with True have "c # s = (c # w) @ skipSpace (c # s) \<and> spaces (c # w)" by (simp add: spaces_def)
    then show ?thesis by blast
  qed (simp add: spaces_def)
qed (simp add: spaces_def)

lemma skipSpace_head: "skipSpace s = c # r \<Longrightarrow> \<not> js_space c"
  by (induction s rule: skipSpace.induct) (auto split: if_splits)

lemma skipSpace_spaces [simp]: "spaces w \<Longrightarrow> skipSpace (w @ s) = skipSpace s"
  by (induction w) (auto simp: spaces_def)

lemma skipSpace_solid [simp]: "\<not> js_space c \<Longrightarrow> skipSpace (c # s) = c # s"
  by simp

lemma skipSpace_idem [simp]: "skipSpace (skipSpace s) = skipSpace s"
  by (induction s rule: skipSpace.induct) auto

lemma length_skipSpace: "length (skipSpace s) \<le> length s"
  by (induction s rule: skipSpace.induct) auto

lemma spaces_append [simp]: "spaces (u @ v) \<longleftrightarrow> spaces u \<and> spaces v"
  by (simp add: spaces_def)

lemma spaces_Nil [simp]: "spaces []"
  by (simp add: spaces_def)

lemma js_takeD: "js_take c s = (True, r) \<Longrightarrow> skipSpace s = c # r"
  by (auto simp: js_take_def js_peek_def Let_def split: if_splits)

lemma js_take_split:
  assumes "js_take c s = (True, r)"
  shows "\<exists>w. s = w @ c # r \<and> spaces w"
  using skipSpace_split [of s] js_takeD [OF assms] by simp

lemma js_take_False: "js_take c s = (False, r) \<Longrightarrow> r = skipSpace s \<and> (\<forall>t. skipSpace s \<noteq> c # t)"
  by (auto simp: js_take_def js_peek_def Let_def split: if_splits)

lemma js_take_shorter: "js_take c s = (True, r) \<Longrightarrow> length r < length s"
  by (drule js_take_split) auto

lemma js_take_le: "js_take c s = (b, r) \<Longrightarrow> length r \<le> length s"
  by (cases b) (auto dest: js_take_shorter js_take_False simp: length_skipSpace)

lemma js_take_here [simp]: "spaces w \<Longrightarrow> \<not> js_space c \<Longrightarrow> js_take c (w @ c # r) = (True, r)"
  by (simp add: js_take_def js_peek_def Let_def)

lemma js_take_here0 [simp]: "\<not> js_space c \<Longrightarrow> js_take c (c # r) = (True, r)"
  using js_take_here [of "[]" c r] by simp

lemma js_take_other: "skipSpace s = d # r \<Longrightarrow> d \<noteq> c \<Longrightarrow> js_take c s = (False, d # r)"
  by (simp add: js_take_def js_peek_def Let_def)

lemma js_take_simps:
  "(case js_take c s of (ok, t) \<Rightarrow> if ok then f t else None) = Some x \<longleftrightarrow> (\<exists>t. js_take c s = (True, t) \<and> f t = Some x)"
  "(case js_take c s of (ok, t) \<Rightarrow> if \<not> ok then None else f t) = Some x \<longleftrightarrow> (\<exists>t. js_take c s = (True, t) \<and> f t = Some x)"
  "(case js_take c s of (ok, t) \<Rightarrow> if ok then None else f t) = Some x \<longleftrightarrow> (\<exists>t. js_take c s = (False, t) \<and> f t = Some x)"
  by (cases "js_take c s"; auto)+

subsection \<open>Lists with commas\<close>

definition consuming :: "('a \<Rightarrow> bytes \<Rightarrow> ('a \<times> bytes) option) \<Rightarrow> bool" where
  "consuming item \<longleftrightarrow> (\<forall>a s b r. item a s = Some (b, r) \<longrightarrow> length r < length s)"

lemma consumingI [intro]: "(\<And>a s b r. item a s = Some (b, r) \<Longrightarrow> length r < length s) \<Longrightarrow> consuming item"
  by (simp add: consuming_def)

lemma consumingD: "consuming item \<Longrightarrow> item a s = Some (b, r) \<Longrightarrow> length r < length s"
  unfolding consuming_def by blast

lemma sep_loop_fuel:
  "consuming item \<Longrightarrow> length s < n \<Longrightarrow> length s < m \<Longrightarrow> sep_loop n item a s = sep_loop m item a s"
proof (induction n arbitrary: m a s)
  case (Suc n)
  then obtain k where m: "m = Suc k" by (cases m) auto
  have "sep_loop n item b r1 = sep_loop k item b r1"
    if "item a s = Some (b, r)" "js_take 44 r = (True, r1)" for b r r1
    using consumingD [OF Suc.prems(1) that(1)] js_take_shorter [OF that(2)] Suc.prems m
    by (intro Suc.IH) auto
  then show ?case unfolding m by (auto simp: Let_def split: bind_splits prod.splits)
qed simp

text \<open>\<open>sep_list\<close> is the loop: an item, and the loop again after a comma.\<close>

lemma sep_list_step:
  assumes "consuming item"
  shows "sep_list item a s = Option.bind (item a s) (\<lambda>(b, r).
    let (another, r1) = js_take 44 r in if another then sep_list item b r1 else Some (b, r1))"
proof -
  have "sep_loop (length s) item b r1 = sep_list item b r1"
    if "item a s = Some (b, r)" "js_take 44 r = (True, r1)" for b r r1
    unfolding sep_list_def using consumingD [OF assms that(1)] js_take_shorter [OF that(2)] assms
    by (intro sep_loop_fuel) auto
  then show ?thesis
    by (auto simp: sep_list_def Let_def split: bind_splits prod.splits)
qed

lemma sep_list_SomeE:
  assumes "consuming item" and "sep_list item a s = Some (b, r)"
  obtains c t another r1 where "item a s = Some (c, t)" and "js_take 44 t = (another, r1)"
    and "(if another then sep_list item c r1 else Some (c, r1)) = Some (b, r)"
proof -
  from assms(2) obtain c t where i: "item a s = Some (c, t)"
    and e: "(let (another, r1) = js_take 44 t in if another then sep_list item c r1 else Some (c, r1)) = Some (b, r)"
    unfolding sep_list_step [OF assms(1), of a s] by (auto simp: bind_eq_Some_conv)
  obtain another r1 where k: "js_take 44 t = (another, r1)" by fastforce
  show thesis using that i k e by simp
qed

lemma sep_list_shorter:
  assumes "consuming item"
  shows "sep_list item a s = Some (b, r) \<Longrightarrow> length r < length s"
proof (induction "length s" arbitrary: a s rule: less_induct)
  case less
  obtain c t another r1 where i: "item a s = Some (c, t)"
    and k: "js_take 44 t = (another, r1)"
    and e: "(if another then sep_list item c r1 else Some (c, r1)) = Some (b, r)"
    by (rule sep_list_SomeE [OF assms less.prems])
  have lt: "length t < length s" by (rule consumingD [OF assms i])
  show ?case
  proof (cases another)
    case True
    with k have "length r1 < length t" by (auto dest: js_take_shorter)
    moreover from this lt e True less.hyps [of r1 c] have "length r < length r1" by simp
    ultimately show ?thesis using lt by simp
  qed (use lt k e js_take_le in fastforce)
qed

lemma sep_list_induct [consumes 2, case_names last another]:
  assumes "consuming item" and "sep_list item a s = Some (b, r)"
    and last: "\<And>a s c t r. item a s = Some (c, t) \<Longrightarrow> js_take 44 t = (False, r) \<Longrightarrow> P a s c r"
    and another: "\<And>a s c t t1 b r. item a s = Some (c, t) \<Longrightarrow> js_take 44 t = (True, t1) \<Longrightarrow>
      sep_list item c t1 = Some (b, r) \<Longrightarrow> P c t1 b r \<Longrightarrow> P a s b r"
  shows "P a s b r"
  using assms(2)
proof (induction "length s" arbitrary: a s rule: less_induct)
  case less
  obtain c t x r1 where i: "item a s = Some (c, t)" and k: "js_take 44 t = (x, r1)"
    and e: "(if x then sep_list item c r1 else Some (c, r1)) = Some (b, r)"
    by (rule sep_list_SomeE [OF assms(1) less.prems])
  show ?case
  proof (cases x)
    case True
    have "length r1 < length s"
      using consumingD [OF assms(1) i] js_take_shorter k True by fastforce
    with True e less.hyps have "P c r1 b r" by simp
    with i k True e another show ?thesis by auto
  next
    case False
    with i k e last show ?thesis by auto
  qed
qed

lemma sep_list_invariant:
  assumes "consuming item" and "sep_list item a s = Some (b, r)" and "keeps a"
    and step: "\<And>a s b r. item a s = Some (b, r) \<Longrightarrow> keeps a \<Longrightarrow> keeps b"
  shows "keeps b"
  using assms(1-3)
proof (induction rule: sep_list_induct)
  case (last a s c t r)
  then show ?case by (blast intro: step)
next
  case (another a s c t t1 b r)
  then show ?case by (blast intro: step)
qed

subsection \<open>The grammar\<close>

text \<open>
  The characters between the quotes: a byte from the space up, a two-character escape, or \<open>\u\<close>
  with four hexadecimal digits: one unit outside the surrogates and not zero, or a high and a low
  surrogate.
\<close>

inductive jchars :: "bytes \<Rightarrow> bool" where
  jc_empty: "jchars []"
| jc_plain: "0x20 \<le> c \<Longrightarrow> c \<noteq> 34 \<Longrightarrow> c \<noteq> 92 \<Longrightarrow> jchars w \<Longrightarrow> jchars (c # w)"
| jc_escape: "e \<in> set [34, 92, 47, 98, 102, 110, 114, 116] \<Longrightarrow> jchars w \<Longrightarrow> jchars (92 # e # w)"
| jc_unit: "hex_fold 0 [a, b, c, d] = Some v \<Longrightarrow> v \<noteq> 0 \<Longrightarrow> v < 0xD800 \<or> 0xDFFF < v \<Longrightarrow> jchars w \<Longrightarrow>
    jchars (92 # 117 # a # b # c # d # w)"
| jc_pair: "hex_fold 0 [a, b, c, d] = Some v \<Longrightarrow> 0xD800 \<le> v \<Longrightarrow> v \<le> 0xDBFF \<Longrightarrow>
    hex_fold 0 [a', b', c', d'] = Some v' \<Longrightarrow> 0xDC00 \<le> v' \<Longrightarrow> v' \<le> 0xDFFF \<Longrightarrow> jchars w \<Longrightarrow>
    jchars (92 # 117 # a # b # c # d # 92 # 117 # a' # b' # c' # d' # w)"

inductive jstring :: "bytes \<Rightarrow> bool" where
  js_quoted: "spaces sp \<Longrightarrow> jchars w \<Longrightarrow> jstring (sp @ 34 # w @ [34])"

definition digits :: "bytes \<Rightarrow> bool" where
  "digits w \<longleftrightarrow> list_all js_digit w"

inductive jint :: "bytes \<Rightarrow> bool" where
  ji_zero: "jint [48]"
| ji_digits: "js_digit c \<Longrightarrow> c \<noteq> 48 \<Longrightarrow> digits w \<Longrightarrow> jint (c # w)"

inductive jfrac :: "bytes \<Rightarrow> bool" where
  jf_none: "jfrac []"
| jf_some: "digits w \<Longrightarrow> w \<noteq> [] \<Longrightarrow> jfrac (46 # w)"

inductive jexp :: "bytes \<Rightarrow> bool" where
  je_none: "jexp []"
| je_some: "e \<in> {101, 69} \<Longrightarrow> sg \<in> {[], [43], [45]} \<Longrightarrow> digits w \<Longrightarrow> w \<noteq> [] \<Longrightarrow> jexp (e # sg @ w)"

inductive jnumber :: "bytes \<Rightarrow> bool" where
  jn: "sg \<in> {[], [45]} \<Longrightarrow> jint i \<Longrightarrow> jfrac f \<Longrightarrow> jexp e \<Longrightarrow> jnumber (sg @ i @ f @ e)"

text \<open>Values, members and the comma-separated bodies, with the spaces before them.\<close>

inductive jvalue :: "nat \<Rightarrow> bytes \<Rightarrow> bool" and jmember :: "nat \<Rightarrow> bytes \<Rightarrow> bool"
  and jmembers :: "nat \<Rightarrow> bytes \<Rightarrow> bool" and jelements :: "nat \<Rightarrow> bytes \<Rightarrow> bool" where
  jv_string: "jstring w \<Longrightarrow> jvalue (Suc d) w"
| jv_number: "spaces sp \<Longrightarrow> jnumber w \<Longrightarrow> jvalue (Suc d) (sp @ w)"
| jv_true: "spaces sp \<Longrightarrow> jvalue (Suc d) (sp @ [116, 114, 117, 101])"
| jv_false: "spaces sp \<Longrightarrow> jvalue (Suc d) (sp @ [102, 97, 108, 115, 101])"
| jv_null: "spaces sp \<Longrightarrow> jvalue (Suc d) (sp @ [110, 117, 108, 108])"
| jv_empty_object: "spaces sp \<Longrightarrow> spaces sq \<Longrightarrow> jvalue (Suc d) (sp @ 123 # sq @ [125])"
| jv_object: "spaces sp \<Longrightarrow> jmembers d w \<Longrightarrow> spaces sq \<Longrightarrow> jvalue (Suc d) (sp @ 123 # w @ sq @ [125])"
| jv_empty_array: "spaces sp \<Longrightarrow> spaces sq \<Longrightarrow> jvalue (Suc d) (sp @ 91 # sq @ [93])"
| jv_array: "spaces sp \<Longrightarrow> jelements d w \<Longrightarrow> spaces sq \<Longrightarrow> jvalue (Suc d) (sp @ 91 # w @ sq @ [93])"
| jm: "jstring k \<Longrightarrow> spaces sp \<Longrightarrow> jvalue d w \<Longrightarrow> jmember d (k @ sp @ 58 # w)"
| jm_one: "jmember d w \<Longrightarrow> jmembers d w"
| jm_more: "jmember d w \<Longrightarrow> spaces sp \<Longrightarrow> jmembers d v \<Longrightarrow> jmembers d (w @ sp @ 44 # v)"
| je_one: "jvalue d w \<Longrightarrow> jelements d w"
| je_more: "jvalue d w \<Longrightarrow> spaces sp \<Longrightarrow> jelements d v \<Longrightarrow> jelements d (w @ sp @ 44 # v)"

definition json_text :: "nat \<Rightarrow> bytes \<Rightarrow> bool" where
  "json_text d s \<longleftrightarrow> (\<exists>w sp. s = w @ sp \<and> jvalue d w \<and> spaces sp)"

subsection \<open>Strings\<close>

lemma simple_escape_iff: "simple_escape e \<noteq> None \<longleftrightarrow> e \<in> set [34, 92, 47, 98, 102, 110, 114, 116]"
  by (auto simp: simple_escape_def)

lemma hex4_split: "hex4 s = Some (v, r) \<Longrightarrow> \<exists>a b c d. s = a # b # c # d # r \<and> hex_fold 0 [a, b, c, d] = Some v"
proof -
  assume h: "hex4 s = Some (v, r)"
  then have l: "4 \<le> length s" by (auto simp: hex4_def split: if_splits)
  then obtain a b c d t where s: "s = a # b # c # d # t"
    by (metis (no_types, opaque_lifting) Suc_le_length_iff numeral_eq_Suc pred_numeral_simps(2,3) semiring_norm(26,27))
  from h show ?thesis unfolding s by (auto simp: hex4_def simp del: hex_fold.simps)
qed

lemma hex4_join: "hex_fold 0 [a, b, c, d] = Some v \<Longrightarrow> hex4 (a # b # c # d # r) = Some (v, r)"
  by (simp add: hex4_def del: hex_fold.simps)

lemma unicode_escape_split:
  assumes "unicode_escape s = Some (v, r)"
  shows "\<exists>w. s = w @ r \<and> (\<forall>x. jchars x \<longrightarrow> jchars (92 # 117 # w @ x))"
proof -
  from assms obtain code t where h: "hex4 s = Some (code, t)" "code \<noteq> 0"
    by (auto simp: unicode_escape_def bind_eq_Some_conv split: if_splits)
  from hex4_split [OF h(1)] obtain a b c d where s: "s = a # b # c # d # t" "hex_fold 0 [a, b, c, d] = Some code"
    by blast
  show ?thesis
  proof (cases "0xD800 \<le> code \<and> code \<le> 0xDBFF")
    case True
    with assms h obtain low where p: "2 \<le> length t" "take 2 t = [92, 117]" "hex4 (drop 2 t) = Some (low, r)"
      "0xDC00 \<le> low" "low \<le> 0xDFFF"
      by (auto simp: unicode_escape_def bind_eq_Some_conv not_less split: if_splits)
    from hex4_split [OF p(3)] obtain a' b' c' d' where
      q: "drop 2 t = a' # b' # c' # d' # r" "hex_fold 0 [a', b', c', d'] = Some low" by blast
    from p(2) q(1) have "t = [92, 117] @ a' # b' # c' # d' # r" by (metis append_take_drop_id)
    then have "s = [a, b, c, d, 92, 117, a', b', c', d'] @ r" using s by simp
    moreover have "jchars (92 # 117 # [a, b, c, d, 92, 117, a', b', c', d'] @ x)" if "jchars x" for x
      using jc_pair [OF s(2) _ _ q(2) p(4,5) that] True by simp
    ultimately show ?thesis by blast
  next
    case False
    with assms h have "r = t" "\<not> (0xDC00 \<le> code \<and> code \<le> 0xDFFF)"
      by (auto simp: unicode_escape_def bind_eq_Some_conv split: if_splits)
    moreover from this False have "code < 0xD800 \<or> 0xDFFF < code" by unat_arith
    ultimately show ?thesis using s h(2) jc_unit [OF s(2)] by (intro exI [of _ "[a, b, c, d]"]) auto
  qed
qed

lemma string_loop_split: "string_loop out acc s = Some (x, r) \<Longrightarrow> \<exists>w. s = w @ 34 # r \<and> jchars w"
proof (induction out acc s rule: string_loop.induct)
  case (2 out acc symbol s)
  consider (quote) "symbol = 34" | (low) "symbol \<noteq> 34" "symbol < 0x20"
    | (plain) "symbol \<noteq> 34" "\<not> symbol < 0x20" "symbol \<noteq> 92" | (escape) "symbol = 92" by auto
  then show ?case
  proof cases
    case quote
    with 2 show ?thesis by (auto intro: jc_empty)
  next
    case low
    with 2(4) show ?thesis by simp
  next
    case plain
    with 2(4) obtain acc1 where "js_put out symbol acc = Some acc1" "string_loop out acc1 s = Some (x, r)"
      by (auto simp: bind_eq_Some_conv)
    with 2(1) plain obtain w where "s = w @ 34 # r" "jchars w" by blast
    with plain show ?thesis by (intro exI [of _ "symbol # w"]) (auto intro: jc_plain simp: not_less)
  next
    case escape
    with 2(4) obtain e s1 where s: "s = e # s1" by (cases s) auto
    show ?thesis
    proof (cases "e = 117")
      case True
      with 2(4) escape s obtain code s2 acc1 where u: "unicode_escape s1 = Some (code, s2)"
        "string_loop out acc1 s2 = Some (x, r)" "putUtf8 out code acc = Some acc1"
        by (auto simp: bind_eq_Some_conv split: option.splits)
      from 2(2) [OF _ _ _ s True u(1) refl u(3)] u escape obtain w where w: "s2 = w @ 34 # r" "jchars w" by auto
      from unicode_escape_split [OF u(1)] obtain v where "s1 = v @ s2" "jchars (92 # 117 # v @ w)"
        using w(2) by blast
      with s True escape w show ?thesis by (intro exI [of _ "92 # 117 # v @ w"]) auto
    next
      case False
      with 2(4) escape s obtain c acc1 where u: "simple_escape e = Some c"
        "string_loop out acc1 s1 = Some (x, r)" "js_put out c acc = Some acc1"
        by (auto simp: bind_eq_Some_conv split: option.splits)
      from 2(3) [OF _ _ _ s False u(1,3)] u escape obtain w where w: "s1 = w @ 34 # r" "jchars w" by auto
      from u(1) simple_escape_iff have "e \<in> set [34, 92, 47, 98, 102, 110, 114, 116]" by auto
      from jc_escape [OF this w(2)] w(1) s escape show ?thesis by (intro exI [of _ "92 # e # w"]) auto
    qed
  qed
qed simp

lemma js_string_split: "js_string out s = Some (x, r) \<Longrightarrow> \<exists>w. s = w @ r \<and> jstring w"
proof -
  assume h: "js_string out s = Some (x, r)"
  then obtain t where "js_take 34 s = (True, t)" "string_loop out [] t = Some (x, r)"
    by (auto simp: js_string_def Let_def split: prod.splits if_splits)
  from js_take_split [OF this(1)] string_loop_split [OF this(2)] obtain sp w
    where "s = sp @ 34 # w @ 34 # r" "spaces sp" "jchars w" by auto
  then have "s = (sp @ 34 # w @ [34]) @ r \<and> jstring (sp @ 34 # w @ [34])" by (auto intro: js_quoted)
  then show ?thesis by blast
qed

lemma jchars_loop: "jchars w \<Longrightarrow> string_loop None acc (w @ 34 # r) = Some (acc, r)"
proof (induction w arbitrary: acc rule: jchars.induct)
  case (jc_plain c w)
  then show ?case by (simp add: js_put_def not_less)
next
  case (jc_escape e w)
  then have "e \<noteq> 117" by auto
  from jc_escape.hyps(1) simple_escape_iff obtain c where "simple_escape e = Some c" by blast
  with jc_escape.IH \<open>e \<noteq> 117\<close> show ?case by (simp add: js_put_def)
next
  case (jc_unit a b c d v w)
  have bmp: "(0xD800 \<le> v \<and> v \<le> 0xDBFF) = False" "(0xDC00 \<le> v \<and> v \<le> 0xDFFF) = False"
    using jc_unit.hyps(3) by unat_arith+
  have "unicode_escape (a # b # c # d # w @ 34 # r) = Some (v, w @ 34 # r)"
    using jc_unit.hyps(2) by (simp add: unicode_escape_def bmp hex4_join [OF jc_unit.hyps(1)])
  moreover have "put_all None cs acc = Some acc" for cs by (induction cs) (auto simp: js_put_def)
  ultimately show ?case using jc_unit.IH by (simp add: putUtf8_def)
next
  case (jc_pair a b c d v a' b' c' d' v' w)
  have z: "v \<noteq> 0" using jc_pair.hyps(2) by auto
  have "unicode_escape (a # b # c # d # 92 # 117 # a' # b' # c' # d' # w @ 34 # r) =
      Some (surrogate_code v v', w @ 34 # r)"
    using jc_pair.hyps hex4_join [OF jc_pair.hyps(1)] hex4_join [OF jc_pair.hyps(4)] z
    by (auto simp: unicode_escape_def not_less)
  moreover have "put_all None cs acc = Some acc" for cs by (induction cs) (auto simp: js_put_def)
  ultimately show ?case using jc_pair.IH by (simp add: putUtf8_def)
qed simp

lemma js_string_join: "jstring w \<Longrightarrow> js_string None (w @ r) = Some ([], r)"
  by (induction rule: jstring.induct) (simp add: js_string_def Let_def jchars_loop js_space_def)

lemma jstring_nonempty: "jstring w \<Longrightarrow> w \<noteq> []"
  by (induction rule: jstring.induct) simp

lemma jstring_head: "jstring w \<Longrightarrow> \<exists>t. skipSpace (w @ r) = 34 # t"
  by (induction rule: jstring.induct) (simp add: js_space_def)

lemma js_string_shorter: "js_string out s = Some (x, r) \<Longrightarrow> length r < length s"
  using js_string_split jstring_nonempty by fastforce

subsection \<open>Numbers\<close>

definition stops :: "bytes \<Rightarrow> bool" where
  "stops r \<longleftrightarrow> r = [] \<or> \<not> js_digit (hd r) \<and> hd r \<noteq> 46 \<and> hd r \<noteq> 101 \<and> hd r \<noteq> 69"

lemma skipDigits_split: "\<exists>w. s = w @ skipDigits s \<and> digits w"
proof (induction s)
  case (Cons c s)
  then obtain w where w: "s = w @ skipDigits s" "digits w" by blast
  show ?case
  proof (cases "js_digit c")
    case True
    with w have "c # s = (c # w) @ skipDigits (c # s) \<and> digits (c # w)" by (simp add: digits_def)
    then show ?thesis by blast
  qed (simp add: digits_def)
qed (simp add: digits_def)

lemma skipDigits_join: "digits w \<Longrightarrow> r = [] \<or> \<not> js_digit (hd r) \<Longrightarrow> skipDigits (w @ r) = r"
proof (induction w)
  case Nil
  then show ?case by (cases r) auto
qed (simp add: digits_def)

lemma some_digits_split: "some_digits s = Some r \<Longrightarrow> \<exists>w. s = w @ r \<and> digits w \<and> w \<noteq> []"
proof -
  assume h: "some_digits s = Some r"
  then obtain c t where s: "s = c # t" "js_digit c" "r = skipDigits t"
    by (cases s) (auto simp: some_digits_def split: if_splits)
  obtain w where "t = w @ skipDigits t" "digits w" using skipDigits_split by blast
  with s have "s = (c # w) @ r \<and> digits (c # w) \<and> c # w \<noteq> []" by (simp add: digits_def)
  then show ?thesis by blast
qed

lemma some_digits_join:
  "digits w \<Longrightarrow> w \<noteq> [] \<Longrightarrow> r = [] \<or> \<not> js_digit (hd r) \<Longrightarrow> some_digits (w @ r) = Some r"
  using skipDigits_join [of w r] by (cases w) (auto simp: some_digits_def digits_def)

lemma skip_int_split: "skip_int s = Some r \<Longrightarrow> \<exists>w. s = w @ r \<and> jint w"
proof -
  assume h: "skip_int s = Some r"
  then obtain c t where s: "s = c # t" "js_digit c" "r = (if c = 48 then t else skipDigits t)"
    by (cases s) (auto simp: skip_int_def split: if_splits)
  obtain w where "t = w @ skipDigits t" "digits w" using skipDigits_split by blast
  with s have "s = (c # (if c = 48 then [] else w)) @ r \<and> jint (c # (if c = 48 then [] else w))"
    by (auto intro: jint.intros)
  then show ?thesis by blast
qed

lemma skip_fraction_split: "skip_fraction s = Some r \<Longrightarrow> \<exists>w. s = w @ r \<and> jfrac w"
proof -
  assume h: "skip_fraction s = Some r"
  show ?thesis
  proof (cases "s \<noteq> [] \<and> hd s = 46")
    case True
    with h some_digits_split [of "tl s" r] obtain w where "tl s = w @ r" "digits w" "w \<noteq> []"
      by (auto simp: skip_fraction_def)
    with True jf_some have "s = (46 # w) @ r \<and> jfrac (46 # w)" by (cases s) auto
    then show ?thesis by blast
  qed (use h jf_none in \<open>auto simp: skip_fraction_def\<close>)
qed

lemma skip_exponent_split: "skip_exponent s = Some r \<Longrightarrow> \<exists>w. s = w @ r \<and> jexp w"
proof -
  assume h: "skip_exponent s = Some r"
  show ?thesis
  proof (cases "s \<noteq> [] \<and> (hd s = 101 \<or> hd s = 69)")
    case True
    then obtain e t where s: "s = e # t" "e \<in> {101, 69}" by (cases s) auto
    let ?sg = "if t \<noteq> [] \<and> (hd t = 43 \<or> hd t = 45) then [hd t] else []"
    have t: "t = ?sg @ (if t \<noteq> [] \<and> (hd t = 43 \<or> hd t = 45) then tl t else t)" by simp
    from h s some_digits_split [of "if t \<noteq> [] \<and> (hd t = 43 \<or> hd t = 45) then tl t else t" r] obtain w
      where w: "(if t \<noteq> [] \<and> (hd t = 43 \<or> hd t = 45) then tl t else t) = w @ r" "digits w" "w \<noteq> []"
      by (auto simp: skip_exponent_def)
    have "s = (e # ?sg @ w) @ r" using s(1) t w(1) by simp
    moreover have "jexp (e # ?sg @ w)" by (rule je_some) (use s w in auto)
    ultimately show ?thesis by blast
  qed (use h je_none in \<open>auto simp: skip_exponent_def\<close>)
qed

lemma skipNumber_split: "skipNumber s = Some r \<Longrightarrow> \<exists>w. s = w @ r \<and> jnumber w"
proof -
  assume h: "skipNumber s = Some r"
  let ?sg = "if s \<noteq> [] \<and> hd s = 45 then [45] else []" and ?t = "if s \<noteq> [] \<and> hd s = 45 then tl s else s"
  from h obtain t1 t2 where a: "skip_int ?t = Some t1" "skip_fraction t1 = Some t2" "skip_exponent t2 = Some r"
    by (auto simp: skipNumber_def bind_eq_Some_conv)
  from skip_int_split [OF a(1)] skip_fraction_split [OF a(2)] skip_exponent_split [OF a(3)]
  obtain i f e where w: "?t = i @ t1" "jint i" "t1 = f @ t2" "jfrac f" "t2 = e @ r" "jexp e" by blast
  have "s = ?sg @ ?t" by (cases s) auto
  with w have "s = (?sg @ i @ f @ e) @ r" by simp
  moreover have "jnumber (?sg @ i @ f @ e)" by (rule jn) (use w in auto)
  ultimately show ?thesis by blast
qed

lemma jexp_head: "jexp e \<Longrightarrow> stops r \<Longrightarrow> e @ r = [] \<or> \<not> js_digit (hd (e @ r)) \<and> hd (e @ r) \<noteq> 46"
  by (induction rule: jexp.induct) (auto simp: stops_def js_digit_def)

lemma skip_exponent_join: "jexp e \<Longrightarrow> stops r \<Longrightarrow> skip_exponent (e @ r) = Some r"
proof (induction rule: jexp.induct)
  case (je_some e sg w)
  have d: "some_digits (w @ r) = Some r" using je_some by (auto intro: some_digits_join simp: stops_def)
  obtain c t where "w = c # t" "js_digit c" using je_some(3,4) by (cases w) (auto simp: digits_def)
  then have "hd (w @ r) \<noteq> 43" "hd (w @ r) \<noteq> 45" "w @ r \<noteq> []" by (auto simp: js_digit_def)
  with d je_some(1,2) show ?case by (auto simp: skip_exponent_def Let_def)
qed (auto simp: skip_exponent_def stops_def)

lemma skip_fraction_join: "jfrac f \<Longrightarrow> r = [] \<or> \<not> js_digit (hd r) \<and> hd r \<noteq> 46 \<Longrightarrow> skip_fraction (f @ r) = Some r"
  by (induction rule: jfrac.induct) (auto simp: skip_fraction_def intro: some_digits_join)

lemma jfrac_head: "jfrac f \<Longrightarrow> r = [] \<or> \<not> js_digit (hd r) \<Longrightarrow> f @ r = [] \<or> \<not> js_digit (hd (f @ r))"
  by (induction rule: jfrac.induct) (auto simp: js_digit_def)

lemma skip_int_join: "jint i \<Longrightarrow> r = [] \<or> \<not> js_digit (hd r) \<Longrightarrow> skip_int (i @ r) = Some r"
  by (induction rule: jint.induct) (auto simp: skip_int_def js_digit_def intro: skipDigits_join)

lemma jint_head: "jint i \<Longrightarrow> \<exists>c t. i = c # t \<and> js_digit c"
  by (induction rule: jint.induct) (auto simp: js_digit_def)

lemma skipNumber_join: "jnumber w \<Longrightarrow> stops r \<Longrightarrow> skipNumber (w @ r) = Some r"
proof (induction rule: jnumber.induct)
  case (jn sg i f e)
  have e: "skip_exponent (e @ r) = Some r" "e @ r = [] \<or> \<not> js_digit (hd (e @ r)) \<and> hd (e @ r) \<noteq> 46"
    using jn skip_exponent_join jexp_head by auto
  have f: "skip_fraction (f @ e @ r) = Some (e @ r)" "f @ e @ r = [] \<or> \<not> js_digit (hd (f @ e @ r))"
    using skip_fraction_join [OF jn(3) e(2)] jfrac_head [OF jn(3), of "e @ r"] e(2) by auto
  from jint_head [OF jn(2)] have "hd (i @ f @ e @ r) \<noteq> 45" by (auto simp: js_digit_def)
  then show ?case using jn(1) e(1) f(1) skip_int_join [OF jn(2) f(2)] by (auto simp: skipNumber_def)
qed

lemma jnumber_head: "jnumber w \<Longrightarrow> \<exists>c t. w = c # t \<and> (js_digit c \<or> c = 45)"
  by (induction rule: jnumber.induct) (auto dest: jint_head)

subsection \<open>Values\<close>

lemma stops_after: "spaces sp \<Longrightarrow> c \<in> {44, 58, 93, 125} \<Longrightarrow> stops (sp @ c # r)"
  by (cases sp) (auto simp: stops_def js_digit_def spaces_def js_space_def)

lemma stops_spaces: "spaces sp \<Longrightarrow> stops sp"
  by (cases sp) (auto simp: stops_def js_digit_def spaces_def js_space_def)

lemma jvalue_head:
  "jvalue d w \<Longrightarrow> \<exists>c t. skipSpace (w @ r) = c # t \<and> c \<noteq> 93 \<and> c \<noteq> 125 \<and> w \<noteq> []"
proof -
  assume "jvalue d w"
  then show ?thesis
  proof cases
    case (jv_number sp u e)
    with jnumber_head obtain c t where "u = c # t" "js_digit c \<or> c = 45" by blast
    with jv_number show ?thesis by (auto simp: js_digit_def js_space_def)
  qed (use jstring_head [of w r] jstring_nonempty in \<open>auto simp: js_space_def\<close>)
qed

text \<open>
  Items that each consume one phrase of a grammar, and the list they make with commas: the list
  consumes a phrase \<open>many\<close>, and the spaces its last \<open>take\<close> has looked past.
\<close>

lemma sep_list_split:
  assumes item: "\<And>a s b r. item a s = Some (b, r) \<Longrightarrow> \<exists>w. s = w @ r \<and> w \<noteq> [] \<and> one w"
    and single: "\<And>w. one w \<Longrightarrow> many w"
    and further: "\<And>w sp v. one w \<Longrightarrow> spaces sp \<Longrightarrow> many v \<Longrightarrow> many (w @ sp @ 44 # v)"
  shows "consuming item"
    and "sep_list item a s = Some (b, r) \<Longrightarrow> \<exists>w sp. s = w @ sp @ r \<and> many w \<and> spaces sp"
proof -
  show c: "consuming item" using item by fastforce
  assume "sep_list item a s = Some (b, r)"
  with c show "\<exists>w sp. s = w @ sp @ r \<and> many w \<and> spaces sp"
  proof (induction rule: sep_list_induct)
    case (last a s b t r)
    from item [OF last(1)] obtain w where w: "s = w @ t" "one w" by blast
    from js_take_False [OF last(2)] skipSpace_split [of t] obtain sp where "t = sp @ r" "spaces sp" by auto
    with w single show ?case by blast
  next
    case (another a s c t t1 b r)
    from item [OF another(1)] obtain w where w: "s = w @ t" "one w" by blast
    from js_take_split [OF another(2)] obtain sp where sp: "t = sp @ 44 # t1" "spaces sp" by auto
    from another(4) obtain v sq where q: "t1 = v @ sq @ r" "many v" "spaces sq" by blast
    have "many (w @ sp @ 44 # v)" using w(2) sp(2) q(2) by (rule further)
    with w(1) sp(1) q(1,3) show ?case by (intro exI [of _ "w @ sp @ 44 # v"] exI [of _ sq]) simp
  qed
qed

lemma jmember_nonempty: "jmember d w \<Longrightarrow> w \<noteq> []"
  by (erule jmember.cases) simp

lemma jvalue_nonempty: "jvalue d w \<Longrightarrow> w \<noteq> []"
  using jvalue_head by blast

text \<open>The two instances: values in an array and members in an object.\<close>

lemma elements_split:
  assumes "\<And>a s b r. item a s = Some (b, r) \<Longrightarrow> \<exists>w. s = w @ r \<and> jvalue d w"
  shows "consuming item"
    and "sep_list item a s = Some (b, r) \<Longrightarrow> \<exists>w sp. s = w @ sp @ r \<and> jelements d w \<and> spaces sp"
proof -
  have item: "\<exists>w. s = w @ r \<and> w \<noteq> [] \<and> jvalue d w" if "item a s = Some (b, r)" for a s b r
    using assms [OF that] jvalue_nonempty by blast
  show "consuming item"
    by (rule sep_list_split(1) [where one = "jvalue d" and many = "jelements d"])
      (erule item, erule je_one, erule (2) je_more)
  show "sep_list item a s = Some (b, r) \<Longrightarrow> \<exists>w sp. s = w @ sp @ r \<and> jelements d w \<and> spaces sp"
    by (rule sep_list_split(2) [where one = "jvalue d" and many = "jelements d"])
      (erule item, erule je_one, erule (2) je_more)
qed

lemma members_split:
  assumes "\<And>a s b r. item a s = Some (b, r) \<Longrightarrow> \<exists>w. s = w @ r \<and> jmember d w"
  shows "consuming item"
    and "sep_list item a s = Some (b, r) \<Longrightarrow> \<exists>w sp. s = w @ sp @ r \<and> jmembers d w \<and> spaces sp"
proof -
  have item: "\<exists>w. s = w @ r \<and> w \<noteq> [] \<and> jmember d w" if "item a s = Some (b, r)" for a s b r
    using assms [OF that] jmember_nonempty by blast
  show "consuming item"
    by (rule sep_list_split(1) [where one = "jmember d" and many = "jmembers d"])
      (erule item, erule jm_one, erule (2) jm_more)
  show "sep_list item a s = Some (b, r) \<Longrightarrow> \<exists>w sp. s = w @ sp @ r \<and> jmembers d w \<and> spaces sp"
    by (rule sep_list_split(2) [where one = "jmember d" and many = "jmembers d"])
      (erule item, erule jm_one, erule (2) jm_more)
qed

lemma js_element_item:
  "(\<And>s r. skip s = Some r \<Longrightarrow> \<exists>w. s = w @ r \<and> jvalue d w) \<Longrightarrow> js_element skip a s = Some (b, r) \<Longrightarrow>
   \<exists>w. s = w @ r \<and> jvalue d w"
  by (auto simp: js_element_def)

lemma js_member_item:
  assumes v: "\<And>s r. skip s = Some r \<Longrightarrow> \<exists>w. s = w @ r \<and> jvalue d w" and h: "js_member skip a s = Some (b, r)"
  shows "\<exists>w. s = w @ r \<and> jmember d w"
proof -
  from h obtain k s1 where k: "js_string None s = Some (k, s1)"
    and e: "(let (colon, s2) = js_take 58 s1 in if colon then map_option (Pair ()) (skip s2) else None) = Some (b, r)"
    by (auto simp: js_member_def bind_eq_Some_conv)
  from e obtain s2 where t: "js_take 58 s1 = (True, s2)" "skip s2 = Some r"
    by (auto simp: Let_def split: prod.splits if_splits)
  from js_string_split [OF k] js_take_split [OF t(1)] v [OF t(2)] obtain p sp w
    where w: "s = p @ s1" "jstring p" "s1 = sp @ 58 # s2" "spaces sp" "s2 = w @ r" "jvalue d w" by blast
  have "jmember d (p @ sp @ 58 # w)" using w(2,4,6) by (rule jm)
  with w show ?thesis by (intro exI [of _ "p @ sp @ 58 # w"]) simp
qed

lemma js_element_split:
  assumes "\<And>s r. skip s = Some r \<Longrightarrow> \<exists>w. s = w @ r \<and> jvalue d w"
  shows "consuming (js_element skip)"
    and "sep_list (js_element skip) u s = Some (x, r) \<Longrightarrow> \<exists>w sp. s = w @ sp @ r \<and> jelements d w \<and> spaces sp"
  by (rule elements_split, erule js_element_item [rotated], erule assms, assumption?)+

lemma js_member_split:
  assumes "\<And>s r. skip s = Some r \<Longrightarrow> \<exists>w. s = w @ r \<and> jvalue d w"
  shows "consuming (js_member skip)"
    and "sep_list (js_member skip) u s = Some (x, r) \<Longrightarrow> \<exists>w sp. s = w @ sp @ r \<and> jmembers d w \<and> spaces sp"
  by (rule members_split, erule js_member_item [rotated], erule assms, assumption?)+

lemma js_literal_split:
  "js_literal word s = (True, r) \<Longrightarrow> \<exists>sp. s = sp @ word @ r \<and> spaces sp"
  using skipSpace_split [of s] by (auto simp: js_literal_def Let_def split: if_splits) (metis append_take_drop_id)

lemma close_with_SomeD: "close_with c (Some (u, t)) = Some r \<Longrightarrow> js_take c t = (True, r)"
  by (auto simp: close_with_def Let_def split: prod.splits if_splits)

text \<open>Spaces before a value belong to it.\<close>

lemma jstring_space: "jstring w \<Longrightarrow> spaces sp \<Longrightarrow> jstring (sp @ w)"
  by (induction rule: jstring.induct) (metis append.assoc js_quoted spaces_append)

lemma jvalue_space:
  assumes "jvalue d w" and "spaces so"
  shows "jvalue d (so @ w)"
  using assms(1)
proof cases
  case (jv_string e)
  with assms(2) show ?thesis by (auto intro: jvalue_jmember_jmembers_jelements.jv_string jstring_space)
next
  case (jv_number sp u e)
  with assms(2) jvalue_jmember_jmembers_jelements.jv_number [of "so @ sp" u e] show ?thesis by simp
next
  case (jv_true sp e)
  with assms(2) jvalue_jmember_jmembers_jelements.jv_true [of "so @ sp" e] show ?thesis by simp
next
  case (jv_false sp e)
  with assms(2) jvalue_jmember_jmembers_jelements.jv_false [of "so @ sp" e] show ?thesis by simp
next
  case (jv_null sp e)
  with assms(2) jvalue_jmember_jmembers_jelements.jv_null [of "so @ sp" e] show ?thesis by simp
next
  case (jv_empty_object sp sq e)
  with assms(2) jvalue_jmember_jmembers_jelements.jv_empty_object [of "so @ sp" sq e] show ?thesis by simp
next
  case (jv_object sp e u sq)
  with assms(2) jvalue_jmember_jmembers_jelements.jv_object [of "so @ sp" e u sq] show ?thesis by simp
next
  case (jv_empty_array sp sq e)
  with assms(2) jvalue_jmember_jmembers_jelements.jv_empty_array [of "so @ sp" sq e] show ?thesis by simp
next
  case (jv_array sp e u sq)
  with assms(2) jvalue_jmember_jmembers_jelements.jv_array [of "so @ sp" e u sq] show ?thesis by simp
qed

lemma jmember_space: "jmember d w \<Longrightarrow> spaces so \<Longrightarrow> jmember d (so @ w)"
  by (erule jmember.cases) (metis append.assoc jm jstring_space)

lemma jmembers_space: "jmembers d w \<Longrightarrow> spaces so \<Longrightarrow> jmembers d (so @ w)"
  by (erule jmembers.cases) (metis append.assoc jm_one jm_more jmember_space)+

lemma jelements_space: "jelements d w \<Longrightarrow> spaces so \<Longrightarrow> jelements d (so @ w)"
  by (erule jelements.cases) (metis append.assoc je_one je_more jvalue_space)+

text \<open>What is consumed is a value. Objects and arrays have the same shape.\<close>

lemma bracket_split:
  assumes "(let (empty, r1) = js_take c t in if empty then Some r1 else close_with c (sep_list item () r1)) = Some r"
    and body: "\<And>s x r. sep_list item () s = Some (x, r) \<Longrightarrow> \<exists>w sp. s = w @ sp @ r \<and> body w \<and> spaces sp"
    and space: "\<And>w so. body w \<Longrightarrow> spaces so \<Longrightarrow> body (so @ w)"
  shows "(\<exists>sq. t = sq @ c # r \<and> spaces sq) \<or> (\<exists>w sq. t = w @ sq @ c # r \<and> body w \<and> spaces sq)"
proof (cases "js_take c t")
  case (Pair b r1)
  show ?thesis
  proof (cases b)
    case True
    with assms(1) Pair js_take_split [of c t r] show ?thesis by (auto simp: Let_def)
  next
    case False
    with assms(1) Pair obtain u v where l: "sep_list item () r1 = Some (u, v)" and "close_with c (Some (u, v)) = Some r"
      by (cases "sep_list item () r1") (auto simp: Let_def close_with_def)
    with close_with_SomeD js_take_split obtain sq where q: "v = sq @ c # r" "spaces sq" by blast
    from body [OF l] obtain w sr where w: "r1 = w @ sr @ v" "body w" "spaces sr" by blast
    from Pair False js_take_False skipSpace_split obtain so where o: "t = so @ r1" "spaces so" by metis
    have "t = (so @ w) @ (sr @ sq) @ c # r" using o(1) w(1) q(1) by simp
    moreover have "body (so @ w)" using w(2) o(2) by (rule space)
    moreover have "spaces (sr @ sq)" using w(3) q(2) by simp
    ultimately show ?thesis by blast
  qed
qed

lemma skipValue_split: "skipValue d s = Some r \<Longrightarrow> \<exists>w. s = w @ r \<and> jvalue d w"
proof (induction d arbitrary: s r)
  case (Suc d)
  obtain sp where s: "s = sp @ skipSpace s" "spaces sp" using skipSpace_split by blast
  from Suc.prems obtain c t where sk: "skipSpace s = c # t" by (cases "skipSpace s") auto
  with s have sct: "s = sp @ c # t" and ns: "\<not> js_space c" using skipSpace_head by auto
  have found: ?case if "c # t = w @ r" "jvalue (Suc d) (sp @ w)" for w
    using that sct by (intro exI [of _ "sp @ w"]) simp
  have word: "c # t = word @ r" if "(let (ok, r1) = js_literal word (c # t) in if ok then Some r1 else None) = Some r" for word
    using that ns by (auto simp: js_literal_def Let_def split: if_splits) (metis append_take_drop_id)
  consider (string) "c = 34" | (object) "c = 123" | (array) "c = 91" | (t) "c = 116" | (f) "c = 102"
    | (n) "c = 110" | (number) "c \<notin> {34, 123, 91, 116, 102, 110}" by blast
  then show ?case
  proof cases
    case string
    with Suc.prems sk obtain x where "js_string None (c # t) = Some (x, r)" by auto
    from js_string_split [OF this] obtain w where w: "c # t = w @ r" "jstring w" by blast
    show ?thesis by (rule found [OF w(1) jv_string [OF jstring_space [OF w(2) s(2)]]])
  next
    case object
    with Suc.prems sk have "(let (empty, r1) = js_take 125 t in
        if empty then Some r1 else close_with 125 (sep_list (js_member (skipValue d)) () r1)) = Some r" by simp
    then have "(\<exists>sq. t = sq @ 125 # r \<and> spaces sq) \<or> (\<exists>w sq. t = w @ sq @ 125 # r \<and> jmembers d w \<and> spaces sq)"
      by (rule bracket_split) (rule js_member_split(2), erule Suc.IH, assumption, erule (1) jmembers_space)
    then consider sq where "t = sq @ 125 # r" "spaces sq" | w sq where "t = w @ sq @ 125 # r" "jmembers d w" "spaces sq"
      by blast
    then show ?thesis
    proof cases
      case 1
      then show ?thesis by (intro found [OF _ jv_empty_object [OF s(2) 1(2)]]) (simp add: object)
    next
      case 2
      then show ?thesis by (intro found [OF _ jv_object [OF s(2) 2(2,3)]]) (simp add: object)
    qed
  next
    case array
    with Suc.prems sk have "(let (empty, r1) = js_take 93 t in
        if empty then Some r1 else close_with 93 (sep_list (js_element (skipValue d)) () r1)) = Some r" by simp
    then have "(\<exists>sq. t = sq @ 93 # r \<and> spaces sq) \<or> (\<exists>w sq. t = w @ sq @ 93 # r \<and> jelements d w \<and> spaces sq)"
      by (rule bracket_split) (rule js_element_split(2), erule Suc.IH, assumption, erule (1) jelements_space)
    then consider sq where "t = sq @ 93 # r" "spaces sq" | w sq where "t = w @ sq @ 93 # r" "jelements d w" "spaces sq"
      by blast
    then show ?thesis
    proof cases
      case 1
      then show ?thesis by (intro found [OF _ jv_empty_array [OF s(2) 1(2)]]) (simp add: array)
    next
      case 2
      then show ?thesis by (intro found [OF _ jv_array [OF s(2) 2(2,3)]]) (simp add: array)
    qed
  next
    case t
    with Suc.prems sk show ?thesis by (intro found [OF word jv_true [OF s(2)]]) simp
  next
    case f
    with Suc.prems sk show ?thesis by (intro found [OF word jv_false [OF s(2)]]) simp
  next
    case n
    with Suc.prems sk show ?thesis by (intro found [OF word jv_null [OF s(2)]]) simp
  next
    case number
    with Suc.prems sk have "skipNumber (c # t) = Some r" by simp
    from skipNumber_split [OF this] obtain w where w: "c # t = w @ r" "jnumber w" by blast
    show ?thesis by (rule found [OF w(1) jv_number [OF s(2) w(2)]])
  qed
qed simp

lemma skipValue_shorter: "skipValue d s = Some r \<Longrightarrow> length r < length s"
  using skipValue_split jvalue_head by fastforce

text \<open>And a value is consumed, whatever stands after it that cannot continue a number.\<close>

lemma js_take_skipSpace: "js_take c (skipSpace s) = js_take c s"
  by (simp add: js_take_def js_peek_def)

lemma skipValue_skipSpace: "skipValue d (skipSpace s) = skipValue d s"
  by (cases d) auto

lemma items_skipSpace:
  "js_member skip u (skipSpace s) = js_member skip u s"
  "js_element (skipValue d) u (skipSpace s) = js_element (skipValue d) u s"
  by (simp_all add: js_member_def js_element_def js_string_def js_take_skipSpace skipValue_skipSpace)

lemma sep_list_skipSpace:
  "consuming item \<Longrightarrow> (\<And>a s. item a (skipSpace s) = item a s) \<Longrightarrow> sep_list item a (skipSpace s) = sep_list item a s"
  by (simp add: sep_list_step [of item a s] sep_list_step [of item a "skipSpace s"])

lemma consuming_items: "consuming (js_member (skipValue d))" "consuming (js_element (skipValue d))"
  using js_member_split(1) js_element_split(1) skipValue_split by blast+

lemma jvalue_skip:
  "jvalue d w \<Longrightarrow> stops r \<Longrightarrow> skipValue d (w @ r) = Some r"
  "jmember d w \<Longrightarrow> stops r \<Longrightarrow> js_member (skipValue d) () (w @ r) = Some ((), r)"
  "jmembers d w \<Longrightarrow> spaces sq \<Longrightarrow>
     sep_list (js_member (skipValue d)) () (w @ sq @ 125 # r) = Some ((), 125 # r) \<and> (\<exists>t. skipSpace (w @ v) = 34 # t)"
  "jelements d w \<Longrightarrow> spaces sq \<Longrightarrow>
     sep_list (js_element (skipValue d)) () (w @ sq @ 93 # r) = Some ((), 93 # r) \<and>
     (\<exists>c t. skipSpace (w @ v) = c # t \<and> c \<noteq> 93)"
proof (induction arbitrary: r and r and sq r v and sq r v rule: jvalue_jmember_jmembers_jelements.inducts)
  case (jv_string w d)
  from jv_string.hyps have "js_string None (skipSpace (w @ r)) = Some ([], r)"
    using js_string_join [of w r] by (simp add: js_string_def js_take_skipSpace)
  with jstring_head [OF jv_string.hyps, of r] show ?case by auto
next
  case (jv_number sp w d)
  from jnumber_head [OF jv_number.hyps(2)] obtain c t where "w = c # t" "js_digit c \<or> c = 45" by blast
  with jv_number skipNumber_join [OF jv_number.hyps(2), of r] show ?case by (auto simp: js_digit_def js_space_def)
next
  case (jv_object sp d w sq)
  let ?t = "w @ sq @ 125 # r"
  from jv_object.IH [OF jv_object.hyps(3)] obtain t where t: "skipSpace ?t = 34 # t" by blast
  then have "js_take 125 ?t = (False, skipSpace ?t)" by (simp add: js_take_other)
  moreover have "sep_list (js_member (skipValue d)) () (skipSpace ?t) = Some ((), 125 # r)"
    using jv_object by (subst sep_list_skipSpace) (auto simp: consuming_items items_skipSpace)
  ultimately show ?case using jv_object.hyps by (simp add: js_space_def Let_def close_with_def)
next
  case (jv_array sp d w sq)
  let ?t = "w @ sq @ 93 # r"
  from jv_array.IH [OF jv_array.hyps(3)] obtain c t where t: "skipSpace ?t = c # t" "c \<noteq> 93" by blast
  then have "js_take 93 ?t = (False, skipSpace ?t)" by (simp add: js_take_other)
  moreover have "sep_list (js_element (skipValue d)) () (skipSpace ?t) = Some ((), 93 # r)"
    using jv_array by (subst sep_list_skipSpace) (auto simp: consuming_items items_skipSpace)
  ultimately show ?case using jv_array.hyps by (simp add: js_space_def Let_def close_with_def)
next
  case (jm k sp d w)
  then show ?case by (simp add: js_member_def js_string_join js_space_def)
next
  case (jm_one d w)
  have "js_member (skipValue d) () (w @ sq @ 125 # r) = Some ((), sq @ 125 # r)"
    using jm_one by (simp add: stops_after)
  moreover have "\<exists>t. skipSpace (w @ v) = 34 # t"
    using jm_one.hyps by cases (use jstring_head in auto)
  ultimately show ?case using jm_one
    by (subst sep_list_step [OF consuming_items(1)]) (simp add: js_take_def js_peek_def js_space_def)
next
  case (jm_more d w sp u)
  have "js_member (skipValue d) () (w @ sp @ 44 # u @ sq @ 125 # r) = Some ((), sp @ 44 # u @ sq @ 125 # r)"
    using jm_more by (simp add: stops_after)
  moreover have "\<exists>t. skipSpace ((w @ sp @ 44 # u) @ v) = 34 # t"
    using jm_more.hyps(1) by cases (use jstring_head in auto)
  ultimately show ?case using jm_more
    by (simp add: sep_list_step [OF consuming_items(1), of d _ "w @ _"] js_space_def)
next
  case (je_one d w)
  have "js_element (skipValue d) () (w @ sq @ 93 # r) = Some ((), sq @ 93 # r)"
    using je_one by (simp add: stops_after js_element_def)
  with je_one jvalue_head [OF je_one.hyps, of v] show ?case
    by (subst sep_list_step [OF consuming_items(2)]) (auto simp add: js_take_def js_peek_def js_space_def)
next
  case (je_more d w sp u)
  have "js_element (skipValue d) () (w @ sp @ 44 # u @ sq @ 93 # r) = Some ((), sp @ 44 # u @ sq @ 93 # r)"
    using je_more by (simp add: stops_after js_element_def)
  with je_more jvalue_head [OF je_more.hyps(1), of "sp @ 44 # u @ v"] show ?case
    by (auto simp add: sep_list_step [OF consuming_items(2), of d _ "w @ _"] js_space_def)
qed (simp_all add: js_space_def js_literal_def js_digit_def Let_def)

theorem skip_value_json:
  "(\<exists>r. skip_value s = Some r \<and> js_atEnd r) \<longleftrightarrow> json_text 33 s"
proof
  assume "\<exists>r. skip_value s = Some r \<and> js_atEnd r"
  then obtain r where r: "skipValue 33 s = Some r" "skipSpace r = []" by (auto simp: skip_value_def js_atEnd_def)
  from skipValue_split [OF r(1)] obtain w where "s = w @ r" "jvalue 33 w" by blast
  moreover from r(2) skipSpace_split [of r] have "spaces r" by auto
  ultimately show "json_text 33 s" unfolding json_text_def by blast
next
  assume "json_text 33 s"
  then obtain w sp where w: "s = w @ sp" "jvalue 33 w" "spaces sp" unfolding json_text_def by blast
  have "skipValue 33 s = Some sp" unfolding w(1) using w by (intro jvalue_skip stops_spaces)
  moreover have "skipSpace sp = []" using skipSpace_spaces [OF w(3), of "[]"] by simp
  ultimately show "\<exists>r. skip_value s = Some r \<and> js_atEnd r" by (simp add: skip_value_def js_atEnd_def)
qed

end
