(* ===== verification/GithubTree.thy ===== *)
theory GithubTree
  imports JsonGrammar GitSha1
begin

text \<open>
  The two GitHub answers of \<open>src/github_tree.cpp\<close>: the commit a branch points to and the
  recursive tree of that commit. A C string is the bytes before its zero; \<open>None\<close> is the
  refusal of the whole answer. What a refused call has already written to its outputs is not
  modelled: the callers do not read it.
\<close>

subsection \<open>Keys, digests and paths\<close>

definition readKey :: "nat \<Rightarrow> bytes \<Rightarrow> (bytes \<times> bytes) option" where
  "readKey capacity s =
     Option.bind (js_string (Some capacity) s) (\<lambda>(key, s1).
       let (colon, s2) = js_take 58 s1 in if colon then Some (key, s2) else None)"

definition chars_of :: "bytes \<Rightarrow> string" where
  "chars_of text = map (\<lambda>b. char_of (unat b)) text"

definition isHex40 :: "bytes \<Rightarrow> bool" where
  "isHex40 text \<longleftrightarrow> length text = 40 \<and> parseSha1Hex (Some (chars_of text)) \<noteq> None"

text \<open>The loop over the parts of a path; \<open>part\<close> is the text from the current part on.\<close>

function path_loop :: "bytes \<Rightarrow> bool" where
  "path_loop part =
     (let name = takeWhile (\<lambda>c. c \<noteq> 47) part
      in if name = [] \<or> name = [46] \<or> name = [46, 46] \<or> (\<exists>c \<in> set name. c < 0x20 \<or> c = 92) then False
         else if length name = length part then True
         else path_loop (drop (Suc (length name)) part))"
  by pat_completeness auto
termination
  by (relation "measure length") (auto simp: takeWhile_eq_all_conv dest: leD intro!: diff_less)

declare path_loop.simps [simp del]

definition pathIsSafe :: "bytes \<Rightarrow> bool" where
  "pathIsSafe path \<longleftrightarrow> path \<noteq> [] \<and> hd path \<noteq> 47 \<and> path_loop path"

subsection \<open>The commit of a branch\<close>

text \<open>The loop state inside the object: the type and the digest read so far.\<close>

definition ref_field :: "bytes \<times> bytes \<Rightarrow> bytes \<Rightarrow> ((bytes \<times> bytes) \<times> bytes) option" where
  "ref_field = (\<lambda>(typ, sha) s.
     Option.bind (readKey 16 s) (\<lambda>(key, s1).
       if key = bytes_of ''sha'' then map_option (\<lambda>(v, r). ((typ, v), r)) (js_string (Some 48) s1)
       else if key = bytes_of ''type'' then map_option (\<lambda>(v, r). ((v, sha), r)) (js_string (Some 16) s1)
       else map_option (Pair (typ, sha)) (skip_value s1)))"

text \<open>
  \<open>if (!peek('}')) do item while (take(','))\<close>, then the closing brace: the body of every object
  the two functions look into.
\<close>

definition object_body :: "('a \<Rightarrow> bytes \<Rightarrow> ('a \<times> bytes) option) \<Rightarrow> 'a \<Rightarrow> bytes \<Rightarrow> ('a \<times> bytes) option" where
  "object_body item a s =
     (let (empty, s1) = js_peek 125 s
      in Option.bind (if empty then Some (a, s1) else sep_list item a s1) (\<lambda>(b, s2).
           let (closed, s3) = js_take 125 s2 in if closed then Some (b, s3) else None))"

definition ref_top :: "bytes option \<Rightarrow> bytes \<Rightarrow> (bytes option \<times> bytes) option" where
  "ref_top found s =
     Option.bind (readKey 16 s) (\<lambda>(key, s1).
       if key \<noteq> bytes_of ''object'' then map_option (Pair found) (skip_value s1)
       else let (opened, s2) = js_take 123 s1
            in if \<not> opened then None
               else Option.bind (object_body ref_field ([], []) s2) (\<lambda>((typ, sha), s3).
                 if typ \<noteq> bytes_of ''commit'' \<or> \<not> isHex40 sha then None else Some (Some sha, s3)))"

definition parseGitRefCommit :: "bytes option \<Rightarrow> bool \<Rightarrow> bytes option" where
  "parseGitRefCommit json commitGiven =
     (case json of None \<Rightarrow> None
      | Some text \<Rightarrow>
          if \<not> commitGiven then None
          else let (opened, s) = js_take 123 text
               in if \<not> opened then None
                  else Option.bind (object_body ref_top None s) (\<lambda>(found, r).
                    if js_atEnd r then found else None))"

subsection \<open>The tree of a commit\<close>

record GitTreeEntry =
  gt_path :: bytes
  gt_sha :: bytes
  gt_size :: u32
  gt_directory :: bool

text \<open>The locals of one entry while its fields are read.\<close>

record tree_item =
  ti_path :: bytes
  ti_size :: u32
  ti_type :: bytes
  ti_sha :: bytes
  ti_haveSize :: bool
  ti_havePath :: bool

definition tree_item0 :: tree_item where
  "tree_item0 = \<lparr>ti_path = [], ti_size = 0, ti_type = [], ti_sha = [], ti_haveSize = False, ti_havePath = False\<rparr>"

definition kPathSize :: nat where
  "kPathSize = 128"

definition entry_field :: "tree_item \<Rightarrow> bytes \<Rightarrow> (tree_item \<times> bytes) option" where
  "entry_field it s =
     Option.bind (readKey 16 s) (\<lambda>(key, s1).
       if key = bytes_of ''path''
       then map_option (\<lambda>(v, r). (it\<lparr>ti_path := v, ti_havePath := True\<rparr>, r)) (js_string (Some kPathSize) s1)
       else if key = bytes_of ''type'' then map_option (\<lambda>(v, r). (it\<lparr>ti_type := v\<rparr>, r)) (js_string (Some 16) s1)
       else if key = bytes_of ''sha'' then map_option (\<lambda>(v, r). (it\<lparr>ti_sha := v\<rparr>, r)) (js_string (Some 48) s1)
       else if key = bytes_of ''size''
       then Option.bind (js_number s1) (\<lambda>(v, r).
              if v > 0xFFFFFFFF then None else Some (it\<lparr>ti_size := ucast v, ti_haveSize := True\<rparr>, r))
       else map_option (Pair it) (skip_value s1))"

definition finish_entry :: "nat \<Rightarrow> tree_item \<Rightarrow> GitTreeEntry list \<Rightarrow> GitTreeEntry list option" where
  "finish_entry capacity it entries =
     (if ti_type it = bytes_of ''commit'' then Some entries
      else let blob = (ti_type it = bytes_of ''blob'')
           in if (\<not> blob \<and> ti_type it \<noteq> bytes_of ''tree'') \<or> \<not> ti_havePath it \<or> \<not> pathIsSafe (ti_path it) \<or>
                 \<not> isHex40 (ti_sha it) \<or> (blob \<and> \<not> ti_haveSize it) then None
              else case parseSha1Hex (Some (chars_of (ti_sha it))) of None \<Rightarrow> None
              | Some digest \<Rightarrow>
                  if length entries \<ge> capacity then None
                  else Some (entries @ [\<lparr>gt_path = ti_path it, gt_sha = digest,
                    gt_size = (if blob then ti_size it else 0), gt_directory = \<not> blob\<rparr>]))"

definition tree_element :: "nat \<Rightarrow> GitTreeEntry list \<Rightarrow> bytes \<Rightarrow> (GitTreeEntry list \<times> bytes) option" where
  "tree_element capacity entries s =
     (let (opened, s1) = js_take 123 s
      in if \<not> opened then None
         else Option.bind (object_body entry_field tree_item0 s1) (\<lambda>(it, s2).
           map_option (\<lambda>es. (es, s2)) (finish_entry capacity it entries)))"

text \<open>\<open>if (take(']')) continue; do item while (take(','))\<close>, then the closing bracket.\<close>

definition array_body :: "('a \<Rightarrow> bytes \<Rightarrow> ('a \<times> bytes) option) \<Rightarrow> 'a \<Rightarrow> bytes \<Rightarrow> ('a \<times> bytes) option" where
  "array_body item a s =
     (let (empty, s1) = js_take 93 s
      in if empty then Some (a, s1)
         else Option.bind (sep_list item a s1) (\<lambda>(b, s2).
           let (closed, s3) = js_take 93 s2 in if closed then Some (b, s3) else None))"

text \<open>The loop state of the answer: the entries, \<open>haveTree\<close>, \<open>haveTruncated\<close> and \<open>truncated\<close>.\<close>

record tree_state =
  ts_entries :: "GitTreeEntry list"
  ts_haveTree :: bool
  ts_haveTruncated :: bool
  ts_truncated :: bool

definition tree_top :: "nat \<Rightarrow> tree_state \<Rightarrow> bytes \<Rightarrow> (tree_state \<times> bytes) option" where
  "tree_top capacity st s =
     Option.bind (readKey 16 s) (\<lambda>(key, s1).
       if key = bytes_of ''truncated'' then
         (let (yes, s2) = js_literal (bytes_of ''true'') s1
          in if yes then Some (st\<lparr>ts_truncated := True, ts_haveTruncated := True\<rparr>, s2)
             else let (no, s3) = js_literal (bytes_of ''false'') s2
                  in if no then Some (st\<lparr>ts_truncated := False, ts_haveTruncated := True\<rparr>, s3) else None)
       else if key \<noteq> bytes_of ''tree'' then map_option (Pair st) (skip_value s1)
       else let (opened, s2) = js_take 91 s1
            in if \<not> opened then None
               else map_option (\<lambda>(es, s3). (st\<lparr>ts_entries := es, ts_haveTree := True\<rparr>, s3))
                      (array_body (tree_element capacity) (ts_entries st) s2))"

text \<open>
  The result is the entries, whose number is \<open>count\<close>, and \<open>truncated\<close>. \<open>entries\<close> is the
  capacity of the caller's array, \<open>None\<close> for a null pointer.
\<close>

definition parseGitTree :: "bytes option \<Rightarrow> nat option \<Rightarrow> (GitTreeEntry list \<times> bool) option" where
  "parseGitTree json entries =
     (case (json, entries) of
        (Some text, Some capacity) \<Rightarrow>
          (let (opened, s) = js_take 123 text
           in if \<not> opened then None
              else Option.bind (object_body (tree_top capacity)
                     \<lparr>ts_entries = [], ts_haveTree = False, ts_haveTruncated = False, ts_truncated = True\<rparr> s) (\<lambda>(st, r).
                if js_atEnd r \<and> ts_haveTree st \<and> ts_haveTruncated st
                then Some (ts_entries st, ts_truncated st) else None))
      | _ \<Rightarrow> None)"

subsection \<open>An accepted answer is JSON\<close>

text \<open>Nesting: a value of some depth is one of every larger depth.\<close>

lemma jvalue_mono:
  "jvalue d w \<Longrightarrow> d \<le> e \<Longrightarrow> jvalue e w"
  "jmember d w \<Longrightarrow> d \<le> e \<Longrightarrow> jmember e w"
  "jmembers d w \<Longrightarrow> d \<le> e \<Longrightarrow> jmembers e w"
  "jelements d w \<Longrightarrow> d \<le> e \<Longrightarrow> jelements e w"
  by (induction arbitrary: e and e and e and e rule: jvalue_jmember_jmembers_jelements.inducts)
    (auto simp: Suc_le_eq dest!: less_imp_Suc_add intro: jvalue_jmember_jmembers_jelements.intros)

lemma readKey_member:
  assumes "readKey capacity s = Some (key, s1)" and "\<exists>w. s1 = w @ r \<and> jvalue d w"
  shows "\<exists>w. s = w @ r \<and> jmember d w"
proof -
  from assms(1) obtain t where k: "js_string (Some capacity) s = Some (key, t)" "js_take 58 t = (True, s1)"
    by (auto simp: readKey_def bind_eq_Some_conv js_take_simps Let_def)
  from js_string_split [OF k(1)] js_take_split [OF k(2)] assms(2) obtain p sp w
    where w: "s = p @ t" "jstring p" "t = sp @ 58 # s1" "spaces sp" "s1 = w @ r" "jvalue d w" by blast
  have "jmember d (p @ sp @ 58 # w)" using w(2,4,6) by (rule jm)
  with w show ?thesis by (intro exI [of _ "p @ sp @ 58 # w"]) simp
qed

lemma js_string_value: "js_string out s = Some (x, r) \<Longrightarrow> \<exists>w. s = w @ r \<and> jvalue (Suc d) w"
  by (drule js_string_split) (blast intro: jv_string)

lemma skip_value_value: "skip_value s = Some r \<Longrightarrow> \<exists>w. s = w @ r \<and> jvalue (33 + d) w"
  unfolding skip_value_def by (drule skipValue_split) (metis jvalue_mono(1) le_add1)

lemma number_loop_split: "number_loop v s = Some (x, r) \<Longrightarrow> \<exists>w. s = w @ r \<and> digits w"
proof (induction v s rule: number_loop.induct)
  case (2 v c s)
  show ?case
  proof (cases "js_digit c")
    case True
    with 2 obtain w where "s = w @ r" "digits w" by (auto simp: Let_def split: if_splits)
    with True have "c # s = (c # w) @ r \<and> digits (c # w)" by (simp add: digits_def)
    then show ?thesis by blast
  qed (use 2 in \<open>simp add: digits_def\<close>)
qed (simp add: digits_def)

lemma number_jint:
  assumes "t \<noteq> []" and "js_digit (hd t)" and "\<not> (hd t = 48 \<and> 1 < length t \<and> js_digit (t ! 1))"
    and "number_loop 0 t = Some (v, r)" and "t = w @ r" and "digits w"
  shows "jint w"
proof -
  have "w \<noteq> []"
  proof
    assume "w = []"
    with assms(1,5) obtain c u where r: "r = c # u" by (cases r) auto
    with \<open>w = []\<close> assms have "number_loop (ucast (c - 48)) u = Some (v, c # u)"
      by (simp add: Let_def split: if_splits)
    from number_loop_split [OF this] obtain z where "u = z @ c # u" by blast
    then have "length u = length z + Suc (length u)" by (metis length_append length_Cons)
    then show False by simp
  qed
  then obtain c u where c: "w = c # u" by (cases w) auto
  with assms have "c = 48 \<Longrightarrow> u = []" by (cases u) (auto simp: digits_def)
  with c assms(6) show ?thesis by (cases "c = 48") (auto simp: digits_def intro: jint.intros)
qed

lemma js_number_value:
  assumes "js_number s = Some (v, r)"
  shows "\<exists>w. s = w @ r \<and> jvalue (Suc d) w"
proof -
  let ?t = "skipSpace s"
  obtain sp where s: "s = sp @ ?t" "spaces sp" using skipSpace_split by blast
  from assms have t: "?t \<noteq> []" "js_digit (hd ?t)" "\<not> (hd ?t = 48 \<and> 1 < length ?t \<and> js_digit (?t ! 1))"
    "number_loop 0 ?t = Some (v, r)"
    by (auto simp: js_number_def Let_def bind_eq_Some_conv split: if_splits)
  from number_loop_split [OF t(4)] obtain w where w: "?t = w @ r" "digits w" by blast
  from number_jint [OF t w] have "jnumber w" using jn [of "[]" w "[]" "[]"] jf_none je_none by simp
  with s w(1) show ?thesis by (intro exI [of _ "sp @ w"]) (auto intro: jv_number)
qed

lemma object_body_value:
  assumes item: "\<And>a s b r. item a s = Some (b, r) \<Longrightarrow> \<exists>w. s = w @ r \<and> jmember d w"
    and "js_take 123 s0 = (True, s)" and h: "object_body item a s = Some (b, r)"
  shows "\<exists>w. s0 = w @ r \<and> jvalue (Suc d) w"
proof -
  from js_take_split [OF assms(2)] obtain so where so: "s0 = so @ 123 # s" "spaces so" by blast
  obtain empty s1 where p: "js_peek 125 s = (empty, s1)" by fastforce
  then have s1: "s1 = skipSpace s" and e: "empty \<Longrightarrow> \<exists>t. s1 = 125 # t" by (auto simp: js_peek_def Let_def neq_Nil_conv)
  obtain sp where sp: "s = sp @ s1" "spaces sp" unfolding s1 using skipSpace_split by blast
  from h p obtain s2 where i: "(if empty then Some (a, s1) else sep_list item a s1) = Some (b, s2)"
    and c: "js_take 125 s2 = (True, r)"
    unfolding object_body_def p by (auto simp: bind_eq_Some_conv js_take_simps Let_def)
  from js_take_split [OF c] obtain sq where sq: "s2 = sq @ 125 # r" "spaces sq" by blast
  show ?thesis
  proof (cases empty)
    case True
    with i have "s2 = s1" by simp
    with so sp sq have "s0 = (so @ 123 # (sp @ sq) @ [125]) @ r" by simp
    moreover have "jvalue (Suc d) (so @ 123 # (sp @ sq) @ [125])" using so sp sq by (intro jv_empty_object) auto
    ultimately show ?thesis by blast
  next
    case False
    with i have "sep_list item a s1 = Some (b, s2)" by simp
    then have "\<exists>w sr. s1 = w @ sr @ s2 \<and> jmembers d w \<and> spaces sr"
      by (rule members_split(2) [rotated]) (erule item)
    then obtain w sr where w: "s1 = w @ sr @ s2" "jmembers d w" "spaces sr" by blast
    have m: "jmembers d (sp @ w)" using w(2) sp(2) by (rule jmembers_space)
    have "jvalue (Suc d) (so @ 123 # (sp @ w) @ (sr @ sq) @ [125])" using so sq w m by (intro jv_object) auto
    moreover have "s0 = (so @ 123 # (sp @ w) @ (sr @ sq) @ [125]) @ r" using so sp sq w by simp
    ultimately show ?thesis by blast
  qed
qed

lemma ref_field_member: "ref_field a s = Some (b, r) \<Longrightarrow> \<exists>w. s = w @ r \<and> jmember 33 w"
  by (auto simp: ref_field_def bind_eq_Some_conv split: if_splits prod.splits
    elim!: readKey_member intro: js_string_value [where d = 32, simplified] skip_value_value [where d = 0, simplified])

lemma entry_field_member: "entry_field a s = Some (b, r) \<Longrightarrow> \<exists>w. s = w @ r \<and> jmember 33 w"
  by (auto simp: entry_field_def bind_eq_Some_conv split: if_splits prod.splits
    elim!: readKey_member intro: js_string_value [where d = 32, simplified] skip_value_value [where d = 0, simplified]
      js_number_value [where d = 32, simplified])

lemma tree_element_value: "tree_element capacity a s = Some (b, r) \<Longrightarrow> \<exists>w. s = w @ r \<and> jvalue 34 w"
  using object_body_value [of entry_field 33, OF entry_field_member]
  by (auto simp: tree_element_def bind_eq_Some_conv js_take_simps Let_def)

lemma js_literal_value:
  "js_literal word s = (True, r) \<Longrightarrow> (\<And>sp. spaces sp \<Longrightarrow> jvalue d (sp @ word)) \<Longrightarrow> \<exists>w. s = w @ r \<and> jvalue d w"
  by (drule js_literal_split) (metis append.assoc)

lemma array_body_value:
  assumes item: "\<And>a s b r. item a s = Some (b, r) \<Longrightarrow> \<exists>w. s = w @ r \<and> jvalue d w"
    and "js_take 91 s0 = (True, s)" and h: "array_body item a s = Some (b, r)"
  shows "\<exists>w. s0 = w @ r \<and> jvalue (Suc d) w"
proof -
  from js_take_split [OF assms(2)] obtain so where so: "s0 = so @ 91 # s" "spaces so" by blast
  obtain empty s1 where p: "js_take 93 s = (empty, s1)" by fastforce
  show ?thesis
  proof (cases empty)
    case True
    with h p have "s1 = r" by (simp add: array_body_def)
    with True p js_take_split [of 93 s r] obtain sp where "s = sp @ 93 # r" "spaces sp" by auto
    with so have "s0 = (so @ 91 # sp @ [93]) @ r \<and> jvalue (Suc d) (so @ 91 # sp @ [93])"
      by (auto intro: jv_empty_array)
    then show ?thesis by blast
  next
    case False
    with js_take_False [of 93 s s1] p skipSpace_split [of s] obtain sp where sp: "s = sp @ s1" "spaces sp" by auto
    from h p False obtain s2 where l: "sep_list item a s1 = Some (b, s2)" and c: "js_take 93 s2 = (True, r)"
      by (auto simp: array_body_def bind_eq_Some_conv js_take_simps)
    from js_take_split [OF c] obtain sq where sq: "s2 = sq @ 93 # r" "spaces sq" by blast
    have "\<exists>w sr. s1 = w @ sr @ s2 \<and> jelements d w \<and> spaces sr"
      using l by (rule elements_split(2) [rotated]) (erule item)
    then obtain w sr where w: "s1 = w @ sr @ s2" "jelements d w" "spaces sr" by blast
    have m: "jelements d (sp @ w)" using w(2) sp(2) by (rule jelements_space)
    have "jvalue (Suc d) (so @ 91 # (sp @ w) @ (sr @ sq) @ [93])" using so sq w m by (intro jv_array) auto
    moreover have "s0 = (so @ 91 # (sp @ w) @ (sr @ sq) @ [93]) @ r" using so sp sq w by simp
    ultimately show ?thesis by blast
  qed
qed

lemma literal_bytes: "bytes_of ''true'' = [116, 114, 117, 101]" "bytes_of ''false'' = [102, 97, 108, 115, 101]"
  by (simp_all add: bytes_of_def)

lemma tree_top_member:
  assumes "tree_top capacity a s = Some (b, r)"
  shows "\<exists>w. s = w @ r \<and> jmember 35 w"
proof -
  from assms obtain key s1 where k: "readKey 16 s = Some (key, s1)"
    by (auto simp: tree_top_def bind_eq_Some_conv)
  note body = assms [unfolded tree_top_def k, simplified]
  have "\<exists>w. s1 = w @ r \<and> jvalue 35 w"
  proof (cases "key = bytes_of ''truncated''")
    case True
    obtain yes s2 where l: "js_literal (bytes_of ''true'') s1 = (yes, s2)" by fastforce
    show ?thesis
    proof (cases yes)
      case True
      with l have "js_literal [116, 114, 117, 101] s1 = (True, s2)" by (simp add: literal_bytes)
      moreover have "s2 = r" using body \<open>key = _\<close> l True by simp
      ultimately show ?thesis by (auto intro: js_literal_value jv_true [where d = 34, simplified])
    next
      case False
      with body \<open>key = _\<close> l have "js_literal (bytes_of ''false'') s2 = (True, r)"
        by (auto split: prod.splits if_splits)
      then have "\<exists>w. s2 = w @ r \<and> jvalue 35 w"
        by (auto simp: literal_bytes intro: js_literal_value jv_false [where d = 34, simplified])
      moreover from False l have "s2 = skipSpace s1" by (auto simp: js_literal_def Let_def split: if_splits)
      ultimately show ?thesis using skipSpace_split [of s1] jvalue_space by (metis append.assoc)
    qed
  next
    case False
    note other = this
    show ?thesis
    proof (cases "key = bytes_of ''tree''")
      case True
      with body other show ?thesis
        by (auto simp: js_take_simps intro: array_body_value [where d = 34, simplified, OF tree_element_value])
    next
      case False
      with body other show ?thesis using skip_value_value [where d = 2] by auto
    qed
  qed
  with k show ?thesis by (rule readKey_member)
qed

lemma ref_top_member: "ref_top a s = Some (b, r) \<Longrightarrow> \<exists>w. s = w @ r \<and> jmember 34 w"
  using object_body_value [of ref_field 33, OF ref_field_member]
  by (auto simp: ref_top_def bind_eq_Some_conv js_take_simps Let_def split: if_splits
    elim!: readKey_member intro: skip_value_value [where d = 1, simplified])

lemma js_atEnd_spaces: "js_atEnd r \<Longrightarrow> spaces r"
  using skipSpace_split [of r] by (auto simp: js_atEnd_def)

subsection \<open>What an accepted answer contains\<close>

text \<open>A string that has been read fits its buffer with its zero and holds no zero itself.\<close>

definition c_string :: "nat \<Rightarrow> bytes \<Rightarrow> bool" where
  "c_string capacity text \<longleftrightarrow> length text < capacity \<and> 0 \<notin> set text"

lemma js_put_c_string:
  "js_put (Some capacity) c acc = Some acc1 \<Longrightarrow> c \<noteq> 0 \<Longrightarrow> c_string capacity acc \<Longrightarrow> c_string capacity acc1"
  by (auto simp: js_put_def c_string_def split: if_splits)

lemma put_all_c_string:
  "put_all (Some capacity) cs acc = Some acc1 \<Longrightarrow> 0 \<notin> set cs \<Longrightarrow> c_string capacity acc \<Longrightarrow> c_string capacity acc1"
  by (induction cs arbitrary: acc) (auto simp: bind_eq_Some_conv dest: js_put_c_string)

lemma ucast_bit_nonzero:
  assumes "bit (w :: u32) n" and "n < 8"
  shows "(ucast w :: u8) \<noteq> 0"
proof
  assume z: "(ucast w :: u8) = 0"
  have "bit (ucast w :: u8) n" using assms by (simp only: bit_unsigned_iff) simp
  then show False unfolding z by simp
qed

lemma utf8_code_nonzero: "code \<noteq> 0 \<Longrightarrow> 0 \<notin> set (utf8_code code)"
proof -
  assume nz: "code \<noteq> 0"
  have top: "(ucast (0xC0 OR x) :: u8) \<noteq> 0" "(ucast (0x80 OR x) :: u8) \<noteq> 0" "(ucast (0xE0 OR x) :: u8) \<noteq> 0"
    "(ucast (0xF0 OR x) :: u8) \<noteq> 0" for x :: u32
    by (rule ucast_bit_nonzero [where n = 7]; simp add: bit_simps)+
  have "(ucast code :: u8) \<noteq> 0" if "code < 0x80"
  proof
    assume "(ucast code :: u8) = 0"
    then have "unat (ucast code :: u8) = 0" by (simp only: unsigned_0)
    with that have "unat code = 0" by (simp add: unsigned_ucast_eq take_bit_nat_eq_self word_less_nat_alt del: unat_eq_zero)
    with nz show False using unat_eq_zero by blast
  qed
  then show ?thesis using top [THEN not_sym] by (auto simp: utf8_code_def dest: sym)
qed

lemma unat_pair:
  "unat x < 1024 \<Longrightarrow> unat y < 1024 \<Longrightarrow> unat (0x10000 + x * 1024 + y :: u32) = 65536 + 1024 * unat x + unat y"
  by (simp add: unat_word_ariths)

lemma surrogate_code_nonzero:
  assumes "v \<le> 0xDBFF" "0xD800 \<le> v" "low \<le> 0xDFFF" "0xDC00 \<le> low"
  shows "surrogate_code v low \<noteq> 0"
proof
  assume z: "surrogate_code v low = 0"
  have "unat (v - 0xD800) < 1024" "unat (low - 0xDC00) < 1024" using assms by unat_arith+
  moreover have "surrogate_code v low = 0x10000 + (v - 0xD800) * 1024 + (low - 0xDC00)"
    by (simp add: surrogate_code_def push_bit_eq_mult)
  ultimately have "unat (surrogate_code v low) = 65536 + 1024 * unat (v - 0xD800) + unat (low - 0xDC00)"
    by (simp only: unat_pair)
  then show False unfolding z by simp
qed

lemma unicode_escape_nonzero: "unicode_escape s = Some (code, r) \<Longrightarrow> code \<noteq> 0"
  by (auto simp: unicode_escape_def bind_eq_Some_conv not_less surrogate_code_nonzero split: if_splits)

lemma string_loop_c_string:
  "string_loop out acc s = Some (x, r) \<Longrightarrow> out = Some capacity \<Longrightarrow> c_string capacity acc \<Longrightarrow> c_string capacity x"
proof (induction out acc s rule: string_loop.induct)
  case (2 out acc symbol s)
  consider (quote) "symbol = 34" | (low) "symbol \<noteq> 34" "symbol < 0x20"
    | (plain) "symbol \<noteq> 34" "\<not> symbol < 0x20" "symbol \<noteq> 92" | (escape) "symbol = 92" by auto
  then show ?case
  proof cases
    case plain
    with 2(4) obtain acc1 where p: "js_put out symbol acc = Some acc1" "string_loop out acc1 s = Some (x, r)"
      by (auto simp: bind_eq_Some_conv)
    have "symbol \<noteq> 0" using plain by auto
    with p 2(5,6) have "c_string capacity acc1" by (auto dest: js_put_c_string)
    with 2(1) [OF _ _ _ p(1)] plain p(2) 2(5) show ?thesis by simp
  next
    case escape
    with 2(4) obtain e s1 where s: "s = e # s1" by (cases s) auto
    show ?thesis
    proof (cases "e = 117")
      case True
      with 2(4) escape s obtain code s2 acc1 where u: "unicode_escape s1 = Some (code, s2)"
        "string_loop out acc1 s2 = Some (x, r)" "putUtf8 out code acc = Some acc1"
        by (auto simp: bind_eq_Some_conv split: option.splits)
      have "c_string capacity acc1" using u(3) 2(5,6) utf8_code_nonzero [OF unicode_escape_nonzero [OF u(1)]]
        by (auto simp: putUtf8_def dest: put_all_c_string)
      with 2(2) [OF _ _ _ s True u(1) refl u(3)] u escape 2(5) show ?thesis by auto
    next
      case False
      with 2(4) escape s obtain c acc1 where u: "simple_escape e = Some c"
        "string_loop out acc1 s1 = Some (x, r)" "js_put out c acc = Some acc1"
        by (auto simp: bind_eq_Some_conv split: option.splits)
      have "c \<noteq> 0" using u(1) by (auto simp: simple_escape_def split: if_splits)
      with u(3) 2(5,6) have "c_string capacity acc1" by (auto dest: js_put_c_string)
      with 2(3) [OF _ _ _ s False u(1,3)] u escape 2(5) show ?thesis by auto
    qed
  qed (use 2 in auto)
qed simp

lemma js_string_c_string: "js_string (Some capacity) s = Some (x, r) \<Longrightarrow> 0 < capacity \<Longrightarrow> c_string capacity x"
  by (auto simp: js_string_def Let_def c_string_def [of _ "[]"] split: prod.splits if_splits
    dest!: string_loop_c_string)

definition entry_ok :: "GitTreeEntry \<Rightarrow> bool" where
  "entry_ok e \<longleftrightarrow> c_string kPathSize (gt_path e) \<and> pathIsSafe (gt_path e) \<and> length (gt_sha e) = 20 \<and>
     (gt_directory e \<longrightarrow> gt_size e = 0)"

lemma entry_field_path:
  "entry_field it s = Some (jt, r) \<Longrightarrow> c_string kPathSize (ti_path it) \<Longrightarrow> c_string kPathSize (ti_path jt)"
  by (auto simp: entry_field_def bind_eq_Some_conv kPathSize_def split: if_splits dest!: js_string_c_string)

lemma consuming_entry_field: "consuming entry_field"
  by (rule members_split(1)) (erule entry_field_member)

lemma object_body_invariant:
  assumes "consuming item" and "object_body item a s = Some (b, r)" and "keeps a"
    and "\<And>a s b r. item a s = Some (b, r) \<Longrightarrow> keeps a \<Longrightarrow> keeps b"
  shows "keeps b"
proof -
  obtain empty s1 where p: "js_peek 125 s = (empty, s1)" by fastforce
  with assms(2) obtain s2 where "(if empty then Some (a, s1) else sep_list item a s1) = Some (b, s2)"
    unfolding object_body_def by (auto simp: bind_eq_Some_conv js_take_simps Let_def)
  then consider "b = a" | "sep_list item a s1 = Some (b, s2)" by (cases empty) auto
  then show ?thesis
    by cases (use assms(3) in simp, erule sep_list_invariant [where keeps = keeps, OF assms(1)], auto intro: assms(3,4))
qed

lemma parseSha1Hex_length: "parseSha1Hex (Some t) = Some d \<Longrightarrow> length d = 20"
  using hex_loop_SomeD [of t 0 20 d] by (simp add: parseSha1Hex_def kDigestSize_def)

definition entries_ok :: "nat \<Rightarrow> GitTreeEntry list \<Rightarrow> bool" where
  "entries_ok capacity es \<longleftrightarrow> length es \<le> capacity \<and> list_all entry_ok es"

lemma finish_entry_ok:
  "finish_entry capacity it es = Some fs \<Longrightarrow> entries_ok capacity es \<Longrightarrow> c_string kPathSize (ti_path it) \<Longrightarrow>
   entries_ok capacity fs"
  by (auto simp: finish_entry_def entries_ok_def entry_ok_def Let_def parseSha1Hex_length split: if_splits option.splits)

lemma tree_element_ok:
  assumes "tree_element capacity es s = Some (fs, r)" and "entries_ok capacity es"
  shows "entries_ok capacity fs"
proof -
  from assms(1) obtain s1 it where b: "object_body entry_field tree_item0 s1 = Some (it, r)"
    and f: "finish_entry capacity it es = Some fs"
    by (auto simp: tree_element_def bind_eq_Some_conv js_take_simps Let_def)
  have "c_string kPathSize (ti_path tree_item0)" by (simp add: tree_item0_def c_string_def kPathSize_def)
  then have "c_string kPathSize (ti_path it)"
    by (rule object_body_invariant [where keeps = "\<lambda>it. c_string kPathSize (ti_path it)", OF consuming_entry_field b])
      (erule (1) entry_field_path)
  with finish_entry_ok f assms(2) show ?thesis by blast
qed

lemma consuming_tree_element: "consuming (tree_element capacity)"
  by (rule elements_split(1)) (erule tree_element_value)

lemma array_body_invariant:
  assumes "consuming item" and "array_body item a s = Some (b, r)" and "keeps a"
    and "\<And>a s b r. item a s = Some (b, r) \<Longrightarrow> keeps a \<Longrightarrow> keeps b"
  shows "keeps b"
proof -
  obtain empty s1 where p: "js_take 93 s = (empty, s1)" by fastforce
  with assms(2) obtain s2 where "empty \<and> b = a \<or> sep_list item a s1 = Some (b, s2)"
    unfolding array_body_def by (auto simp: bind_eq_Some_conv js_take_simps split: if_splits)
  then consider "b = a" | "sep_list item a s1 = Some (b, s2)" by blast
  then show ?thesis
    by cases (use assms(3) in simp, erule sep_list_invariant [where keeps = keeps, OF assms(1)], auto intro: assms(3,4))
qed

lemma tree_top_ok:
  "tree_top capacity st s = Some (st1, r) \<Longrightarrow> entries_ok capacity (ts_entries st) \<Longrightarrow> entries_ok capacity (ts_entries st1)"
  by (auto simp: tree_top_def bind_eq_Some_conv js_take_simps Let_def split: if_splits prod.splits
    elim!: array_body_invariant [where keeps = "entries_ok capacity", OF consuming_tree_element] intro: tree_element_ok)

lemma consuming_tree_top: "consuming (tree_top capacity)"
  by (rule members_split(1)) (erule tree_top_member)

lemma parseGitTree_ok:
  assumes "parseGitTree (Some text) (Some capacity) = Some (es, tr)"
  shows "json_text 36 text \<and> entries_ok capacity es"
proof -
  let ?st = "\<lparr>ts_entries = [], ts_haveTree = False, ts_haveTruncated = False, ts_truncated = True\<rparr>"
  from assms obtain s st r where o: "js_take 123 text = (True, s)"
    and b: "object_body (tree_top capacity) ?st s = Some (st, r)" and e: "js_atEnd r" "es = ts_entries st"
    by (auto simp: parseGitTree_def bind_eq_Some_conv js_take_simps Let_def split: if_splits)
  have "\<exists>w. text = w @ r \<and> jvalue 36 w"
    using object_body_value [OF tree_top_member o b] by simp
  with js_atEnd_spaces [OF e(1)] have "json_text 36 text" unfolding json_text_def by blast
  moreover have "entries_ok capacity (ts_entries ?st)" by (simp add: entries_ok_def)
  then have "entries_ok capacity es" unfolding e(2)
    by (rule object_body_invariant [where keeps = "\<lambda>st. entries_ok capacity (ts_entries st)", OF consuming_tree_top b])
      (erule (1) tree_top_ok)
  ultimately show ?thesis by blast
qed

end
