(* ===== verification/PathWalk.thy ===== *)
theory PathWalk
  imports Prelude
begin

text \<open>
  Paths as the file system sees them: the names between separators, the walk over them from a
  directory, and the text of a directory. The path routines of the components are compared
  with this reference.
\<close>

fun split_by :: "(u8 \<Rightarrow> bool) \<Rightarrow> bytes \<Rightarrow> bytes list" where
  "split_by sep [] = [[]]"
| "split_by sep (c # s) =
     (if sep c then [] # split_by sep s
      else case split_by sep s of [] \<Rightarrow> [[c]] | n # ns \<Rightarrow> (c # n) # ns)"

fun walk :: "bytes list \<Rightarrow> bytes list \<Rightarrow> bytes list" where
  "walk dir [] = dir"
| "walk dir (n # ns) =
     walk (if n = [] \<or> n = [46] then dir else if n = [46, 46] then butlast dir else dir @ [n]) ns"

definition render :: "bytes list \<Rightarrow> bytes" where
  "render dir = (if dir = [] then [47] else concat (map ((#) 47) dir))"

abbreviation components :: "bytes \<Rightarrow> bytes list" where
  "components \<equiv> split_by (\<lambda>c. c = 47)"

definition is_sep :: "u8 \<Rightarrow> bool" where
  "is_sep c \<longleftrightarrow> c = 47 \<or> c = 92"

subsection \<open>Splitting\<close>

lemma split_by_nonempty [simp]: "split_by sep s \<noteq> []"
  by (cases s) (auto split: list.splits)

lemma split_by_step:
  "split_by sep s = takeWhile (\<lambda>c. \<not> sep c) s #
     (if length (takeWhile (\<lambda>c. \<not> sep c) s) = length s then []
      else split_by sep (drop (Suc (length (takeWhile (\<lambda>c. \<not> sep c) s))) s))"
proof (induction s)
  case (Cons c s)
  then show ?case by (cases "sep c") (auto split: list.splits)
qed simp

lemma split_by_bytes: "c \<in> set s \<Longrightarrow> sep c \<or> (\<exists>n\<in>set (split_by sep s). c \<in> set n)"
proof (induction s)
  case (Cons d s)
  obtain n ns where "split_by sep s = n # ns" by (cases "split_by sep s") auto
  with Cons show ?case by (auto split: if_splits)
qed simp

lemma split_by_clean: "\<forall>n\<in>set (split_by sep s). \<forall>c\<in>set n. \<not> sep c"
proof (induction s)
  case (Cons d s)
  obtain m ms where "split_by sep s = m # ms" by (cases "split_by sep s") auto
  with Cons show ?case by auto
qed simp

lemma split_by_append_sep:
  "sep d \<Longrightarrow> split_by sep (u @ d # s) = split_by sep u @ split_by sep s"
proof (induction u)
  case (Cons c u)
  obtain m ms where "split_by sep u = m # ms" by (cases "split_by sep u") auto
  with Cons show ?case by auto
qed simp

lemma split_by_plain: "\<forall>c\<in>set n. \<not> sep c \<Longrightarrow> split_by sep n = [n]"
  by (induction n) auto

lemma components_plain: "47 \<notin> set n \<Longrightarrow> components n = [n]"
  by (rule split_by_plain) auto

subsection \<open>Components between separators\<close>

text \<open>The two separators are skipped alike.\<close>

definition skip_sep :: "bytes \<Rightarrow> bytes" where
  "skip_sep s = dropWhile is_sep s"

lemma next_component_shorter:
  assumes "skip_sep s \<noteq> []"
  shows "length (drop (length (takeWhile (\<lambda>c. \<not> is_sep c) (skip_sep s))) (skip_sep s)) < length s"
proof -
  have "\<not> is_sep (hd (skip_sep s))" using assms unfolding skip_sep_def by (rule hd_dropWhile)
  then have "takeWhile (\<lambda>c. \<not> is_sep c) (skip_sep s) \<noteq> []" using assms by (cases "skip_sep s") auto
  then have "0 < length (takeWhile (\<lambda>c. \<not> is_sep c) (skip_sep s))" by simp
  moreover have "length (skip_sep s) \<le> length s" by (simp add: skip_sep_def length_dropWhile_le)
  moreover have "0 < length (skip_sep s)" using assms by simp
  ultimately show ?thesis unfolding length_drop by linarith
qed

lemma skip_sep_split:
  "split_by is_sep s = replicate (length s - length (skip_sep s)) [] @ split_by is_sep (skip_sep s)"
  by (induction s) (auto simp: skip_sep_def Suc_diff_le length_dropWhile_le)

text \<open>The first component of a text is all of it, or it is followed by a separator.\<close>

lemma split_component:
  obtains (whole) "drop (length (takeWhile (\<lambda>c. \<not> is_sep c) s)) s = []" and "takeWhile (\<lambda>c. \<not> is_sep c) s = s"
      and "split_by is_sep s = [takeWhile (\<lambda>c. \<not> is_sep c) s]"
    | (first) d t where "drop (length (takeWhile (\<lambda>c. \<not> is_sep c) s)) s = d # t" and "is_sep d"
      and "s = takeWhile (\<lambda>c. \<not> is_sep c) s @ d # t"
      and "split_by is_sep s = takeWhile (\<lambda>c. \<not> is_sep c) s # split_by is_sep t"
proof (cases "dropWhile (\<lambda>c. \<not> is_sep c) s")
  case Nil
  then have w: "takeWhile (\<lambda>c. \<not> is_sep c) s = s" by (metis append.right_neutral takeWhile_dropWhile_id)
  then have "split_by is_sep s = [s]" by (subst split_by_step) (simp only: w, simp)
  with w show thesis by (intro whole) (simp_all only: w, simp)
next
  case (Cons d t)
  let ?c = "takeWhile (\<lambda>c. \<not> is_sep c) s"
  have d: "drop (length ?c) s = d # t" using Cons by (simp add: dropWhile_eq_drop)
  then have t: "drop (Suc (length ?c)) s = t" by (metis drop_Suc drop_tl list.sel(3))
  have "is_sep d" using hd_dropWhile [of "\<lambda>c. \<not> is_sep c" s] Cons by simp
  moreover have "s = ?c @ d # t" by (metis Cons takeWhile_dropWhile_id)
  moreover from this have "length ?c \<noteq> length s" by (metis append_self_conv length_0_conv length_append list.distinct(1) add_right_cancel add_cancel_right_right)
  then have "split_by is_sep s = ?c # split_by is_sep t" using t by (subst split_by_step) simp
  ultimately show thesis using d by (intro first)
qed

subsection \<open>Walking\<close>

lemma walk_append: "walk dir (ns @ ms) = walk (walk dir ns) ms"
  by (induction ns arbitrary: dir) auto

lemma walk_names:
  "\<forall>n\<in>set ns. n \<noteq> [] \<and> n \<noteq> [46] \<and> n \<noteq> [46, 46] \<Longrightarrow> walk dir ns = dir @ ns"
  by (induction ns arbitrary: dir) auto

definition names :: "bytes list \<Rightarrow> bool" where
  "names dir \<longleftrightarrow> (\<forall>n\<in>set dir. n \<noteq> [] \<and> (\<forall>c\<in>set n. c \<noteq> 47))"

lemma names_simps [simp]:
  "names []" "names (n # dir) \<longleftrightarrow> n \<noteq> [] \<and> 47 \<notin> set n \<and> names dir" "names (d @ e) \<longleftrightarrow> names d \<and> names e"
  by (auto simp: names_def)

lemma names_butlast: "names dir \<Longrightarrow> names (butlast dir)"
  by (auto simp: names_def dest: in_set_butlastD)

lemma names_walk:
  "names dir \<Longrightarrow> \<forall>n\<in>set ns. 47 \<notin> set n \<Longrightarrow> names (walk dir ns)"
  by (induction ns arbitrary: dir) (auto intro: names_butlast)

subsection \<open>The text of a directory\<close>

lemma render_simps [simp]: "render [] = [47]" "hd (render dir) = 47" "render dir \<noteq> []"
  by (cases dir; auto simp: render_def)+

lemma render_single [simp]: "render [n] = 47 # n"
  by (simp add: render_def)

lemma render_snoc: "render (dir @ [n]) = (if dir = [] then [47] else render dir @ [47]) @ n"
  by (simp add: render_def)

lemma render_components:
  "names dir \<Longrightarrow> dir \<noteq> [] \<Longrightarrow> components (render dir) = [] # dir"
proof (induction dir rule: rev_induct)
  case (snoc n dir)
  show ?case
  proof (cases "dir = []")
    case False
    with snoc have "components (render dir @ 47 # n) = ([] # dir) @ [n]"
      by (subst split_by_append_sep) (auto simp: components_plain)
    with False show ?thesis by (simp add: render_snoc)
  qed (use snoc in \<open>auto simp: render_def components_plain\<close>)
qed simp

lemma render_inject: "names d \<Longrightarrow> names e \<Longrightarrow> render d = render e \<longleftrightarrow> d = e"
proof -
  assume n: "names d" "names e"
  have one: "dir = []" if "render dir = [47]" "names dir" for dir
    using that by (cases dir) (auto simp: render_def)
  show ?thesis
  proof (cases "d = [] \<or> e = []")
    case True
    with one n show ?thesis by (metis render_simps(1))
  next
    case False
    with n render_components show ?thesis by (metis list.inject)
  qed
qed

lemma length_render_snoc:
  "length (render (dir @ [n])) = (if dir = [] then 1 else length (render dir) + 1) + length n"
  by (simp add: render_snoc)

lemma length_render_gt1: "names dir \<Longrightarrow> 1 < length (render dir) \<longleftrightarrow> dir \<noteq> []"
  by (cases dir) (auto simp: render_def)

end
