(* ===== verification/GithubTreeSafe.thy ===== *)
theory GithubTreeSafe
  imports GithubTree PathWalk
begin

text \<open>
  What the readers of \<open>GithubTree\<close> guarantee: a number that is used is the number of the text,
  although the overflow test of the loop does not catch every overflow; an accepted path stays
  below the directory it is joined to; a tree printed the way GitHub prints it is read back.
\<close>

subsection \<open>Numbers\<close>

text \<open>The value of a digit string, without bounds.\<close>

fun dval :: "nat \<Rightarrow> bytes \<Rightarrow> nat" where
  "dval v [] = v"
| "dval v (c # w) = dval (10 * v + (unat c - 48)) w"

lemma dval_mono: "v \<le> dval v w"
proof (induction w arbitrary: v)
  case (Cons c w)
  have "v \<le> 10 * v + (unat c - 48)" by simp
  also have "\<dots> \<le> dval v (c # w)" using Cons by simp
  finally show ?case .
qed simp

lemma dval_append: "dval v (u @ w) = dval (dval v u) w"
  by (induction u arbitrary: v) auto

lemma digit_word:
  assumes "js_digit c"
  shows "unat (ucast (c - 48) :: u64) = unat c - 48" and "unat c - 48 \<le> 9"
proof -
  have u: "unat (c - 48) = unat c - 48" and r: "unat c - 48 \<le> 9"
    using assms unfolding js_digit_def by unat_arith+
  have "unat (ucast (c - 48) :: u64) = unat (c - 48)"
    by (simp add: unsigned_ucast_eq take_bit_nat_eq_self order_less_trans [OF unat_u8])
  with u show "unat (ucast (c - 48) :: u64) = unat c - 48" by simp
  show "unat c - 48 \<le> 9" by (rule r)
qed

lemma next_digit:
  assumes "js_digit c" and "10 * unat v + 9 < (2 :: nat) ^ 64"
  shows "unat (v * 10 + ucast (c - 48) :: u64) = 10 * unat v + (unat c - 48)"
proof -
  have "unat (ucast (c - 48) :: u64) = unat c - 48" "unat c - 48 \<le> 9" using digit_word [OF assms(1)] by auto
  with assms(2) show ?thesis by (simp add: unat_word_ariths)
qed

lemma number_loop_exact:
  "number_loop v s = Some (x, r) \<Longrightarrow> unat x < 2 ^ 60 \<Longrightarrow>
   \<exists>w. s = w @ r \<and> digits w \<and> unat v \<le> unat x \<and> unat x = dval (unat v) w"
proof (induction v s rule: number_loop.induct)
  case (2 v c s)
  show ?case
  proof (cases "js_digit c")
    case True
    let ?n = "v * 10 + ucast (c - 48)"
    from 2(2) True have n: "\<not> ?n < v" "number_loop ?n s = Some (x, r)" by (auto simp: Let_def split: if_splits)
    from 2(1) [OF True refl n(1) n(2) 2(3)] obtain w
      where w: "s = w @ r" "digits w" "unat ?n \<le> unat x" "unat x = dval (unat ?n) w" by blast
    from n(1) have "unat v \<le> unat ?n" by (simp add: not_less word_le_nat_alt)
    with w(3) 2(3) have v: "unat v \<le> unat x" "10 * unat v + 9 < (2 :: nat) ^ 64" by auto
    from next_digit [OF True v(2)] w have "unat x = dval (unat v) (c # w)" by simp
    with True w v(1) show ?thesis by (intro exI [of _ "c # w"]) (simp add: digits_def)
  qed (use 2(2) in \<open>simp add: digits_def\<close>)
qed (simp add: digits_def)

lemma number_loop_complete:
  "digits w \<Longrightarrow> r = [] \<or> \<not> js_digit (hd r) \<Longrightarrow> dval (unat v) w < 2 ^ 60 \<Longrightarrow>
   \<exists>x. number_loop v (w @ r) = Some (x, r) \<and> unat x = dval (unat v) w"
proof (induction w arbitrary: v)
  case Nil
  then show ?case by (cases r) auto
next
  case (Cons c w)
  then have c: "js_digit c" "digits w" by (auto simp: digits_def)
  let ?n = "v * 10 + ucast (c - 48)"
  have "10 * unat v + (unat c - 48) \<le> dval (unat v) (c # w)" using dval_mono by simp
  with Cons.prems(3) have b: "10 * unat v + 9 < (2 :: nat) ^ 64" by simp
  from next_digit [OF c(1) b] have n: "unat ?n = 10 * unat v + (unat c - 48)" .
  then have "\<not> ?n < v" by (simp add: not_less word_le_nat_alt)
  moreover from Cons.IH [OF c(2) Cons.prems(2), of ?n] Cons.prems(3) n
  obtain x where "number_loop ?n (w @ r) = Some (x, r)" "unat x = dval (unat ?n) w" by auto
  ultimately show ?case using c(1) n by (simp add: Let_def)
qed

lemma js_number_exact:
  assumes "js_number s = Some (v, r)" and "v \<le> 0xFFFFFFFF"
  shows "\<exists>sp w. s = sp @ w @ r \<and> spaces sp \<and> jint w \<and> dval 0 w = unat v"
proof -
  let ?t = "skipSpace s"
  obtain sp where s: "s = sp @ ?t" "spaces sp" using skipSpace_split by blast
  from assms have t: "?t \<noteq> []" "js_digit (hd ?t)" "\<not> (hd ?t = 48 \<and> 1 < length ?t \<and> js_digit (?t ! 1))"
    "number_loop 0 ?t = Some (v, r)"
    by (auto simp: js_number_def Let_def bind_eq_Some_conv split: if_splits)
  from assms(2) have b: "unat v < 2 ^ 60" by (simp add: word_le_nat_alt)
  from number_loop_exact [OF t(4) b] obtain w where w: "?t = w @ r" "digits w" "unat v = dval 0 w" by auto
  have "jint w" by (rule number_jint [OF t w(1,2)])
  with s w show ?thesis by metis
qed

lemma js_number_complete:
  assumes "jint w" and "dval 0 w < 2 ^ 60" and "spaces sp" and "stops r"
  shows "\<exists>v. js_number (sp @ w @ r) = Some (v, r) \<and> unat v = dval 0 w"
proof -
  have d: "digits w" "w \<noteq> []" using assms(1) by (auto elim!: jint.cases simp: digits_def js_digit_def)
  have r: "r = [] \<or> \<not> js_digit (hd r)" using assms(4) by (auto simp: stops_def)
  from number_loop_complete [OF d(1) r, of 0] assms(2)
  obtain x where x: "number_loop 0 (w @ r) = Some (x, r)" "unat x = dval 0 w" by auto
  obtain c u where c: "w = c # u" "js_digit c" using d by (cases w) (auto simp: digits_def)
  then have k: "skipSpace (sp @ w @ r) = w @ r" using assms(3) by (auto simp: js_digit_def js_space_def)
  have "\<not> (c = 48 \<and> 1 < length (w @ r) \<and> js_digit ((w @ r) ! 1))"
    using assms(1) r c(1) by (cases r) (auto elim!: jint.cases)
  with x k c assms(4) show ?thesis by (auto simp: js_number_def Let_def stops_def)
qed

subsection \<open>Paths\<close>

text \<open>What a name of an accepted path looks like; \<open>components\<close> and \<open>walk\<close> are in \<open>PathWalk\<close>.\<close>

definition good_name :: "bytes \<Rightarrow> bool" where
  "good_name n \<longleftrightarrow> n \<noteq> [] \<and> n \<noteq> [46] \<and> n \<noteq> [46, 46] \<and> (\<forall>c\<in>set n. 0x20 \<le> c \<and> c \<noteq> 92)"

lemma path_loop_components: "path_loop s \<longleftrightarrow> list_all good_name (components s)"
proof (induction s rule: path_loop.induct)
  case (1 s)
  let ?n = "takeWhile (\<lambda>c. c \<noteq> 47) s"
  consider (bad) "\<not> good_name ?n" | (last) "good_name ?n" "length ?n = length s"
    | (further) "good_name ?n" "length ?n \<noteq> length s" by blast
  then show ?case
  proof cases
    case bad
    then have "\<not> path_loop s" by (subst path_loop.simps) (auto simp: good_name_def Let_def not_less)
    with bad show ?thesis by (subst split_by_step) simp
  next
    case last
    then have "path_loop s" by (subst path_loop.simps) (auto simp: good_name_def Let_def not_less)
    with last show ?thesis by (subst split_by_step) simp
  next
    case further
    then have "path_loop s = path_loop (drop (Suc (length ?n)) s)"
      by (subst path_loop.simps) (auto simp: good_name_def Let_def not_less)
    also have "\<dots> = list_all good_name (components (drop (Suc (length ?n)) s))"
      using further by (intro 1 [OF refl]) (auto simp: good_name_def not_less)
    finally show ?thesis using further by (subst split_by_step) simp
  qed
qed

lemma walk_good: "list_all good_name ns \<Longrightarrow> walk dir ns = dir @ ns"
  by (rule walk_names) (auto simp: list_all_iff good_name_def)

lemma path_safe_exact: "pathIsSafe path \<longleftrightarrow> list_all good_name (components path)"
proof (cases path)
  case (Cons c s)
  then show ?thesis unfolding pathIsSafe_def path_loop_components by (auto simp: good_name_def)
qed (simp add: pathIsSafe_def good_name_def)

lemma path_safe_bytes: "pathIsSafe path \<Longrightarrow> \<forall>c\<in>set path. 0x20 \<le> c \<and> c \<noteq> 92"
  using split_by_bytes [of _ path "\<lambda>c. c = 47"] by (fastforce simp: path_safe_exact list_all_iff good_name_def)

subsection \<open>Printing\<close>

text \<open>The text GitHub sends for a tree, without spaces: a directory has no size, and a quote in a
name is escaped.\<close>

definition quote_byte :: "u8 \<Rightarrow> bytes" where
  "quote_byte c = (if c = 34 then [92, 34] else [c])"

definition js_quote :: "bytes \<Rightarrow> bytes" where
  "js_quote w = 34 # concat (map quote_byte w) @ [34]"

definition js_key :: "string \<Rightarrow> bytes" where
  "js_key name = js_quote (bytes_of name) @ [58]"

definition print_entry :: "GitTreeEntry \<Rightarrow> bytes" where
  "print_entry e =
     123 # js_key ''path'' @ js_quote (gt_path e) @
     44 # js_key ''type'' @ js_quote (bytes_of (if gt_directory e then ''tree'' else ''blob'')) @
     44 # js_key ''sha'' @ js_quote (bytes_of (formatSha1Hex (gt_sha e))) @
     (if gt_directory e then [] else 44 # js_key ''size'' @ bytes_of (dec_digits (uint (gt_size e)))) @ [125]"

fun comma_list :: "bytes list \<Rightarrow> bytes" where
  "comma_list [] = []"
| "comma_list [w] = w"
| "comma_list (w # v # ws) = w @ 44 # comma_list (v # ws)"

definition print_tree :: "GitTreeEntry list \<Rightarrow> bool \<Rightarrow> bytes" where
  "print_tree es tr =
     123 # js_key ''tree'' @ 91 # comma_list (map print_entry es) @ 93 #
     44 # js_key ''truncated'' @ bytes_of (if tr then ''true'' else ''false'') @ [125]"

definition plain :: "bytes \<Rightarrow> bool" where
  "plain w \<longleftrightarrow> (\<forall>c\<in>set w. 0x20 \<le> c \<and> c \<noteq> 92)"

lemma quote_loop:
  "plain w \<Longrightarrow> length acc + length w < capacity \<Longrightarrow>
   string_loop (Some capacity) acc (concat (map quote_byte w) @ 34 # r) = Some (acc @ w, r)"
proof (induction w arbitrary: acc)
  case (Cons c w)
  then have "js_put (Some capacity) c acc = Some (acc @ [c])" by (simp add: js_put_def)
  moreover have "c \<noteq> 92" "\<not> c < 0x20" using Cons.prems(1) by (auto simp: plain_def not_less)
  ultimately show ?case using Cons by (auto simp: quote_byte_def simple_escape_def plain_def)
qed simp

lemma js_quote_read [codec_simps]:
  "plain w \<Longrightarrow> length w < capacity \<Longrightarrow> js_string (Some capacity) (js_quote w @ r) = Some (w, r)"
  using quote_loop [of w "[]" capacity r] by (simp add: js_string_def js_quote_def js_space_def)

lemma readKey_key [codec_simps]:
  "plain (bytes_of name) \<Longrightarrow> length name < 16 \<Longrightarrow> readKey 16 (js_key name @ r) = Some (bytes_of name, r)"
  by (simp add: readKey_def js_key_def js_quote_read size_simps js_space_def)

lemma plain_keys [simp]:
  "plain (bytes_of ''path'')" "plain (bytes_of ''type'')" "plain (bytes_of ''sha'')" "plain (bytes_of ''size'')"
  "plain (bytes_of ''tree'')" "plain (bytes_of ''blob'')" "plain (bytes_of ''truncated'')"
  by (simp_all add: plain_def bytes_of_def)

lemma dec_bytes:
  "0 \<le> n \<Longrightarrow> digits (bytes_of (dec_digits n)) \<and> dval 0 (bytes_of (dec_digits n)) = nat n \<and>
     (\<exists>c w. bytes_of (dec_digits n) = c # w \<and> (c = 48 \<longrightarrow> n = 0 \<and> w = []))"
proof (induction n rule: dec_digits.induct)
  case (1 n)
  have d: "js_digit (of_char (digit_chr d))" "unat (of_char (digit_chr d) :: u8) - 48 = nat d"
    "of_char (digit_chr d) = (48 :: u8) \<longleftrightarrow> d = 0" if "0 \<le> d" "d < 10" for d
    using of_char_digit_chr [OF that] that
    by (auto simp: js_digit_def word_le_nat_alt simp flip: word_unat_eq_iff) (simp_all add: word_unat_eq_iff)
  show ?case
  proof (cases "n < 10")
    case True
    with 1 d [of n] show ?thesis by (subst (1 2 3) dec_digits.simps) (simp add: bytes_of_def digits_def)
  next
    case False
    with 1 have ih: "digits (bytes_of (dec_digits (n div 10)))" "dval 0 (bytes_of (dec_digits (n div 10))) = nat (n div 10)"
      "\<exists>c w. bytes_of (dec_digits (n div 10)) = c # w \<and> (c = 48 \<longrightarrow> n div 10 = 0 \<and> w = [])" by auto
    have "10 * nat (n div 10) + nat (n mod 10) = nat n"
      using 1(2) by (simp add: nat_div_distrib nat_mod_distrib)
    with ih False d [of "n mod 10"] show ?thesis
      by (subst (1 2 3) dec_digits.simps) (auto simp: bytes_of_append digits_def dval_append bytes_of_def)
  qed
qed

lemma dec_bytes_read:
  assumes "stops r"
  shows "\<exists>v. js_number (bytes_of (dec_digits (uint (z :: u32))) @ r) = Some (v, r) \<and> unat v = unat z"
proof -
  let ?w = "bytes_of (dec_digits (uint z))"
  obtain c w where h: "?w = c # w" "c = 48 \<longrightarrow> w = []" and d: "digits ?w" "dval 0 ?w = unat z"
    using dec_bytes [of "uint z"] by auto
  then have "jint (c # w)" by (cases "c = 48") (auto simp: digits_def intro: jint.intros)
  then have "jint ?w" unfolding h(1) .
  moreover have "dval 0 ?w < 2 ^ 60" using d(2) unat_u32 [of z] by simp
  ultimately show ?thesis using js_number_complete [of ?w "[]" r] assms d(2) by auto
qed

lemma bytes_of_inject [simp]: "bytes_of s = bytes_of t \<longleftrightarrow> s = t"
  using chars_bytes by metis

lemma chars_of_bytes_of [simp]: "chars_of (bytes_of s) = s"
  using chars_bytes [of s] by (simp add: chars_of_def)

lemma js_peek_key [codec_simps]: "js_peek 125 (js_key name @ r) = (False, js_key name @ r)"
  by (simp add: js_peek_def js_key_def js_quote_def js_space_def)

lemma sep_list_comma:
  "consuming item \<Longrightarrow> item a s = Some (b, 44 # t) \<Longrightarrow> sep_list item a s = sep_list item b t"
  by (simp add: sep_list_step [of item a s] js_space_def)

lemma sep_list_last:
  "consuming item \<Longrightarrow> item a s = Some (b, c # t) \<Longrightarrow> c = 93 \<or> c = 125 \<Longrightarrow> sep_list item a s = Some (b, c # t)"
  by (auto simp: sep_list_step [of item a s] js_take_def js_peek_def js_space_def)

lemma literal_read:
  "js_literal (bytes_of ''true'') (bytes_of ''true'' @ r) = (True, r)"
  "js_literal (bytes_of ''true'') (bytes_of ''false'' @ r) = (False, bytes_of ''false'' @ r)"
  "js_literal (bytes_of ''false'') (bytes_of ''false'' @ r) = (True, r)"
  by (simp_all add: js_literal_def js_space_def bytes_of_def)

lemma hex_text:
  assumes "length d = 20"
  shows "plain (bytes_of (formatSha1Hex d))" "length (formatSha1Hex d) = 40"
    "isHex40 (bytes_of (formatSha1Hex d))" "parseSha1Hex (Some (formatSha1Hex d)) = Some d"
proof -
  show p: "parseSha1Hex (Some (formatSha1Hex d)) = Some d"
    using hex_loop_format [of "[]" 0 d "[]"] assms by (simp add: parseSha1Hex_def kDigestSize_def)
  have "length (formatSha1Hex d) = 2 * length d" by (induction d) (auto simp: formatSha1Hex_def)
  then show l: "length (formatSha1Hex d) = 40" using assms by simp
  from p l show "isHex40 (bytes_of (formatSha1Hex d))" by (simp add: isHex40_def size_simps)
  have hex: "plain (bytes_of [''0123456789abcdef'' ! n])" if "n < 16" for n
    using sixteen_cases [OF that] by (auto simp: plain_def bytes_of_def)
  have "unat (drop_bit 4 b) < 16" "unat (b AND 0x0F) < 16" for b :: u8
    by (rule nibble_bounds)+
  with hex show "plain (bytes_of (formatSha1Hex d))"
    by (induction d) (auto simp: formatSha1Hex_def plain_def bytes_of_def)
qed

lemma entry_field_steps:
  "c_string kPathSize w \<Longrightarrow> plain w \<Longrightarrow>
   entry_field it (js_key ''path'' @ js_quote w @ r) = Some (it\<lparr>ti_path := w, ti_havePath := True\<rparr>, r)"
  "plain w \<Longrightarrow> length w < 16 \<Longrightarrow> entry_field it (js_key ''type'' @ js_quote w @ r) = Some (it\<lparr>ti_type := w\<rparr>, r)"
  "plain w \<Longrightarrow> length w < 48 \<Longrightarrow> entry_field it (js_key ''sha'' @ js_quote w @ r) = Some (it\<lparr>ti_sha := w\<rparr>, r)"
  "stops r \<Longrightarrow> entry_field it (js_key ''size'' @ bytes_of (dec_digits (uint z)) @ r) =
     Some (it\<lparr>ti_size := z, ti_haveSize := True\<rparr>, r)"
proof -
  assume "stops r"
  then obtain v where v: "js_number (bytes_of (dec_digits (uint z)) @ r) = Some (v, r)" "unat v = unat z"
    using dec_bytes_read by blast
  have "\<not> v > 0xFFFFFFFF" using v(2) unat_u32 [of z] by (simp add: word_less_nat_alt)
  moreover have "ucast v = z" using v(2) unat_u32 [of z]
    by (intro word_unatI) (simp add: unsigned_ucast_eq take_bit_nat_eq_self)
  ultimately show "entry_field it (js_key ''size'' @ bytes_of (dec_digits (uint z)) @ r) =
     Some (it\<lparr>ti_size := z, ti_haveSize := True\<rparr>, r)"
    using v(1) by (simp add: entry_field_def codec_simps)
qed (simp_all add: entry_field_def codec_simps c_string_def kPathSize_def)

lemma print_entry_read:
  assumes ok: "entry_ok e" and room: "length es < capacity"
  shows "tree_element capacity es (print_entry e @ r) = Some (es @ [e], r)"
proof -
  from ok have e: "c_string kPathSize (gt_path e)" "plain (gt_path e)" "length (gt_sha e) = 20" "pathIsSafe (gt_path e)"
    "gt_directory e \<Longrightarrow> gt_size e = 0"
    using path_safe_bytes by (auto simp: entry_ok_def plain_def)
  note hex = hex_text [OF e(3)]
  note comma = sep_list_comma [OF consuming_entry_field] and last = sep_list_last [OF consuming_entry_field]
  let ?ty = "bytes_of (if gt_directory e then ''tree'' else ''blob'')" and ?sha = "bytes_of (formatSha1Hex (gt_sha e))"
  let ?it = "tree_item0\<lparr>ti_path := gt_path e, ti_havePath := True, ti_type := ?ty, ti_sha := ?sha\<rparr>"
  let ?jt = "if gt_directory e then ?it else ?it\<lparr>ti_size := gt_size e, ti_haveSize := True\<rparr>"
  let ?body = "tl (print_entry e @ r)"
  have sha: "plain ?sha" "length ?sha < 48" using hex by (auto simp: size_simps)
  have stop: "stops (125 # r)" by (simp add: stops_def js_digit_def)
  have "sep_list entry_field tree_item0 ?body = Some (?jt, 125 # r)"
    by (cases "gt_directory e")
      (simp_all add: print_entry_def comma [OF entry_field_steps(1) [OF e(1,2)]] comma [OF entry_field_steps(2) [OF plain_keys(5)]]
        comma [OF entry_field_steps(2) [OF plain_keys(6)]] size_simps
        comma [OF entry_field_steps(3) [OF sha]] last [OF entry_field_steps(3) [OF sha]] last [OF entry_field_steps(4) [OF stop]])
  then have "object_body entry_field tree_item0 ?body = Some (?jt, r)"
    by (simp add: object_body_def print_entry_def js_peek_key js_space_def)
  moreover have "finish_entry capacity ?jt es = Some (es @ [e])"
    using e hex room by (cases e) (auto simp: finish_entry_def Let_def tree_item0_def)
  moreover have "js_take 123 (print_entry e @ r) = (True, ?body)" by (simp add: print_entry_def js_space_def)
  ultimately show ?thesis by (simp add: tree_element_def)
qed

lemma print_entries_read:
  "list_all entry_ok fs \<Longrightarrow> fs \<noteq> [] \<Longrightarrow> length es + length fs \<le> capacity \<Longrightarrow>
   sep_list (tree_element capacity) es (comma_list (map print_entry fs) @ 93 # r) = Some (es @ fs, 93 # r)"
proof (induction fs arbitrary: es rule: induct_list012)
  case (2 e)
  then show ?case by (auto intro!: sep_list_last [OF consuming_tree_element] print_entry_read)
next
  case (3 e f fs)
  then have "tree_element capacity es (print_entry e @ 44 # comma_list (map print_entry (f # fs)) @ 93 # r) =
      Some (es @ [e], 44 # comma_list (map print_entry (f # fs)) @ 93 # r)"
    by (intro print_entry_read) auto
  with 3 show ?case by (simp add: sep_list_comma [OF consuming_tree_element])
qed simp

lemma comma_list_head: "fs \<noteq> [] \<Longrightarrow> \<exists>w. comma_list (map print_entry fs) = 123 # w"
  by (cases fs rule: remdups_adj.cases) (auto simp: print_entry_def)

lemma print_array_read:
  assumes "list_all entry_ok fs" "length fs \<le> capacity"
  shows "array_body (tree_element capacity) [] (comma_list (map print_entry fs) @ 93 # r) = Some (fs, r)"
proof (cases "fs = []")
  case False
  then obtain w where w: "comma_list (map print_entry fs) = 123 # w" using comma_list_head by blast
  then have "js_take 93 (comma_list (map print_entry fs) @ 93 # r) = (False, comma_list (map print_entry fs) @ 93 # r)"
    by (simp add: js_take_def js_peek_def js_space_def)
  with print_entries_read [of fs "[]" capacity r] assms False show ?thesis
    by (simp add: array_body_def js_space_def)
qed (simp add: array_body_def js_space_def)

lemma print_tree_read:
  assumes "list_all entry_ok es" "length es \<le> capacity"
  shows "parseGitTree (Some (print_tree es tr)) (Some capacity) = Some (es, tr)"
proof -
  let ?st = "\<lparr>ts_entries = [], ts_haveTree = False, ts_haveTruncated = False, ts_truncated = True\<rparr>"
  let ?tail = "js_key ''truncated'' @ bytes_of (if tr then ''true'' else ''false'') @ [125]"
  have 1: "tree_top capacity ?st (js_key ''tree'' @ 91 # comma_list (map print_entry es) @ 93 # 44 # ?tail) =
      Some (?st\<lparr>ts_entries := es, ts_haveTree := True\<rparr>, 44 # ?tail)"
    by (simp add: tree_top_def codec_simps js_space_def print_array_read [OF assms])
  have 2: "tree_top capacity st ?tail = Some (st\<lparr>ts_truncated := tr, ts_haveTruncated := True\<rparr>, [125])" for st
    by (cases tr) (simp_all add: tree_top_def codec_simps literal_read)
  note comma = sep_list_comma [OF consuming_tree_top] and last = sep_list_last [OF consuming_tree_top]
  have "object_body (tree_top capacity) ?st (tl (print_tree es tr)) =
      Some (?st\<lparr>ts_entries := es, ts_haveTree := True, ts_truncated := tr, ts_haveTruncated := True\<rparr>, [])"
    by (simp add: object_body_def print_tree_def js_peek_key comma [OF 1] last [OF 2] js_space_def)
  moreover have "js_take 123 (print_tree es tr) = (True, tl (print_tree es tr))"
    by (simp add: print_tree_def js_space_def)
  ultimately show ?thesis by (simp add: parseGitTree_def js_atEnd_def)
qed

subsection \<open>The properties\<close>

text \<open>
  C15: The JSON reader accepts exactly JSON. A text is skipped as one value up to its end if
  and only if the grammar derives it: values nested at most 33 deep, strings with their
  escapes and paired surrogates, numbers without superfluous zeros, commas and colons in
  their places, spaces between tokens.
\<close>

theorem skip_value_is_json:
  "(\<exists>r. skip_value s = Some r \<and> js_atEnd r) \<longleftrightarrow> json_text 33 s"
  by (rule skip_value_json)

text \<open>
  C16: An answer the tree reader accepts is JSON as a whole, however much of it was skipped. It
  gives at most as many entries as the caller has room for, and each entry is usable as it
  is: a path that fits its field with the terminating zero, that contains no zero, control
  character or backslash, and that, walked from any directory, never leaves it; a digest of
  20 bytes; no size for a directory.
\<close>

theorem parse_git_tree_safe:
  "parseGitTree (Some text) (Some capacity) = Some (es, tr) \<Longrightarrow>
   json_text 36 text \<and> length es \<le> capacity \<and>
   (\<forall>e\<in>set es. length (gt_path e) < kPathSize \<and> (\<forall>c\<in>set (gt_path e). 0x20 \<le> c \<and> c \<noteq> 92) \<and>
      components (gt_path e) \<noteq> [] \<and> (\<forall>dir. walk dir (components (gt_path e)) = dir @ components (gt_path e)) \<and>
      length (gt_sha e) = 20 \<and> (gt_directory e \<longrightarrow> gt_size e = 0))"
proof -
  assume "parseGitTree (Some text) (Some capacity) = Some (es, tr)"
  from parseGitTree_ok [OF this] have ok: "json_text 36 text" "length es \<le> capacity" "list_all entry_ok es"
    by (auto simp: entries_ok_def)
  moreover have "walk dir (components p) = dir @ components p" if "pathIsSafe p" for dir p
    using that walk_good by (simp add: path_safe_exact)
  ultimately show ?thesis
    by (auto simp: list_all_iff entry_ok_def c_string_def split_by_nonempty dest: path_safe_bytes)
qed

definition sample_entry :: GitTreeEntry where
  "sample_entry = \<lparr>gt_path = [98, 47, 34, 46], gt_sha = replicate 20 0xAB, gt_size = 4711, gt_directory = False\<rparr>"

lemma sample_entry_ok: "list_all entry_ok [sample_entry]"
  by (simp add: sample_entry_def entry_ok_def path_safe_exact good_name_def c_string_def kPathSize_def)

theorem parse_git_tree_safe_witness:
  "json_text 36 (print_tree [sample_entry] False) \<and> length (gt_path sample_entry) < kPathSize"
  using parse_git_tree_safe [OF print_tree_read [OF sample_entry_ok, of 4 False]] by simp



text \<open>
  A size that the tree reader stores is the number written in the answer. The overflow test of
  the digit loop misses overflows in general, but a value of at most 0xFFFFFFFF that it lets
  through has not wrapped: it is the value of a JSON integer without superfluous zeros. And
  every such integer is read.
\<close>

theorem number_exact:
  "(js_number s = Some (v, r) \<longrightarrow> v \<le> 0xFFFFFFFF \<longrightarrow>
      (\<exists>sp w. s = sp @ w @ r \<and> spaces sp \<and> jint w \<and> dval 0 w = unat v)) \<and>
   (jint w \<longrightarrow> dval 0 w \<le> 0xFFFFFFFF \<longrightarrow> stops q \<longrightarrow>
      (\<exists>v. js_number (w @ q) = Some (v, q) \<and> unat v = dval 0 w))"
  using js_number_exact [of s v r] js_number_complete [of w "[]" q] by auto

theorem number_exact_witness:
  "js_number [32, 52, 50, 44] = Some (42, [44]) \<and> (\<exists>sp w. [32, 52, 50, 44] = sp @ w @ [44] \<and> spaces sp \<and> jint w \<and> dval 0 w = 42)"
proof -
  have "js_number [32, 52, 50, 44] = Some (42, [44])"
    by (simp add: js_number_def js_digit_def js_space_def)
  with number_exact [of "[32, 52, 50, 44]" 42 "[44]"] show ?thesis by simp
qed

text \<open>The overflow test lets this number through, wrapped.\<close>

lemma number_wraps:
  "\<exists>v. js_number (bytes_of ''30000000000000000000'') = Some (v, []) \<and> unat v \<noteq> 30000000000000000000"
  by (simp add: js_number_def js_digit_def js_space_def bytes_of_def Let_def)

lemma ref_top_hex:
  "ref_top found s = Some (f, r) \<Longrightarrow> (\<forall>c. found = Some c \<longrightarrow> isHex40 c) \<Longrightarrow> (\<forall>c. f = Some c \<longrightarrow> isHex40 c)"
  by (auto simp: ref_top_def bind_eq_Some_conv js_take_simps Let_def split: if_splits)

lemma consuming_ref_top: "consuming ref_top"
  by (rule members_split(1)) (erule ref_top_member)

definition print_ref :: "bytes \<Rightarrow> bytes" where
  "print_ref sha =
     123 # js_key ''ref'' @ js_quote (bytes_of ''refs/heads/main'') @
     44 # js_key ''object'' @ 123 # js_key ''sha'' @ js_quote sha @
     44 # js_key ''type'' @ js_quote (bytes_of ''commit'') @ [125, 125]"

lemma consuming_ref_field: "consuming ref_field"
  by (rule members_split(1)) (erule ref_field_member)

lemma js_quote_jstring: "plain w \<Longrightarrow> jstring (js_quote w)"
proof -
  assume "plain w"
  then have "jchars (concat (map quote_byte w))"
    by (induction w) (auto simp: quote_byte_def plain_def intro: jchars.intros)
  then show ?thesis using js_quoted [of "[]"] by (simp add: js_quote_def)
qed

lemma skip_quote: "plain w \<Longrightarrow> skip_value (js_quote w @ r) = Some r"
proof -
  assume "plain w"
  then have "js_string None (js_quote w @ r) = Some ([], r)" by (intro js_string_join js_quote_jstring)
  then have "skipValue (Suc 32) (js_quote w @ r) = Some r"
    by (simp only: skipValue.simps) (simp add: js_quote_def js_space_def)
  then show ?thesis by (simp add: skip_value_def)
qed

lemma ref_field_steps:
  "plain w \<Longrightarrow> length w < 48 \<Longrightarrow> ref_field (t, x) (js_key ''sha'' @ js_quote w @ r) = Some ((t, w), r)"
  "plain w \<Longrightarrow> length w < 16 \<Longrightarrow> ref_field (t, x) (js_key ''type'' @ js_quote w @ r) = Some ((w, x), r)"
  by (simp_all add: ref_field_def codec_simps)

lemma plain_ref_keys [simp]:
  "plain (bytes_of ''ref'')" "plain (bytes_of ''object'')" "plain (bytes_of ''commit'')" "plain (bytes_of ''refs/heads/main'')"
  by (simp_all add: plain_def bytes_of_def)

lemma print_ref_read:
  "length d = 20 \<Longrightarrow>
   parseGitRefCommit (Some (print_ref (bytes_of (formatSha1Hex d)))) True = Some (bytes_of (formatSha1Hex d))"
proof -
  assume d: "length d = 20"
  note hex = hex_text [OF d]
  let ?sha = "bytes_of (formatSha1Hex d)"
  let ?inner = "js_key ''sha'' @ js_quote ?sha @ 44 # js_key ''type'' @ js_quote (bytes_of ''commit'') @ [125, 125]"
  have l: "length ?sha < 48" using hex by (simp add: size_simps)
  note comma = sep_list_comma [OF consuming_ref_top] sep_list_comma [OF consuming_ref_field]
    and last = sep_list_last [OF consuming_ref_top] sep_list_last [OF consuming_ref_field]
  have 1: "object_body ref_field ([], []) ?inner = Some ((bytes_of ''commit'', ?sha), [125])"
    by (simp add: object_body_def js_peek_key comma(2) [OF ref_field_steps(1) [OF hex(1) l]]
      last(2) [OF ref_field_steps(2)] size_simps js_space_def)
  have 2: "ref_top None (js_key ''ref'' @ js_quote (bytes_of ''refs/heads/main'') @ r) = Some (None, r)" for r
    by (simp add: ref_top_def codec_simps skip_quote)
  have 3: "ref_top None (js_key ''object'' @ 123 # ?inner) = Some (Some ?sha, [125])"
    by (simp add: ref_top_def codec_simps js_space_def 1 hex)
  have "object_body ref_top None (tl (print_ref ?sha)) = Some (Some ?sha, [])"
    by (simp add: object_body_def print_ref_def js_peek_key comma(1) [OF 2] last(1) [OF 3] js_space_def)
  moreover have "js_take 123 (print_ref ?sha) = (True, tl (print_ref ?sha))" by (simp add: print_ref_def js_space_def)
  ultimately show ?thesis by (simp add: parseGitRefCommit_def js_atEnd_def)
qed

text \<open>
  The commit reader accepts only JSON, and what it returns is 40 hexadecimal digits that
  parse to the 20 bytes of a digest.
\<close>

theorem parse_ref_commit_safe:
  "parseGitRefCommit (Some text) given = Some c \<Longrightarrow>
   json_text 35 text \<and> length c = 40 \<and> (\<exists>d. parseSha1Hex (Some (chars_of c)) = Some d \<and> length d = 20)"
proof -
  assume h: "parseGitRefCommit (Some text) given = Some c"
  then obtain s r where o: "js_take 123 text = (True, s)" and b: "object_body ref_top None s = Some (Some c, r)"
    and e: "js_atEnd r"
    by (auto simp: parseGitRefCommit_def bind_eq_Some_conv js_take_simps Let_def split: if_splits)
  have "\<exists>w. text = w @ r \<and> jvalue 35 w" using object_body_value [OF ref_top_member o b] by simp
  with js_atEnd_spaces [OF e] have j: "json_text 35 text" unfolding json_text_def by blast
  have "\<forall>x. Some c = Some x \<longrightarrow> isHex40 x"
    by (rule object_body_invariant [where keeps = "\<lambda>f. \<forall>x. f = Some x \<longrightarrow> isHex40 x", OF consuming_ref_top b])
      (simp, erule (1) ref_top_hex)
  with j show ?thesis using parseSha1Hex_length by (auto simp: isHex40_def)
qed

theorem parse_ref_commit_safe_witness:
  "json_text 35 (print_ref (bytes_of (formatSha1Hex (replicate 20 7))))"
  using parse_ref_commit_safe [OF print_ref_read [of "replicate 20 7"]] by simp

text \<open>The answer GitHub gives for a branch is read: the digest in it is what comes back.\<close>

theorem print_parse_ref:
  "length d = 20 \<Longrightarrow>
   parseGitRefCommit (Some (print_ref (bytes_of (formatSha1Hex d)))) True = Some (bytes_of (formatSha1Hex d))"
  by (rule print_ref_read)

theorem print_parse_ref_witness:
  "parseGitRefCommit (Some (print_ref (bytes_of (formatSha1Hex (replicate 20 7))))) True =
     Some (bytes_of (formatSha1Hex (replicate 20 7)))"
  using print_parse_ref [of "replicate 20 7"] by simp

text \<open>
  A key of 16 bytes or more does not fit the key buffer, and the whole answer is refused,
  although the comment at \<open>readKey\<close> says that the value of a long key is skipped.
\<close>

lemma quote_loop_full:
  "plain w \<Longrightarrow> length acc < capacity \<Longrightarrow> capacity \<le> length acc + length w \<Longrightarrow>
   string_loop (Some capacity) acc (concat (map quote_byte w) @ r) = None"
proof (induction w arbitrary: acc)
  case (Cons c w)
  have c: "c \<noteq> 92" "\<not> c < 0x20" using Cons.prems(1) by (auto simp: plain_def not_less)
  have p: "js_put (Some capacity) c acc = (if Suc (length acc) = capacity then None else Some (acc @ [c]))"
    using Cons.prems(2) by (auto simp: js_put_def)
  have b: "quote_byte c = (if c = 34 then [92, 34] else [c])" by (simp add: quote_byte_def)
  have q: "plain w" using Cons.prems(1) by (simp add: plain_def)
  show ?case
  proof (cases "Suc (length acc) = capacity")
    case True
    with c p b show ?thesis by (auto simp: simple_escape_def)
  next
    case False
    with Cons q have "string_loop (Some capacity) (acc @ [c]) (concat (map quote_byte w) @ r) = None" by auto
    with c p b False show ?thesis by (auto simp: simple_escape_def)
  qed
qed simp

lemma long_key_refused: "plain key \<Longrightarrow> 16 \<le> length key \<Longrightarrow> readKey 16 (js_quote key @ r) = None"
  using quote_loop_full [of key "[]" 16 "34 # r"] by (simp add: readKey_def js_string_def js_quote_def js_space_def)

end
