(* ===== verification/FtpPaths.thy ===== *)
theory FtpPaths
  imports PathWalk
begin

text \<open>
  Paths of the FTP server: \<open>FtpServer::normalizePath\<close> of \<open>src/ftp_server.cpp\<close>, and the proof
  that it is the walk of a file system from the session's directory, so that no argument
  leaves the root. A C string is the list of the bytes before its zero.
\<close>

definition ftp_kMaxPath :: nat where
  "ftp_kMaxPath = 255"

text \<open>The length of the path without its last component: back to the slash, then the slash itself.\<close>

fun back_to_slash :: "bytes \<Rightarrow> nat \<Rightarrow> nat" where
  "back_to_slash out 0 = 0"
| "back_to_slash out (Suc n) = (if Suc n > 1 \<and> out ! n \<noteq> 47 then back_to_slash out n else Suc n)"

definition parent_of :: "bytes \<Rightarrow> bytes" where
  "parent_of out =
     (let n = back_to_slash out (length out) in take (if n > 1 then n - 1 else n) out)"

function ftp_norm_loop :: "bytes \<Rightarrow> bytes \<Rightarrow> bytes option" where
  "ftp_norm_loop out cursor =
     (let s = skip_sep cursor
      in if s = [] then Some out
         else let component = takeWhile (\<lambda>c. \<not> is_sep c) s;
                  rest = drop (length component) s
              in if length component > ftp_kMaxPath then None
                 else if component = [46] \<or> component = [] then ftp_norm_loop out rest
                 else if component = [46, 46] then ftp_norm_loop (parent_of out) rest
                 else let len = length out; slash = (if len > 1 then 1 else 0)
                      in if len + slash + length component > ftp_kMaxPath then None
                         else ftp_norm_loop (out @ (if slash \<noteq> 0 then [47] else []) @ component) rest)"
  by pat_completeness auto
termination
  by (relation "measure (\<lambda>(out, cursor). length cursor)") (auto dest: next_component_shorter)

declare ftp_norm_loop.simps [simp del]

definition ftp_normalizePath :: "bytes \<Rightarrow> bytes option \<Rightarrow> bytes option" where
  "ftp_normalizePath cwd argument =
     (case argument of None \<Rightarrow> Some (take ftp_kMaxPath cwd)
      | Some arg \<Rightarrow>
          if arg = [] then Some (take ftp_kMaxPath cwd)
          else ftp_norm_loop (if is_sep (hd arg) then [47] else take ftp_kMaxPath cwd) arg)"

subsection \<open>The walk\<close>

lemma back_to_slash_at:
  "0 < k \<Longrightarrow> k \<le> n \<Longrightarrow> w ! (k - 1) = 47 \<Longrightarrow> \<forall>i. k \<le> i \<and> i < n \<longrightarrow> w ! i \<noteq> 47 \<Longrightarrow> back_to_slash w n = k"
proof (induction n)
  case (Suc n)
  show ?case
  proof (cases "k = Suc n")
    case False
    with Suc.prems have "back_to_slash w n = k" by (intro Suc.IH) auto
    with Suc.prems False show ?thesis by auto
  qed (use Suc.prems in auto)
qed simp

lemma back_to_slash_names:
  "47 \<notin> set n \<Longrightarrow> back_to_slash (u @ 47 # n) (Suc (length u) + length n) = Suc (length u)"
  by (rule back_to_slash_at) (auto simp: nth_append nth_Cons' in_set_conv_nth)

lemma parent_of_render: "names dir \<Longrightarrow> parent_of (render dir) = render (butlast dir)"
proof (cases dir rule: rev_cases)
  case (snoc d n)
  assume "names dir"
  with snoc have n: "47 \<notin> set n" "n \<noteq> []" by auto
  define u where "u = (if d = [] then [] else render d)"
  have r: "render dir = u @ 47 # n" by (simp add: snoc render_snoc u_def)
  have "back_to_slash (render dir) (length (render dir)) = Suc (length u)"
    using back_to_slash_names [OF n(1), of u] by (simp add: r)
  then have "parent_of (render dir) = (if u = [] then [47] else u)" by (simp add: parent_of_def r)
  then show ?thesis by (simp add: u_def snoc)
qed (simp add: parent_of_def)

lemma walk_empty: "walk dir (replicate k [] @ ns) = walk dir ns"
  by (induction k) auto

lemma walk_skip: "walk dir (split_by is_sep s) = walk dir (split_by is_sep (skip_sep s))"
  by (subst skip_sep_split) (rule walk_empty)

lemma walk_component:
  assumes "s \<noteq> []"
  defines "c \<equiv> takeWhile (\<lambda>c. \<not> is_sep c) s"
  shows "walk dir (split_by is_sep s) = walk (walk dir [c]) (split_by is_sep (drop (length c) s))"
  by (cases rule: split_component [of s, folded c_def]) simp_all

subsection \<open>The path is the walk\<close>

text \<open>Every directory on the way fits the buffer.\<close>

fun path_fits :: "bytes list \<Rightarrow> bytes list \<Rightarrow> bool" where
  "path_fits dir [] = (length (render dir) \<le> ftp_kMaxPath)"
| "path_fits dir (n # ns) = (length (render dir) \<le> ftp_kMaxPath \<and> path_fits (walk dir [n]) ns)"

lemma path_fits_start: "path_fits dir ns \<Longrightarrow> length (render dir) \<le> ftp_kMaxPath"
  by (cases ns) auto

lemma path_fits_end: "path_fits dir ns \<Longrightarrow> length (render (walk dir ns)) \<le> ftp_kMaxPath"
  by (induction dir ns rule: path_fits.induct) auto

lemma path_fits_empty: "path_fits dir (replicate k [] @ ns) \<longleftrightarrow> path_fits dir ns"
  by (induction k) (auto dest: path_fits_start)

lemma path_fits_skip: "path_fits dir (split_by is_sep s) \<longleftrightarrow> path_fits dir (split_by is_sep (skip_sep s))"
  by (subst skip_sep_split) (rule path_fits_empty)

lemma path_fits_component:
  assumes "s \<noteq> []" and "length (render dir) \<le> ftp_kMaxPath"
  defines "c \<equiv> takeWhile (\<lambda>c. \<not> is_sep c) s"
  shows "path_fits dir (split_by is_sep s) \<longleftrightarrow> path_fits (walk dir [c]) (split_by is_sep (drop (length c) s))"
  by (cases rule: split_component [of s, folded c_def]) (use assms(2) in \<open>auto dest: path_fits_start\<close>)

lemma length_render_butlast: "names dir \<Longrightarrow> length (render (butlast dir)) \<le> length (render dir)"
  by (cases dir rule: rev_cases) (auto simp: length_render_snoc)

lemma ftp_norm_exact:
  "names dir \<Longrightarrow> length (render dir) \<le> ftp_kMaxPath \<Longrightarrow>
   ftp_norm_loop (render dir) arg =
     (if path_fits dir (split_by is_sep arg) then Some (render (walk dir (split_by is_sep arg))) else None)"
proof (induction "length arg" arbitrary: dir arg rule: less_induct)
  case less
  let ?s = "skip_sep arg"
  let ?c = "takeWhile (\<lambda>c. \<not> is_sep c) ?s"
  let ?rest = "drop (length ?c) ?s"
  let ?v = "\<lambda>d w. if path_fits d (split_by is_sep w) then Some (render (walk d (split_by is_sep w))) else None"
  show ?case
  proof (cases "?s = []")
    case True
    with less.prems show ?thesis
      by (subst ftp_norm_loop.simps) (simp add: walk_skip [of _ arg] path_fits_skip [of _ arg])
  next
    case False
    have target: "?v dir arg = ?v (walk dir [?c]) ?rest"
      unfolding walk_skip [of _ arg] path_fits_skip [of _ arg]
      by (simp only: walk_component [OF False] path_fits_component [OF False less.prems(2)])
    have c: "?c \<noteq> []" "47 \<notin> set ?c"
      using False hd_dropWhile [of is_sep arg] set_takeWhileD [of 47 "\<lambda>c. \<not> is_sep c" ?s]
      by (cases ?s; auto simp: skip_sep_def is_sep_def)+
    have ih: "ftp_norm_loop (render d) ?rest = ?v d ?rest" if "names d" "length (render d) \<le> ftp_kMaxPath" for d
      using less.hyps [OF next_component_shorter [OF False] that] .
    consider (dot) "?c = [46]" | (up) "?c = [46, 46]" | (name) "?c \<noteq> [46]" "?c \<noteq> [46, 46]" by blast
    then show ?thesis
    proof cases
      case dot
      then have "ftp_norm_loop (render dir) arg = ftp_norm_loop (render dir) ?rest"
        using False by (subst ftp_norm_loop.simps) (simp add: Let_def ftp_kMaxPath_def)
      with ih [OF less.prems] target dot show ?thesis by simp
    next
      case up
      then have "ftp_norm_loop (render dir) arg = ftp_norm_loop (render (butlast dir)) ?rest"
        using False less.prems(1) by (subst ftp_norm_loop.simps) (simp add: Let_def ftp_kMaxPath_def parent_of_render)
      moreover have "length (render (butlast dir)) \<le> ftp_kMaxPath"
        using length_render_butlast [OF less.prems(1)] less.prems(2) by simp
      ultimately show ?thesis using ih [of "butlast dir"] target up names_butlast [OF less.prems(1)] by simp
    next
      case name
      have w: "walk dir [?c] = dir @ [?c]" using name c by simp
      let ?len = "length (render dir) + (if dir \<noteq> [] then 1 else 0) + length ?c"
      have len: "length (render (dir @ [?c])) = ?len" by (simp add: length_render_snoc)
      have step: "ftp_norm_loop (render dir) arg =
          (if ?len > ftp_kMaxPath then None else ftp_norm_loop (render (dir @ [?c])) ?rest)"
        unfolding ftp_norm_loop.simps [of "render dir" arg] Let_def if_not_P [OF False] length_render_gt1 [OF less.prems(1)]
        using name c(1) by (cases "dir = []") (simp_all add: render_snoc)
      show ?thesis
      proof (cases "?len > ftp_kMaxPath")
        case True
        then have "\<not> path_fits (walk dir [?c]) (split_by is_sep ?rest)"
          unfolding w using len path_fits_start by fastforce
        with True step target show ?thesis by simp
      next
        case False
        have "names (dir @ [?c])" using less.prems(1) c by simp
        with ih [of "dir @ [?c]"] False step target len w show ?thesis by simp
      qed
    qed
  qed
qed

text \<open>
  C14: A path of the FTP server is where a walk of the file system ends. For a session in the
  directory \<open>dir\<close>, an argument with either separator, relative or absolute, with dots and
  double dots, is accepted exactly if every directory on the way fits 255 characters, and the
  result is the text of the directory the walk reaches; above the root there is nothing.
\<close>

theorem ftp_path_is_walk:
  "names dir \<Longrightarrow> length (render dir) \<le> ftp_kMaxPath \<Longrightarrow>
   ftp_normalizePath (render dir) argument =
     (case argument of None \<Rightarrow> Some (render dir)
      | Some arg \<Rightarrow>
          let start = (if arg \<noteq> [] \<and> is_sep (hd arg) then [] else dir); ns = split_by is_sep arg
          in if path_fits start ns then Some (render (walk start ns)) else None)"
  using ftp_norm_exact [of "[]"] ftp_norm_exact [of dir]
  by (auto simp: ftp_normalizePath_def Let_def ftp_kMaxPath_def split: option.splits)

theorem ftp_path_is_walk_witness:
  "ftp_normalizePath (render [[97], [98]]) (Some [46, 46, 92, 99, 47, 46, 47, 100]) = Some (render [[97], [99], [100]])"
  using ftp_path_is_walk [of "[[97], [98]]" "Some [46, 46, 92, 99, 47, 46, 47, 100]"]
  by (simp add: ftp_kMaxPath_def is_sep_def render_def)

end
