(* ===== verification/SmbPaths.thy ===== *)
theory SmbPaths
  imports PathWalk
begin

text \<open>
  Names and paths of the SMB server, from \<open>src/smb_server.cpp\<close>: the comparison without case, the
  file masks of directory listings, the normal form of a path, file ids and the status codes of
  the file API. A C string is the list of the bytes before its zero, and a null pointer is \<open>None\<close>.
\<close>

definition smb_kMaxPath :: nat where
  "smb_kMaxPath = 255"

subsection \<open>Comparison\<close>

text \<open>\<open>toupper\<close> of the C locale.\<close>

definition toupper :: "u8 \<Rightarrow> u8" where
  "toupper c = (if 97 \<le> c \<and> c \<le> 122 then c - 32 else c)"

fun equal_loop :: "bytes \<Rightarrow> bytes \<Rightarrow> bool" where
  "equal_loop (a # left) (b # right) = (if toupper a \<noteq> toupper b then False else equal_loop left right)"
| "equal_loop left right = (left = [] \<and> right = [])"

definition asciiEqualNoCase :: "bytes option \<Rightarrow> bytes option \<Rightarrow> bool" where
  "asciiEqualNoCase left right =
     (case (left, right) of (Some l, Some r) \<Rightarrow> equal_loop l r | _ \<Rightarrow> False)"

fun belongs_loop :: "bytes \<Rightarrow> bytes \<Rightarrow> bool" where
  "belongs_loop (a # val) (b # root) = (if toupper a \<noteq> toupper b then False else belongs_loop val root)"
| "belongs_loop val root = (root = [] \<and> (val = [] \<or> hd val = 47))"

definition asciiPathBelongsTo :: "bytes option \<Rightarrow> bytes option \<Rightarrow> bool" where
  "asciiPathBelongsTo val root =
     (case (val, root) of
        (Some v, Some r) \<Rightarrow> if r = [47] then v \<noteq> [] \<and> hd v = 47 else belongs_loop v r
      | _ \<Rightarrow> False)"

subsection \<open>Masks\<close>

text \<open>
  The loop of \<open>wildcardMatch\<close>: the rest of the pattern, the rest of the text, and, once a star
  has been seen, the pattern after it and the text to retry from.
\<close>

function wildcard_loop :: "bytes \<Rightarrow> bytes \<Rightarrow> (bytes \<times> bytes) option \<Rightarrow> bool" where
  "wildcard_loop pattern text star =
     (if text = [] then dropWhile (\<lambda>c. c = 42) pattern = []
      else if pattern \<noteq> [] \<and> (hd pattern = 63 \<or> toupper (hd pattern) = toupper (hd text))
      then wildcard_loop (tl pattern) (tl text) star
      else if pattern \<noteq> [] \<and> hd pattern = 42 then wildcard_loop (tl pattern) text (Some (tl pattern, text))
      else case star of None \<Rightarrow> False
      | Some (after, retry) \<Rightarrow> wildcard_loop after (tl retry) (Some (after, tl retry)))"
  by pat_completeness auto
termination
  by (relation "measures [\<lambda>(p, t, star). case star of None \<Rightarrow> Suc (length t) | Some (a, r) \<Rightarrow> max (length r) (length t),
       \<lambda>(p, t, star). length t, \<lambda>(p, t, star). length p]")
    (auto simp: neq_Nil_conv max_def split: option.splits if_splits)

declare wildcard_loop.simps [simp del]

definition wildcardMatch :: "bytes \<Rightarrow> bytes \<Rightarrow> bool" where
  "wildcardMatch pattern text = wildcard_loop pattern text None"

text \<open>What a mask means: a star is any text, a question mark any byte, a letter either case.\<close>

fun mask_matches :: "bytes \<Rightarrow> bytes \<Rightarrow> bool" where
  "mask_matches [] t = (t = [])"
| "mask_matches (p # ps) t =
     (if p = 42 then (\<exists>n\<le>length t. mask_matches ps (drop n t))
      else t \<noteq> [] \<and> (p = 63 \<or> toupper p = toupper (hd t)) \<and> mask_matches ps (tl t))"

subsection \<open>Normal form of a path\<close>

definition bad_char :: "u8 \<Rightarrow> bool" where
  "bad_char c \<longleftrightarrow> c < 32 \<or> c = 58 \<or> c = 124 \<or> c = 60 \<or> c = 62 \<or> c = 34"

text \<open>
  The length of a component without the suffix of the main NTFS stream. The comparison runs to the
  end of the whole text, so only the last component can lose its suffix.
\<close>

definition effective_component :: "bytes \<Rightarrow> bytes \<Rightarrow> bytes" where
  "effective_component cursor component =
     (let n = length component
      in if n \<ge> 7 \<and> asciiEqualNoCase (Some (drop (n - 7) cursor)) (Some (bytes_of ''::$DATA'')) then take (n - 7) component
         else if n \<ge> 6 \<and> asciiEqualNoCase (Some (drop (n - 6) cursor)) (Some (bytes_of '':$DATA'')) then take (n - 6) component
         else component)"

lemma skip_sep_shorter: "s \<noteq> [] \<Longrightarrow> length (skip_sep (drop (length (takeWhile (\<lambda>c. \<not> is_sep c) s)) s)) < length s"
proof (cases s)
  case (Cons c t)
  have l: "length (skip_sep u) \<le> length u" for u by (simp add: skip_sep_def length_dropWhile_le)
  show ?thesis
  proof (cases "is_sep c")
    case True
    with Cons l [of t] show ?thesis by (simp add: skip_sep_def)
  next
    case False
    with Cons l [of "drop (length (takeWhile (\<lambda>c. \<not> is_sep c) t)) t"] show ?thesis by simp
  qed
qed simp

function smb_norm_loop :: "bytes \<Rightarrow> bytes \<Rightarrow> bytes option" where
  "smb_norm_loop out cursor =
     (if cursor = [] then Some out
      else let component = takeWhile (\<lambda>c. \<not> is_sep c) cursor;
               name = effective_component cursor component;
               rest = skip_sep (drop (length component) cursor);
               used = length out
           in if \<exists>c\<in>set name. bad_char c then None
              else if name = [46] then smb_norm_loop out rest
              else if name = [46, 46] then None
              else if name \<noteq> [] then
                (if used \<noteq> 1 then
                   (if used \<ge> smb_kMaxPath then None
                    else if length name > smb_kMaxPath - (used + 1) then None
                    else smb_norm_loop (out @ [47] @ name) rest)
                 else if length name > smb_kMaxPath - used then None
                 else smb_norm_loop (out @ name) rest)
              else smb_norm_loop out rest)"
  by pat_completeness auto

termination
  by (relation "measure (\<lambda>(out, cursor). length cursor)") (auto simp: skip_sep_shorter)

declare smb_norm_loop.simps [simp del]

definition smb_normalizePath :: "bytes option \<Rightarrow> bytes option" where
  "smb_normalizePath input = (case input of None \<Rightarrow> None | Some s \<Rightarrow> smb_norm_loop [47] (skip_sep s))"

text \<open>\<open>strrchr\<close>: the text before the last slash and the text after it.\<close>

fun last_slash :: "bytes \<Rightarrow> (bytes \<times> bytes) option" where
  "last_slash [] = None"
| "last_slash (c # s) =
     (case last_slash s of Some (u, n) \<Rightarrow> Some (c # u, n)
      | None \<Rightarrow> if c = 47 then Some ([], s) else None)"

definition splitParent :: "bytes option \<Rightarrow> (bytes \<times> bytes) option" where
  "splitParent path =
     (case path of None \<Rightarrow> None
      | Some p \<Rightarrow>
          if p = [47] then None
          else case last_slash p of None \<Rightarrow> None
          | Some (before, after) \<Rightarrow>
              if after = [] then None
              else let parentLength = (if before = [] then 1 else length before)
                   in if parentLength > smb_kMaxPath \<or> length after > smb_kMaxPath then None
                      else Some (take parentLength p, after))"

text \<open>The share of a tree connect: the last part of the UTF-16 path, in ASCII.\<close>

fun share_loop :: "bytes \<Rightarrow> u16 list \<Rightarrow> bytes option" where
  "share_loop out [] = (if out \<noteq> [] then Some out else None)"
| "share_loop out (val # path) =
     (if val = 0 then share_loop out path
      else if val = 92 \<or> val = 47 then share_loop [] path
      else if val > 0x7F \<or> length out \<ge> 31 then None
      else share_loop (out @ [ucast val]) path)"

text \<open>\<open>None\<close> is a null request or path; the list is the \<open>path_length / 2\<close> characters.\<close>

definition parseShare :: "u16 list option \<Rightarrow> bytes option" where
  "parseShare path = (case path of None \<Rightarrow> None | Some p \<Rightarrow> if p = [] then None else share_loop [] p)"

definition makeInfoName :: "bytes \<Rightarrow> bytes option" where
  "makeInfoName path =
     (if length path + 1 > smb_kMaxPath + 2 then None
      else if path = [47] then Some [92]
      else Some (map (\<lambda>c. if c = 47 then 92 else c) path))"

subsection \<open>File ids, sizes and status codes\<close>

definition kDirectoryFileIdOffset :: u64 where
  "kDirectoryFileIdOffset = 1469598103934665603"

definition kDirectoryFileIdPrime :: u64 where
  "kDirectoryFileIdPrime = 1099511628211"

fun append_id_loop :: "u64 \<Rightarrow> bytes \<Rightarrow> u64" where
  "append_id_loop hash [] = hash"
| "append_id_loop hash (c # text) =
     (let val = (if 65 \<le> c \<and> c \<le> 90 then c + 32 else c)
      in append_id_loop ((hash XOR ucast val) * kDirectoryFileIdPrime) text)"

definition appendDirectoryFileId :: "u64 \<Rightarrow> bytes option \<Rightarrow> u64" where
  "appendDirectoryFileId hash text = (case text of None \<Rightarrow> hash | Some t \<Rightarrow> append_id_loop hash t)"

definition directoryFileId :: "bytes option \<Rightarrow> u64" where
  "directoryFileId path = appendDirectoryFileId kDirectoryFileIdOffset path"

definition directoryChildFileId :: "bytes option \<Rightarrow> bytes option \<Rightarrow> u64" where
  "directoryChildFileId parentPath name =
     (let parent = (case parentPath of None \<Rightarrow> [47] | Some p \<Rightarrow> if p = [] then [47] else p);
          hash = appendDirectoryFileId kDirectoryFileIdOffset (Some parent);
          hash1 = (if parent = [] \<or> last parent \<noteq> 47 then appendDirectoryFileId hash (Some [47]) else hash)
      in appendDirectoryFileId hash1 name)"

definition roundUpAllocationSize :: "u32 \<Rightarrow> u32 \<Rightarrow> u64" where
  "roundUpAllocationSize length32 allocationUnit =
     (if length32 = 0 \<or> allocationUnit = 0 then 0
      else (ucast length32 + ucast allocationUnit - 1) div ucast allocationUnit * ucast allocationUnit)"

definition padTo8 :: "nat \<Rightarrow> nat" where
  "padTo8 val = (val + 7) div 8 * 8"

definition smbStatusFromFilex :: "u8 \<Rightarrow> u32" where
  "smbStatusFromFilex status =
     (if status \<in> {0x00, 0x25} then 0x00000000
      else if status = 0x01 then 0xC0000011
      else if status \<in> {0x13, 0x14, 0x1C, 0x1D, 0x23} then 0xC000000D
      else if status = 0x15 then 0xC00000BB
      else if status = 0x18 then 0xC00000A2
      else if status = 0x19 then 0xC0000034
      else if status = 0x1A then 0xC0000035
      else if status = 0x1B then 0xC0000101
      else if status = 0x22 then 0xC000007F
      else 0xC0000185)"

subsection \<open>Comparison without case\<close>

lemma equal_loop_iff: "equal_loop l r \<longleftrightarrow> map toupper l = map toupper r"
  by (induction l r rule: equal_loop.induct) auto

lemma asciiEqualNoCase_iff [simp]: "asciiEqualNoCase (Some l) (Some r) \<longleftrightarrow> map toupper l = map toupper r"
  by (simp add: asciiEqualNoCase_def equal_loop_iff)

lemma toupper_fix: "toupper c = 42 \<longleftrightarrow> c = 42" "toupper c = 47 \<longleftrightarrow> c = 47" "toupper c = 92 \<longleftrightarrow> c = 92"
  by (auto simp: toupper_def word_le_nat_alt unat_word_ariths unat_arith_simps split: if_splits)

subsection \<open>Masks\<close>

lemma mask_star: "mask_matches (42 # p) t \<longleftrightarrow> mask_matches p t \<or> (t \<noteq> [] \<and> mask_matches (42 # p) (tl t))"
proof (cases t)
  case (Cons c u)
  have "(\<exists>n\<le>length t. mask_matches p (drop n t)) \<longleftrightarrow> mask_matches p t \<or> (\<exists>n\<le>length u. mask_matches p (drop n u))"
    unfolding Cons by (metis drop0 drop_Suc_Cons le0 length_Cons not0_implies_Suc Suc_le_mono)
  with Cons show ?thesis by simp
qed simp

lemma mask_star_tl: "mask_matches p t \<or> mask_matches (42 # p) (tl t) \<longleftrightarrow> mask_matches (42 # p) t"
  by (subst (2) mask_star) (cases t; auto)

lemma mask_star_drop: "mask_matches (42 # p) (drop k t) \<Longrightarrow> mask_matches (42 # p) t"
proof (induction k arbitrary: t)
  case (Suc k)
  show ?case
  proof (cases t)
    case (Cons c u)
    with Suc have "mask_matches (42 # p) u" by simp
    with Cons show ?thesis by (subst mask_star) simp
  qed (use Suc in simp)
qed simp

lemma mask_prefix: "mask_matches (q @ p) t \<Longrightarrow> 42 \<notin> set q \<Longrightarrow> length q \<le> length t \<and> mask_matches p (drop (length q) t)"
  by (induction q arbitrary: t) (auto simp: drop_Suc neq_Nil_conv)

lemma mask_nil: "mask_matches p [] \<longleftrightarrow> dropWhile (\<lambda>c. c = 42) p = []"
  by (induction p) auto

definition retry_ok :: "bytes \<Rightarrow> bytes \<Rightarrow> (bytes \<times> bytes) option \<Rightarrow> bool" where
  "retry_ok p t star \<longleftrightarrow> 42 \<notin> set t \<and>
     (case star of None \<Rightarrow> True
      | Some (a, r) \<Rightarrow> \<exists>q u. a = q @ p \<and> r = u @ t \<and> length q = length u \<and> 42 \<notin> set q \<and> 42 \<notin> set r)"

definition retried :: "(bytes \<times> bytes) option \<Rightarrow> bool" where
  "retried star = (case star of None \<Rightarrow> False | Some (a, r) \<Rightarrow> mask_matches (42 # a) (tl r))"

lemma retried_star:
  assumes "retry_ok (42 # p) t star" and "retried star" and "t \<noteq> []"
  shows "mask_matches (42 # p) t"
proof -
  obtain a r where "star = Some (a, r)" using assms(2) by (auto simp: retried_def split: option.splits)
  with assms have m: "mask_matches (42 # a) (tl r)"
    and "\<exists>q u. a = q @ 42 # p \<and> r = u @ t \<and> length q = length u \<and> 42 \<notin> set q \<and> 42 \<notin> set r"
    by (auto simp: retry_ok_def retried_def)
  then obtain q u where q: "a = q @ 42 # p" "r = u @ t" "length q = length u" "42 \<notin> set q" by blast
  from m obtain n where "mask_matches (q @ 42 # p) (drop n (tl r))" unfolding q(1) by auto
  from mask_prefix [OF this q(4)] have "mask_matches (42 # p) (drop (length q) (drop n (tl r)))" by blast
  moreover have "drop (length q) (drop n (tl r)) = drop (Suc n) t"
  proof -
    have "drop (length q) (drop n (tl r)) = drop (length u + Suc n) r" by (simp add: q(3) drop_Suc add.commute)
    then show ?thesis by (simp add: q(2))
  qed
  ultimately show ?thesis using mask_star_drop by metis
qed

lemma wildcard_loop_exact:
  "retry_ok p t star \<Longrightarrow> wildcard_loop p t star \<longleftrightarrow> mask_matches p t \<or> retried star"
proof (induction p t star rule: wildcard_loop.induct)
  case (1 p t star)
  consider (finish) "t = []" | (match) "t \<noteq> []" "p \<noteq> []" "hd p = 63 \<or> toupper (hd p) = toupper (hd t)"
    | (star) "t \<noteq> []" "p \<noteq> []" "\<not> (hd p = 63 \<or> toupper (hd p) = toupper (hd t))" "hd p = 42"
    | (fail) "t \<noteq> []" "p = [] \<or> \<not> (hd p = 63 \<or> toupper (hd p) = toupper (hd t)) \<and> hd p \<noteq> 42" by blast
  then show ?case
  proof cases
    case finish
    have "mask_matches p []" if "retried star"
    proof -
      from that 1(4) finish obtain q r where q: "star = Some (q @ p, r)" "length q = length r" "42 \<notin> set q"
        by (auto simp: retried_def retry_ok_def split: option.splits)
      with that obtain n where "mask_matches (q @ p) (drop n (tl r))" by (auto simp: retried_def)
      from mask_prefix [OF this q(3)] q(2) show ?thesis by (cases r) auto
    qed
    with finish show ?thesis by (subst wildcard_loop.simps) (auto simp: mask_nil)
  next
    case match
    have "hd p \<noteq> 42" using match 1(4) toupper_fix(1) [of "hd t"] by (cases t) (auto simp: retry_ok_def toupper_def)
    then have m: "mask_matches p t = mask_matches (tl p) (tl t)" using match by (cases p) auto
    have "retry_ok (tl p) (tl t) star"
    proof (cases star)
      case (Some ar)
      obtain a r where ar: "ar = (a, r)" by fastforce
      with 1(4) Some obtain q u where "a = q @ p" "r = u @ t" "length q = length u" "42 \<notin> set q" "42 \<notin> set r"
        by (auto simp: retry_ok_def)
      then have "a = (q @ [hd p]) @ tl p" "r = (u @ [hd t]) @ tl t" "length (q @ [hd p]) = length (u @ [hd t])"
        "42 \<notin> set (q @ [hd p])" "42 \<notin> set r" "42 \<notin> set (tl t)"
        using match \<open>hd p \<noteq> 42\<close> by (auto dest: list.set_sel(2))
      then show ?thesis unfolding retry_ok_def Some ar by auto
    qed (use 1(4) match in \<open>auto simp: retry_ok_def dest: list.set_sel(2)\<close>)
    with 1(1) match m show ?thesis by (subst wildcard_loop.simps) simp
  next
    case star
    then obtain p' where p: "p = 42 # p'" by (cases p) auto
    have ok: "retry_ok p' t (Some (p', t))" using 1(4) by (auto simp: retry_ok_def)
    from star 1(2) [OF star(1) _ _ ] p ok have "wildcard_loop p' t (Some (p', t)) \<longleftrightarrow> mask_matches p' t \<or> mask_matches (42 # p') (tl t)"
      by (auto simp: retried_def)
    with mask_star_tl have "wildcard_loop p' t (Some (p', t)) \<longleftrightarrow> mask_matches p t" unfolding p by simp
    moreover have "wildcard_loop p t star = wildcard_loop p' t (Some (p', t))"
      using star p by (subst wildcard_loop.simps) simp
    ultimately show ?thesis using retried_star [of p' t star] 1(4) star(1) p by auto
  next
    case fail
    then have m: "\<not> mask_matches p t" by (cases p) auto
    show ?thesis
    proof (cases star)
      case None
      with fail m show ?thesis by (subst wildcard_loop.simps) (auto simp: retried_def)
    next
      case (Some ar)
      obtain a r where ar: "ar = (a, r)" by fastforce
      have "42 \<notin> set (tl r)" using 1(4) unfolding Some ar by (cases r) (auto simp: retry_ok_def)
      then have "retry_ok a (tl r) (Some (a, tl r))" by (simp add: retry_ok_def)
      with 1(3) fail Some ar have "wildcard_loop a (tl r) (Some (a, tl r)) \<longleftrightarrow> mask_matches a (tl r) \<or> mask_matches (42 # a) (tl (tl r))"
        by (auto simp: retried_def)
      moreover have "wildcard_loop p t star = wildcard_loop a (tl r) (Some (a, tl r))"
        using fail Some ar by (subst wildcard_loop.simps) auto
      ultimately show ?thesis using m mask_star_tl [of a "tl r"] by (simp add: retried_def Some ar)
    qed
  qed
qed

text \<open>
  C12: The mask of a directory listing means what it should: for a file name, which never contains
  a star, the loop, which remembers only its last star, accepts exactly if the name is one the mask
  describes, where a star stands for any text, a question mark for any byte, and ASCII letters
  match in either case.
\<close>

theorem wildcard_is_mask:
  "42 \<notin> set name \<Longrightarrow> wildcardMatch pattern name \<longleftrightarrow> mask_matches pattern name"
  using wildcard_loop_exact [of pattern name None] by (simp add: wildcardMatch_def retry_ok_def retried_def)

theorem wildcard_is_mask_witness:
  "wildcardMatch [42, 46, 116, 63, 68] [97, 46, 98, 46, 84, 114, 100]"
proof -
  have "mask_matches [42, 46, 116, 63, 68] [97, 46, 98, 46, 84, 114, 100]"
    by (simp add: toupper_def) (rule exI [of _ 3], simp)
  with wildcard_is_mask [of "[97, 46, 98, 46, 84, 114, 100]" "[42, 46, 116, 63, 68]"] show ?thesis by simp
qed

subsection \<open>The normal form\<close>

text \<open>
  The reference: the components between the separators, the last one without its stream suffix.
  They must be free of the characters Windows forbids and of double dots; empty ones and single dots
  are dropped, and the path is the text of the rest.
\<close>

definition strip_stream :: "bytes \<Rightarrow> bytes" where
  "strip_stream n = effective_component n n"

definition smb_components :: "bytes \<Rightarrow> bytes list" where
  "smb_components s = (let ns = split_by is_sep s in butlast ns @ [strip_stream (last ns)])"

definition smb_names :: "bytes \<Rightarrow> bytes list" where
  "smb_names s = filter (\<lambda>n. n \<noteq> [] \<and> n \<noteq> [46]) (smb_components s)"

definition smb_allowed :: "bytes list \<Rightarrow> bool" where
  "smb_allowed ns \<longleftrightarrow> (\<forall>n\<in>set ns. n \<noteq> [46, 46] \<and> (\<forall>c\<in>set n. \<not> bad_char c))"

lemma smb_allowed_simps [simp]:
  "smb_allowed []" "smb_allowed (n # ns) \<longleftrightarrow> n \<noteq> [46, 46] \<and> (\<forall>c\<in>set n. \<not> bad_char c) \<and> smb_allowed ns"
  "smb_allowed (ms @ ns) \<longleftrightarrow> smb_allowed ms \<and> smb_allowed ns"
  by (auto simp: smb_allowed_def)

lemma smb_components_skip:
  "smb_allowed (smb_components (skip_sep s)) = smb_allowed (smb_components s)" "smb_names (skip_sep s) = smb_names s"
proof -
  have "butlast (replicate k [] @ split_by is_sep t) = replicate k [] @ butlast (split_by is_sep t)" for k t
    by (simp add: butlast_append)
  then have "smb_components s = replicate (length s - length (skip_sep s)) [] @ smb_components (skip_sep s)"
    unfolding smb_components_def Let_def by (subst (1 2) skip_sep_split) simp
  moreover have "smb_allowed (replicate k [])" for k by (induction k) auto
  ultimately show "smb_allowed (smb_components (skip_sep s)) = smb_allowed (smb_components s)"
    "smb_names (skip_sep s) = smb_names s"
    by (simp_all add: smb_names_def filter_replicate)
qed

lemma effective_first: "effective_component (c @ d # t) c = c"
proof -
  have "map toupper (drop (length c - k) (c @ d # t)) \<noteq> map toupper w" if "length w = k" "k \<le> length c" for k and w :: bytes
    using that by (intro notI) (drule arg_cong [where f = length], simp)
  from this [of "bytes_of ''::$DATA''" 7] this [of "bytes_of '':$DATA''" 6] show ?thesis
    by (auto simp: effective_component_def Let_def size_simps)
qed

lemma smb_components_first: "is_sep d \<Longrightarrow> \<forall>x\<in>set c. \<not> is_sep x \<Longrightarrow> smb_components (c @ d # t) = c # smb_components t"
  by (simp add: smb_components_def Let_def split_by_append_sep split_by_plain)

lemma effective_subset: "set (effective_component s c) \<subseteq> set c"
  by (auto simp: effective_component_def Let_def dest: in_set_takeD)

text \<open>What a step of the loop leaves of the components.\<close>

lemma smb_components_rest:
  fixes s :: bytes
  defines "c \<equiv> takeWhile (\<lambda>c. \<not> is_sep c) s"
  defines "n \<equiv> effective_component s c" and "rest \<equiv> skip_sep (drop (length c) s)"
  shows "smb_allowed (smb_components s) \<longleftrightarrow> smb_allowed (n # smb_components rest)"
    and "smb_names s = (if n \<noteq> [] \<and> n \<noteq> [46] then [n] else []) @ smb_names rest"
proof -
  have clean: "\<forall>x\<in>set c. \<not> is_sep x" unfolding c_def using set_takeWhileD by fastforce
  have nil: "smb_components [] = [[]]"
    by (simp add: smb_components_def strip_stream_def effective_component_def)
  have "(smb_allowed (smb_components s) \<longleftrightarrow> smb_allowed (n # smb_components rest)) \<and>
    smb_names s = (if n \<noteq> [] \<and> n \<noteq> [46] then [n] else []) @ smb_names rest"
  proof (cases rule: split_component [of s, folded c_def, case_names whole first])
    case whole
    have "smb_components s = [n]"
      unfolding smb_components_def Let_def whole(3) strip_stream_def n_def by (simp only: whole(2)) simp
    moreover have "rest = []" unfolding rest_def by (simp only: whole(1) skip_sep_def dropWhile.simps)
    ultimately show ?thesis using nil unfolding smb_names_def by auto
  next
    case (first d t)
    have n: "n = c" unfolding n_def using effective_first [of c d t] first(3) by simp
    have "smb_components s = n # smb_components t"
      using smb_components_first [OF first(2) clean, of t] first(3) n by simp
    moreover have "rest = skip_sep t" unfolding rest_def using first(1,2) by (simp add: skip_sep_def)
    ultimately show ?thesis by (simp add: smb_components_skip smb_names_def [of s] smb_names_def [of t])
  qed
  then show "smb_allowed (smb_components s) \<longleftrightarrow> smb_allowed (n # smb_components rest)"
    and "smb_names s = (if n \<noteq> [] \<and> n \<noteq> [46] then [n] else []) @ smb_names rest" by blast+
qed

lemma length_render_mono: "names d \<Longrightarrow> names e \<Longrightarrow> length (render d) \<le> length (render (d @ e))"
  by (cases "d = []"; cases e) (auto simp: render_def)

lemma length_render_ge1: "1 \<le> length (render d)"
  by (cases d) (auto simp: render_def)

lemma strip_stream_subset: "set (strip_stream n) \<subseteq> set n"
  unfolding strip_stream_def by (rule effective_subset)

lemma smb_components_clean: "n \<in> set (smb_components s) \<Longrightarrow> x \<in> set n \<Longrightarrow> \<not> is_sep x"
  using split_by_clean [of is_sep s] strip_stream_subset [of "last (split_by is_sep s)"]
  by (auto simp: smb_components_def Let_def dest: in_set_butlastD) (metis last_in_set split_by_nonempty subsetD)

lemma names_smb_names: "names (smb_names s)"
  unfolding names_def smb_names_def using smb_components_clean by (fastforce simp: is_sep_def)

lemma smb_norm_step:
  assumes "names dir" and "c \<noteq> []" and "47 \<notin> set c" and "c \<noteq> [46]" and "c \<noteq> [46, 46]"
    and "\<not> (\<exists>x\<in>set c. bad_char x)" and "length (render dir) \<le> smb_kMaxPath"
    and "effective_component s (takeWhile (\<lambda>c. \<not> is_sep c) s) = c" and "s \<noteq> []"
  shows "smb_norm_loop (render dir) s =
    (if length (render (dir @ [c])) > smb_kMaxPath then None
     else smb_norm_loop (render (dir @ [c])) (skip_sep (drop (length (takeWhile (\<lambda>c. \<not> is_sep c) s)) s)))"
proof (cases "dir = []")
  case True
  with assms show ?thesis
    unfolding smb_norm_loop.simps [of "render dir" s] Let_def assms(8) if_not_P [OF assms(9)]
    by (simp add: smb_kMaxPath_def)
next
  case False
  with assms(1) have "length (render dir) \<noteq> 1" using length_render_gt1 by fastforce
  with False assms show ?thesis
    unfolding smb_norm_loop.simps [of "render dir" s] Let_def assms(8) if_not_P [OF assms(9)]
    by (auto simp add: render_snoc smb_kMaxPath_def)
qed

lemma smb_norm_exact:
  "names dir \<Longrightarrow> length (render dir) \<le> smb_kMaxPath \<Longrightarrow>
   smb_norm_loop (render dir) s =
     (if smb_allowed (smb_components s) \<and> length (render (dir @ smb_names s)) \<le> smb_kMaxPath
      then Some (render (dir @ smb_names s)) else None)"
proof (induction "length s" arbitrary: dir s rule: less_induct)
  case less
  let ?c = "takeWhile (\<lambda>c. \<not> is_sep c) s"
  let ?rest = "skip_sep (drop (length ?c) s)"
  let ?n = "effective_component s ?c"
  let ?v = "\<lambda>d w. if smb_allowed (smb_components w) \<and> length (render (d @ smb_names w)) \<le> smb_kMaxPath
                   then Some (render (d @ smb_names w)) else None"
  show ?case
  proof (cases "s = []")
    case True
    with less.prems show ?thesis
      by (subst smb_norm_loop.simps) (simp add: smb_components_def smb_names_def strip_stream_def effective_component_def)
  next
    case False
    note comps = smb_components_rest(1) [of s] and nms = smb_components_rest(2) [of s]
    have clean: "\<forall>x\<in>set ?c. \<not> is_sep x" using set_takeWhileD by fastforce
    have "is_sep 47" by (simp add: is_sep_def)
    with effective_subset [of s ?c] clean have n47: "47 \<notin> set ?n" by blast
    have ih: "smb_norm_loop (render d) ?rest = ?v d ?rest" if "names d" "length (render d) \<le> smb_kMaxPath" for d
      using less.hyps [OF skip_sep_shorter [OF False] that] .
    consider (bad) "\<exists>x\<in>set ?n. bad_char x" | (up) "?n = [46, 46]" | (void) "?n = [46] \<or> ?n = []"
      | (name) "?n \<noteq> []" "?n \<noteq> [46]" "?n \<noteq> [46, 46]" "\<not> (\<exists>x\<in>set ?n. bad_char x)" by blast
    then show ?thesis
    proof cases
      case bad
      then have "smb_norm_loop (render dir) s = None" using False by (subst smb_norm_loop.simps) (simp add: Let_def)
      with bad comps show ?thesis by auto
    next
      case up
      then have "smb_norm_loop (render dir) s = None" using False by (subst smb_norm_loop.simps) (simp add: Let_def)
      with up comps show ?thesis by simp
    next
      case void
      then have "smb_norm_loop (render dir) s = smb_norm_loop (render dir) ?rest"
        using False by (subst smb_norm_loop.simps) (elim disjE, simp_all add: Let_def bad_char_def)
      moreover have "smb_allowed (smb_components s) \<longleftrightarrow> smb_allowed (smb_components ?rest)"
        using comps void by (elim disjE) (simp_all add: bad_char_def)
      moreover have "smb_names s = smb_names ?rest" using nms void by auto
      ultimately show ?thesis using ih [OF less.prems] by simp
    next
      case name
      note step = smb_norm_step [OF less.prems(1) name(1) n47 name(2,3,4) less.prems(2) refl False]
      have nm: "smb_names s = ?n # smb_names ?rest" using nms name by simp
      have al: "smb_allowed (smb_components s) \<longleftrightarrow> smb_allowed (smb_components ?rest)" using comps name by simp
      have nd: "names (dir @ [?n])" using less.prems(1) name n47 by simp
      have nr: "names (smb_names ?rest)" if "smb_allowed (smb_components s)"
        using names_smb_names by blast
      show ?thesis
      proof (cases "length (render (dir @ [?n])) > smb_kMaxPath")
        case True
        then have "length (render ((dir @ [?n]) @ smb_names ?rest)) > smb_kMaxPath" if "smb_allowed (smb_components s)"
          using length_render_mono [OF nd nr [OF that]] by linarith
        with True step nm show ?thesis by auto
      next
        case False
        with step ih [OF nd] nm al show ?thesis by simp
      qed
    qed
  qed
qed

lemma smb_normal_exact:
  "smb_normalizePath (Some s) =
     (if smb_allowed (smb_components s) \<and> length (render (smb_names s)) \<le> smb_kMaxPath
      then Some (render (smb_names s)) else None)"
  using smb_norm_exact [of "[]" "skip_sep s"]
  by (simp add: smb_normalizePath_def smb_components_skip smb_kMaxPath_def)

lemma split_render:
  "\<forall>n\<in>set dir. n \<noteq> [] \<and> (\<forall>c\<in>set n. \<not> is_sep c) \<Longrightarrow> dir \<noteq> [] \<Longrightarrow> split_by is_sep (render dir) = [] # dir"
proof (induction dir rule: rev_induct)
  case (snoc n dir)
  have sep: "is_sep 47" by (simp add: is_sep_def)
  have n: "split_by is_sep n = [n]" using snoc.prems(1) by (intro split_by_plain) simp
  show ?case
  proof (cases "dir = []")
    case True
    with n sep show ?thesis by simp
  next
    case False
    with snoc have "split_by is_sep (render dir @ 47 # n) = ([] # dir) @ [n]"
      using n sep by (subst split_by_append_sep) simp_all
    with False show ?thesis by (simp add: render_snoc)
  qed
qed simp

lemma toupper_colon: "toupper c = 58 \<longleftrightarrow> c = 58"
  by (auto simp: toupper_def word_le_nat_alt unat_word_ariths unat_arith_simps split: if_splits)

lemma strip_stream_id: "58 \<notin> set n \<Longrightarrow> strip_stream n = n"
proof -
  assume "58 \<notin> set n"
  then have "58 \<notin> set (map toupper (drop k n))" for k using toupper_colon by (auto dest: in_set_dropD)
  moreover have "58 \<in> set (map toupper (bytes_of ''::$DATA''))" "58 \<in> set (map toupper (bytes_of '':$DATA''))"
    by (simp_all add: bytes_of_def toupper_def)
  ultimately have "map toupper (drop k n) \<noteq> map toupper (bytes_of ''::$DATA'')"
    "map toupper (drop k n) \<noteq> map toupper (bytes_of '':$DATA'')" for k by metis+
  then show ?thesis by (simp add: strip_stream_def effective_component_def)
qed

definition smb_path_names :: "bytes list \<Rightarrow> bool" where
  "smb_path_names dir \<longleftrightarrow>
     (\<forall>n\<in>set dir. n \<noteq> [] \<and> n \<noteq> [46] \<and> n \<noteq> [46, 46] \<and> (\<forall>c\<in>set n. \<not> bad_char c \<and> \<not> is_sep c))"

lemma smb_names_ok: "smb_allowed (smb_components s) \<Longrightarrow> smb_path_names (smb_names s)"
  using smb_components_clean unfolding smb_path_names_def smb_names_def smb_allowed_def by fastforce

lemma smb_normal_render:
  assumes "smb_path_names dir" and "length (render dir) \<le> smb_kMaxPath"
  shows "smb_normalizePath (Some (render dir)) = Some (render dir)"
proof (cases dir rule: rev_cases)
  case Nil
  then show ?thesis
    by (simp add: smb_normal_exact smb_components_def smb_names_def strip_stream_def effective_component_def
      is_sep_def smb_kMaxPath_def)
next
  case (snoc d n)
  have n: "split_by is_sep (render dir) = [] # dir"
    using assms(1) snoc by (intro split_render) (auto simp: smb_path_names_def)
  have "58 \<notin> set n" using assms(1) snoc by (auto simp: smb_path_names_def bad_char_def)
  with n have c: "smb_components (render dir) = [] # dir"
    by (simp add: smb_components_def snoc butlast_append strip_stream_id)
  then have "smb_allowed (smb_components (render dir))"
    using assms(1) by (auto simp: smb_path_names_def smb_allowed_def)
  moreover have "smb_names (render dir) = dir"
    using assms(1) by (auto simp: smb_names_def c smb_path_names_def intro!: filter_True)
  ultimately show ?thesis using assms(2) by (simp add: smb_normal_exact)
qed

text \<open>
  C13: The path of an SMB request is brought to a normal form that cannot leave the share. The
  components between slashes and backslashes decide: one with a control character or a character
  Windows forbids, or a double dot, refuses the path; empty ones and single dots vanish, the main
  stream suffix of the last one is cut; and a result longer than 255 bytes is refused. What is
  accepted is the text of a list of plain names, and normalising it again changes nothing.
\<close>

theorem smb_path_normal:
  "smb_normalizePath (Some s) =
     (if smb_allowed (smb_components s) \<and> length (render (smb_names s)) \<le> smb_kMaxPath
      then Some (render (smb_names s)) else None) \<and>
   (smb_normalizePath (Some s) = Some out \<longrightarrow>
      smb_path_names (smb_names s) \<and> out = render (smb_names s) \<and> smb_normalizePath (Some out) = Some out \<and>
      walk [] (components out) = smb_names s)"
proof -
  have "smb_path_names (smb_names s) \<and> out = render (smb_names s) \<and> smb_normalizePath (Some out) = Some out \<and>
      walk [] (components out) = smb_names s"
    if h: "smb_normalizePath (Some s) = Some out"
  proof -
    from h have o: "out = render (smb_names s)" "smb_allowed (smb_components s)"
      "length (render (smb_names s)) \<le> smb_kMaxPath"
      by (auto simp: smb_normal_exact split: if_splits)
    note ok = smb_names_ok [OF o(2)]
    have "walk [] (components (render (smb_names s))) = smb_names s"
    proof (cases "smb_names s = []")
      case False
      have "walk [] (smb_names s) = [] @ smb_names s"
        using ok by (intro walk_names) (auto simp: smb_path_names_def)
      with False render_components [OF names_smb_names] show ?thesis by simp
    qed simp
    with ok o(1) smb_normal_render [OF ok o(3)] show ?thesis by simp
  qed
  with smb_normal_exact show ?thesis by blast
qed

theorem smb_path_normal_witness:
  "smb_normalizePath (Some (bytes_of ''a//b.txt:$data'')) = Some (bytes_of ''/a/b.txt'') \<and>
   smb_normalizePath (Some (bytes_of ''/a/b.txt'')) = Some (bytes_of ''/a/b.txt'')"
proof -
  have h: "smb_normalizePath (Some (bytes_of ''a//b.txt:$data'')) = Some (bytes_of ''/a/b.txt'')"
    by (simp add: smb_normal_exact smb_components_def smb_names_def strip_stream_def effective_component_def
      is_sep_def smb_kMaxPath_def bytes_of_def toupper_def smb_allowed_def bad_char_def render_def Let_def)
  with smb_path_normal [of "bytes_of ''a//b.txt:$data''" "bytes_of ''/a/b.txt''"] show ?thesis by blast
qed

subsection \<open>Parents, ids and sizes\<close>

lemma last_slash_at: "47 \<notin> set n \<Longrightarrow> last_slash (u @ 47 # n) = Some (u, n)"
proof (induction u)
  case Nil
  have "last_slash n = None" using Nil by (induction n) auto
  then show ?case by simp
qed simp

lemma split_parent:
  "names (dir @ [n]) \<Longrightarrow> length (render (dir @ [n])) \<le> smb_kMaxPath \<Longrightarrow>
   splitParent (Some (render (dir @ [n]))) = Some (render dir, n)"
proof -
  assume h: "names (dir @ [n])" "length (render (dir @ [n])) \<le> smb_kMaxPath"
  define u where "u = (if dir = [] then [] else render dir)"
  have r: "render (dir @ [n]) = u @ 47 # n" by (simp add: render_snoc u_def)
  have p: "(if u = [] then 1 else length u) = length (render dir)" "take (length (render dir)) (u @ 47 # n) = render dir"
    by (auto simp: u_def)
  have "last_slash (u @ 47 # n) = Some (u, n)" using h(1) by (intro last_slash_at) simp
  moreover have "u @ 47 # n \<noteq> [47]" "n \<noteq> []" using h(1) by (cases u; simp)+
  moreover have "length (render dir) \<le> smb_kMaxPath" "length n \<le> smb_kMaxPath"
    using h(2) by (auto simp: length_render_snoc smb_kMaxPath_def split: if_splits)
  ultimately have "splitParent (Some (u @ 47 # n)) = Some (take (length (render dir)) (u @ 47 # n), n)"
    unfolding splitParent_def by (simp only: option.case if_False prod.case Let_def p(1)) simp
  then show ?thesis unfolding r p(2) .
qed

lemma lower_upper: "(if 65 \<le> c \<and> c \<le> 90 then c + 32 else c) =
    (let u = toupper c in if 65 \<le> u \<and> u \<le> 90 then u + 32 else u)"
  by (auto simp: toupper_def Let_def word_le_nat_alt unat_word_ariths unat_arith_simps)

lemma append_id_nocase:
  "map toupper a = map toupper b \<Longrightarrow> append_id_loop hash a = append_id_loop hash b"
proof (induction a arbitrary: b hash)
  case (Cons c a)
  then obtain d b' where b: "b = d # b'" "toupper c = toupper d" "map toupper a = map toupper b'" by (cases b) auto
  then have "(if 65 \<le> c \<and> c \<le> 90 then c + 32 else c) = (if 65 \<le> d \<and> d \<le> 90 then d + 32 else d)"
    by (metis lower_upper)
  with Cons.IH [OF b(3)] show ?case by (simp add: b(1) Let_def)
qed simp

lemma append_id_append: "append_id_loop hash (a @ b) = append_id_loop (append_id_loop hash a) b"
  by (induction a arbitrary: hash) (simp_all add: Let_def)

text \<open>
  A file id does not depend on the spelling of the path, and the id a listing gives to an entry is
  the id of the entry's own path.
\<close>

lemma file_id_spelling: "asciiEqualNoCase (Some a) (Some b) \<Longrightarrow> directoryFileId (Some a) = directoryFileId (Some b)"
  unfolding directoryFileId_def appendDirectoryFileId_def by simp (rule append_id_nocase)

lemma file_id_child:
  assumes "names (dir @ [n])"
  shows "directoryChildFileId (Some (render dir)) (Some n) = directoryFileId (Some (render (dir @ [n])))"
proof (cases "dir = []")
  case False
  then have "last (render dir) \<noteq> 47"
    using assms by (cases dir rule: rev_cases) (auto simp: render_snoc split: if_splits dest: last_in_set)
  with False show ?thesis
    by (simp add: directoryChildFileId_def directoryFileId_def appendDirectoryFileId_def append_id_append render_snoc Let_def)
qed (simp add: directoryChildFileId_def directoryFileId_def appendDirectoryFileId_def Let_def)

lemma allocation_exact:
  assumes "0 < unit"
  shows "unat (roundUpAllocationSize len unit) = (unat len + unat unit - 1) div unat unit * unat unit"
proof (cases "len = 0")
  case True
  have "(unat unit - 1) div unat unit = 0" using assms by (simp add: word_less_nat_alt)
  with True show ?thesis by (simp add: roundUpAllocationSize_def)
next
  case False
  have u: "0 < unat unit" using assms by (simp add: word_less_nat_alt)
  have up: "unat (ucast w :: u64) = unat (w :: u32)" for w
    by (simp add: unsigned_ucast_eq take_bit_nat_eq_self order_less_trans [OF unat_u32])
  have l: "unat len < 2 ^ 32" "unat unit < 2 ^ 32" using unat_u32 [of len] unat_u32 [of unit] by simp_all
  have sum: "unat (ucast len + ucast unit :: u64) = unat len + unat unit"
    using l by (simp add: unat_word_ariths up)
  moreover from this have "(ucast len + ucast unit :: u64) \<noteq> 0" using u by (metis add_is_0 not_gr_zero unsigned_0)
  ultimately have less1: "unat (ucast len + ucast unit - 1 :: u64) = unat len + unat unit - 1"
    by (simp add: unat_minus_one)
  define q where "q = (unat len + unat unit - 1) div unat unit"
  have "q * unat unit < 2 ^ 33"
    unfolding q_def by (rule le_less_trans [OF div_times_less_eq_dividend]) (use l in simp)
  moreover from this u have "q < 2 ^ 33" by (cases "unat unit") auto
  moreover have "unat ((ucast len + ucast unit - 1) div ucast unit :: u64) = q"
    using less1 by (simp add: unat_div up q_def)
  ultimately have "unat ((ucast len + ucast unit - 1) div ucast unit * ucast unit :: u64) = q * unat unit"
    by (simp add: unat_word_ariths up)
  with False assms show ?thesis by (simp add: roundUpAllocationSize_def q_def)
qed

end
