(* ===== verification/SmbLocks.thy ===== *)
theory SmbLocks
  imports Prelude
begin

text \<open>
  Byte-range locks of the SMB server, from \<open>src/smb_server.cpp\<close>: the table of 32 locks, the test
  for a conflict, the lock request with its roll-back, and the check that reads and writes make
  against the locks of others. An SMB open is known by its handle slot and generation, a file by
  its key.
\<close>

definition kByteRangeLockCount :: nat where
  "kByteRangeLockCount = 32"

definition kLockFlagShared :: u32 where "kLockFlagShared = 1"

definition kLockFlagExclusive :: u32 where "kLockFlagExclusive = 2"

definition kLockFlagUnlock :: u32 where "kLockFlagUnlock = 4"

definition kLockFlagFailImmediately :: u32 where "kLockFlagFailImmediately = 0x10"

record byte_lock =
  bl_used :: bool
  bl_exclusive :: bool
  bl_ownerSlot :: u16
  bl_ownerGeneration :: u32
  bl_fileKey :: u64
  bl_offset :: u64
  bl_length :: u64

definition no_lock :: byte_lock where
  "no_lock = \<lparr>bl_used = False, bl_exclusive = False, bl_ownerSlot = 0, bl_ownerGeneration = 0, bl_fileKey = 0,
     bl_offset = 0, bl_length = 0\<rparr>"

type_synonym lock_table = "byte_lock list"

definition no_locks :: lock_table where
  "no_locks = replicate kByteRangeLockCount no_lock"

text \<open>The open a request comes from: slot, generation and the key of its file.\<close>

record smb_open =
  so_slot :: nat
  so_generation :: u32
  so_fileKey :: u64

definition same_open :: "smb_open \<Rightarrow> byte_lock \<Rightarrow> bool" where
  "same_open h l \<longleftrightarrow> bl_ownerSlot l = of_nat (so_slot h) \<and> bl_ownerGeneration l = so_generation h"

subsection \<open>Conflicts\<close>

text \<open>The closed ranges of the request and of the lock, as the code compares them.\<close>

definition overlaps :: "u64 \<Rightarrow> u64 \<Rightarrow> byte_lock \<Rightarrow> bool" where
  "overlaps offset len l =
     (let lst = offset + len - 1; lockLast = bl_offset l + bl_length l - 1
      in \<not> (offset > lockLast \<or> lst < bl_offset l))"

fun conflict_loop :: "smb_open \<Rightarrow> u64 \<Rightarrow> u64 \<Rightarrow> bool \<Rightarrow> lock_table \<Rightarrow> bool" where
  "conflict_loop h offset len exclusive [] = False"
| "conflict_loop h offset len exclusive (l # ls) =
     (if \<not> bl_used l \<or> bl_fileKey l \<noteq> so_fileKey h \<or> bl_length l = 0 then conflict_loop h offset len exclusive ls
      else if \<not> overlaps offset len l then conflict_loop h offset len exclusive ls
      else if bl_exclusive l
      then (if \<not> same_open h l \<or> exclusive then True else conflict_loop h offset len exclusive ls)
      else if exclusive then True else conflict_loop h offset len exclusive ls)"

definition lockRangeConflicts :: "smb_open \<Rightarrow> u64 \<Rightarrow> u64 \<Rightarrow> bool \<Rightarrow> lock_table \<Rightarrow> bool" where
  "lockRangeConflicts h offset len exclusive t = (if len = 0 then False else conflict_loop h offset len exclusive t)"

fun io_loop :: "smb_open \<Rightarrow> u64 \<Rightarrow> u64 \<Rightarrow> bool \<Rightarrow> lock_table \<Rightarrow> bool" where
  "io_loop h offset len writeAccess [] = False"
| "io_loop h offset len writeAccess (l # ls) =
     (if \<not> bl_used l \<or> bl_fileKey l \<noteq> so_fileKey h \<or> bl_length l = 0 then io_loop h offset len writeAccess ls
      else if \<not> overlaps offset len l then io_loop h offset len writeAccess ls
      else if bl_exclusive l \<and> \<not> same_open h l then True
      else if \<not> bl_exclusive l \<and> writeAccess then True
      else io_loop h offset len writeAccess ls)"

text \<open>\<open>None\<close> is a slot out of range or not in use.\<close>

definition fileIoConflictsWithLock :: "smb_open option \<Rightarrow> u64 \<Rightarrow> u64 \<Rightarrow> bool \<Rightarrow> lock_table \<Rightarrow> bool" where
  "fileIoConflictsWithLock handle offset len writeAccess t =
     (case handle of None \<Rightarrow> False | Some h \<Rightarrow> if len = 0 then False else io_loop h offset len writeAccess t)"

subsection \<open>Release\<close>

definition releaseByteRangeLocksForHandle :: "nat \<Rightarrow> u32 \<Rightarrow> lock_table \<Rightarrow> lock_table" where
  "releaseByteRangeLocksForHandle slot generation t =
     map (\<lambda>l. if bl_used l \<and> bl_ownerSlot l = of_nat slot \<and> bl_ownerGeneration l = generation then no_lock else l) t"

subsection \<open>The request\<close>

record lock_element =
  le_offset :: u64
  le_length :: u64
  le_flags :: u32

text \<open>
  The lock an unlock element names: the loop keeps the last match and stops at an exclusive one.
\<close>

fun find_unlock :: "smb_open \<Rightarrow> lock_element \<Rightarrow> nat \<Rightarrow> lock_table \<Rightarrow> nat option \<Rightarrow> nat option" where
  "find_unlock h e i [] found = found"
| "find_unlock h e i (l # ls) found =
     (if \<not> bl_used l \<or> bl_fileKey l \<noteq> so_fileKey h \<or> \<not> same_open h l \<or>
         bl_offset l \<noteq> le_offset e \<or> bl_length l \<noteq> le_length e then find_unlock h e (Suc i) ls found
      else if bl_exclusive l then Some i
      else find_unlock h e (Suc i) ls (Some i))"

fun free_lock :: "nat \<Rightarrow> lock_table \<Rightarrow> nat option" where
  "free_lock i [] = None"
| "free_lock i (l # ls) = (if \<not> bl_used l then Some i else free_lock (Suc i) ls)"

definition new_lock :: "smb_open \<Rightarrow> lock_element \<Rightarrow> bool \<Rightarrow> byte_lock" where
  "new_lock h e exclusive =
     \<lparr>bl_used = True, bl_exclusive = exclusive, bl_ownerSlot = of_nat (so_slot h), bl_ownerGeneration = so_generation h,
      bl_fileKey = so_fileKey h, bl_offset = le_offset e, bl_length = le_length e\<rparr>"

definition status_ok :: u32 where "status_ok = 0"

definition STATUS_INVALID_PARAMETER :: u32 where "STATUS_INVALID_PARAMETER = 0xC000000D"

definition STATUS_RANGE_NOT_LOCKED :: u32 where "STATUS_RANGE_NOT_LOCKED = 0xC000007E"

definition STATUS_LOCK_NOT_GRANTED :: u32 where "STATUS_LOCK_NOT_GRANTED = 0xC0000055"

definition STATUS_INSUFFICIENT_RESOURCES :: u32 where "STATUS_INSUFFICIENT_RESOURCES = 0xC000009A"

definition STATUS_FILE_CLOSED :: u32 where "STATUS_FILE_CLOSED = 0xC0000128"

definition bad_flags :: "nat \<Rightarrow> lock_element \<Rightarrow> bool" where
  "bad_flags lockCount e =
     (let kind = le_flags e AND (kLockFlagShared OR kLockFlagExclusive);
          allowed = kind OR (le_flags e AND kLockFlagFailImmediately)
      in (kind \<noteq> kLockFlagShared \<and> kind \<noteq> kLockFlagExclusive) \<or> le_flags e \<noteq> allowed \<or>
         (lockCount > 1 \<and> le_flags e AND kLockFlagFailImmediately = 0))"

definition wants_exclusive :: "lock_element \<Rightarrow> bool" where
  "wants_exclusive e \<longleftrightarrow> le_flags e AND (kLockFlagShared OR kLockFlagExclusive) = kLockFlagExclusive"

fun lock_loop :: "smb_open \<Rightarrow> bool \<Rightarrow> nat \<Rightarrow> lock_element list \<Rightarrow> nat list \<Rightarrow> lock_table \<Rightarrow> u32 \<times> lock_table" where
  "lock_loop h unlock lockCount [] added t = (status_ok, t)"
| "lock_loop h unlock lockCount (e # es) added t =
     (if le_length e \<noteq> 0 \<and> le_offset e + le_length e - 1 < le_offset e then (STATUS_INVALID_PARAMETER, t)
      else if unlock then
        (if le_flags e \<noteq> kLockFlagUnlock then (STATUS_INVALID_PARAMETER, t)
         else case find_unlock h e 0 t None of None \<Rightarrow> (STATUS_RANGE_NOT_LOCKED, t)
         | Some found \<Rightarrow> lock_loop h unlock lockCount es added (t[found := no_lock]))
      else if bad_flags lockCount e then (STATUS_INVALID_PARAMETER, t)
      else if lockRangeConflicts h (le_offset e) (le_length e) (wants_exclusive e) t
      then (STATUS_LOCK_NOT_GRANTED, fold (\<lambda>i u. u[i := no_lock]) added t)
      else case free_lock 0 t of None \<Rightarrow> (STATUS_INSUFFICIENT_RESOURCES, t)
      | Some freeIndex \<Rightarrow>
          lock_loop h unlock lockCount es (added @ [freeIndex]) (t[freeIndex := new_lock h e (wants_exclusive e)]))"

text \<open>
  The handler after the handle has been looked up: \<open>None\<close> is a handle that is not open. The
  locks are \<open>None\<close> for a null pointer.
\<close>

definition lockHandler :: "smb_open option \<Rightarrow> bool \<Rightarrow> lock_element list option \<Rightarrow> lock_table \<Rightarrow> u32 \<times> lock_table" where
  "lockHandler handle directory locks t =
     (case handle of None \<Rightarrow> (STATUS_FILE_CLOSED, t)
      | Some h \<Rightarrow>
          (case locks of None \<Rightarrow> (STATUS_INVALID_PARAMETER, t)
           | Some es \<Rightarrow>
               if directory \<or> es = [] then (STATUS_INVALID_PARAMETER, t)
               else lock_loop h (le_flags (hd es) AND kLockFlagUnlock \<noteq> 0) (length es) es [] t))"

subsection \<open>Ranges as sets of byte positions\<close>

definition lock_bytes :: "u64 \<Rightarrow> u64 \<Rightarrow> nat set" where
  "lock_bytes offset len = {unat offset ..< unat offset + unat len}"

definition no_wrap :: "u64 \<Rightarrow> u64 \<Rightarrow> bool" where
  "no_wrap offset len \<longleftrightarrow> unat offset + unat len \<le> 2 ^ 64"

lemma last_byte:
  fixes offset len :: u64
  assumes "no_wrap offset len" "len \<noteq> 0"
  shows "unat (offset + len - 1) = unat offset + unat len - 1"
proof -
  have "0 < unat len" using assms(2) by (simp add: unat_gt_0)
  then have "unat (offset + (len - 1)) = unat offset + (unat len - 1)"
    using assms(1) unat_minus_one [OF assms(2)] unfolding no_wrap_def
    by (subst unat_add_lem [THEN iffD1]) auto
  then show ?thesis using \<open>0 < unat len\<close> by (simp add: algebra_simps)
qed

lemma wrap_test:
  fixes offset len :: u64
  assumes "len \<noteq> 0"
  shows "offset + len - 1 < offset \<longleftrightarrow> \<not> no_wrap offset len"
proof (cases "no_wrap offset len")
  case True
  have "0 < unat len" using assms by (simp add: unat_gt_0)
  then show ?thesis using last_byte [OF True assms] True by (simp add: word_less_nat_alt)
next
  case False
  have pos: "0 < unat len" using assms by (simp add: unat_gt_0)
  have "unat offset + (unat len - 1) \<ge> 2 ^ 64" "unat offset < 2 ^ 64" "unat len < 2 ^ 64"
    using False pos unat_u64 [of offset] unat_u64 [of len] unfolding no_wrap_def by auto
  then have "unat (offset + (len - 1)) < unat offset"
    using unat_minus_one [OF assms] pos by (simp add: unat_word_ariths mod_if) arith
  then show ?thesis using False by (simp add: word_less_nat_alt algebra_simps)
qed

lemma overlaps_exact:
  assumes "no_wrap offset len" "len \<noteq> 0" "no_wrap (bl_offset l) (bl_length l)" "bl_length l \<noteq> 0"
  shows "overlaps offset len l \<longleftrightarrow> lock_bytes offset len \<inter> lock_bytes (bl_offset l) (bl_length l) \<noteq> {}"
proof -
  have "0 < unat len" "0 < unat (bl_length l)" using assms(2,4) by (simp_all add: unat_gt_0)
  then show ?thesis
    using last_byte [OF assms(1,2)] last_byte [OF assms(3,4)]
    by (auto simp: overlaps_def Let_def word_less_nat_alt lock_bytes_def disjoint_iff not_less
        intro!: exI [of _ "max (unat offset) (unat (bl_offset l))"])
qed

lemma no_bytes [simp]: "lock_bytes offset 0 = {}"
  by (simp add: lock_bytes_def)

subsection \<open>The invariant of the table\<close>

definition holds :: "byte_lock \<Rightarrow> nat \<Rightarrow> bool" where
  "holds l n \<longleftrightarrow> bl_used l \<and> n \<in> lock_bytes (bl_offset l) (bl_length l)"

text \<open>Two locks may stand together: no two exclusive ones share a byte of a file, and an exclusive
  lock shares a byte only with a shared one of the same open.\<close>

definition compatible :: "byte_lock \<Rightarrow> byte_lock \<Rightarrow> bool" where
  "compatible l m \<longleftrightarrow>
     (\<forall>n. holds l n \<and> holds m n \<and> bl_fileKey l = bl_fileKey m \<longrightarrow>
        \<not> (bl_exclusive l \<and> bl_exclusive m) \<and>
        (bl_exclusive l \<or> bl_exclusive m \<longrightarrow>
           bl_ownerSlot l = bl_ownerSlot m \<and> bl_ownerGeneration l = bl_ownerGeneration m))"

definition lock_sound :: "byte_lock \<Rightarrow> bool" where
  "lock_sound l \<longleftrightarrow> (if bl_used l then no_wrap (bl_offset l) (bl_length l) else l = no_lock)"

definition table_ok :: "lock_table \<Rightarrow> bool" where
  "table_ok t \<longleftrightarrow> length t = kByteRangeLockCount \<and> list_all lock_sound t \<and>
     (\<forall>i j. i < length t \<longrightarrow> j < length t \<longrightarrow> i \<noteq> j \<longrightarrow> compatible (t ! i) (t ! j))"

lemma compatible_sym: "compatible l m \<Longrightarrow> compatible m l"
  unfolding compatible_def by metis

lemma holds_no_lock [simp]: "\<not> holds no_lock n"
  by (simp add: holds_def no_lock_def)

lemma compatible_no_lock [simp]: "compatible no_lock m" "compatible l no_lock"
  by (simp_all add: compatible_def)

lemma sound_no_lock [simp]: "lock_sound no_lock"
  by (simp add: lock_sound_def no_lock_def)

lemma used_no_lock [simp]: "\<not> bl_used no_lock"
  by (simp add: no_lock_def)

lemma table_ok_empty: "table_ok no_locks"
  by (simp add: table_ok_def no_locks_def list_all_iff)

lemma table_ok_sound: "table_ok t \<Longrightarrow> i < length t \<Longrightarrow> lock_sound (t ! i)"
  by (simp add: table_ok_def list_all_length)

lemma table_ok_update:
  assumes "table_ok t" "lock_sound l" "\<And>j. j < length t \<Longrightarrow> compatible l (t ! j)"
  shows "table_ok (t[i := l])"
proof -
  have at: "t[i := l] ! j = (if i = j then l else t ! j)" if "j < length t" for j
    using that by (simp add: nth_list_update)
  show ?thesis using assms unfolding table_ok_def
    by (auto simp: list_all_length at compatible_sym)
qed

lemma table_ok_free: "table_ok t \<Longrightarrow> table_ok (t[i := no_lock])"
  by (rule table_ok_update) auto

lemma table_ok_frees: "table_ok t \<Longrightarrow> table_ok (fold (\<lambda>i u. u[i := no_lock]) is t)"
  by (induction "is" arbitrary: t) (auto intro: table_ok_free)

lemma table_ok_release: "table_ok t \<Longrightarrow> table_ok (releaseByteRangeLocksForHandle slot generation t)"
  by (auto simp: releaseByteRangeLocksForHandle_def table_ok_def list_all_length)

subsection \<open>The two tests, in terms of bytes\<close>

text \<open>The locks of the file that hold a byte of the range.\<close>

definition in_the_way :: "u64 \<Rightarrow> u64 \<Rightarrow> u64 \<Rightarrow> byte_lock \<Rightarrow> bool" where
  "in_the_way fileKey offset len l \<longleftrightarrow> bl_fileKey l = fileKey \<and> (\<exists>n \<in> lock_bytes offset len. holds l n)"

text \<open>Which of them refuse a lock, and which a read or a write.\<close>

definition refuses :: "smb_open \<Rightarrow> bool \<Rightarrow> byte_lock \<Rightarrow> bool" where
  "refuses h exclusive l \<longleftrightarrow> (if bl_exclusive l then \<not> same_open h l \<or> exclusive else exclusive)"

definition bars :: "smb_open \<Rightarrow> bool \<Rightarrow> byte_lock \<Rightarrow> bool" where
  "bars h writeAccess l \<longleftrightarrow> (if bl_exclusive l then \<not> same_open h l else writeAccess)"

lemma in_the_way_exact:
  assumes "no_wrap offset len" "len \<noteq> 0" "lock_sound l"
  shows "in_the_way fileKey offset len l \<longleftrightarrow>
    bl_used l \<and> bl_fileKey l = fileKey \<and> bl_length l \<noteq> 0 \<and> overlaps offset len l"
proof (cases "bl_used l \<and> bl_length l \<noteq> 0")
  case True
  then show ?thesis using overlaps_exact [OF assms(1,2), of l] assms(3)
    by (auto simp: in_the_way_def holds_def lock_sound_def)
next
  case False
  then show ?thesis by (auto simp: in_the_way_def holds_def)
qed

lemma conflict_loop_exact:
  "no_wrap offset len \<Longrightarrow> len \<noteq> 0 \<Longrightarrow> list_all lock_sound t \<Longrightarrow>
   conflict_loop h offset len exclusive t \<longleftrightarrow>
   (\<exists>l \<in> set t. in_the_way (so_fileKey h) offset len l \<and> refuses h exclusive l)"
proof (induction t)
  case (Cons l t)
  have "in_the_way (so_fileKey h) offset len l \<longleftrightarrow>
      bl_used l \<and> bl_fileKey l = so_fileKey h \<and> bl_length l \<noteq> 0 \<and> overlaps offset len l"
    using in_the_way_exact [OF Cons.prems(1,2)] Cons.prems(3) by simp
  then have "conflict_loop h offset len exclusive (l # t) \<longleftrightarrow>
      in_the_way (so_fileKey h) offset len l \<and> refuses h exclusive l \<or> conflict_loop h offset len exclusive t"
    by (auto simp: refuses_def)
  then show ?case using Cons.IH [OF Cons.prems(1,2)] Cons.prems(3) by simp
qed simp

lemma conflicts_exact:
  assumes "no_wrap offset len" "list_all lock_sound t"
  shows "lockRangeConflicts h offset len exclusive t \<longleftrightarrow>
    (\<exists>l \<in> set t. in_the_way (so_fileKey h) offset len l \<and> refuses h exclusive l)"
  using conflict_loop_exact [OF assms(1) _ assms(2)]
  by (auto simp: lockRangeConflicts_def in_the_way_def)

lemma io_loop_exact:
  "no_wrap offset len \<Longrightarrow> len \<noteq> 0 \<Longrightarrow> list_all lock_sound t \<Longrightarrow>
   io_loop h offset len writeAccess t \<longleftrightarrow>
   (\<exists>l \<in> set t. in_the_way (so_fileKey h) offset len l \<and> bars h writeAccess l)"
proof (induction t)
  case (Cons l t)
  have "in_the_way (so_fileKey h) offset len l \<longleftrightarrow>
      bl_used l \<and> bl_fileKey l = so_fileKey h \<and> bl_length l \<noteq> 0 \<and> overlaps offset len l"
    using in_the_way_exact [OF Cons.prems(1,2)] Cons.prems(3) by simp
  then have "io_loop h offset len writeAccess (l # t) \<longleftrightarrow>
      in_the_way (so_fileKey h) offset len l \<and> bars h writeAccess l \<or> io_loop h offset len writeAccess t"
    by (auto simp: bars_def)
  then show ?case using Cons.IH [OF Cons.prems(1,2)] Cons.prems(3) by simp
qed simp

lemma io_conflicts_exact:
  assumes "no_wrap offset len" "table_ok t"
  shows "fileIoConflictsWithLock (Some h) offset len writeAccess t \<longleftrightarrow>
    (\<exists>l \<in> set t. in_the_way (so_fileKey h) offset len l \<and> bars h writeAccess l)"
  using io_loop_exact [OF assms(1)] assms(2)
  by (auto simp: fileIoConflictsWithLock_def in_the_way_def table_ok_def)

lemma new_lock_fields [simp]:
  "bl_used (new_lock h e x)" "bl_exclusive (new_lock h e x) = x" "bl_fileKey (new_lock h e x) = so_fileKey h"
  "bl_offset (new_lock h e x) = le_offset e" "bl_length (new_lock h e x) = le_length e"
  "same_open h (new_lock h e x)"
  by (simp_all add: new_lock_def same_open_def)

lemma compatible_new_lock:
  assumes "list_all lock_sound t" "no_wrap (le_offset e) (le_length e)"
    and "\<not> lockRangeConflicts h (le_offset e) (le_length e) x t" "l \<in> set t"
  shows "compatible (new_lock h e x) l"
  unfolding compatible_def
proof (intro allI impI)
  fix n
  assume n: "holds (new_lock h e x) n \<and> holds l n \<and> bl_fileKey (new_lock h e x) = bl_fileKey l"
  then have "in_the_way (so_fileKey h) (le_offset e) (le_length e) l"
    by (auto simp: in_the_way_def holds_def)
  then have "\<not> (if bl_exclusive l then \<not> same_open h l \<or> x else x)"
    using assms conflicts_exact unfolding refuses_def by blast
  then show "\<not> (bl_exclusive (new_lock h e x) \<and> bl_exclusive l) \<and>
    (bl_exclusive (new_lock h e x) \<or> bl_exclusive l \<longrightarrow>
      bl_ownerSlot (new_lock h e x) = bl_ownerSlot l \<and>
      bl_ownerGeneration (new_lock h e x) = bl_ownerGeneration l)"
    by (auto simp: same_open_def new_lock_def split: if_splits)
qed

subsection \<open>Requests keep the invariant\<close>

lemma free_lock_some:
  "free_lock k t = Some i \<Longrightarrow> k \<le> i \<and> i - k < length t \<and> \<not> bl_used (t ! (i - k))"
proof (induction t arbitrary: k)
  case (Cons l t)
  then show ?case
    by (cases "bl_used l") (fastforce simp: nth_Cons' Suc_diff_le dest: Cons.IH)+
qed simp

lemma free_lock_sound:
  assumes "table_ok t" "free_lock 0 t = Some i"
  shows "i < length t" "t ! i = no_lock"
  using free_lock_some [OF assms(2)] table_ok_sound [OF assms(1), of i] by (auto simp: lock_sound_def)

text \<open>The step that puts a lock, and its check.\<close>

lemma lock_put_ok:
  assumes "table_ok t" "free_lock 0 t = Some i"
    "\<not> (le_length e \<noteq> 0 \<and> le_offset e + le_length e - 1 < le_offset e)"
    "\<not> lockRangeConflicts h (le_offset e) (le_length e) x t"
  shows "table_ok (t[i := new_lock h e x])"
proof (rule table_ok_update [OF assms(1)])
  have wrap: "no_wrap (le_offset e) (le_length e)"
    using assms(3) wrap_test [of "le_length e" "le_offset e"]
    by (cases "le_length e = 0") (auto simp: no_wrap_def less_imp_le [OF unat_u64])
  then show "lock_sound (new_lock h e x)" by (simp add: lock_sound_def)
  show "compatible (new_lock h e x) (t ! j)" if "j < length t" for j
    using compatible_new_lock [OF _ wrap assms(4)] that assms(1) by (simp add: table_ok_def)
qed

lemma table_ok_lock_loop:
  "table_ok t \<Longrightarrow> table_ok (snd (lock_loop h unlock n es added t))"
proof (induction h unlock n es added t rule: lock_loop.induct)
  case (2 h unlock n e es added t)
  then show ?case
    by (subst lock_loop.simps)
      (auto simp: table_ok_free table_ok_frees lock_put_ok split: option.splits)
qed simp

lemma table_ok_lockHandler: "table_ok t \<Longrightarrow> table_ok (snd (lockHandler handle directory locks t))"
  by (auto simp: lockHandler_def table_ok_lock_loop split: option.splits)

subsection \<open>What a refused request leaves, and what a granted one adds\<close>

text \<open>\<open>grown t0 is t\<close>: \<open>t\<close> is \<open>t0\<close> with locks put into free entries.\<close>

definition grown :: "lock_table \<Rightarrow> nat list \<Rightarrow> lock_table \<Rightarrow> bool" where
  "grown t0 is t \<longleftrightarrow> length t = length t0 \<and> (\<forall>i \<in> set is. i < length t0 \<and> t0 ! i = no_lock) \<and>
     (\<forall>i < length t0. i \<notin> set is \<longrightarrow> t ! i = t0 ! i)"

lemma grown_refl: "grown t [] t"
  by (simp add: grown_def)

lemma grown_put:
  "grown t0 is t \<Longrightarrow> i < length t \<Longrightarrow> t ! i = no_lock \<Longrightarrow> grown t0 (is @ [i]) (t[i := l])"
  by (auto simp: grown_def nth_list_update)

lemma length_frees [simp]: "length (fold (\<lambda>i u. u[i := no_lock]) is t) = length t"
  by (induction "is" arbitrary: t) auto

lemma nth_frees:
  "j < length t \<Longrightarrow> fold (\<lambda>i u. u[i := no_lock]) is t ! j = (if j \<in> set is then no_lock else t ! j)"
  by (induction "is" arbitrary: t) (auto simp: nth_list_update)

lemma grown_frees: "grown t0 is t \<Longrightarrow> fold (\<lambda>i u. u[i := no_lock]) is t = t0"
  by (auto simp: grown_def nth_frees intro: nth_equalityI)

lemma statuses [simp]:
  "STATUS_INVALID_PARAMETER \<noteq> STATUS_LOCK_NOT_GRANTED" "STATUS_RANGE_NOT_LOCKED \<noteq> STATUS_LOCK_NOT_GRANTED"
  "STATUS_INSUFFICIENT_RESOURCES \<noteq> STATUS_LOCK_NOT_GRANTED" "STATUS_FILE_CLOSED \<noteq> STATUS_LOCK_NOT_GRANTED"
  "status_ok \<noteq> STATUS_LOCK_NOT_GRANTED" "STATUS_INVALID_PARAMETER \<noteq> status_ok"
  "STATUS_INSUFFICIENT_RESOURCES \<noteq> status_ok" "STATUS_LOCK_NOT_GRANTED \<noteq> status_ok"
  "STATUS_RANGE_NOT_LOCKED \<noteq> status_ok" "STATUS_FILE_CLOSED \<noteq> status_ok"
  by (simp_all add: STATUS_INVALID_PARAMETER_def STATUS_LOCK_NOT_GRANTED_def STATUS_RANGE_NOT_LOCKED_def
      STATUS_INSUFFICIENT_RESOURCES_def STATUS_FILE_CLOSED_def status_ok_def)

lemma unlock_never_refused:
  "fst (lock_loop h True n es added t) \<noteq> STATUS_LOCK_NOT_GRANTED"
  by (induction es arbitrary: t) (auto split: option.splits)

lemma lock_loop_refused:
  "table_ok t \<Longrightarrow> grown t0 added t \<Longrightarrow> lock_loop h False n es added t = (STATUS_LOCK_NOT_GRANTED, t') \<Longrightarrow> t' = t0"
proof (induction es arbitrary: added t)
  case (Cons e es)
  show ?case
  proof (cases "(le_length e \<noteq> 0 \<and> le_offset e + le_length e - 1 < le_offset e) \<or> bad_flags n e")
    case True
    then show ?thesis using Cons.prems(3) by (auto split: if_splits)
  next
    case False
    show ?thesis
    proof (cases "lockRangeConflicts h (le_offset e) (le_length e) (wants_exclusive e) t")
      case True
      then show ?thesis using False Cons.prems grown_frees by (auto split: if_splits)
    next
      case free: False
      show ?thesis
      proof (cases "free_lock 0 t")
        case None
        then show ?thesis using False free Cons.prems by (auto split: if_splits)
      next
        case (Some i)
        note at = free_lock_sound [OF Cons.prems(1) Some]
        show ?thesis
          by (rule Cons.IH [OF lock_put_ok [OF Cons.prems(1) Some _ free] grown_put [OF Cons.prems(2) at]])
            (use Some free False Cons.prems(3) in \<open>auto split: if_splits\<close>)
      qed
    qed
  qed
qed auto

lemma lock_loop_granted:
  "table_ok t \<Longrightarrow> lock_loop h False n es added t = (status_ok, t') \<Longrightarrow>
   (\<forall>l \<in> set t. bl_used l \<longrightarrow> l \<in> set t') \<and> (\<forall>e \<in> set es. new_lock h e (wants_exclusive e) \<in> set t')"
proof (induction es arbitrary: added t)
  case (Cons e es)
  from Cons.prems(2) obtain i where step: "free_lock 0 t = Some i"
      "\<not> (le_length e \<noteq> 0 \<and> le_offset e + le_length e - 1 < le_offset e)"
      "\<not> lockRangeConflicts h (le_offset e) (le_length e) (wants_exclusive e) t"
      "lock_loop h False n es (added @ [i]) (t[i := new_lock h e (wants_exclusive e)]) = (status_ok, t')"
    by (auto split: if_splits option.splits)
  note at = free_lock_sound [OF Cons.prems(1) step(1)]
  note later = Cons.IH [OF lock_put_ok [OF Cons.prems(1) step(1,2,3)] step(4)]
  have "l \<in> set (t[i := new_lock h e (wants_exclusive e)])" if l: "l \<in> set t" "bl_used l" for l
  proof -
    obtain j where j: "j < length t" "t ! j = l" using l(1) by (auto simp: in_set_conv_nth)
    with at l(2) have "j \<noteq> i" by auto
    with j show ?thesis by (metis length_list_update nth_list_update_neq nth_mem)
  qed
  moreover have "new_lock h e (wants_exclusive e) \<in> set (t[i := new_lock h e (wants_exclusive e)])"
    by (rule set_update_memI [OF at(1)])
  ultimately show ?case using later by auto
qed simp

subsection \<open>Any sequence of requests and closes\<close>

datatype lock_event =
    LockRequest "smb_open option" bool "lock_element list option"
  | HandleClosed nat u32

fun lock_event_step :: "lock_event \<Rightarrow> lock_table \<Rightarrow> lock_table" where
  "lock_event_step (LockRequest handle directory locks) t = snd (lockHandler handle directory locks t)"
| "lock_event_step (HandleClosed slot generation) t = releaseByteRangeLocksForHandle slot generation t"

lemma table_ok_events: "table_ok t \<Longrightarrow> table_ok (fold lock_event_step es t)"
proof (induction es arbitrary: t)
  case (Cons e es)
  then show ?case by (cases e) (simp_all add: table_ok_lockHandler table_ok_release)
qed simp

lemma table_ok_pair:
  assumes "table_ok t" "i < length t" "j < length t" "i \<noteq> j"
    "holds (t ! i) n" "holds (t ! j) n" "bl_fileKey (t ! i) = bl_fileKey (t ! j)"
  shows "\<not> (bl_exclusive (t ! i) \<and> bl_exclusive (t ! j)) \<and>
    (bl_exclusive (t ! i) \<longrightarrow>
       bl_ownerSlot (t ! i) = bl_ownerSlot (t ! j) \<and> bl_ownerGeneration (t ! i) = bl_ownerGeneration (t ! j))"
  using assms unfolding table_ok_def compatible_def by blast

subsection \<open>Properties\<close>

text \<open>
  C3: After any sequence of lock and unlock requests, granted or refused, and of closed handles,
  starting with the empty table, no byte of a file is held by two exclusive locks, and where an
  exclusive and a shared lock hold the same byte both belong to the same open. The table keeps its
  32 entries.
\<close>

theorem locks_never_clash:
  assumes "t = fold lock_event_step events no_locks"
    and "i < length t" "j < length t" "i \<noteq> j"
    and "holds (t ! i) n" "holds (t ! j) n" "bl_fileKey (t ! i) = bl_fileKey (t ! j)"
  shows "length t = kByteRangeLockCount \<and> \<not> (bl_exclusive (t ! i) \<and> bl_exclusive (t ! j)) \<and>
    (bl_exclusive (t ! i) \<longrightarrow>
       bl_ownerSlot (t ! i) = bl_ownerSlot (t ! j) \<and> bl_ownerGeneration (t ! i) = bl_ownerGeneration (t ! j))"
proof -
  have "table_ok t" unfolding assms(1) by (rule table_ok_events [OF table_ok_empty])
  then show ?thesis using table_ok_pair [OF _ assms(2-7)] by (simp add: table_ok_def)
qed

text \<open>Two opens of one file and the elements of the witnesses.\<close>

definition open_a :: smb_open where "open_a = \<lparr>so_slot = 1, so_generation = 7, so_fileKey = 99\<rparr>"

definition open_b :: smb_open where "open_b = \<lparr>so_slot = 2, so_generation = 8, so_fileKey = 99\<rparr>"

definition shared_at :: "u64 \<Rightarrow> u64 \<Rightarrow> lock_element" where
  "shared_at offset len = \<lparr>le_offset = offset, le_length = len, le_flags = 0x11\<rparr>"

definition exclusive_at :: "u64 \<Rightarrow> u64 \<Rightarrow> lock_element" where
  "exclusive_at offset len = \<lparr>le_offset = offset, le_length = len, le_flags = 0x12\<rparr>"

theorem locks_never_clash_witness:
  "(let t = fold lock_event_step [LockRequest (Some open_a) False (Some [exclusive_at 0 100]),
       LockRequest (Some open_b) False (Some [shared_at 50 10]),
       LockRequest (Some open_a) False (Some [shared_at 90 20])] no_locks
    in holds (t ! 0) 95 \<and> holds (t ! 1) 95 \<and> bl_exclusive (t ! 0) \<and> bl_ownerSlot (t ! 1) = bl_ownerSlot (t ! 0))"
proof -
  define t where "t = fold lock_event_step [LockRequest (Some open_a) False (Some [exclusive_at 0 100]),
       LockRequest (Some open_b) False (Some [shared_at 50 10]),
       LockRequest (Some open_a) False (Some [shared_at 90 20])] no_locks"
  have "holds (t ! 0) 95 \<and> holds (t ! 1) 95 \<and> bl_exclusive (t ! 0) \<and> bl_fileKey (t ! 0) = bl_fileKey (t ! 1)
     \<and> length t = 32"
    unfolding t_def holds_def lock_bytes_def atLeastLessThan_iff by code_simp
  then show ?thesis using locks_never_clash [OF t_def, of 0 1 95] unfolding t_def [symmetric] by simp
qed

text \<open>
  C5: A lock request that is answered with STATUS_LOCK_NOT_GRANTED leaves the table as it was,
  however many of its elements had been granted before the conflict: the roll-back is exact.
\<close>

theorem refused_lock_undone:
  assumes "table_ok t" and "lockHandler handle directory locks t = (STATUS_LOCK_NOT_GRANTED, t')"
  shows "t' = t"
proof -
  from assms(2) obtain h es where req: "handle = Some h" "locks = Some es"
      "lock_loop h (le_flags (hd es) AND kLockFlagUnlock \<noteq> 0) (length es) es [] t = (STATUS_LOCK_NOT_GRANTED, t')"
    by (auto simp: lockHandler_def split: option.splits if_splits)
  with unlock_never_refused [of h "length es" es "[]" t]
  have "lock_loop h False (length es) es [] t = (STATUS_LOCK_NOT_GRANTED, t')"
    by (cases "le_flags (hd es) AND kLockFlagUnlock \<noteq> 0") auto
  then show ?thesis by (rule lock_loop_refused [OF assms(1) grown_refl])
qed

theorem refused_lock_undone_witness:
  "(let t = snd (lockHandler (Some open_a) False (Some [exclusive_at 200 1]) no_locks)
    in lockHandler (Some open_b) False (Some [shared_at 0 10, exclusive_at 20 10, shared_at 195 10]) t
         = (STATUS_LOCK_NOT_GRANTED, t) \<and> t \<noteq> no_locks)"
proof -
  define t where "t = snd (lockHandler (Some open_a) False (Some [exclusive_at 200 1]) no_locks)"
  have "table_ok t" unfolding t_def by (rule table_ok_lockHandler [OF table_ok_empty])
  moreover have "fst (lockHandler (Some open_b) False (Some [shared_at 0 10, exclusive_at 20 10, shared_at 195 10]) t)
      = STATUS_LOCK_NOT_GRANTED"
    unfolding t_def by code_simp
  moreover have "t \<noteq> no_locks" unfolding t_def by code_simp
  ultimately show ?thesis
    using refused_lock_undone unfolding t_def [symmetric] Let_def by (metis prod.collapse)
qed

text \<open>
  C4: Once a lock request is granted, every byte of every one of its elements is protected: a read
  or a write of another open of the file that touches such a byte conflicts if the element asked for
  an exclusive lock, and a write of any open, the owner included, conflicts if it asked for a
  shared one. Ranges are sets of byte positions, and no range of a read or write may wrap.
\<close>

theorem granted_lock_protects:
  assumes "table_ok t" and "lockHandler (Some h) directory (Some es) t = (status_ok, t')"
    and "le_flags (hd es) AND kLockFlagUnlock = 0"
    and "e \<in> set es" and "n \<in> lock_bytes (le_offset e) (le_length e)"
    and "so_fileKey h2 = so_fileKey h" and "no_wrap offset len" and "n \<in> lock_bytes offset len"
    and "if wants_exclusive e then so_generation h2 \<noteq> so_generation h \<or> (of_nat (so_slot h2) :: u16) \<noteq> of_nat (so_slot h)
         else writeAccess"
  shows "fileIoConflictsWithLock (Some h2) offset len writeAccess t'"
proof -
  have loop: "lock_loop h False (length es) es [] t = (status_ok, t')"
    using assms(2,3) by (auto simp: lockHandler_def split: if_splits)
  have "table_ok t'" using table_ok_lock_loop [OF assms(1), of h False "length es" es "[]"] loop by simp
  moreover have "new_lock h e (wants_exclusive e) \<in> set t'"
    using lock_loop_granted [OF assms(1) loop] assms(4) by blast
  moreover have "in_the_way (so_fileKey h2) offset len (new_lock h e (wants_exclusive e))"
    using assms(5,6,8) by (auto simp: in_the_way_def holds_def)
  moreover have "bars h2 writeAccess (new_lock h e (wants_exclusive e))"
    using assms(9) by (auto simp: bars_def same_open_def new_lock_def)
  ultimately show ?thesis using io_conflicts_exact [OF assms(7)] by blast
qed

theorem granted_lock_protects_witness:
  "(let t = snd (lockHandler (Some open_a) False (Some [exclusive_at 0 100, shared_at 500 1]) no_locks)
    in fileIoConflictsWithLock (Some open_b) 99 1 False t \<and> fileIoConflictsWithLock (Some open_a) 500 1 True t)"
proof -
  let ?es = "[exclusive_at 0 100, shared_at 500 1]"
  define t where "t = snd (lockHandler (Some open_a) False (Some ?es) no_locks)"
  have ok: "lockHandler (Some open_a) False (Some ?es) no_locks = (status_ok, t)"
    unfolding t_def by code_simp
  have no_unlock: "le_flags (hd ?es) AND kLockFlagUnlock = 0" by code_simp
  have "fileIoConflictsWithLock (Some open_b) 99 1 False t"
  proof (rule granted_lock_protects [OF table_ok_empty ok no_unlock, of "exclusive_at 0 100" 99])
    show "so_fileKey open_b = so_fileKey open_a" by code_simp
    show "if wants_exclusive (exclusive_at 0 100) then so_generation open_b \<noteq> so_generation open_a \<or>
        (of_nat (so_slot open_b) :: u16) \<noteq> of_nat (so_slot open_a) else False"
      by code_simp
  qed (simp_all add: no_wrap_def lock_bytes_def exclusive_at_def)
  moreover have "fileIoConflictsWithLock (Some open_a) 500 1 True t"
  proof (rule granted_lock_protects [OF table_ok_empty ok no_unlock, of "shared_at 500 1" 500])
    show "if wants_exclusive (shared_at 500 1) then so_generation open_a \<noteq> so_generation open_a \<or>
        (of_nat (so_slot open_a) :: u16) \<noteq> of_nat (so_slot open_a) else True"
      by code_simp
  qed (simp_all add: no_wrap_def lock_bytes_def shared_at_def)
  ultimately show ?thesis unfolding t_def [symmetric] Let_def by blast
qed

end
