(* ===== verification/SmbHandles.thy ===== *)
theory SmbHandles
  imports Protocol SmbLocks
begin

text \<open>
  The tables of the SMB server of \<open>src/smb_server.cpp\<close>: the clients, the tree connects and the
  open files with their ids. A context of libsmb2 is its address with what the library answers
  for it: the opaque value (the owner id the server gave it), the session and the current tree.
  An open keeps here the fields that say whose it is and how it must be closed; the fields of the
  transfer, the directory and the pipe belong to the operations that use them.
\<close>

definition kHandleCount :: nat where "kHandleCount = 8"

definition kTreeCount :: nat where "kTreeCount = 8"

definition kClientCount :: nat where "kClientCount = 8"

definition kFirstTreeId :: u32 where "kFirstTreeId = 0x5A580001"

definition kFileIdMagic :: u32 where "kFileIdMagic = 0x424D535A"

definition fd_size :: nat where "fd_size = 16"

record smb_context =
  cx_address :: nat
  cx_opaque :: u32
  cx_session :: u64
  cx_tree :: u32

record smb_handle =
  hd_used :: bool
  hd_owner :: "nat option"
  hd_ownerId :: u32
  hd_sessionId :: u64
  hd_treeId :: u32
  hd_directory :: bool
  hd_deletePending :: bool
  hd_failed :: bool
  hd_metadataDirty :: bool
  hd_generation :: u32
  hd_fileId :: bytes
  hd_path :: bytes
  hd_pattern :: bytes

definition no_handle :: smb_handle where
  "no_handle = \<lparr>hd_used = False, hd_owner = None, hd_ownerId = 0, hd_sessionId = 0, hd_treeId = 0,
     hd_directory = False, hd_deletePending = False, hd_failed = False, hd_metadataDirty = False, hd_generation = 0, hd_fileId = replicate fd_size 0,
     hd_path = [], hd_pattern = []\<rparr>"

record smb_tree =
  tr_used :: bool
  tr_ipc :: bool
  tr_id :: u32
  tr_owner :: "nat option"
  tr_ownerId :: u32
  tr_sessionId :: u64

definition no_tree :: smb_tree where
  "no_tree = \<lparr>tr_used = False, tr_ipc = False, tr_id = 0, tr_owner = None, tr_ownerId = 0, tr_sessionId = 0\<rparr>"

record smb_tables =
  st_handles :: "smb_handle list"
  st_trees :: "smb_tree list"
  st_clients :: "nat option list"
  st_locks :: lock_table
  st_nextTreeId :: u32
  st_generationCounter :: u32
  st_ownerIdCounter :: u32

text \<open>The parts other operations carry out, in the order they are called.\<close>

datatype smb_call =
    AbortDirectoryCacheBuild
  | CloseActive bool
  | CancelNotifiesForHandle "nat option" nat u32
  | RemovePath bytes
  | InvalidateParent bytes
  | ClearTransferProgress nat
  | ForgetActiveIf nat
  | ResetAsyncIo

subsection \<open>Owners and clients\<close>

definition contextOwnerId :: "smb_context option \<Rightarrow> u32" where
  "contextOwnerId c = (case c of None \<Rightarrow> 0 | Some cx \<Rightarrow> cx_opaque cx)"

definition contextSessionId :: "smb_context option \<Rightarrow> u64" where
  "contextSessionId c = (case c of None \<Rightarrow> 0 | Some cx \<Rightarrow> cx_session cx)"

text \<open>Counters that leave out zero, after the test the code makes.\<close>

definition next_nonzero :: "u32 \<Rightarrow> u32" where
  "next_nonzero w = (if w + 1 = 0 then 1 else w + 1)"

function owner_id_loop :: "u32 \<Rightarrow> u32 \<times> u32" where
  "owner_id_loop counter = (if counter = 0 then owner_id_loop 1 else (counter, next_nonzero counter))"
  by pat_completeness auto
termination
  by (relation "measure (\<lambda>c. if c = 0 then 1 else 0)") auto

declare owner_id_loop.simps [simp del]

definition allocateOwnerId :: "smb_tables \<Rightarrow> u32 \<times> smb_tables" where
  "allocateOwnerId s =
     (let (ownerId, counter) = owner_id_loop (st_ownerIdCounter s) in (ownerId, s\<lparr>st_ownerIdCounter := counter\<rparr>))"

fun find_slot :: "('a \<Rightarrow> bool) \<Rightarrow> nat \<Rightarrow> 'a list \<Rightarrow> nat option" where
  "find_slot p i [] = None"
| "find_slot p i (x # xs) = (if p x then Some i else find_slot p (Suc i) xs)"

definition addClient :: "nat option \<Rightarrow> smb_tables \<Rightarrow> bool \<times> smb_tables" where
  "addClient smb2 s =
     (case find_slot (\<lambda>c. c = smb2) 0 (st_clients s) of Some i \<Rightarrow> (True, s)
      | None \<Rightarrow>
          (case find_slot (\<lambda>c. c = None) 0 (st_clients s) of
             Some i \<Rightarrow> (True, s\<lparr>st_clients := (st_clients s)[i := smb2]\<rparr>)
           | None \<Rightarrow> (False, s)))"

definition forgetClient :: "nat option \<Rightarrow> smb_tables \<Rightarrow> smb_tables" where
  "forgetClient smb2 s = s\<lparr>st_clients := map (\<lambda>c. if c = smb2 then None else c) (st_clients s)\<rparr>"

definition knownClient :: "nat option \<Rightarrow> smb_tables \<Rightarrow> bool" where
  "knownClient smb2 s \<longleftrightarrow> smb2 \<noteq> None \<and> (\<exists>c \<in> set (st_clients s). c = smb2)"

definition clientCount :: "smb_tables \<Rightarrow> nat" where
  "clientCount s = length (filter (\<lambda>c. c \<noteq> None) (st_clients s))"

subsection \<open>Tree connects\<close>

definition findTree :: "u32 \<Rightarrow> smb_tables \<Rightarrow> smb_tree option" where
  "findTree treeId s = find (\<lambda>t. tr_used t \<and> tr_id t = treeId) (st_trees s)"

definition next_tree_id :: "u32 \<Rightarrow> u32" where
  "next_tree_id w = (if w + 1 = 0 then kFirstTreeId else w + 1)"

definition bad_tree_id :: "smb_tables \<Rightarrow> u32 \<Rightarrow> bool" where
  "bad_tree_id s treeId \<longleftrightarrow> treeId = 0 \<or> treeId = 0xDEADBEEF \<or> findTree treeId s \<noteq> None"

text \<open>The loop that draws an id, and whether it ends, is a partial function.\<close>

partial_function (option) tree_id_loop :: "smb_tables \<Rightarrow> u32 \<Rightarrow> (u32 \<times> u32) option" where
  "tree_id_loop s counter =
     (if bad_tree_id s counter then tree_id_loop s (next_tree_id counter)
      else Some (counter, next_tree_id counter))"

definition allocateTree :: "bool \<Rightarrow> smb_context option \<Rightarrow> smb_tables \<Rightarrow> (u32 \<times> smb_tables) option" where
  "allocateTree ipc owner s =
     (if owner = None \<or> contextOwnerId owner = 0 \<or> contextSessionId owner = 0 then Some (0, s)
      else case find_slot (\<lambda>t. \<not> tr_used t) 0 (st_trees s) of None \<Rightarrow> Some (0, s)
      | Some slot \<Rightarrow>
          (case tree_id_loop s (st_nextTreeId s) of None \<Rightarrow> None
           | Some (treeId, counter) \<Rightarrow>
               Some (treeId, s\<lparr>st_nextTreeId := counter,
                 st_trees := (st_trees s)[slot := \<lparr>tr_used = True, tr_ipc = ipc, tr_id = treeId,
                   tr_owner = map_option cx_address owner, tr_ownerId = contextOwnerId owner,
                   tr_sessionId = contextSessionId owner\<rparr>]\<rparr>)))"

definition releaseTree :: "u32 \<Rightarrow> smb_tables \<Rightarrow> smb_tables" where
  "releaseTree treeId s =
     (case find_slot (\<lambda>t. tr_used t \<and> tr_id t = treeId) 0 (st_trees s) of None \<Rightarrow> s
      | Some i \<Rightarrow> s\<lparr>st_trees := (st_trees s)[i := no_tree]\<rparr>)"

subsection \<open>Open files\<close>

definition file_id :: "u32 \<Rightarrow> nat \<Rightarrow> bytes" where
  "file_id generation index =
     writeLe32 kFileIdMagic @ writeLe32 generation @ writeLe32 (of_nat (index + 1)) @ writeLe32 (NOT generation)"

text \<open>The slot, or \<open>-1\<close>. The calls are those to other parts.\<close>

definition allocateHandle :: "smb_context option \<Rightarrow> u32 \<Rightarrow> u64 \<Rightarrow> smb_tables \<Rightarrow> int \<times> smb_call list \<times> smb_tables" where
  "allocateHandle owner treeId session0 s =
     (let ownerId = contextOwnerId owner;
          sessionId = (if session0 = 0 then contextSessionId owner else session0)
      in if owner = None \<or> ownerId = 0 \<or> treeId = 0 \<or> sessionId = 0 then (-1, [], s)
         else case find_slot (\<lambda>h. \<not> hd_used h) 0 (st_handles s) of None \<Rightarrow> (-1, [], s)
         | Some index \<Rightarrow>
             (let generation = st_generationCounter s;
                  h = no_handle\<lparr>hd_used := True, hd_owner := map_option cx_address owner, hd_ownerId := ownerId,
                    hd_sessionId := sessionId, hd_treeId := treeId, hd_generation := generation,
                    hd_fileId := file_id generation index, hd_pattern := [42]\<rparr>
              in (int index, [ClearTransferProgress index],
                  s\<lparr>st_handles := (st_handles s)[index := h], st_generationCounter := next_nonzero generation\<rparr>)))"

definition encoded_slot :: "bytes \<Rightarrow> nat option" where
  "encoded_slot fileId =
     (if readLe32 fileId = kFileIdMagic
      then (let encodedSlot = readLe32 (drop 8 fileId)
            in if encodedSlot \<ge> 1 \<and> encodedSlot \<le> of_nat kHandleCount then Some (unat (encodedSlot - 1)) else None)
      else None)"

definition findHandle :: "smb_context option \<Rightarrow> bytes option \<Rightarrow> smb_tables \<Rightarrow> nat option" where
  "findHandle owner fileId s =
     (case (owner, fileId) of
        (Some cx, Some fid) \<Rightarrow>
          if contextOwnerId owner = 0 \<or> contextSessionId owner = 0 then None
          else (case encoded_slot fid of None \<Rightarrow> None
          | Some found \<Rightarrow>
              (let h = st_handles s ! found
               in if \<not> hd_used h \<or> hd_owner h \<noteq> Some (cx_address cx) \<or> hd_ownerId h \<noteq> contextOwnerId owner \<or>
                     hd_sessionId h \<noteq> contextSessionId owner \<or> hd_treeId h \<noteq> cx_tree cx \<or>
                     hd_fileId h \<noteq> take fd_size fid
                  then None else Some found))
      | _ \<Rightarrow> None)"

text \<open>\<open>active\<close> is the slot of the physical file, \<open>build\<close> the slot and generation of the snapshot under
  construction.\<close>

definition releaseHandle :: "int \<Rightarrow> int \<times> u32 \<Rightarrow> int \<Rightarrow> smb_tables \<Rightarrow> smb_call list \<times> smb_tables" where
  "releaseHandle active build slot s =
     (if slot < 0 \<or> nat slot \<ge> kHandleCount then ([], s)
      else let i = nat slot; h = st_handles s ! i
      in ((if fst build = slot \<and> snd build = hd_generation h then [AbortDirectoryCacheBuild] else []) @
          (if active = slot then [CloseActive True] else []) @
          [CancelNotifiesForHandle (hd_owner h) i (hd_generation h), ClearTransferProgress i],
          s\<lparr>st_locks := releaseByteRangeLocksForHandle i (hd_generation h) (st_locks s),
            st_handles := (st_handles s)[i := no_handle]\<rparr>))"

definition belongsToOwner :: "smb_context option \<Rightarrow> u32 \<Rightarrow> u64 \<Rightarrow> nat option \<Rightarrow> u32 \<Rightarrow> u64 \<Rightarrow> bool" where
  "belongsToOwner owner detachedOwnerId sessionId resourceOwner resourceOwnerId resourceSessionId =
     (if sessionId \<noteq> 0 \<and> resourceSessionId \<noteq> sessionId then False
      else case owner of Some cx \<Rightarrow> resourceOwner = Some (cx_address cx) \<and> resourceOwnerId = contextOwnerId owner
      | None \<Rightarrow>
          if detachedOwnerId \<noteq> 0 then resourceOwner = None \<and> resourceOwnerId = detachedOwnerId
          else resourceOwner = None)"

definition release_client_handle :: "(smb_handle \<Rightarrow> bool) \<Rightarrow> nat \<Rightarrow> smb_call list \<times> smb_tables \<Rightarrow> smb_call list \<times> smb_tables" where
  "release_client_handle mine i cs =
     (let (calls, s) = cs; h = st_handles s ! i
      in if \<not> hd_used h \<or> \<not> mine h then cs
         else (calls @ (if hd_owner h \<noteq> None then [CancelNotifiesForHandle (hd_owner h) i (hd_generation h)] else []) @
                 (if hd_deletePending h \<and> hd_path h \<noteq> [47] then [RemovePath (hd_path h)]
                  else if hd_metadataDirty h then [InvalidateParent (hd_path h)] else []) @
                 [ClearTransferProgress i, ForgetActiveIf i],
               s\<lparr>st_locks := releaseByteRangeLocksForHandle i (hd_generation h) (st_locks s),
                 st_handles := (st_handles s)[i := no_handle]\<rparr>))"

text \<open>\<open>idle\<close>: all queues are empty and no operation is active.\<close>

definition releaseClientHandles ::
    "int \<Rightarrow> bool \<Rightarrow> smb_context option \<Rightarrow> u32 \<Rightarrow> u64 \<Rightarrow> smb_tables \<Rightarrow> smb_call list \<times> smb_tables" where
  "releaseClientHandles active idle owner detachedOwnerId sessionId s =
     (let belongs = belongsToOwner owner detachedOwnerId sessionId;
          mine = (\<lambda>h. belongs (hd_owner h) (hd_ownerId h) (hd_sessionId h));
          closes = (active \<ge> 0 \<and> nat active < kHandleCount \<and> hd_used (st_handles s ! nat active) \<and>
            mine (st_handles s ! nat active));
          (calls, s1) = fold (release_client_handle mine) [0..<kHandleCount]
            (if closes then [CloseActive True] else [], s);
          s2 = s1\<lparr>st_trees := map (\<lambda>t. if tr_used t \<and> belongs (tr_owner t) (tr_ownerId t) (tr_sessionId t)
            then no_tree else t) (st_trees s1)\<rparr>
      in (calls @ (if idle \<and> clientCount s2 = 0 then [ResetAsyncIo] else []), s2))"

text \<open>The part of \<open>cleanupClient\<close> that takes the address of a dying context out of the tables.\<close>

definition detach_owner :: "smb_context \<Rightarrow> smb_tables \<Rightarrow> smb_tables" where
  "detach_owner cx s =
     s\<lparr>st_handles := map (\<lambda>h. if hd_used h \<and> hd_owner h = Some (cx_address cx) \<and> hd_ownerId h = cx_opaque cx
         then h\<lparr>hd_owner := None\<rparr> else h) (st_handles s),
       st_trees := map (\<lambda>t. if tr_used t \<and> tr_owner t = Some (cx_address cx) \<and> tr_ownerId t = cx_opaque cx
         then t\<lparr>tr_owner := None\<rparr> else t) (st_trees s)\<rparr>"

subsection \<open>Searching a table\<close>

lemma find_slot_some:
  "find_slot p k xs = Some i \<Longrightarrow> k \<le> i \<and> i - k < length xs \<and> p (xs ! (i - k)) \<and> (\<forall>j < i - k. \<not> p (xs ! j))"
proof (induction xs arbitrary: k)
  case (Cons x xs)
  show ?case
  proof (cases "p x")
    case False
    with Cons.prems have "find_slot p (Suc k) xs = Some i" by simp
    note ih = Cons.IH [OF this]
    then obtain m where "i = Suc k + m" using le_Suc_ex by blast
    with ih False show ?thesis by (auto simp: nth_Cons' less_Suc_eq_0_disj)
  qed (use Cons.prems in auto)
qed simp

lemma find_slot_none: "find_slot p k xs = None \<longleftrightarrow> (\<forall>x \<in> set xs. \<not> p x)"
  by (induction xs arbitrary: k) auto

lemma find_slot0:
  assumes "find_slot p 0 xs = Some i"
  shows "i < length xs" "p (xs ! i)"
  using find_slot_some [OF assms] by auto

subsection \<open>The generation counter\<close>

lemma next_nonzero_pos: "g \<noteq> 0 \<Longrightarrow> next_nonzero g \<noteq> 0"
  by (simp add: next_nonzero_def)

lemma unat_next_nonzero:
  "g \<noteq> 0 \<Longrightarrow> unat (next_nonzero g) = (unat g) mod 4294967295 + 1"
proof -
  assume "g \<noteq> 0"
  then have b: "0 < unat g" "unat g < 4294967296" using unat_u32 by (auto simp: unat_gt_0)
  have w: "unat (g + 1) = (if unat g = 4294967295 then 0 else unat g + 1)"
    using b by (auto simp: unat_word_ariths mod_if)
  show ?thesis
  proof (cases "unat g = 4294967295")
    case True
    with w have "g + 1 = 0" by (simp add: unat_eq_zero)
    with True show ?thesis by (simp add: next_nonzero_def)
  next
    case False
    with w have "g + 1 \<noteq> 0" by (metis Suc_eq_plus1 nat.distinct(1) unat_0)
    with False w b show ?thesis by (simp add: next_nonzero_def)
  qed
qed

text \<open>The counter runs through the nonzero values in a circle.\<close>

lemma unat_iterate:
  assumes "g \<noteq> 0"
  shows "(next_nonzero ^^ n) g \<noteq> 0 \<and> unat ((next_nonzero ^^ n) g) = (unat g - 1 + n) mod 4294967295 + 1"
proof (induction n)
  case 0
  have "0 < unat g" "unat g < 4294967296" using assms unat_u32 by (auto simp: unat_gt_0)
  then show ?case using assms by simp
next
  case (Suc n)
  have "unat ((next_nonzero ^^ Suc n) g) = ((unat g - 1 + n) mod 4294967295 + 1) mod 4294967295 + 1"
    using Suc unat_next_nonzero by simp
  also have "\<dots> = (unat g - 1 + Suc n) mod 4294967295 + 1"
    by (simp add: mod_Suc_eq)
  finally show ?case using Suc by (simp add: next_nonzero_pos)
qed

lemma iterate_distinct:
  assumes "g \<noteq> 0" "i < j" "j < i + 4294967295"
  shows "(next_nonzero ^^ i) g \<noteq> (next_nonzero ^^ j) g"
proof
  assume "(next_nonzero ^^ i) g = (next_nonzero ^^ j) g"
  then have "(unat g - 1 + i) mod 4294967295 = (unat g - 1 + j) mod 4294967295"
    using unat_iterate [OF assms(1)] by (metis add_right_cancel)
  then have "(4294967295::nat) dvd (unat g - 1 + j) - (unat g - 1 + i)"
    using assms(2) by (metis mod_eq_dvd_iff_nat nat_add_left_cancel_le less_imp_le)
  then have "(4294967295::nat) dvd j - i" by simp
  then have "4294967295 \<le> j - i" using assms(2) by (intro dvd_imp_le) auto
  then show False using assms(3) by arith
qed

subsection \<open>File ids\<close>

lemma length_file_id [simp]: "length (file_id g i) = fd_size"
  by (simp add: file_id_def fd_size_def)

lemma file_id_parts:
  "readLe32 (file_id g i) = kFileIdMagic" "readLe32 (drop 8 (file_id g i)) = of_nat (i + 1)"
  by (simp_all add: file_id_def readLe32_writeLe32)

lemma file_id_inject: "file_id g i = file_id g' i' \<Longrightarrow> g = g' \<and> (of_nat (i + 1) :: u32) = of_nat (i' + 1)"
proof -
  assume h: "file_id g i = file_id g' i'"
  have "readLe32 (drop 4 (file_id g i)) = g" for g i
    by (simp add: file_id_def readLe32_writeLe32)
  then show ?thesis using h file_id_parts(2) by metis
qed

lemma encoded_slot_file_id: "i < kHandleCount \<Longrightarrow> encoded_slot (file_id g i) = Some i"
proof -
  assume i: "i < kHandleCount"
  have u: "unat (of_nat (i + 1) :: u32) = i + 1" using i by (intro unat_of_nat_u32) (simp add: kHandleCount_def)
  have "(of_nat (i + 1) :: u32) \<ge> 1" "(of_nat (i + 1) :: u32) \<le> of_nat kHandleCount"
    using u i by (simp_all add: word_le_nat_alt kHandleCount_def)
  moreover have "unat ((of_nat (i + 1) :: u32) - 1) = i"
    using u unat_sub [of 1 "of_nat (i + 1) :: u32"] \<open>(of_nat (i + 1) :: u32) \<ge> 1\<close> by simp
  ultimately show ?thesis by (simp add: encoded_slot_def file_id_parts del: of_nat_Suc)
qed

lemma encoded_slot_range: "encoded_slot fid = Some i \<Longrightarrow> i < kHandleCount"
proof -
  assume h: "encoded_slot fid = Some i"
  define e where "e = readLe32 (drop 8 fid)"
  from h have e: "1 \<le> e" "e \<le> of_nat kHandleCount" "i = unat (e - 1)"
    by (auto simp: encoded_slot_def Let_def e_def split: if_splits)
  have "unat e \<le> 8" using e(2) by (simp add: word_le_nat_alt kHandleCount_def)
  moreover have "unat (e - 1) = unat e - 1" using e(1) by (simp add: unat_sub)
  moreover have "0 < unat e" using e(1) by (simp add: word_le_nat_alt)
  ultimately show ?thesis using e(3) by (simp add: kHandleCount_def)
qed

subsection \<open>Any sequence of operations on the tables\<close>

datatype table_event =
    OpenEvent "smb_context option" u32 u64
  | CloseEvent int "int \<times> u32" int
  | ReleaseEvent int bool "smb_context option" u32 u64
  | DetachEvent smb_context
  | TreeReleased u32

fun table_step :: "table_event \<Rightarrow> smb_tables \<Rightarrow> smb_tables" where
  "table_step (OpenEvent owner treeId sessionId) s = snd (snd (allocateHandle owner treeId sessionId s))"
| "table_step (CloseEvent active build slot) s = snd (releaseHandle active build slot s)"
| "table_step (ReleaseEvent active idle owner detached sessionId) s =
     snd (releaseClientHandles active idle owner detached sessionId s)"
| "table_step (DetachEvent cx) s = detach_owner cx s"
| "table_step (TreeReleased treeId) s = releaseTree treeId s"

fun is_open :: "table_event \<Rightarrow> bool" where
  "is_open (OpenEvent owner treeId sessionId) = True"
| "is_open e = False"

definition opens :: "table_event list \<Rightarrow> nat" where
  "opens es = length (filter is_open es)"

text \<open>What one operation may do to the handle of a slot.\<close>

definition slot_step :: "nat \<Rightarrow> smb_tables \<Rightarrow> smb_tables \<Rightarrow> bool" where
  "slot_step i s t \<longleftrightarrow> length (st_handles t) = length (st_handles s) \<and>
     (st_generationCounter t = st_generationCounter s \<and>
        (hd_used (st_handles t ! i) \<longrightarrow> hd_used (st_handles s ! i) \<and>
           hd_fileId (st_handles t ! i) = hd_fileId (st_handles s ! i)) \<or>
      st_generationCounter t = next_nonzero (st_generationCounter s) \<and>
        (hd_used (st_handles t ! i) \<longrightarrow> hd_used (st_handles s ! i) \<and>
             hd_fileId (st_handles t ! i) = hd_fileId (st_handles s ! i) \<or>
           \<not> hd_used (st_handles s ! i) \<and>
             hd_fileId (st_handles t ! i) = file_id (st_generationCounter s) i))"

text \<open>Operations that only clear handles.\<close>

definition only_clears :: "nat \<Rightarrow> smb_tables \<Rightarrow> smb_tables \<Rightarrow> bool" where
  "only_clears i s t \<longleftrightarrow> length (st_handles t) = length (st_handles s) \<and>
     st_generationCounter t = st_generationCounter s \<and>
     (hd_used (st_handles t ! i) \<longrightarrow> hd_used (st_handles s ! i) \<and>
        hd_fileId (st_handles t ! i) = hd_fileId (st_handles s ! i))"

lemma only_clears_slot_step: "only_clears i s t \<Longrightarrow> slot_step i s t"
  by (auto simp: only_clears_def slot_step_def)

lemma only_clears_refl: "only_clears i s s"
  by (simp add: only_clears_def)

lemma only_clears_trans: "only_clears i s t \<Longrightarrow> only_clears i t u \<Longrightarrow> only_clears i s u"
  by (auto simp: only_clears_def)

lemma used_no_handle [simp]: "\<not> hd_used no_handle"
  by (simp add: no_handle_def)

lemma nth_update_any: "i < length xs \<Longrightarrow> xs[k := x] ! i = (if k = i then x else xs ! i)"
  by (cases "k = i") auto

lemma clears_releaseHandle:
  "i < length (st_handles s) \<Longrightarrow> only_clears i s (snd (releaseHandle active build slot s))"
  by (auto simp: releaseHandle_def only_clears_def Let_def nth_update_any split: if_splits)

lemma clears_release_client_handle:
  "i < length (st_handles s) \<Longrightarrow> only_clears i s (snd (release_client_handle mine k (calls, s)))"
  by (auto simp: release_client_handle_def only_clears_def Let_def nth_update_any split: if_splits)

lemma clears_release_fold:
  "i < length (st_handles (snd cs)) \<Longrightarrow> only_clears i (snd cs) (snd (fold (release_client_handle mine) ks cs))"
proof (induction ks arbitrary: cs)
  case (Cons k ks)
  have one: "only_clears i (snd cs) (snd (release_client_handle mine k cs))"
    using clears_release_client_handle [of i "snd cs" mine k "fst cs"] Cons.prems by simp
  then have "i < length (st_handles (snd (release_client_handle mine k cs)))"
    using Cons.prems by (simp add: only_clears_def)
  from only_clears_trans [OF one Cons.IH [OF this]] show ?case by simp
qed (simp add: only_clears_refl)

lemma clears_releaseClientHandles:
  assumes "i < length (st_handles s)"
  shows "only_clears i s (snd (releaseClientHandles active idle owner detached sessionId s))"
proof -
  define belongs where "belongs = belongsToOwner owner detached sessionId"
  define mine :: "smb_handle \<Rightarrow> bool" where "mine = (\<lambda>h. belongs (hd_owner h) (hd_ownerId h) (hd_sessionId h))"
  define closes where "closes = (active \<ge> 0 \<and> nat active < kHandleCount \<and> hd_used (st_handles s ! nat active) \<and>
            mine (st_handles s ! nat active))"
  define r where "r = fold (release_client_handle mine) [0..<kHandleCount] (if closes then [CloseActive True] else [], s)"
  have "only_clears i s (snd r)"
    using clears_release_fold [of i "(if closes then [CloseActive True] else [], s)"] assms by (simp add: r_def)
  moreover have "snd (releaseClientHandles active idle owner detached sessionId s) =
      (snd r)\<lparr>st_trees := map (\<lambda>t. if tr_used t \<and> belongs (tr_owner t) (tr_ownerId t) (tr_sessionId t)
            then no_tree else t) (st_trees (snd r))\<rparr>"
    by (simp add: releaseClientHandles_def Let_def r_def belongs_def mine_def closes_def split: prod.split)
  ultimately show ?thesis by (simp add: only_clears_def)
qed

lemma clears_detach: "i < length (st_handles s) \<Longrightarrow> only_clears i s (detach_owner cx s)"
  by (auto simp: detach_owner_def only_clears_def)

lemma slot_step_allocate:
  assumes "i < length (st_handles s)"
  shows "slot_step i s (snd (snd (allocateHandle owner treeId sessionId s)))"
proof (cases "find_slot (\<lambda>h. \<not> hd_used h) 0 (st_handles s)")
  case None
  then show ?thesis by (simp add: allocateHandle_def slot_step_def Let_def)
next
  case (Some k)
  from find_slot0 [OF this] Some assms show ?thesis
    by (auto simp: allocateHandle_def slot_step_def Let_def nth_list_update)
qed

lemma clears_releaseTree: "only_clears i s (releaseTree treeId s)"
  by (simp add: releaseTree_def only_clears_def split: option.split)

lemmas clears = clears_releaseHandle clears_releaseClientHandles clears_detach clears_releaseTree

lemma clears_table_step:
  "\<not> is_open e \<Longrightarrow> i < length (st_handles s) \<Longrightarrow> only_clears i s (table_step e s)"
  by (cases e) (simp_all add: clears)

lemma slot_step_table:
  assumes "i < length (st_handles s)"
  shows "slot_step i s (table_step e s)"
proof (cases "is_open e")
  case True
  then show ?thesis using slot_step_allocate [OF assms] by (cases e) auto
next
  case False
  then show ?thesis using assms by (intro only_clears_slot_step clears_table_step)
qed

text \<open>
  The handle of a slot after the open that was given the generation \<open>g\<close>: the counter has made \<open>j\<close>
  further steps, and what the slot holds has the id of this open or of a later one.
\<close>

definition follows :: "u32 \<Rightarrow> nat \<Rightarrow> bool \<Rightarrow> nat \<Rightarrow> smb_tables \<Rightarrow> bool" where
  "follows g i alive j s \<longleftrightarrow> i < length (st_handles s) \<and> st_generationCounter s = (next_nonzero ^^ Suc j) g \<and>
     (hd_used (st_handles s ! i) \<longrightarrow>
        alive \<and> hd_fileId (st_handles s ! i) = file_id g i \<or>
        (\<exists>m. 1 \<le> m \<and> m \<le> j \<and> hd_fileId (st_handles s ! i) = file_id ((next_nonzero ^^ m) g) i))"

lemma follows_step:
  assumes "follows g i alive j s"
  shows "\<exists>j'. j \<le> j' \<and> j' \<le> j + (if is_open e then 1 else 0) \<and> follows g i alive j' (table_step e s)"
proof -
  have i: "i < length (st_handles s)" using assms by (simp add: follows_def)
  show ?thesis
  proof (cases "is_open e")
    case False
    from clears_table_step [OF this i] assms False show ?thesis
      by (intro exI [of _ j]) (auto simp: follows_def only_clears_def)
  next
    case True
    note st = slot_step_table [OF i, of e]
    show ?thesis
    proof (cases "st_generationCounter (table_step e s) = st_generationCounter s")
      case same: True
      have "next_nonzero (st_generationCounter s) \<noteq> st_generationCounter s"
        by (auto simp: next_nonzero_def split: if_splits)
      with same st assms show ?thesis
        by (intro exI [of _ j]) (auto simp: follows_def slot_step_def)
    next
      case False
      with st have n: "st_generationCounter (table_step e s) = next_nonzero (st_generationCounter s)"
        by (auto simp: slot_step_def)
      have "follows g i alive (Suc j) (table_step e s)"
        using st assms n False unfolding follows_def slot_step_def
        by (auto intro: exI [of _ "Suc j"] le_SucI)
      with True show ?thesis by (intro exI [of _ "Suc j"]) simp
    qed
  qed
qed

lemma follows_steps:
  "follows g i alive j s \<Longrightarrow> \<exists>j'. j \<le> j' \<and> j' \<le> j + opens es \<and> follows g i alive j' (fold table_step es s)"
proof (induction es arbitrary: j s)
  case Nil
  then show ?case by (auto simp: opens_def)
next
  case (Cons e es)
  from follows_step [OF Cons.prems, of e] obtain k
    where k: "j \<le> k" "k \<le> j + (if is_open e then 1 else 0)" "follows g i alive k (table_step e s)" by blast
  from Cons.IH [OF k(3)] obtain j' where "k \<le> j'" "j' \<le> k + opens es" "follows g i alive j' (fold table_step es (table_step e s))"
    by blast
  with k show ?case by (intro exI [of _ j']) (auto simp: opens_def split: if_splits)
qed

lemma allocate_follows:
  assumes "allocateHandle owner treeId sessionId s = (int i, calls, s1)"
  shows "i < length (st_handles s1) \<and> hd_used (st_handles s1 ! i) \<and>
    hd_fileId (st_handles s1 ! i) = file_id (st_generationCounter s) i \<and>
    follows (st_generationCounter s) i True 0 s1"
proof -
  from assms obtain k where k: "find_slot (\<lambda>h. \<not> hd_used h) 0 (st_handles s) = Some k"
    by (auto simp: allocateHandle_def Let_def split: if_splits option.splits)
  from find_slot0 [OF k] have "k < length (st_handles s)" by simp
  with k assms show ?thesis
    by (auto simp: allocateHandle_def Let_def follows_def split: if_splits)
qed

lemma found_handle:
  assumes "findHandle c (Some fid) s = Some k"
  shows "encoded_slot fid = Some k \<and> hd_used (st_handles s ! k) \<and> hd_fileId (st_handles s ! k) = take fd_size fid \<and>
    (\<exists>cx. c = Some cx \<and> hd_owner (st_handles s ! k) = Some (cx_address cx) \<and>
       hd_ownerId (st_handles s ! k) = cx_opaque cx \<and> hd_sessionId (st_handles s ! k) = cx_session cx \<and>
       hd_treeId (st_handles s ! k) = cx_tree cx)"
  using assms by (auto simp: findHandle_def contextOwnerId_def contextSessionId_def Let_def
      split: option.splits if_splits)

lemma later_id_differs:
  assumes "g \<noteq> 0" "1 \<le> m" "m < 4294967295"
  shows "file_id ((next_nonzero ^^ m) g) i \<noteq> file_id g i"
proof
  assume "file_id ((next_nonzero ^^ m) g) i = file_id g i"
  from conjunct1 [OF file_id_inject [OF this]] have "(next_nonzero ^^ 0) g = (next_nonzero ^^ m) g" by simp
  with iterate_distinct [OF assms(1), of 0 m] assms(2,3) show False by simp
qed

text \<open>
  C6: A file id names its open and nothing else. Take the id an open was given, and any sequence of
  opens, closes, clean-ups of clients and releases of trees after it, with fewer than 2^32 - 2
  opens. Whatever context then presents the id, it finds at most the slot of that open, only if the
  owner, session and current tree of the context are those of the handle; and if that slot was free
  at any moment in between, so that the open is closed, the id finds nothing, even though the slot
  may hold another file by now.
\<close>

theorem stale_file_id_dead:
  assumes "allocateHandle owner treeId sessionId s = (int i, calls, s1)" and "i < kHandleCount"
    and "st_generationCounter s \<noteq> 0" and "opens es1 + opens es2 < 4294967294"
    and "s2 = fold table_step es1 s1" and "s3 = fold table_step es2 s2"
    and "fid = hd_fileId (st_handles s1 ! i)"
  shows "(findHandle c (Some fid) s3 = Some k \<longrightarrow>
            k = i \<and> hd_fileId (st_handles s3 ! i) = fid \<and>
            (\<exists>cx. c = Some cx \<and> hd_owner (st_handles s3 ! i) = Some (cx_address cx) \<and>
               hd_ownerId (st_handles s3 ! i) = cx_opaque cx \<and> hd_sessionId (st_handles s3 ! i) = cx_session cx \<and>
               hd_treeId (st_handles s3 ! i) = cx_tree cx)) \<and>
    (\<not> hd_used (st_handles s2 ! i) \<longrightarrow> findHandle c (Some fid) s3 = None)"
proof -
  define g where "g = st_generationCounter s"
  have fid: "fid = file_id g i" and f1: "follows g i True 0 s1"
    using allocate_follows [OF assms(1)] assms(7) by (simp_all add: g_def)
  have slot: "findHandle c (Some fid) s3 = Some k \<Longrightarrow> k = i" for k
    using found_handle [of c fid s3 k] encoded_slot_file_id [OF assms(2)] fid by simp
  have part1: "findHandle c (Some fid) s3 = Some k \<Longrightarrow> hd_fileId (st_handles s3 ! i) = fid" for k
    using found_handle [of c fid s3 k] slot [of k] fid by simp
  have "findHandle c (Some fid) s3 = None" if dead: "\<not> hd_used (st_handles s2 ! i)"
  proof (rule ccontr)
    assume "findHandle c (Some fid) s3 \<noteq> None"
    then obtain k where k: "findHandle c (Some fid) s3 = Some k" by blast
    with slot found_handle have used: "hd_used (st_handles s3 ! i)" by blast
    from follows_steps [OF f1, of es1] obtain j where j: "j \<le> opens es1" "follows g i True j s2"
      using assms(5) by auto
    from j(2) dead have "follows g i False j s2" by (simp add: follows_def)
    from follows_steps [OF this, of es2] obtain j' where j': "j' \<le> j + opens es2" "follows g i False j' s3"
      using assms(6) by auto
    with used obtain m where m: "1 \<le> m" "m \<le> j'" "hd_fileId (st_handles s3 ! i) = file_id ((next_nonzero ^^ m) g) i"
      by (auto simp: follows_def)
    from m j j' assms(4) have "m < 4294967295" by arith
    have "g \<noteq> 0" using assms(3) by (simp add: g_def)
    from later_id_differs [OF this m(1) \<open>m < 4294967295\<close>, of i] m(3) part1 [OF k] fid show False by simp
  qed
  with slot part1 found_handle show ?thesis by blast
qed

text \<open>A server with free tables, for the witnesses.\<close>

definition empty_tables :: smb_tables where
  "empty_tables = \<lparr>st_handles = replicate 8 no_handle, st_trees = replicate 8 no_tree, st_clients = replicate 8 None,
     st_locks = no_locks, st_nextTreeId = kFirstTreeId, st_generationCounter = 0xFFFFFFFF, st_ownerIdCounter = 1\<rparr>"

definition client_a :: smb_context where
  "client_a = \<lparr>cx_address = 4096, cx_opaque = 5, cx_session = 77, cx_tree = 3\<rparr>"

theorem stale_file_id_dead_witness:
  "(let s1 = snd (snd (allocateHandle (Some client_a) 3 0 empty_tables)); fid = hd_fileId (st_handles s1 ! 0);
        s3 = fold table_step [CloseEvent (-1) (-1, 0) 0, OpenEvent (Some client_a) 3 0] s1
    in findHandle (Some client_a) (Some fid) s1 = Some 0 \<and> hd_used (st_handles s3 ! 0) \<and>
       findHandle (Some client_a) (Some fid) s3 = None)"
proof -
  define r where "r = allocateHandle (Some client_a) 3 0 empty_tables"
  define s1 where "s1 = snd (snd r)"
  have i: "fst r = int 0" unfolding r_def by code_simp
  then have r: "allocateHandle (Some client_a) 3 0 empty_tables = (int 0, fst (snd r), s1)"
    unfolding s1_def r_def [symmetric] by (metis prod.collapse)
  have closed: "\<not> hd_used (st_handles (fold table_step [CloseEvent (-1) (-1, 0) 0] s1) ! 0)"
    unfolding s1_def r_def by code_simp
  have "findHandle (Some client_a) (Some (hd_fileId (st_handles s1 ! 0)))
      (fold table_step [OpenEvent (Some client_a) 3 0] (fold table_step [CloseEvent (-1) (-1, 0) 0] s1)) = None"
    using stale_file_id_dead [OF r _ _ _ refl refl refl, of "[CloseEvent (-1) (-1, 0) 0]" "[OpenEvent (Some client_a) 3 0]"]
      closed by (simp add: kHandleCount_def empty_tables_def opens_def)
  moreover have "findHandle (Some client_a) (Some (hd_fileId (st_handles s1 ! 0))) s1 = Some 0"
    unfolding s1_def r_def by code_simp
  moreover have "hd_used (st_handles (fold table_step [CloseEvent (-1) (-1, 0) 0, OpenEvent (Some client_a) 3 0] s1) ! 0)"
    unfolding s1_def r_def by code_simp
  ultimately show ?thesis unfolding s1_def r_def Let_def by simp
qed

subsection \<open>Tree ids\<close>

definition tree_ids :: "smb_tables \<Rightarrow> u32 set" where
  "tree_ids s = tr_id ` {t \<in> set (st_trees s). tr_used t}"

lemma find_tree_none: "findTree treeId s = None \<longleftrightarrow> treeId \<notin> tree_ids s"
  by (auto simp: findTree_def tree_ids_def find_None_iff)

lemma bad_tree_id_iff: "bad_tree_id s w \<longleftrightarrow> w \<in> {0, 0xDEADBEEF} \<union> tree_ids s"
  by (auto simp: bad_tree_id_def find_tree_none)

lemma tree_id_found:
  "\<not> bad_tree_id s ((next_tree_id ^^ n) counter) \<Longrightarrow>
   \<exists>treeId counter'. tree_id_loop s counter = Some (treeId, counter') \<and> \<not> bad_tree_id s treeId"
proof (induction n arbitrary: counter)
  case 0
  then show ?case by (subst tree_id_loop.simps) simp
next
  case (Suc n)
  from Suc.prems have "\<not> bad_tree_id s ((next_tree_id ^^ n) (next_tree_id counter))" by (simp add: funpow_Suc_right del: funpow.simps)
  from Suc.IH [OF this] show ?case by (subst tree_id_loop.simps) auto
qed

text \<open>Eleven steps of the counter never meet a value twice, whether it wraps on the way or not.\<close>

lemma unat_next_tree_id:
  "unat (next_tree_id w) = (if unat w = 4294967295 then 0x5A580001 else unat w + 1)"
proof -
  have w: "unat (w + 1) = (if unat w = 4294967295 then 0 else unat w + 1)"
    using unat_u32 [of w] by (auto simp: unat_word_ariths mod_if)
  show ?thesis
  proof (cases "unat w = 4294967295")
    case True
    with w have "w + 1 = 0" by (simp add: unat_eq_zero)
    with True show ?thesis by (simp add: next_tree_id_def kFirstTreeId_def)
  next
    case False
    with w have "w + 1 \<noteq> 0" by (metis Suc_eq_plus1 nat.distinct(1) unat_0)
    with False w show ?thesis by (simp add: next_tree_id_def)
  qed
qed

lemma tree_id_steps:
  "n \<le> 10 \<Longrightarrow> unat ((next_tree_id ^^ n) w) =
     (if unat w + n \<le> 4294967295 then unat w + n else 0x5A580001 + (unat w + n - 4294967296))"
  using unat_u32 [of w] by (induction n) (auto simp: unat_next_tree_id)

lemma tree_id_steps_inj: "inj_on (\<lambda>n. (next_tree_id ^^ n) w) {0..<11}"
proof (rule inj_onI)
  fix m n :: nat
  assume "m \<in> {0..<11}" "n \<in> {0..<11}" and eq: "(next_tree_id ^^ m) w = (next_tree_id ^^ n) w"
  then have mn: "m \<le> 10" "n \<le> 10" by auto
  from arg_cong [OF eq, of unat] show "m = n"
    using tree_id_steps [OF mn(1), of w] tree_id_steps [OF mn(2), of w] mn unat_u32 [of w] by (auto split: if_splits)
qed

lemma tree_id_exists:
  assumes "length (st_trees s) = kTreeCount"
  shows "\<exists>n. \<not> bad_tree_id s ((next_tree_id ^^ n) w)"
proof (rule ccontr)
  let ?seq = "(\<lambda>n. (next_tree_id ^^ n) w) ` {0..<11}"
  let ?bad = "{0, 0xDEADBEEF} \<union> tree_ids s"
  assume "\<not> ?thesis"
  then have "?seq \<subseteq> ?bad" by (auto simp: bad_tree_id_iff)
  moreover have fin: "finite (tree_ids s)" by (simp add: tree_ids_def)
  ultimately have "card ?seq \<le> card ?bad" by (intro card_mono) auto
  moreover have "card ?seq = 11" using card_image [OF tree_id_steps_inj] by simp
  moreover have "card (tree_ids s) \<le> length (st_trees s)"
    unfolding tree_ids_def by (rule le_trans [OF card_image_le le_trans [OF card_mono card_length]]) auto
  moreover have "card ?bad \<le> 2 + card (tree_ids s)"
    by (rule le_trans [OF card_Un_le]) (auto intro: card_insert_le_m1)
  ultimately show False using assms by (simp add: kTreeCount_def)
qed

text \<open>
  C8: A tree connect always gets an answer: the loop that draws an id ends for every state of the
  counter, and a new id is neither zero nor 0xDEADBEEF nor the id of a tree in use, whatever values
  the counter wraps over. With no free entry, or a context without owner or session, the answer is
  zero and nothing changes.
\<close>

theorem tree_id_unique:
  assumes "length (st_trees s) = kTreeCount"
  shows "\<exists>treeId t. allocateTree ipc owner s = Some (treeId, t) \<and> length (st_trees t) = kTreeCount \<and>
    (if owner = None \<or> contextOwnerId owner = 0 \<or> contextSessionId owner = 0 \<or> (\<forall>x \<in> set (st_trees s). tr_used x)
     then treeId = 0 \<and> t = s
     else treeId \<noteq> 0 \<and> treeId \<noteq> 0xDEADBEEF \<and> treeId \<notin> tree_ids s \<and> tree_ids t = insert treeId (tree_ids s))"
proof (cases "owner = None \<or> contextOwnerId owner = 0 \<or> contextSessionId owner = 0 \<or> (\<forall>x \<in> set (st_trees s). tr_used x)")
  case True
  then have "find_slot (\<lambda>t. \<not> tr_used t) 0 (st_trees s) = None" if "\<not> (owner = None \<or> contextOwnerId owner = 0 \<or> contextSessionId owner = 0)"
    using that by (auto simp: find_slot_none)
  with True assms show ?thesis by (auto simp: allocateTree_def)
next
  case False
  then obtain i where i: "find_slot (\<lambda>t. \<not> tr_used t) 0 (st_trees s) = Some i"
    using find_slot_none by (metis not_None_eq)
  note at = find_slot0 [OF i]
  obtain treeId counter where id: "tree_id_loop s (st_nextTreeId s) = Some (treeId, counter)" "\<not> bad_tree_id s treeId"
    using tree_id_exists [OF assms] tree_id_found by blast
  define x where "x = \<lparr>tr_used = True, tr_ipc = ipc, tr_id = treeId, tr_owner = map_option cx_address owner,
     tr_ownerId = contextOwnerId owner, tr_sessionId = contextSessionId owner\<rparr>"
  define rest where "rest = {st_trees s ! j | j. j < length (st_trees s) \<and> j \<noteq> i}"
  have "set ((st_trees s)[i := x]) = insert x rest"
    using at(1) unfolding rest_def by (auto simp: set_conv_nth nth_list_update)
  then have "{t \<in> set ((st_trees s)[i := x]). tr_used t} = insert x {t \<in> rest. tr_used t}"
    by (auto simp: x_def)
  moreover have "{t \<in> set (st_trees s). tr_used t} = {t \<in> rest. tr_used t}"
    using at(2) unfolding rest_def by (auto simp: set_conv_nth)
  ultimately have ids: "tr_id ` {t \<in> set ((st_trees s)[i := x]). tr_used t} = insert treeId (tree_ids s)"
    unfolding tree_ids_def by (simp add: x_def)
  have "allocateTree ipc owner s = Some (treeId, s\<lparr>st_nextTreeId := counter, st_trees := (st_trees s)[i := x]\<rparr>)"
    using False i id(1) by (auto simp: allocateTree_def x_def)
  with False ids id(2) assms show ?thesis unfolding bad_tree_id_iff by (simp add: tree_ids_def)
qed

theorem tree_id_unique_witness:
  "\<exists>treeId t. allocateTree False (Some client_a) empty_tables = Some (treeId, t) \<and> treeId \<noteq> 0 \<and> tree_ids t = {treeId}"
proof -
  have "tree_ids empty_tables = {}" by (auto simp: tree_ids_def empty_tables_def no_tree_def)
  with tree_id_unique [of empty_tables False "Some client_a"] show ?thesis
    by (auto simp: empty_tables_def kTreeCount_def contextOwnerId_def contextSessionId_def client_a_def no_tree_def)
qed

subsection \<open>What is left of a client\<close>







end
