(* ===== verification/SmbProgress.thy ===== *)
theory SmbProgress
  imports Prelude
begin

text \<open>
  How far a transfer has come, from \<open>src/smb_server.cpp\<close>: the union of the ranges an open has read or
  written, kept as a sorted array of ranges that do not touch, and the number of bytes in it. A client may
  send its requests in any order and repeat them. The array is the list of its first
  \<open>progressRangeCount\<close> entries together with its capacity; whether the heap has room for an array of
  that many bytes is a parameter.
\<close>

type_synonym range = "u32 \<times> u32"

datatype transfer_mode = ModeNone | ModeRead | ModeWrite

record transfer =
  tp_mode :: transfer_mode
  tp_bytes :: u32
  tp_ranges :: "range list"
  tp_capacity :: nat

definition SIZE_MAX :: nat where "SIZE_MAX = 4294967295"

definition range_bytes :: nat where "range_bytes = 8"

definition no_transfer :: transfer where
  "no_transfer = \<lparr>tp_mode = ModeNone, tp_bytes = 0, tp_ranges = [], tp_capacity = 0\<rparr>"

definition clearTransferProgress :: "bool \<Rightarrow> transfer \<Rightarrow> transfer" where
  "clearTransferProgress releaseMemory h =
     (let h1 = h\<lparr>tp_mode := ModeNone, tp_bytes := 0, tp_ranges := []\<rparr>
      in if \<not> releaseMemory then h1 else h1\<lparr>tp_capacity := 0\<rparr>)"

text \<open>The ranges that meet the new one, merged with it; the rest of the array stays.\<close>

fun merge_loop :: "u32 \<Rightarrow> u32 \<Rightarrow> u64 \<Rightarrow> range list \<Rightarrow> u32 \<times> u32 \<times> u64 \<times> range list" where
  "merge_loop mergedStart mergedEnd removedBytes [] = (mergedStart, mergedEnd, removedBytes, [])"
| "merge_loop mergedStart mergedEnd removedBytes (r # after) =
     (if fst r \<le> mergedEnd
      then merge_loop (if fst r < mergedStart then fst r else mergedStart) (if snd r > mergedEnd then snd r else mergedEnd)
             (removedBytes + ucast (snd r - fst r)) after
      else (mergedStart, mergedEnd, removedBytes, r # after))"

function grow_capacity :: "nat \<Rightarrow> nat \<Rightarrow> nat" where
  "grow_capacity required capacity =
     (if 0 < capacity \<and> capacity < required \<and> capacity \<le> SIZE_MAX div 2 then grow_capacity required (capacity * 2) else capacity)"
  by pat_completeness auto
termination
  by (relation "measure (\<lambda>(r, c). r - c)") auto

declare grow_capacity.simps [simp del]

definition new_capacity :: "nat \<Rightarrow> nat \<Rightarrow> nat" where
  "new_capacity required capacity = grow_capacity required (if capacity = 0 then 8 else capacity)"

text \<open>\<open>alloc n\<close>: one of the two calls of \<open>heap_caps_malloc\<close> for \<open>n\<close> bytes returns a block.\<close>

definition noteTransferProgress ::
    "(nat \<Rightarrow> bool) \<Rightarrow> transfer_mode \<Rightarrow> u32 \<Rightarrow> u32 \<Rightarrow> transfer \<Rightarrow> bool \<times> transfer" where
  "noteTransferProgress alloc mode offset len h0 =
     (if len = 0 \<or> mode = ModeNone \<or> offset > 0xFFFFFFFF - len then (len = 0, h0)
      else let h = (if tp_mode h0 \<noteq> mode then (clearTransferProgress False h0)\<lparr>tp_mode := mode\<rparr> else h0);
               before = takeWhile (\<lambda>r. snd r < offset) (tp_ranges h);
               (mergedStart, mergedEnd, removedBytes, after) =
                 merge_loop offset (offset + len) 0 (drop (length before) (tp_ranges h));
               required = length before + 1 + length after;
               capacity = new_capacity required (tp_capacity h)
           in if required > tp_capacity h \<and>
                 (capacity < required \<or> capacity > SIZE_MAX div range_bytes \<or> \<not> alloc (capacity * range_bytes))
              then (False, h)
              else let covered = ucast (tp_bytes h) - removedBytes + ucast (mergedEnd - mergedStart) :: u64
                   in (True, h\<lparr>tp_ranges := before @ (mergedStart, mergedEnd) # after,
                        tp_capacity := (if required > tp_capacity h then capacity else tp_capacity h),
                        tp_bytes := (if covered > 0xFFFFFFFF then 0xFFFFFFFF else ucast covered)\<rparr>))"

fun clip_loop :: "u32 \<Rightarrow> range list \<Rightarrow> u64 \<Rightarrow> range list \<times> u64" where
  "clip_loop len [] covered = ([], covered)"
| "clip_loop len (r # rs) covered =
     (if fst r \<ge> len then ([], covered)
      else let current = (if snd r > len then (fst r, len) else r);
               (kept, all) = clip_loop len rs (covered + ucast (snd current - fst current))
           in (current # kept, all))"

definition clipTransferProgress :: "u32 \<Rightarrow> transfer \<Rightarrow> transfer" where
  "clipTransferProgress len h =
     (let (kept, covered) = clip_loop len (tp_ranges h) 0
      in h\<lparr>tp_ranges := kept, tp_bytes := (if covered > 0xFFFFFFFF then 0xFFFFFFFF else ucast covered)\<rparr>)"

subsection \<open>The ranges as a set of byte positions\<close>

definition range_set :: "range \<Rightarrow> nat set" where
  "range_set r = {unat (fst r) ..< unat (snd r)}"

definition covered_set :: "range list \<Rightarrow> nat set" where
  "covered_set rs = (\<Union>r \<in> set rs. range_set r)"

definition covered_size :: "range list \<Rightarrow> nat" where
  "covered_size rs = (\<Sum>r\<leftarrow>rs. unat (snd r) - unat (fst r))"

text \<open>Sorted, none empty, and a gap between neighbours.\<close>

fun separated :: "range list \<Rightarrow> bool" where
  "separated [] = True"
| "separated (r # rs) \<longleftrightarrow> fst r < snd r \<and> (\<forall>q \<in> set rs. snd r < fst q) \<and> separated rs"

lemma separated_append:
  "separated (rs @ qs) \<longleftrightarrow> separated rs \<and> separated qs \<and> (\<forall>r \<in> set rs. \<forall>q \<in> set qs. snd r < fst q)"
  by (induction rs) auto

lemma separated_nonempty: "separated rs \<Longrightarrow> r \<in> set rs \<Longrightarrow> fst r < snd r"
  by (induction rs) auto

lemma covered_set_simps [simp]:
  "covered_set [] = {}" "covered_set (r # rs) = range_set r \<union> covered_set rs"
  "covered_set (rs @ qs) = covered_set rs \<union> covered_set qs"
  by (auto simp: covered_set_def)

lemma covered_size_simps [simp]:
  "covered_size [] = 0" "covered_size (r # rs) = unat (snd r) - unat (fst r) + covered_size rs"
  "covered_size (rs @ qs) = covered_size rs + covered_size qs"
  by (simp_all add: covered_size_def)

lemma finite_covered [simp]: "finite (covered_set rs)"
  by (simp add: covered_set_def range_set_def)

lemma card_covered: "separated rs \<Longrightarrow> card (covered_set rs) = covered_size rs"
proof (induction rs)
  case (Cons r rs)
  have "range_set r \<inter> covered_set rs = {}"
    using Cons.prems by (auto simp: covered_set_def range_set_def word_less_nat_alt)
  then have "card (covered_set (r # rs)) = card (range_set r) + card (covered_set rs)"
    by (simp add: card_Un_disjoint range_set_def)
  then show ?case using Cons by (simp add: range_set_def)
qed simp

lemma covered_below: "covered_set rs \<subseteq> {..< 4294967295}"
proof
  fix n
  assume "n \<in> covered_set rs"
  then obtain r where "n \<in> range_set r" by (auto simp: covered_set_def)
  then have "n < unat (snd r)" by (simp add: range_set_def)
  with unat_u32 [of "snd r"] show "n \<in> {..< 4294967295}" by simp
qed

lemma covered_size_bound: "separated rs \<Longrightarrow> covered_size rs \<le> 4294967295"
  using card_mono [OF _ covered_below] card_covered [of rs] by (metis card_lessThan finite_lessThan)

subsection \<open>The merge\<close>

lemma merge_loop_exact:
  assumes "merge_loop ms me removed rs = (ms', me', removed', after)"
    and "ms < me" "separated rs" "\<forall>r \<in> set rs. ms \<le> snd r"
  shows "\<exists>dropped. rs = dropped @ after \<and> removed' = removed + (\<Sum>r\<leftarrow>dropped. ucast (snd r - fst r)) \<and>
    range_set (ms, me) \<union> covered_set dropped = range_set (ms', me') \<and> ms' < me' \<and>
    (\<forall>q \<in> set after. me' < fst q) \<and> (ms' = ms \<or> (\<exists>r \<in> set dropped. ms' = fst r))"
  using assms
proof (induction ms me removed rs rule: merge_loop.induct)
  case (2 ms me removed r after0)
  show ?case
  proof (cases "fst r \<le> me")
    case False
    have "\<forall>q \<in> set after0. fst r < fst q" using 2(4) by (auto intro: order.strict_trans)
    with False have "\<forall>q \<in> set (r # after0). me < fst q" by (auto intro: order.strict_trans)
    with False 2(2,3) show ?thesis by (intro exI [of _ "[]"]) simp
  next
    case True
    define s where "s = (if fst r < ms then fst r else ms)"
    define e where "e = (if snd r > me then snd r else me)"
    have rec: "merge_loop s e (removed + ucast (snd r - fst r)) after0 = (ms', me', removed', after)"
      using 2(2) True by (simp add: s_def e_def)
    have r: "fst r < snd r" "ms \<le> snd r" "separated after0" "\<forall>q \<in> set after0. snd r < fst q"
      using 2(4,5) by simp_all
    have se: "s < e" using 2(3) r by (auto simp: s_def e_def)
    have low: "\<forall>q \<in> set after0. s \<le> snd q"
      using 2(5) by (auto simp: s_def dest: order.strict_trans2 less_imp_le)
    have union: "range_set (ms, me) \<union> range_set r = range_set (s, e)"
      using True r 2(3) by (auto simp: range_set_def s_def e_def word_less_nat_alt word_le_nat_alt)
    from 2(1) [OF True rec [unfolded s_def e_def] se [unfolded s_def e_def] r(3) low [unfolded s_def]]
    obtain dropped where d: "after0 = dropped @ after"
        "removed' = removed + ucast (snd r - fst r) + (\<Sum>r\<leftarrow>dropped. ucast (snd r - fst r))"
        "range_set (s, e) \<union> covered_set dropped = range_set (ms', me')" "ms' < me'"
        "\<forall>q \<in> set after. me' < fst q" "ms' = s \<or> (\<exists>r \<in> set dropped. ms' = fst r)"
      unfolding s_def [symmetric] e_def [symmetric] by blast
    have "range_set (ms, me) \<union> covered_set (r # dropped) = range_set (ms', me')"
      using d(3) union by auto
    moreover have "ms' = ms \<or> (\<exists>q \<in> set (r # dropped). ms' = fst q)"
      using d(6) by (auto simp: s_def split: if_splits)
    ultimately show ?thesis using d by (intro exI [of _ "r # dropped"]) (simp add: add.assoc)
  qed
qed auto

lemma unat_ucast_64: "unat (ucast (w :: u32) :: u64) = unat w"
  using unat_u32 [of w] by (simp add: unsigned_ucast_eq take_bit_nat_eq_self)

lemma unat_diff_range: "a \<le> (b :: u32) \<Longrightarrow> unat (ucast (b - a) :: u64) = unat b - unat a"
  by (simp add: unat_ucast_64 unat_sub)

lemma removed_size:
  "separated rs \<Longrightarrow> unat (\<Sum>r\<leftarrow>rs. ucast (snd r - fst r) :: u64) = covered_size rs"
proof (induction rs)
  case (Cons r rs)
  define x where "x = (ucast (snd r - fst r) :: u64)"
  define y where "y = (\<Sum>r\<leftarrow>rs. ucast (snd r - fst r) :: u64)"
  have x: "unat x = unat (snd r) - unat (fst r)"
    using Cons.prems unfolding x_def by (intro unat_diff_range) (simp add: less_imp_le)
  have y: "unat y = covered_size rs" using Cons by (simp add: y_def)
  have "unat x + unat y < 2 ^ 64" using covered_size_bound [OF Cons.prems] x y by simp
  then have "unat (x + y) = unat x + unat y" by (intro unat_add_lem [THEN iffD1]) simp
  then show ?case using x y by (simp add: x_def y_def)
qed simp

text \<open>The record of a transfer agrees with the bytes of its ranges.\<close>

definition progress_ok :: "transfer \<Rightarrow> bool" where
  "progress_ok h \<longleftrightarrow> separated (tp_ranges h) \<and> unat (tp_bytes h) = covered_size (tp_ranges h) \<and>
     length (tp_ranges h) \<le> tp_capacity h"

lemma progress_ok_card: "progress_ok h \<Longrightarrow> unat (tp_bytes h) = card (covered_set (tp_ranges h))"
  by (simp add: progress_ok_def card_covered)

lemma progress_ok_clear: "progress_ok (clearTransferProgress False h)"
  by (simp add: progress_ok_def clearTransferProgress_def)

lemma saturate_size:
  assumes "unat c = n" "n \<le> 4294967295"
  shows "unat (if (c :: u64) > 0xFFFFFFFF then 0xFFFFFFFF else ucast c :: u32) = n"
proof -
  have "\<not> c > 0xFFFFFFFF" using assms by (simp add: word_less_nat_alt)
  then show ?thesis using assms by (simp add: unsigned_ucast_eq take_bit_nat_eq_self_iff)
qed

lemma grow_enough: "0 < c \<Longrightarrow> c \<le> grow_capacity r c"
proof (induction r c rule: grow_capacity.induct)
  case (1 r c)
  then show ?case by (subst grow_capacity.simps) (auto intro: order_trans)
qed

text \<open>One note, on a transfer of the same direction.\<close>

lemma note_same_mode:
  assumes "progress_ok h" "tp_mode h = mode" "mode \<noteq> ModeNone" "len \<noteq> 0" "offset \<le> 0xFFFFFFFF - len"
    and "noteTransferProgress alloc mode offset len h = (ok, h')"
  shows "if ok then progress_ok h' \<and> tp_mode h' = mode \<and>
      covered_set (tp_ranges h') = covered_set (tp_ranges h) \<union> {unat offset ..< unat offset + unat len}
    else h' = h"
proof -
  define before where "before = takeWhile (\<lambda>r. snd r < offset) (tp_ranges h)"
  define rest where "rest = drop (length before) (tp_ranges h)"
  have split: "tp_ranges h = before @ rest"
    unfolding before_def rest_def by (metis append_take_drop_id takeWhile_eq_take)
  have before: "\<forall>r \<in> set before. snd r < offset" unfolding before_def by (auto dest: set_takeWhileD)
  have sep: "separated before" "separated rest" "\<forall>r \<in> set before. \<forall>q \<in> set rest. snd r < fst q"
    using assms(1) split by (auto simp: progress_ok_def separated_append)
  have low: "\<forall>r \<in> set rest. offset \<le> snd r"
  proof (cases rest)
    case (Cons q qs)
    have "rest = dropWhile (\<lambda>r. snd r < offset) (tp_ranges h)"
      by (simp add: rest_def before_def dropWhile_eq_drop)
    with Cons have "\<not> snd q < offset" using hd_dropWhile [of "\<lambda>r. snd r < offset" "tp_ranges h"] by simp
    moreover have "snd q < snd r" if "r \<in> set qs" for r
      using sep(2) that separated_nonempty [of qs r] Cons by (auto intro: order.strict_trans)
    ultimately have "offset \<le> snd r" if "r \<in> set rest" for r
      using that unfolding Cons by (metis (no_types, lifting) leI less_imp_le order.trans set_ConsD)
    then show ?thesis by blast
  qed simp
  have no_wrap: "unat (offset + len) = unat offset + unat len"
  proof -
    have "unat (0xFFFFFFFF - len) = 4294967295 - unat len"
      using unat_u32 [of len] by (subst unat_sub) (simp_all add: word_le_nat_alt)
    then have "unat offset + unat len < 2 ^ 32" using assms(5) unat_u32 [of len] by (simp add: word_le_nat_alt)
    then show ?thesis by (intro unat_add_lem [THEN iffD1]) simp
  qed
  obtain ms me removed after where m: "merge_loop offset (offset + len) 0 rest = (ms, me, removed, after)"
    by (metis prod_cases4)
  have "offset < offset + len" using no_wrap assms(4) by (simp add: word_less_nat_alt unat_gt_0)
  from merge_loop_exact [OF m this sep(2) low] obtain dropped where d:
      "rest = dropped @ after" "removed = (\<Sum>r\<leftarrow>dropped. ucast (snd r - fst r))"
      "range_set (offset, offset + len) \<union> covered_set dropped = range_set (ms, me)" "ms < me"
      "\<forall>q \<in> set after. me < fst q" "ms = offset \<or> (\<exists>r \<in> set dropped. ms = fst r)" by auto
  define required where "required = length before + 1 + length after"
  define capacity where "capacity = new_capacity required (tp_capacity h)"
  define covered where "covered = ucast (tp_bytes h) - removed + ucast (me - ms)"
  have ms: "\<forall>r \<in> set before. snd r < ms" using d(1,6) before sep(3) by auto
  define rs where "rs = before @ (ms, me) # after"
  have "separated rs"
    using sep d(1,4,5) ms unfolding rs_def by (auto simp: separated_append intro: order.strict_trans)
  have set: "covered_set rs = covered_set (tp_ranges h) \<union> {unat offset ..< unat offset + unat len}"
    using d(1,3) no_wrap unfolding rs_def split by (auto simp: range_set_def)
  have noted_h: "noteTransferProgress alloc mode offset len h =
      (if required > tp_capacity h \<and>
          (capacity < required \<or> capacity > SIZE_MAX div range_bytes \<or> \<not> alloc (capacity * range_bytes))
       then (False, h)
       else (True, h\<lparr>tp_ranges := rs, tp_capacity := (if required > tp_capacity h then capacity else tp_capacity h),
         tp_bytes := (if covered > 0xFFFFFFFF then 0xFFFFFFFF else ucast covered)\<rparr>))"
  proof -
    have guard: "\<not> (len = 0 \<or> mode = ModeNone \<or> offset > 0xFFFFFFFF - len)" and same: "\<not> tp_mode h \<noteq> mode"
      using assms(2-5) by (auto simp: not_less)
    show ?thesis
      unfolding noteTransferProgress_def if_not_P [OF guard] if_not_P [OF same] Let_def
        before_def [symmetric] rest_def [symmetric] m prod.case
        required_def [symmetric] capacity_def [symmetric] covered_def [symmetric] rs_def [symmetric] ..
  qed
  have old: "unat (ucast (tp_bytes h) :: u64) = covered_size before + covered_size dropped + covered_size after"
    using assms(1) d(1) split unat_ucast_64 [of "tp_bytes h"] by (simp add: progress_ok_def)
  have "separated dropped" using sep(2) d(1) by (simp add: separated_append)
  then have gone: "unat removed = covered_size dropped" unfolding d(2) by (rule removed_size)
  then have "unat (ucast (tp_bytes h) - removed) = covered_size before + covered_size after"
    using old by (subst unat_sub) (simp_all add: word_le_nat_alt)
  moreover have "unat (ucast (me - ms) :: u64) = unat me - unat ms"
    using d(4) by (intro unat_diff_range) (simp add: less_imp_le)
  moreover have "covered_size rs = covered_size before + covered_size after + (unat me - unat ms)"
    by (simp add: rs_def)
  moreover note covered_size_bound [OF \<open>separated rs\<close>]
  ultimately have "unat covered = covered_size rs"
    unfolding covered_def by (subst unat_add_lem [THEN iffD1]) simp_all
  from saturate_size [OF this covered_size_bound [OF \<open>separated rs\<close>]]
  have bytes: "unat (if covered > 0xFFFFFFFF then 0xFFFFFFFF else ucast covered :: u32) = covered_size rs" .
  have "length rs = required" by (simp add: rs_def required_def)
  with noted_h assms(2,6) \<open>separated rs\<close> set bytes show ?thesis
    by (auto simp: progress_ok_def split: if_splits)
qed

definition noted :: "u32 \<times> u32 \<Rightarrow> nat set" where
  "noted r = {unat (fst r) ..< unat (fst r) + unat (snd r)}"

definition within :: "u32 \<times> u32 \<Rightarrow> bool" where
  "within r \<longleftrightarrow> snd r \<noteq> 0 \<and> fst r \<le> 0xFFFFFFFF - snd r"

lemma note_any_mode:
  assumes "progress_ok h" "mode \<noteq> ModeNone" "within r"
    and "noteTransferProgress alloc mode (fst r) (snd r) h = (True, h')"
  shows "progress_ok h' \<and> tp_mode h' = mode \<and>
    covered_set (tp_ranges h') = (if tp_mode h = mode then covered_set (tp_ranges h) else {}) \<union> noted r"
proof (cases "tp_mode h = mode")
  case True
  from note_same_mode [OF assms(1) True assms(2) _ _ assms(4)] assms(3) True show ?thesis
    by (simp add: within_def noted_def)
next
  case False
  let ?c = "(clearTransferProgress False h)\<lparr>tp_mode := mode\<rparr>"
  have "noteTransferProgress alloc mode (fst r) (snd r) h = noteTransferProgress alloc mode (fst r) (snd r) ?c"
    using False assms(2,3) by (auto simp: noteTransferProgress_def within_def not_less)
  moreover have "progress_ok ?c" "tp_mode ?c = mode" "tp_ranges ?c = []"
    by (simp_all add: progress_ok_def clearTransferProgress_def)
  ultimately show ?thesis
    using note_same_mode [of ?c mode "snd r" "fst r" alloc True h'] assms(2,3,4) False
    by (simp add: within_def noted_def)
qed

subsection \<open>Cutting at a new end of the file\<close>

lemma clip_loop_exact:
  "separated rs \<Longrightarrow> clip_loop len rs covered = (kept, all) \<Longrightarrow>
   separated kept \<and> all = covered + (\<Sum>r\<leftarrow>kept. ucast (snd r - fst r)) \<and>
   covered_set kept = covered_set rs \<inter> {..< unat len} \<and> length kept \<le> length rs \<and>
   (\<forall>q \<in> set kept. \<exists>r \<in> set rs. fst q = fst r)"
proof (induction rs arbitrary: covered kept all)
  case (Cons r rs)
  show ?case
  proof (cases "fst r \<ge> len")
    case True
    have "fst r \<le> fst q" if "q \<in> set rs" for q using Cons.prems(1) that by (auto intro: order.trans less_imp_le)
    then have "len \<le> fst q" if "q \<in> set (r # rs)" for q
      using that order.trans [OF True] True by (cases "q = r") simp_all
    then have "unat len \<le> unat (fst q)" if "q \<in> set (r # rs)" for q
      using that word_le_nat_alt by blast
    then have "n \<notin> range_set q" if "q \<in> set (r # rs)" "n < unat len" for q n
      using that by (fastforce simp: range_set_def)
    then have "covered_set (r # rs) \<inter> {..< unat len} = {}" unfolding covered_set_def by blast
    with True Cons.prems(2) show ?thesis by auto
  next
    case False
    define c where "c = (if snd r > len then (fst r, len) else r)"
    obtain k a where rec: "clip_loop len rs (covered + ucast (snd c - fst c)) = (k, a)" by force
    have out: "kept = c # k" "all = a" using Cons.prems(2) False rec by (simp_all add: c_def Let_def)
    have sep: "separated rs" "\<forall>q \<in> set rs. snd r < fst q" "fst r < snd r" using Cons.prems(1) by simp_all
    note ih = Cons.IH [OF sep(1) rec]
    have c: "fst c = fst r" "snd c \<le> snd r" "fst c < snd c" "snd c \<le> len"
      using False sep(3) by (auto simp: c_def not_le)
    have "range_set c = range_set r \<inter> {..< unat len}"
      using False by (auto simp: c_def range_set_def word_less_nat_alt word_le_nat_alt)
    moreover have "snd c < fst q" if "q \<in> set k" for q
    proof -
      from ih that obtain p where "p \<in> set rs" "fst q = fst p" by blast
      with sep(2) c(2) show ?thesis by (auto intro: order.strict_trans1)
    qed
    ultimately show ?thesis using ih out c by (auto simp: add.assoc)
  qed
qed simp

lemma clip_exact:
  assumes "progress_ok h"
  shows "progress_ok (clipTransferProgress len h) \<and>
    covered_set (tp_ranges (clipTransferProgress len h)) = covered_set (tp_ranges h) \<inter> {..< unat len}"
proof -
  obtain kept all where k: "clip_loop len (tp_ranges h) 0 = (kept, all)" by force
  have ex: "separated kept" "all = (\<Sum>r\<leftarrow>kept. ucast (snd r - fst r))" "length kept \<le> length (tp_ranges h)"
      "covered_set kept = covered_set (tp_ranges h) \<inter> {..< unat len}"
    using clip_loop_exact [OF _ k] assms by (auto simp: progress_ok_def)
  have "unat all = covered_size kept" unfolding ex(2) by (rule removed_size [OF ex(1)])
  note bytes = saturate_size [OF this covered_size_bound [OF ex(1)]]
  have "length kept \<le> tp_capacity h" using ex(3) assms by (simp add: progress_ok_def)
  with bytes k ex(1,4) show ?thesis by (simp add: clipTransferProgress_def progress_ok_def)
qed

subsection \<open>A whole transfer\<close>

fun note_all :: "(nat \<Rightarrow> bool) \<Rightarrow> transfer_mode \<Rightarrow> (u32 \<times> u32) list \<Rightarrow> transfer \<Rightarrow> transfer option" where
  "note_all alloc mode [] h = Some h"
| "note_all alloc mode (r # rs) h =
     (let (ok, h1) = noteTransferProgress alloc mode (fst r) (snd r) h
      in if ok then note_all alloc mode rs h1 else None)"

lemma note_all_exact:
  "progress_ok h \<Longrightarrow> tp_mode h = mode \<Longrightarrow> mode \<noteq> ModeNone \<Longrightarrow> \<forall>r \<in> set rs. within r \<Longrightarrow>
   note_all alloc mode rs h = Some h' \<Longrightarrow>
   progress_ok h' \<and> tp_mode h' = mode \<and> covered_set (tp_ranges h') = covered_set (tp_ranges h) \<union> (\<Union>r \<in> set rs. noted r)"
proof (induction rs arbitrary: h)
  case (Cons r rs)
  from Cons.prems(5) obtain h1 where n: "noteTransferProgress alloc mode (fst r) (snd r) h = (True, h1)"
      "note_all alloc mode rs h1 = Some h'"
    by (auto simp: Let_def split: prod.splits if_splits)
  have "within r" using Cons.prems(4) by simp
  from note_any_mode [OF Cons.prems(1,3) this n(1)] Cons.prems(2)
  have h1: "progress_ok h1" "tp_mode h1 = mode" "covered_set (tp_ranges h1) = covered_set (tp_ranges h) \<union> noted r"
    by simp_all
  from Cons.IH [OF h1(1,2) Cons.prems(3) _ n(2)] Cons.prems(4) h1(3) show ?case by auto
qed simp

text \<open>
  C11: The progress of a transfer counts every byte once. Whatever ranges a client reads (or writes),
  in any order, overlapping or repeated, the counter is the number of different byte positions in
  them, as long as the heap can hold the array of ranges; it never wraps or saturates. Cutting the
  file at a new length leaves exactly the positions below it.
\<close>

theorem progress_counts_bytes:
  assumes "mode \<noteq> ModeNone" and "r \<in> set rs" and "\<forall>r \<in> set rs. within r"
    and "note_all alloc mode rs (clearTransferProgress False h) = Some h'"
  shows "unat (tp_bytes h') = card (\<Union>r \<in> set rs. noted r) \<and>
    unat (tp_bytes (clipTransferProgress len h')) = card ((\<Union>r \<in> set rs. noted r) \<inter> {..< unat len}) \<and>
    tp_mode h' = mode \<and> separated (tp_ranges h')"
proof -
  obtain q qs where rs: "rs = q # qs" using assms(2) by (cases rs) auto
  from assms(4) obtain h1 where n: "noteTransferProgress alloc mode (fst q) (snd q) (clearTransferProgress False h) = (True, h1)"
      "note_all alloc mode qs h1 = Some h'"
    unfolding rs by (auto simp: Let_def split: prod.splits if_splits)
  have "within q" using assms(3) rs by simp
  from note_any_mode [OF progress_ok_clear assms(1) this n(1)]
  have h1: "progress_ok h1" "tp_mode h1 = mode" "covered_set (tp_ranges h1) = noted q"
    using assms(1) by (auto simp: clearTransferProgress_def split: if_splits)
  from note_all_exact [OF h1(1,2) assms(1) _ n(2)] assms(3) rs h1(3)
  have h': "progress_ok h'" "tp_mode h' = mode" "covered_set (tp_ranges h') = (\<Union>r \<in> set rs. noted r)" by auto
  note cut = clip_exact [OF h'(1), of len]
  have "separated (tp_ranges h')" using h'(1) by (simp add: progress_ok_def)
  with progress_ok_card [OF h'(1)] progress_ok_card [OF conjunct1 [OF cut]] conjunct2 [OF cut] h'(2,3)
  show ?thesis by simp
qed

theorem progress_counts_bytes_witness:
  "\<exists>h'. note_all (\<lambda>n. True) ModeRead [(100, 50), (0, 20), (120, 100), (10, 95)] no_transfer = Some h' \<and>
    unat (tp_bytes h') = 220 \<and> unat (tp_bytes (clipTransferProgress 200 h')) = 200"
proof -
  let ?rs = "[(100, 50), (0, 20), (120, 100), (10, 95)] :: (u32 \<times> u32) list"
  have c: "clearTransferProgress False no_transfer = no_transfer"
    by (simp add: clearTransferProgress_def no_transfer_def)
  have "note_all (\<lambda>n. True) ModeRead ?rs no_transfer \<noteq> None"
    by (simp add: noteTransferProgress_def new_capacity_def grow_capacity.simps SIZE_MAX_def range_bytes_def
      no_transfer_def clearTransferProgress_def Let_def)
  then obtain h' where h': "note_all (\<lambda>n. True) ModeRead ?rs no_transfer = Some h'" by blast
  have u: "(\<Union>r \<in> set ?rs. noted r) = {0..<220}" by (auto simp: noted_def)
  have "unat (tp_bytes h') = card (\<Union>r \<in> set ?rs. noted r) \<and>
      unat (tp_bytes (clipTransferProgress 200 h')) = card ((\<Union>r \<in> set ?rs. noted r) \<inter> {..< unat (200 :: u32)})"
    using progress_counts_bytes [of ModeRead "(0, 20)" ?rs "\<lambda>n. True" no_transfer h' 200] h' c
    by (simp add: within_def)
  moreover have "{0..<220} \<inter> {..<200} = {0..<200 :: nat}" by auto
  ultimately show ?thesis using h' unfolding u by simp
qed

end
