(* ===== verification/SmbQueues.thy ===== *)
theory SmbQueues
  imports SmbHandles
begin

text \<open>
  The queues of the SMB server of \<open>src/smb_server.cpp\<close>. The card behind the UART can do one thing at a
  time, while several clients keep several requests open: reads and writes live in eight slots with
  a buffer each, further reads wait in a list, and directory listings, creates and closes have
  queues of their own. Each request carries the sequence number of its arrival, and
  \<open>nextAsyncVfsServiceSequence\<close> chooses whose turn it is. The linked list of waiting reads is a list,
  a context of libsmb2 its address, and a buffer its capacity, \<open>None\<close> for a null pointer.
\<close>

definition kAsyncIoQueueDepth :: nat where "kAsyncIoQueueDepth = 8"

definition kAsyncReadServiceDepth :: nat where "kAsyncReadServiceDepth = 1"

definition kAsyncIoBaseSlotSize :: nat where "kAsyncIoBaseSlotSize = 65536"

definition kAsyncIoProgressTimeoutMs :: u32 where "kAsyncIoProgressTimeoutMs = 90000"

definition UINT64_MAX :: u64 where "UINT64_MAX = 0xFFFFFFFFFFFFFFFF"

text \<open>The fields an \<open>AsyncRead\<close> has; \<open>filled\<close> is called \<open>flushed\<close> in a write.\<close>

record async_op =
  ao_used :: bool
  ao_inFlight :: bool
  ao_cancelRequested :: bool
  ao_pendingSent :: bool
  ao_context :: "nat option"
  ao_ownerId :: u32
  ao_messageId :: u64
  ao_sequence :: u64
  ao_slot :: int
  ao_generation :: u32
  ao_offset :: u32
  ao_length :: u32
  ao_filled :: u32
  ao_windowLength :: u32
  ao_requestStartedMs :: u32
  ao_lastProgressMs :: u32

datatype write_recovery = RecoveryNone | WaitWindow | SubmitAbort | WaitAbort

record async_write = async_op +
  aw_replied :: bool
  aw_writeThrough :: bool
  aw_recovery :: write_recovery

record queued_read =
  qr_context :: "nat option"
  qr_ownerId :: u32
  qr_pendingSent :: bool
  qr_messageId :: u64
  qr_sequence :: u64
  qr_slot :: int
  qr_generation :: u32
  qr_offset :: u32
  qr_length :: u32
  qr_requestStartedMs :: u32

text \<open>What the choice of the next operation reads of a listing, a create or a close.\<close>

record vfs_op =
  vo_used :: bool
  vo_cancelRequested :: bool
  vo_ownerId :: u32
  vo_sequence :: u64
  vo_slot :: int
  vo_generation :: u32
  vo_closes :: bool

definition no_read :: async_op where
  "no_read = \<lparr>ao_used = False, ao_inFlight = False, ao_cancelRequested = False, ao_pendingSent = False,
     ao_context = None, ao_ownerId = 0, ao_messageId = 0, ao_sequence = 0, ao_slot = -1, ao_generation = 0,
     ao_offset = 0, ao_length = 0, ao_filled = 0, ao_windowLength = 0, ao_requestStartedMs = 0,
     ao_lastProgressMs = 0\<rparr>"

definition no_write :: async_write where
  "no_write = async_op.extend no_read \<lparr>aw_replied = False, aw_writeThrough = False, aw_recovery = RecoveryNone\<rparr>"

text \<open>\<open>memset\<close> leaves slot 0 where \<open>= {}\<close> leaves -1.\<close>

definition zero_read :: async_op where "zero_read = no_read\<lparr>ao_slot := 0\<rparr>"

definition zero_write :: async_write where "zero_write = no_write\<lparr>ao_slot := 0\<rparr>"

definition zero_vfs_op :: vfs_op where
  "zero_vfs_op = \<lparr>vo_used = False, vo_cancelRequested = False, vo_ownerId = 0, vo_sequence = 0, vo_slot = 0,
     vo_generation = 0, vo_closes = False\<rparr>"

record smb_queues =
  q_reads :: "async_op list"
  q_writes :: "async_write list"
  q_queued :: "queued_read list"
  q_directories :: "vfs_op list"
  q_creates :: "vfs_op list"
  q_closes :: "vfs_op list"
  q_activeRead :: int
  q_activeWrite :: int
  q_activeDirectory :: int
  q_activeCreate :: int
  q_activeClose :: int
  q_readCount :: nat
  q_writeCount :: nat
  q_queuedCount :: nat
  q_directoryCount :: nat
  q_createCount :: nat
  q_closeCount :: nat
  q_buffers :: "nat option list"
  q_sequence :: u64
  q_lastOwner :: u32
  q_continuationOwner :: u32
  q_continuationUntilMs :: u32

text \<open>What a queue operation asks of the library and of other parts.\<close>

datatype queue_call =
    StatusReply "nat option" nat u32 u64
  | CloseContext "nat option"
  | RestoreServerCreditsIfIoIdle "nat option"
  | DropFileCache
  | CloseActiveFile bool
  | ReleaseDetachedOwnerIfIdle u32

definition SMB2_READ :: nat where "SMB2_READ = 8"



subsection \<open>Storage\<close>

definition resetAsyncIo :: "smb_queues \<Rightarrow> smb_queues" where
  "resetAsyncIo q = q\<lparr>q_queued := [], q_queuedCount := 0,
     q_reads := replicate kAsyncIoQueueDepth zero_read, q_writes := replicate kAsyncIoQueueDepth zero_write,
     q_directories := replicate 16 zero_vfs_op, q_creates := replicate 16 zero_vfs_op,
     q_closes := replicate kHandleCount zero_vfs_op,
     q_activeRead := -1, q_activeWrite := -1, q_activeDirectory := -1, q_activeCreate := -1, q_activeClose := -1,
     q_readCount := 0, q_writeCount := 0, q_directoryCount := 0, q_createCount := 0, q_closeCount := 0,
     q_sequence := 0, q_lastOwner := 0, q_continuationOwner := 0, q_continuationUntilMs := 0\<rparr>"

definition releaseAsyncIoStorage :: "smb_queues \<Rightarrow> smb_queues" where
  "releaseAsyncIoStorage q = (resetAsyncIo q)\<lparr>q_buffers := replicate kAsyncIoQueueDepth None\<rparr>"

text \<open>\<open>allocs\<close>: which of the eight allocations succeed.\<close>

definition allocateAsyncIoStorage :: "(nat \<Rightarrow> bool) \<Rightarrow> smb_queues \<Rightarrow> bool \<times> smb_queues" where
  "allocateAsyncIoStorage allocs q =
     (let q1 = releaseAsyncIoStorage q
      in if \<exists>i < kAsyncIoQueueDepth. \<not> allocs i then (False, q1)
         else (True, resetAsyncIo (q1\<lparr>q_buffers := replicate kAsyncIoQueueDepth (Some kAsyncIoBaseSlotSize)\<rparr>)))"

definition nextAsyncVfsSequence :: "smb_queues \<Rightarrow> u64 \<times> smb_queues" where
  "nextAsyncVfsSequence q =
     (let n = q_sequence q + 1; m = (if n = 0 then n + 1 else n) in (m, q\<lparr>q_sequence := m\<rparr>))"

subsection \<open>Whose turn it is\<close>

definition live_op :: "('a async_op_scheme) \<Rightarrow> bool" where
  "live_op p \<longleftrightarrow> ao_used p \<and> \<not> ao_cancelRequested p"

definition live_vfs :: "vfs_op \<Rightarrow> bool" where
  "live_vfs p \<longleftrightarrow> vo_used p \<and> \<not> vo_cancelRequested p"

text \<open>Sequence and owner of the live entries of a queue, in the order of the scan.\<close>

definition op_candidates :: "('a async_op_scheme) list \<Rightarrow> (u64 \<times> u32) list" where
  "op_candidates ps = map (\<lambda>p. (ao_sequence p, ao_ownerId p)) (filter live_op ps)"

definition queued_candidates :: "queued_read list \<Rightarrow> (u64 \<times> u32) list" where
  "queued_candidates ps = map (\<lambda>p. (qr_sequence p, qr_ownerId p)) ps"

definition vfs_candidates :: "vfs_op list \<Rightarrow> (u64 \<times> u32) list" where
  "vfs_candidates ps = map (\<lambda>p. (vo_sequence p, vo_ownerId p)) (filter live_vfs ps)"

definition candidates :: "smb_queues \<Rightarrow> (u64 \<times> u32) list" where
  "candidates q = op_candidates (q_reads q) @ queued_candidates (q_queued q) @ op_candidates (q_writes q) @
     vfs_candidates (q_directories q) @ vfs_candidates (q_creates q) @ vfs_candidates (q_closes q)"

definition select_oldest :: "u32 \<Rightarrow> bool \<Rightarrow> u64 \<times> u32 \<Rightarrow> u64 \<Rightarrow> u64" where
  "select_oldest recent anotherOwnerOnly c oldest =
     (if fst c = 0 \<or> fst c \<ge> oldest \<or> (anotherOwnerOnly \<and> snd c = recent) then oldest else fst c)"

definition scan :: "smb_queues \<Rightarrow> bool \<Rightarrow> u64" where
  "scan q anotherOwnerOnly = fold (select_oldest (q_lastOwner q) anotherOwnerOnly) (candidates q) UINT64_MAX"

definition oldest_of :: "(u64 \<times> u32) list \<Rightarrow> u64" where
  "oldest_of cs = fold (select_oldest 0 False) cs UINT64_MAX"

definition oldestAsyncReadSequence :: "smb_queues \<Rightarrow> u64" where
  "oldestAsyncReadSequence q = oldest_of (op_candidates (q_reads q) @ queued_candidates (q_queued q))"

definition oldestAsyncWriteSequence :: "smb_queues \<Rightarrow> u64" where
  "oldestAsyncWriteSequence q = oldest_of (op_candidates (q_writes q))"

definition oldestAsyncDirectorySequence :: "smb_queues \<Rightarrow> u64" where
  "oldestAsyncDirectorySequence q = oldest_of (vfs_candidates (q_directories q))"

definition oldestAsyncCreateSequence :: "smb_queues \<Rightarrow> u64" where
  "oldestAsyncCreateSequence q = oldest_of (vfs_candidates (q_creates q))"

definition oldestAsyncCloseSequence :: "smb_queues \<Rightarrow> u64" where
  "oldestAsyncCloseSequence q = oldest_of (vfs_candidates (q_closes q))"

definition closes_directory :: "smb_handle list \<Rightarrow> vfs_op \<Rightarrow> bool" where
  "closes_directory hs p \<longleftrightarrow> vo_closes p \<and> vo_slot p \<ge> 0 \<and> nat (vo_slot p) < kHandleCount \<and>
     hd_used (hs ! nat (vo_slot p)) \<and> hd_directory (hs ! nat (vo_slot p)) \<and>
     hd_generation (hs ! nat (vo_slot p)) = vo_generation p"

text \<open>The listings and the closes of directories of the owner whose listing is under way.\<close>

definition continuation_candidates :: "smb_handle list \<Rightarrow> smb_queues \<Rightarrow> (u64 \<times> u32) list" where
  "continuation_candidates hs q =
     filter (\<lambda>c. snd c = q_continuationOwner q)
       (vfs_candidates (q_directories q) @ vfs_candidates (filter (closes_directory hs) (q_closes q)))"

definition in_continuation :: "u32 \<Rightarrow> smb_queues \<Rightarrow> bool" where
  "in_continuation now q \<longleftrightarrow> q_continuationOwner q \<noteq> 0 \<and> 0 <s q_continuationUntilMs q - now"

definition nextAsyncVfsServiceSequence :: "u32 \<Rightarrow> smb_handle list \<Rightarrow> smb_queues \<Rightarrow> u64" where
  "nextAsyncVfsServiceSequence now hs q =
     (if in_continuation now q then oldest_of (continuation_candidates hs q)
      else if q_lastOwner q \<noteq> 0 \<and> scan q True \<noteq> UINT64_MAX then scan q True
      else scan q False)"

subsection \<open>Slots\<close>

definition free_slot :: "smb_queues \<Rightarrow> nat \<Rightarrow> bool" where
  "free_slot q i \<longleftrightarrow> \<not> ao_used (q_reads q ! i) \<and> \<not> ao_used (q_writes q ! i) \<and> q_buffers q ! i \<noteq> None"

definition allocateAsyncRead :: "smb_queues \<Rightarrow> nat option" where
  "allocateAsyncRead q =
     (if q_readCount q \<ge> kAsyncReadServiceDepth then None
      else if q_readCount q + q_writeCount q \<ge> kAsyncIoQueueDepth then None
      else find (free_slot q) [0..<kAsyncIoQueueDepth])"



text \<open>\<open>room\<close>: one of the two allocations of a descriptor succeeds.\<close>

definition enqueueAsyncRead ::
    "bool \<Rightarrow> u32 \<Rightarrow> smb_context option \<Rightarrow> u64 \<Rightarrow> int \<Rightarrow> u64 \<Rightarrow> u32 \<Rightarrow> u32 \<Rightarrow> u32 \<Rightarrow> smb_queues \<Rightarrow> bool \<times> smb_queues" where
  "enqueueAsyncRead room now context messageId slot sequence generation offset len q =
     (if context = None \<or> messageId = 0 \<or> slot < 0 \<or> len = 0 then (False, q)
      else if q_queuedCount q + q_readCount q + q_writeCount q \<ge> kAsyncIoQueueDepth then (False, q)
      else if \<not> room then (False, q)
      else (True, q\<lparr>q_queued := q_queued q @ [\<lparr>qr_context = map_option cx_address context,
              qr_ownerId = contextOwnerId context, qr_pendingSent = False, qr_messageId = messageId,
              qr_sequence = sequence, qr_slot = slot, qr_generation = generation, qr_offset = offset,
              qr_length = len, qr_requestStartedMs = now\<rparr>],
              q_queuedCount := q_queuedCount q + 1\<rparr>))"

definition beginAsyncRead ::
    "u32 \<Rightarrow> smb_handle list \<Rightarrow> nat option \<Rightarrow> u64 \<Rightarrow> int \<Rightarrow> u64 \<Rightarrow> u32 \<Rightarrow> u32 \<Rightarrow> u32 \<Rightarrow> u32 \<Rightarrow> bool \<Rightarrow> int \<Rightarrow>
     smb_queues \<Rightarrow> bool \<times> smb_queues" where
  "beginAsyncRead now hs context messageId slot sequence generation offset len requestStartedMs pendingSent index q =
     (if context = None \<or> messageId = 0 \<or> index < 0 \<or> nat index \<ge> kAsyncIoQueueDepth \<or>
         q_buffers q ! nat index = None \<or> ao_used (q_reads q ! nat index) \<or> ao_used (q_writes q ! nat index)
      then (False, q)
      else (True, q\<lparr>q_reads := (q_reads q)[nat index := no_read\<lparr>ao_used := True, ao_context := context,
              ao_ownerId := hd_ownerId (hs ! nat slot), ao_messageId := messageId, ao_sequence := sequence,
              ao_slot := slot, ao_generation := generation, ao_offset := offset, ao_length := len,
              ao_requestStartedMs := requestStartedMs, ao_pendingSent := pendingSent, ao_lastProgressMs := now\<rparr>],
              q_readCount := q_readCount q + 1\<rparr>))"

definition queued_handle :: "smb_handle list \<Rightarrow> queued_read \<Rightarrow> bool" where
  "queued_handle hs r \<longleftrightarrow> qr_slot r \<ge> 0 \<and> nat (qr_slot r) < kHandleCount \<and> hd_used (hs ! nat (qr_slot r)) \<and>
     hd_owner (hs ! nat (qr_slot r)) = qr_context r \<and> hd_ownerId (hs ! nat (qr_slot r)) = qr_ownerId r \<and>
     hd_generation (hs ! nat (qr_slot r)) = qr_generation r"

lemma begin_keeps_queue: "q_queued (snd (beginAsyncRead now hs c m sl se g off l st p i q)) = q_queued q"
  by (simp add: beginAsyncRead_def)

text \<open>
  \<open>sent c\<close>: the status of the call \<open>c\<close> could be queued for sending. The queue shrinks at every round,
  so the recursion follows the list of waiting reads.
\<close>

function promoteQueuedReads ::
    "(queue_call \<Rightarrow> bool) \<Rightarrow> u32 \<Rightarrow> smb_handle list \<Rightarrow> smb_queues \<Rightarrow> queue_call list \<times> smb_queues" where
  "promoteQueuedReads sent now hs q =
     (case q_queued q of [] \<Rightarrow> ([], q)
      | r # rs \<Rightarrow>
          (case allocateAsyncRead q of None \<Rightarrow> ([], q)
           | Some index \<Rightarrow>
               (let q1 = q\<lparr>q_queued := rs, q_queuedCount := q_queuedCount q - 1\<rparr>
                in if \<not> queued_handle hs r
                   then (let reply = StatusReply (qr_context r) SMB2_READ STATUS_FILE_CLOSED (qr_messageId r);
                             (calls, q2) = promoteQueuedReads sent now hs q1
                         in (reply # RestoreServerCreditsIfIoIdle (qr_context r) #
                             (if sent reply then calls else CloseContext (qr_context r) # calls), q2))
                   else (case beginAsyncRead now hs (qr_context r) (qr_messageId r) (qr_slot r) (qr_sequence r)
                           (qr_generation r) (qr_offset r) (qr_length r) (qr_requestStartedMs r) (qr_pendingSent r)
                           (int index) q1 of
                         (True, q2) \<Rightarrow> promoteQueuedReads sent now hs q2
                       | (False, q2) \<Rightarrow> ([CloseContext (qr_context r)], q2)))))"
  by pat_completeness auto
termination
  by (relation "measure (\<lambda>(sent, now, hs, q). length (q_queued q))")
    (auto dest!: arg_cong [of _ _ "\<lambda>p. length (q_queued (snd p))"] simp: begin_keeps_queue)

declare promoteQueuedReads.simps [simp del]






subsection \<open>Ready requests\<close>

definition op_handle :: "smb_handle list \<Rightarrow> ('a async_op_scheme) \<Rightarrow> bool" where
  "op_handle hs p \<longleftrightarrow> ao_slot p \<ge> 0 \<and> nat (ao_slot p) < kHandleCount \<and> hd_used (hs ! nat (ao_slot p)) \<and>
     ao_generation p = hd_generation (hs ! nat (ao_slot p)) \<and> ao_ownerId p = hd_ownerId (hs ! nat (ao_slot p))"

definition physical_idle :: "smb_queues \<Rightarrow> bool" where
  "physical_idle q \<longleftrightarrow> \<not> (q_activeRead q \<ge> 0 \<or> q_activeWrite q \<ge> 0 \<or> q_activeDirectory q \<ge> 0 \<or>
     q_activeCreate q \<ge> 0 \<or> q_activeClose q \<ge> 0)"

fun ready_loop :: "smb_handle list \<Rightarrow> u64 \<Rightarrow> nat \<Rightarrow> ('a async_op_scheme) list \<Rightarrow> int \<times> u64 \<Rightarrow> int" where
  "ready_loop hs sequence i [] best = fst best"
| "ready_loop hs sequence i (p # ps) best =
     (if \<not> ao_used p \<or> ao_inFlight p \<or> ao_cancelRequested p \<or> ao_sequence p \<noteq> sequence \<or> \<not> op_handle hs p
      then ready_loop hs sequence (Suc i) ps best
      else if ao_sequence p < snd best then ready_loop hs sequence (Suc i) ps (int i, ao_sequence p)
      else ready_loop hs sequence (Suc i) ps best)"

definition findReadyAsyncRead :: "smb_handle list \<Rightarrow> u64 \<Rightarrow> smb_queues \<Rightarrow> int" where
  "findReadyAsyncRead hs sequence q =
     (if \<not> physical_idle q then -1 else ready_loop hs sequence 0 (q_reads q) (-1, UINT64_MAX))"

definition findReadyAsyncWrite :: "smb_handle list \<Rightarrow> u64 \<Rightarrow> smb_queues \<Rightarrow> int" where
  "findReadyAsyncWrite hs sequence q =
     (if \<not> physical_idle q then -1 else ready_loop hs sequence 0 (q_writes q) (-1, UINT64_MAX))"

definition op_of_handle :: "int \<Rightarrow> u32 \<Rightarrow> ('a async_op_scheme) \<Rightarrow> bool" where
  "op_of_handle slot generation p \<longleftrightarrow> ao_used p \<and> ao_slot p = slot \<and> ao_generation p = generation"

definition vfs_of_handle :: "int \<Rightarrow> u32 \<Rightarrow> vfs_op \<Rightarrow> bool" where
  "vfs_of_handle slot generation p \<longleftrightarrow> vo_used p \<and> vo_slot p = slot \<and> vo_generation p = generation"

definition hasAsyncWritesForHandle :: "int \<Rightarrow> u32 \<Rightarrow> smb_queues \<Rightarrow> bool" where
  "hasAsyncWritesForHandle slot generation q \<longleftrightarrow> (\<exists>p \<in> set (q_writes q). op_of_handle slot generation p)"

definition hasPendingPhysicalWorkForHandle :: "int \<Rightarrow> u32 \<Rightarrow> smb_queues \<Rightarrow> bool" where
  "hasPendingPhysicalWorkForHandle slot generation q \<longleftrightarrow>
     (\<exists>p \<in> set (q_reads q). op_of_handle slot generation p) \<or> (\<exists>p \<in> set (q_writes q). op_of_handle slot generation p) \<or>
     (\<exists>r \<in> set (q_queued q). qr_slot r = slot \<and> qr_generation r = generation) \<or>
     (\<exists>p \<in> set (q_directories q). vfs_of_handle slot generation p) \<or>
     (\<exists>p \<in> set (q_closes q). vfs_of_handle slot generation p)"

definition hasAsyncIoForOwner :: "u32 \<Rightarrow> smb_queues \<Rightarrow> bool" where
  "hasAsyncIoForOwner ownerId q =
     (if ownerId = 0 then False
      else (\<exists>p \<in> set (q_reads q). ao_used p \<and> ao_ownerId p = ownerId) \<or>
           (\<exists>p \<in> set (q_writes q). ao_used p \<and> ao_ownerId p = ownerId) \<or>
           (\<exists>r \<in> set (q_queued q). qr_ownerId r = ownerId) \<or>
           (\<exists>p \<in> set (q_directories q). vo_used p \<and> vo_ownerId p = ownerId) \<or>
           (\<exists>p \<in> set (q_creates q). vo_used p \<and> vo_ownerId p = ownerId) \<or>
           (\<exists>p \<in> set (q_closes q). vo_used p \<and> vo_ownerId p = ownerId))"

definition asyncIoTimedOut :: "u32 \<Rightarrow> smb_queues \<Rightarrow> bool" where
  "asyncIoTimedOut now q =
     (if q_activeRead q \<ge> 0 \<and> nat (q_activeRead q) < kAsyncIoQueueDepth \<and> ao_used (q_reads q ! nat (q_activeRead q)) \<and>
         now - ao_lastProgressMs (q_reads q ! nat (q_activeRead q)) \<ge> kAsyncIoProgressTimeoutMs then True
      else q_activeWrite q \<ge> 0 \<and> nat (q_activeWrite q) < kAsyncIoQueueDepth \<and>
         ao_used (q_writes q ! nat (q_activeWrite q)) \<and>
         aw_recovery (q_writes q ! nat (q_activeWrite q)) = RecoveryNone \<and>
         now - ao_lastProgressMs (q_writes q ! nat (q_activeWrite q)) \<ge> kAsyncIoProgressTimeoutMs)"

subsection \<open>The end of a request\<close>




text \<open>
  A READ request of \<open>readHandler\<close> that has to go to the card: it is numbered, and takes a slot at once
  only if no read waits.
\<close>

definition submit_read ::
    "bool \<Rightarrow> u32 \<Rightarrow> smb_handle list \<Rightarrow> smb_context \<Rightarrow> u64 \<Rightarrow> int \<Rightarrow> u32 \<Rightarrow> u32 \<Rightarrow> u32 \<Rightarrow> smb_queues \<Rightarrow> bool \<times> smb_queues" where
  "submit_read room now hs cx messageId slot generation offset len q =
     (let (sequence, q1) = nextAsyncVfsSequence q
      in case (if q_queued q1 = [] then allocateAsyncRead q1 else None) of
           None \<Rightarrow> enqueueAsyncRead room now (Some cx) messageId slot sequence generation offset len q1
         | Some index \<Rightarrow> beginAsyncRead now hs (Some (cx_address cx)) messageId slot sequence generation offset len now
             False (int index) q1)"


subsection \<open>The choice is fair\<close>

definition eligible :: "u32 \<Rightarrow> bool \<Rightarrow> u64 \<times> u32 \<Rightarrow> bool" where
  "eligible recent other c \<longleftrightarrow> fst c \<noteq> 0 \<and> \<not> (other \<and> snd c = recent)"

lemma select_fold:
  "fold (select_oldest recent other) cs m \<le> m \<and>
   (\<forall>c \<in> set cs. eligible recent other c \<longrightarrow> fold (select_oldest recent other) cs m \<le> fst c) \<and>
   (fold (select_oldest recent other) cs m = m \<or>
    (\<exists>c \<in> set cs. eligible recent other c \<and> fold (select_oldest recent other) cs m = fst c))"
proof (induction cs arbitrary: m)
  case (Cons c cs)
  define m1 where "m1 = select_oldest recent other c m"
  have m1: "m1 \<le> m" "eligible recent other c \<Longrightarrow> m1 \<le> fst c" "m1 = m \<or> eligible recent other c \<and> m1 = fst c"
    by (auto simp: m1_def select_oldest_def eligible_def not_le)
  note ih = Cons.IH [of m1]
  have "fold (select_oldest recent other) (c # cs) m = fold (select_oldest recent other) cs m1" by (simp add: m1_def)
  then show ?case using ih m1 by (auto intro: order_trans)
qed simp

lemma scan_least:
  "c \<in> set (candidates q) \<Longrightarrow> eligible (q_lastOwner q) other c \<Longrightarrow> scan q other \<le> fst c"
  using select_fold unfolding scan_def by blast

lemma scan_found:
  "scan q other \<noteq> UINT64_MAX \<Longrightarrow>
   \<exists>c \<in> set (candidates q). eligible (q_lastOwner q) other c \<and> scan q other = fst c"
  using select_fold [of "q_lastOwner q" other "candidates q" UINT64_MAX] unfolding scan_def by blast

lemma below_max: "(w :: u64) \<le> UINT64_MAX"
  using unat_u64 [of w] by (simp add: word_le_nat_alt UINT64_MAX_def)



definition empty_queues :: smb_queues where
  "empty_queues = snd (allocateAsyncIoStorage (\<lambda>i. True)
     \<lparr>q_reads = [], q_writes = [], q_queued = [], q_directories = [], q_creates = [], q_closes = [],
      q_activeRead = 0, q_activeWrite = 0, q_activeDirectory = 0, q_activeCreate = 0, q_activeClose = 0,
      q_readCount = 0, q_writeCount = 0, q_queuedCount = 0, q_directoryCount = 0, q_createCount = 0,
      q_closeCount = 0, q_buffers = [], q_sequence = 0, q_lastOwner = 0, q_continuationOwner = 0,
      q_continuationUntilMs = 0\<rparr>)"

lemmas empty_queues_simps = empty_queues_def allocateAsyncIoStorage_def releaseAsyncIoStorage_def resetAsyncIo_def
  kAsyncIoQueueDepth_def kHandleCount_def

subsection \<open>A turn nobody can take\<close>

lemma ready_loop_other:
  "(\<forall>p \<in> set ps. ao_used p \<longrightarrow> ao_sequence p \<noteq> sequence) \<Longrightarrow> ready_loop hs sequence i ps best = fst best"
  by (induction ps arbitrary: i) auto

text \<open>
  The choice counts the reads that wait in the list, but a read can leave the list only when the one
  slot for reads is free. If an owner has had the last turn, the slot is taken by its read, and
  the only other owner has a waiting read, then the turn goes to the waiting read, which cannot be
  started; and since nothing is started, the last owner stays the same. Both readers wait for ever.
\<close>

lemma waiting_read_stalls:
  assumes "\<not> in_continuation now q" "q_readCount q \<ge> kAsyncReadServiceDepth" "q_lastOwner q \<noteq> 0"
    and "\<forall>c \<in> set (op_candidates (q_reads q) @ op_candidates (q_writes q) @ vfs_candidates (q_directories q) @
      vfs_candidates (q_creates q) @ vfs_candidates (q_closes q)). snd c = q_lastOwner q"
    and "r \<in> set (q_queued q)" "qr_ownerId r \<noteq> q_lastOwner q" "qr_sequence r \<noteq> 0" "qr_sequence r \<noteq> UINT64_MAX"
    and "\<forall>p \<in> set (q_reads q). ao_used p \<longrightarrow> ao_sequence p \<notin> qr_sequence ` set (q_queued q)"
    and "\<forall>p \<in> set (q_writes q). ao_used p \<longrightarrow> ao_sequence p \<notin> qr_sequence ` set (q_queued q)"
    and "s = nextAsyncVfsServiceSequence now hs q"
  shows "s \<in> qr_sequence ` set (q_queued q) \<and> findReadyAsyncRead hs s q = -1 \<and> findReadyAsyncWrite hs s q = -1 \<and>
    promoteQueuedReads sent now hs q = ([], q)"
proof -
  have "(qr_sequence r, qr_ownerId r) \<in> set (candidates q)"
    using assms(5) by (auto simp: candidates_def queued_candidates_def)
  then have "scan q True \<le> qr_sequence r"
    using scan_least [of "(qr_sequence r, qr_ownerId r)" q True] assms(6,7) by (simp add: eligible_def)
  with assms(8) below_max have max: "scan q True \<noteq> UINT64_MAX" by (metis order_antisym)
  with assms(1,3,11) have s: "s = scan q True" by (simp add: nextAsyncVfsServiceSequence_def)
  from scan_found [OF max] s obtain c where c: "c \<in> set (candidates q)" "snd c \<noteq> q_lastOwner q" "s = fst c"
    by (auto simp: eligible_def)
  with assms(4) have "c \<in> set (queued_candidates (q_queued q))" by (auto simp: candidates_def)
  with c(3) have queued: "s \<in> qr_sequence ` set (q_queued q)" by (auto simp: queued_candidates_def)
  have "ready_loop hs s 0 (q_reads q) (-1, UINT64_MAX) = -1" "ready_loop hs s 0 (q_writes q) (-1, UINT64_MAX) = -1"
    using assms(9,10) queued by (subst ready_loop_other; auto)+
  moreover have "allocateAsyncRead q = None" using assms(2) by (simp add: allocateAsyncRead_def)
  ultimately show ?thesis using queued
    by (subst promoteQueuedReads.simps) (auto simp: findReadyAsyncRead_def findReadyAsyncWrite_def split: list.split)
qed

text \<open>Two clients that read: the state is reached by two requests and one window of the first.\<close>

definition client_b :: smb_context where
  "client_b = \<lparr>cx_address = 8192, cx_opaque = 6, cx_session = 78, cx_tree = 4\<rparr>"

definition two_files :: "smb_handle list" where
  "two_files = st_handles (snd (snd (allocateHandle (Some client_b) 4 0
     (snd (snd (allocateHandle (Some client_a) 3 0 empty_tables))))))"

definition two_readers :: smb_queues where
  "two_readers = snd (submit_read True 0 two_files client_b 11 1 1 0 65536
     (snd (submit_read True 0 two_files client_a 10 0 0xFFFFFFFF 0 65536 empty_queues)))\<lparr>q_lastOwner := 5\<rparr>"

lemma eight: "replicate 8 x = [x, x, x, x, x, x, x, x]" "[0..<8] = [0, 1, 2, 3, 4, 5, 6, 7]"
  by (simp_all add: eval_nat_numeral upt_rec)

lemma two_readers_state:
  "two_readers = empty_queues\<lparr>q_sequence := 2, q_lastOwner := 5, q_readCount := 1, q_queuedCount := 1,
     q_reads := (replicate 8 zero_read)[0 := no_read\<lparr>ao_used := True, ao_context := Some 4096, ao_ownerId := 5,
       ao_messageId := 10, ao_sequence := 1, ao_slot := 0, ao_generation := 0xFFFFFFFF, ao_length := 65536\<rparr>],
     q_queued := [\<lparr>qr_context = Some 8192, qr_ownerId = 6, qr_pendingSent = False, qr_messageId = 11, qr_sequence = 2,
       qr_slot = 1, qr_generation = 1, qr_offset = 0, qr_length = 65536, qr_requestStartedMs = 0\<rparr>]\<rparr>"
proof -
  have "hd_ownerId (two_files ! 0) = 5" by code_simp
  then show ?thesis
    by (simp add: two_readers_def submit_read_def nextAsyncVfsSequence_def allocateAsyncRead_def enqueueAsyncRead_def
      beginAsyncRead_def empty_queues_simps eight free_slot_def zero_read_def zero_write_def no_read_def no_write_def
      async_op.extend_def client_a_def client_b_def contextOwnerId_def kAsyncReadServiceDepth_def Let_def)
qed

text \<open>Neither of the two reads can go on, although the first has its slot and nothing is active.\<close>

lemma two_readers_stall:
  "\<exists>s. s = nextAsyncVfsServiceSequence 0 two_files two_readers \<and> physical_idle two_readers \<and>
     ao_used (q_reads two_readers ! 0) \<and> findReadyAsyncRead two_files s two_readers = -1 \<and>
     findReadyAsyncWrite two_files s two_readers = -1 \<and>
     promoteQueuedReads sent 0 two_files two_readers = ([], two_readers)"
proof -
  have idle: "\<not> in_continuation 0 two_readers"
    by (simp add: two_readers_state in_continuation_def empty_queues_simps)
  have counts: "q_readCount two_readers \<ge> kAsyncReadServiceDepth" "q_lastOwner two_readers \<noteq> 0"
    by (simp_all add: two_readers_state kAsyncReadServiceDepth_def)
  have waiting: "q_queued two_readers \<noteq> []" by (simp add: two_readers_state)
  have other: "qr_ownerId (hd (q_queued two_readers)) \<noteq> q_lastOwner two_readers"
    "qr_sequence (hd (q_queued two_readers)) \<noteq> 0" "qr_sequence (hd (q_queued two_readers)) \<noteq> UINT64_MAX"
    by (simp_all add: two_readers_state UINT64_MAX_def)
  have owners: "\<forall>c \<in> set (op_candidates (q_reads two_readers) @ op_candidates (q_writes two_readers) @
      vfs_candidates (q_directories two_readers) @ vfs_candidates (q_creates two_readers) @
      vfs_candidates (q_closes two_readers)). snd c = q_lastOwner two_readers"
    by (simp add: two_readers_state empty_queues_simps eight op_candidates_def vfs_candidates_def live_op_def live_vfs_def
      zero_read_def zero_write_def zero_vfs_op_def no_read_def no_write_def async_op.extend_def)
  have numbers: "\<forall>p \<in> set (q_reads two_readers). ao_used p \<longrightarrow> ao_sequence p \<notin> qr_sequence ` set (q_queued two_readers)"
    "\<forall>p \<in> set (q_writes two_readers). ao_used p \<longrightarrow> ao_sequence p \<notin> qr_sequence ` set (q_queued two_readers)"
    by (simp_all add: two_readers_state empty_queues_simps eight zero_read_def zero_write_def no_read_def no_write_def
      async_op.extend_def)
  have "physical_idle two_readers" "ao_used (q_reads two_readers ! 0)"
    by (simp_all add: two_readers_state physical_idle_def empty_queues_simps eight)
  with waiting_read_stalls [OF idle counts owners list.set_sel(1) [OF waiting] other numbers refl]
  show ?thesis by blast
qed

subsection \<open>Slots and buffers\<close>



lemma filter_length_bound: "length xs = n \<Longrightarrow> length (filter p xs) \<le> n"
  using length_filter_le [of p xs] by simp






























end
