(* ===== verification/WcuState.thy ===== *)
theory WcuState
  imports GithubTree SmbPaths VfsBridge "HOL-Library.Monad_Syntax"
begin

text \<open>
  \<open>src/wc_updater.cpp\<close>, first part: the state of the Wild Commander updater, its table of files,
  its settings and the events it sends to the plugin. Everything outside the class is a record
  of functions on a world \<open>'w\<close>: the bridge to the card, the HTTPS client, the clock, the
  allocator, the event sink and the stop flag that another task sets. A C string of file names
  is the list of its bytes, texts for the screen are HOL strings cut to the size of their
  buffers, and a run that does not end is \<open>None\<close>.
\<close>

subsection \<open>The world outside\<close>

record 'w wcu_env =
  en_submit :: "VfsOperation \<Rightarrow> bytes option \<Rightarrow> u32 \<Rightarrow> 'w \<Rightarrow> bool \<times> 'w"
  en_submitRename :: "bytes \<Rightarrow> bytes \<Rightarrow> bool \<Rightarrow> 'w \<Rightarrow> bool \<times> 'w"
  en_submitMoveRename :: "bytes \<Rightarrow> bytes \<Rightarrow> bool \<Rightarrow> bool \<Rightarrow> 'w \<Rightarrow> bool \<times> 'w"
  en_takeResult :: "'w \<Rightarrow> vfs_result option \<times> 'w"
  en_waitForResult :: "u32 \<Rightarrow> 'w \<Rightarrow> 'w"
  en_reclaim :: "u32 \<Rightarrow> 'w \<Rightarrow> bool \<times> 'w"
  en_vfsToNetworkAvailable :: "'w \<Rightarrow> nat"
  en_networkToVfsAvailable :: "'w \<Rightarrow> nat"
  en_networkToVfsFree :: "'w \<Rightarrow> nat"
  en_ringCapacity :: "'w \<Rightarrow> nat"
  en_readForNetwork :: "nat \<Rightarrow> 'w \<Rightarrow> bytes \<times> 'w"
  en_writeFromNetwork :: "bytes \<Rightarrow> 'w \<Rightarrow> nat \<times> 'w"
  en_get :: "string \<Rightarrow> bytes \<Rightarrow> nat \<Rightarrow> 'w \<Rightarrow> (bool \<times> bytes \<times> u16 \<times> string) \<times> 'w"
  en_alloc :: "nat \<Rightarrow> 'w \<Rightarrow> bool \<times> 'w"
  en_millis :: "'w \<Rightarrow> u32"
  en_stop :: "'w \<Rightarrow> bool \<times> 'w"
  en_sink :: "(u8 \<Rightarrow> bytes \<Rightarrow> 'w \<Rightarrow> bool \<times> 'w) option"

text \<open>
  \<open>en_get host path capacity\<close> answers with its success, the body (at most \<open>capacity\<close> bytes, the
  length is that of the list), the HTTP status and the text of a failure; \<open>en_alloc\<close> is
  \<open>allocateLarge\<close>, and a null sink is \<open>None\<close>.
\<close>

subsection \<open>Files, phases and limits\<close>

datatype WcStatus = kUnknown | kSame | kDifferent | kNew | kLocalOnly | kKeptSame | kKeptDifferent
  | kReadError | kUpdated | kFailed

primrec status_code :: "WcStatus \<Rightarrow> u8" where
  "status_code kUnknown = 0"
| "status_code kSame = 1"
| "status_code kDifferent = 2"
| "status_code kNew = 3"
| "status_code kLocalOnly = 4"
| "status_code kKeptSame = 5"
| "status_code kKeptDifferent = 6"
| "status_code kReadError = 7"
| "status_code kUpdated = 8"
| "status_code kFailed = 9"

datatype WcPhase = kGithub | kLocal | kCheck | kReady | kApply | kSync | kError

primrec phase_code :: "WcPhase \<Rightarrow> u8" where
  "phase_code kGithub = 1"
| "phase_code kLocal = 2"
| "phase_code kCheck = 3"
| "phase_code kReady = 4"
| "phase_code kApply = 5"
| "phase_code kSync = 6"
| "phase_code kError = 0xFF"

record WcFile =
  wf_path :: bytes
  wf_sha :: bytes
  wf_remoteSize :: u32
  wf_localSize :: u32
  wf_remote :: bool
  wf_local :: bool
  wf_kept :: bool
  wf_status :: WcStatus
  wf_reason :: string

definition kMaxFiles :: nat where "kMaxFiles = 96"
definition kMaxProtected :: nat where "kMaxProtected = 8"
definition kMaxDirectories :: nat where "kMaxDirectories = 16"
definition kMaxJson :: nat where "kMaxJson = 64 * 1024"
definition kMaxFileSize :: u32 where "kMaxFileSize = 1024 * 1024"
definition kDownloadAttempts :: nat where "kDownloadAttempts = 3"
definition kWriteAttempts :: nat where "kWriteAttempts = 3"
definition kTempName :: bytes where "kTempName = bytes_of ''WCUPD.TMP''"
definition kAsideName :: bytes where "kAsideName = bytes_of ''WCUPD.OLD''"
definition kMoveUnsupported :: u8 where "kMoveUnsupported = 0xFE"
definition kFilexCommittedCleanup :: u8 where "kFilexCommittedCleanup = 0x25"
definition kProgressIntervalMs :: u32 where "kProgressIntervalMs = 250"
definition kVfsNormalWaitMs :: u32 where "kVfsNormalWaitMs = 15000"
definition kVfsMutateWaitMs :: u32 where "kVfsMutateWaitMs = 70000"
definition kVfsCloseWaitMs :: u32 where "kVfsCloseWaitMs = 190000"
definition kMaxEventPayload :: nat where "kMaxEventPayload = 63"
definition kEventWcuState :: u8 where "kEventWcuState = 0x67"
definition kEventWcuEntry :: u8 where "kEventWcuEntry = 0x68"
definition kApiHost :: string where "kApiHost = ''api.github.com''"
definition kRawHost :: string where "kRawHost = ''raw.githubusercontent.com''"
definition kLeftoverReason :: string where "kLeftoverReason = ''CHKDSK: old WCUPD.* in folder''"

text \<open>
  The object. \<open>wu_files\<close> holds the first \<open>fileCount_\<close> entries of the table and
  \<open>wu_directories\<close> the first \<open>directoryCount_\<close> directories; the flags are the arrays.
\<close>

record 'w wcu =
  wu_world :: 'w
  wu_table :: bool
  wu_diskSuspect :: bool
  wu_listTruncated :: bool
  wu_leftoverSeen :: bool
  wu_files :: "WcFile list"
  wu_repo :: bytes
  wu_branch :: bytes
  wu_directory :: bytes
  wu_protected :: "bytes list"
  wu_commit :: bytes
  wu_error :: string
  wu_directories :: "bytes list"
  wu_leftover :: "bool list"
  wu_present :: "bool list"
  wu_statePhase :: WcPhase
  wu_stateCurrent :: u16
  wu_stateTotal :: u16
  wu_stateText :: string
  wu_progressTotal :: u32
  wu_progressDone :: u32
  wu_progressPercent :: u8
  wu_progressSentMs :: u32

definition WcUpdater_init :: "bool \<Rightarrow> 'w \<Rightarrow> 'w wcu" where
  "WcUpdater_init table w =
     \<lparr>wu_world = w, wu_table = table, wu_diskSuspect = False, wu_listTruncated = False, wu_leftoverSeen = False,
      wu_files = [], wu_repo = [], wu_branch = [], wu_directory = [], wu_protected = [], wu_commit = [],
      wu_error = '''', wu_directories = [], wu_leftover = replicate kMaxDirectories False,
      wu_present = replicate kMaxDirectories False, wu_statePhase = kGithub, wu_stateCurrent = 0,
      wu_stateTotal = 0, wu_stateText = '''', wu_progressTotal = 0, wu_progressDone = 0,
      wu_progressPercent = 0, wu_progressSentMs = 0\<rparr>"

text \<open>A call of the world.\<close>

definition world :: "('w \<Rightarrow> 'a \<times> 'w) \<Rightarrow> 'w wcu \<Rightarrow> 'a \<times> 'w wcu" where
  "world f s = (let (r, w) = f (wu_world s) in (r, s\<lparr>wu_world := w\<rparr>))"

definition set_error :: "string \<Rightarrow> 'w wcu \<Rightarrow> 'w wcu" where
  "set_error text s = s\<lparr>wu_error := take 95 text\<rparr>"

subsection \<open>Names\<close>

fun equalNoCase :: "bytes \<Rightarrow> bytes \<Rightarrow> bool" where
  "equalNoCase (a # left) (b # right) = (if toupper a \<noteq> toupper b then False else equalNoCase left right)"
| "equalNoCase left right = (left = [] \<and> right = [])"

definition alnum :: "u8 \<Rightarrow> bool" where
  "alnum c \<longleftrightarrow> (48 \<le> c \<and> c \<le> 57) \<or> (65 \<le> c \<and> c \<le> 90) \<or> (97 \<le> c \<and> c \<le> 122)"

definition safeName :: "bytes \<Rightarrow> bool \<Rightarrow> bool" where
  "safeName text allowSlash \<longleftrightarrow> text \<noteq> [] \<and>
     (\<forall>v \<in> set text. alnum v \<or> v = 45 \<or> v = 95 \<or> v = 46 \<or> (allowSlash \<and> v = 47))"

text \<open>\<open>strrchr\<close>: the position of the last occurrence.\<close>

fun strrchr :: "u8 \<Rightarrow> bytes \<Rightarrow> nat option" where
  "strrchr c [] = None"
| "strrchr c (x # xs) = (case strrchr c xs of Some i \<Rightarrow> Some (Suc i) | None \<Rightarrow> if x = c then Some 0 else None)"

definition base_name :: "bytes \<Rightarrow> bytes" where
  "base_name path = (case strrchr 47 path of None \<Rightarrow> path | Some i \<Rightarrow> drop (Suc i) path)"

definition localPath :: "bytes \<Rightarrow> bytes" where
  "localPath relative = 47 # relative"

fun url_loop :: "nat \<Rightarrow> bytes \<Rightarrow> bytes \<Rightarrow> bytes option" where
  "url_loop capacity used [] = Some used"
| "url_loop capacity used (v # rest) =
     (let plain = (alnum v \<or> v = 45 \<or> v = 95 \<or> v = 46 \<or> v = 126 \<or> v = 47);
          need = (if plain then 1 else 3)
      in if length used + need \<ge> capacity then None
         else url_loop capacity
                (used @ (if plain then [v]
                  else [37, bytes_of ''0123456789ABCDEF'' ! unat (drop_bit 4 v),
                        bytes_of ''0123456789ABCDEF'' ! unat (v AND 0x0F)])) rest)"

definition urlEncodePath :: "bytes \<Rightarrow> nat \<Rightarrow> bytes option" where
  "urlEncodePath path capacity = url_loop capacity [] path"

subsection \<open>Which files can be updated\<close>

definition updatable :: "WcStatus \<Rightarrow> bool" where
  "updatable status \<longleftrightarrow> status = kDifferent \<or> status = kNew \<or> status = kReadError \<or> status = kFailed"

definition canUpdate :: "WcFile \<Rightarrow> bool" where
  "canUpdate entry \<longleftrightarrow> wf_remote entry \<and> updatable (wf_status entry) \<and> (\<not> wf_kept entry \<or> \<not> wf_local entry)"

definition autoSelect :: "WcFile \<Rightarrow> bool" where
  "autoSelect entry \<longleftrightarrow>
     (if \<not> canUpdate entry then False
      else case strrchr 46 (wf_path entry) of
             None \<Rightarrow> False
           | Some dot \<Rightarrow>
               if (case strrchr 47 (wf_path entry) of None \<Rightarrow> False | Some slash \<Rightarrow> dot < slash) then False
               else let ext = drop dot (wf_path entry)
                    in equalNoCase ext (bytes_of ''.WMF'') \<or> equalNoCase ext (bytes_of ''.$C'') \<or>
                       equalNoCase ext (bytes_of ''.SPG''))"

subsection \<open>Settings\<close>

text \<open>The fields of the command: texts closed by zeros, up to an empty one; \<open>None\<close> is too many.\<close>

function fields_loop :: "bytes list \<Rightarrow> bytes \<Rightarrow> bytes list option" where
  "fields_loop found payload =
     (let field = takeWhile (\<lambda>c. c \<noteq> 0) payload
      in if length field = length payload \<or> field = [] then Some found
         else if length found = 3 + kMaxProtected then None
         else fields_loop (found @ [field]) (drop (Suc (length field)) payload))"
  by pat_completeness auto
termination
  by (relation "measure (length o snd)") (auto simp: takeWhile_eq_all_conv intro!: diff_less)

declare fields_loop.simps [simp del]

text \<open>The result is the text of the refusal, \<open>None\<close> when the settings are accepted.\<close>

definition configure :: "bytes \<Rightarrow> 'w wcu \<Rightarrow> string option \<times> 'w wcu" where
  "configure payload s =
     (case fields_loop [] payload of
        None \<Rightarrow> (Some ''too many fields'', s)
      | Some found \<Rightarrow>
          if \<not> wu_table s then (Some ''no memory'', s)
          else if length found < 3 \<or> 47 \<notin> set (found ! 0) \<or> \<not> safeName (found ! 0) True \<or>
                  \<not> safeName (found ! 1) True \<or> \<not> safeName (found ! 2) True \<or> length (found ! 0) \<ge> 96 \<or>
                  length (found ! 1) \<ge> 64 \<or> length (found ! 2) \<ge> 64
               then (Some ''bad repository'', s)
          else
            let given = drop 3 found;
                fitting = takeWhile (\<lambda>f. length f < kPathSize) given;
                s1 = s\<lparr>wu_repo := found ! 0, wu_branch := found ! 1, wu_directory := found ! 2,
                      wu_protected := fitting\<rparr>
            in if length fitting < length given then (Some ''bad protected path'', s1) else (None, s1))"

definition isProtected :: "bytes \<Rightarrow> 'w wcu \<Rightarrow> bool" where
  "isProtected path s \<longleftrightarrow> (\<exists>p \<in> set (wu_protected s). equalNoCase p path)"

fun find_file_loop :: "bytes \<Rightarrow> WcFile list \<Rightarrow> nat option" where
  "find_file_loop path [] = None"
| "find_file_loop path (f # fs) =
     (if equalNoCase (wf_path f) path then Some 0 else map_option Suc (find_file_loop path fs))"

definition findFile :: "bytes \<Rightarrow> 'w wcu \<Rightarrow> nat option" where
  "findFile path s = find_file_loop path (wu_files s)"

subsection \<open>Events\<close>

definition le16 :: "u16 \<Rightarrow> bytes" where
  "le16 v = [ucast v, ucast (drop_bit 8 v)]"

definition le24 :: "u32 \<Rightarrow> bytes" where
  "le24 val = (let v = (if val > 0xFFFFFF then 0xFFFFFF else val)
               in [ucast v, ucast (drop_bit 8 v), ucast (drop_bit 16 v)])"

definition emit :: "'w wcu_env \<Rightarrow> u8 \<Rightarrow> bytes \<Rightarrow> 'w wcu \<Rightarrow> bool \<times> 'w wcu" where
  "emit e command payload s = (case en_sink e of None \<Rightarrow> (True, s) | Some sink \<Rightarrow> world (sink command payload) s)"

definition sendState :: "'w wcu_env \<Rightarrow> WcPhase \<Rightarrow> u16 \<Rightarrow> u16 \<Rightarrow> string \<Rightarrow> 'w wcu \<Rightarrow> bool \<times> 'w wcu" where
  "sendState e phase current whole text s =
     (let s1 = s\<lparr>wu_statePhase := phase, wu_stateCurrent := current, wu_stateTotal := whole,
                 wu_stateText := take 63 text, wu_progressSentMs := en_millis e (wu_world s)\<rparr>;
          payload = phase_code phase # le16 current @ le16 whole @ [wu_progressPercent s1] @
            take (kMaxEventPayload - 6) (bytes_of (wu_stateText s1))
      in emit e kEventWcuState payload s1)"

definition wcu_fail :: "'w wcu_env \<Rightarrow> string \<Rightarrow> 'w wcu \<Rightarrow> 'w wcu" where
  "wcu_fail e text s = (let s1 = set_error text s in snd (sendState e kError 0 0 (wu_error s1) s1))"

definition beginProgress :: "u32 \<Rightarrow> 'w wcu \<Rightarrow> 'w wcu" where
  "beginProgress totalBytes s = s\<lparr>wu_progressTotal := totalBytes, wu_progressDone := 0, wu_progressPercent := 0\<rparr>"

definition addProgress :: "'w wcu_env \<Rightarrow> u32 \<Rightarrow> 'w wcu \<Rightarrow> 'w wcu" where
  "addProgress e count s =
     (let s1 = s\<lparr>wu_progressDone := wu_progressDone s + count\<rparr>
      in if wu_progressTotal s1 = 0 then s1
         else
           let full = (unat (wu_progressDone s1) * 100 div unat (wu_progressTotal s1)) mod 2 ^ 32;
               percent = (if full > 100 then 100 else full);
               changed = (percent \<noteq> unat (wu_progressPercent s1));
               s2 = s1\<lparr>wu_progressPercent := of_nat percent\<rparr>
           in if \<not> changed \<or> en_millis e (wu_world s2) - wu_progressSentMs s2 < kProgressIntervalMs then s2
              else snd (sendState e (wu_statePhase s2) (wu_stateCurrent s2) (wu_stateTotal s2) (wu_stateText s2) s2))"

definition path_tail :: "nat \<Rightarrow> bytes \<Rightarrow> bytes" where
  "path_tail room path =
     (if length path > room then dropWhile (\<lambda>c. c AND 0xC0 = 0x80) (drop (length path - room) path) else path)"

definition entry_payload :: "nat \<Rightarrow> WcFile \<Rightarrow> bytes" where
  "entry_payload index entry =
     [of_nat index, status_code (wf_status entry),
      (if wf_remote entry then 1 else 0) OR (if wf_local entry then 2 else 0) OR (if wf_kept entry then 4 else 0) OR
      (if canUpdate entry then 8 else 0) OR (if autoSelect entry then 16 else 0)] @
     le24 (if wf_local entry then wf_localSize entry else 0) @
     le24 (if wf_remote entry then wf_remoteSize entry else 0) @ path_tail (kMaxEventPayload - 9) (wf_path entry)"

definition sendEntry :: "'w wcu_env \<Rightarrow> nat \<Rightarrow> 'w wcu \<Rightarrow> bool \<times> 'w wcu" where
  "sendEntry e index s = emit e kEventWcuEntry (entry_payload index (wu_files s ! index)) s"

definition decimal :: "nat \<Rightarrow> string" where
  "decimal n = dec_digits (int n)"

definition sendReady :: "'w wcu_env \<Rightarrow> 'w wcu \<Rightarrow> bool \<times> 'w wcu" where
  "sendReady e s0 =
     (let s = s0\<lparr>wu_progressPercent := 100\<rparr>;
          pending = length (filter canUpdate (wu_files s));
          failures = filter (\<lambda>f. wf_status f = kFailed) (wu_files s);
          short = chars_of (take 7 (wu_commit s));
          cut = (if wu_leftoverSeen s then '', CHKDSK: old WCUPD.*''
                 else if wu_listTruncated s then '', SD list cut'' else '''');
          whole = of_nat (length (wu_files s))
      in if failures \<noteq> [] then
           (let reason = wf_reason (last failures);
                remark = (if sublist ''CHKDSK'' reason then ''''
                          else if wu_leftoverSeen s then '', CHKDSK''
                          else if wu_listTruncated s then '', list cut'' else '''')
            in sendState e kReady (of_nat pending) whole
                 (decimal pending @ '' to update, '' @ decimal (length failures) @ '' failed'' @ remark @ '': '' @ reason) s)
         else if pending = 0 then sendState e kReady 0 whole (''All files match GitHub '' @ short @ cut) s
         else sendState e kReady (of_nat pending) whole
                (decimal pending @ '' to update from GitHub '' @ short @ cut) s)"

fun resend_loop :: "'w wcu_env \<Rightarrow> nat list \<Rightarrow> 'w wcu \<Rightarrow> bool \<times> 'w wcu" where
  "resend_loop e [] s = (True, s)"
| "resend_loop e (i # is) s =
     (let (ok, s1) = sendEntry e i s in if \<not> ok then (False, s1) else resend_loop e is s1)"

definition resend :: "'w wcu_env \<Rightarrow> 'w wcu \<Rightarrow> bool \<times> 'w wcu" where
  "resend e s =
     (let marker = phase_code kSync # le16 0 @ le16 (of_nat (length (wu_files s))) @ [wu_progressPercent s];
          (ok, s1) = emit e kEventWcuState marker s
      in if \<not> ok then (False, s1)
         else let (ok2, s2) = resend_loop e [0..<length (wu_files s1)] s1
              in if \<not> ok2 then (False, s2)
                 else sendState e (wu_statePhase s2) (wu_stateCurrent s2) (wu_stateTotal s2) (wu_stateText s2) s2)"

subsection \<open>Directories of the list\<close>

fun directory_loop :: "bytes \<Rightarrow> bytes list \<Rightarrow> nat option" where
  "directory_loop dir [] = None"
| "directory_loop dir (d # ds) = (if equalNoCase d dir then Some 0 else map_option Suc (directory_loop dir ds))"

definition directoryIndex :: "bytes \<Rightarrow> nat \<Rightarrow> 'w wcu \<Rightarrow> nat option" where
  "directoryIndex dir len s = directory_loop (take len dir) (wu_directories s)"

definition directoryOf :: "bytes \<Rightarrow> 'w wcu \<Rightarrow> nat option" where
  "directoryOf relativeFile s =
     directoryIndex relativeFile (case strrchr 47 relativeFile of None \<Rightarrow> 0 | Some i \<Rightarrow> i) s"

definition leftoverIn :: "bytes \<Rightarrow> 'w wcu \<Rightarrow> bool" where
  "leftoverIn relativeFile s =
     (case directoryOf relativeFile s of None \<Rightarrow> False | Some i \<Rightarrow> wu_leftover s ! i)"

definition markLeftover :: "bytes \<Rightarrow> 'w wcu \<Rightarrow> 'w wcu" where
  "markLeftover relativeFile s =
     (case directoryOf relativeFile s of None \<Rightarrow> s | Some i \<Rightarrow> s\<lparr>wu_leftover := (wu_leftover s)[i := True]\<rparr>)
     \<lparr>wu_leftoverSeen := True\<rparr>"

end
