(* ===== verification/WcuCard.thy ===== *)
theory WcuCard
  imports WcuState
begin

text \<open>
  \<open>src/wc_updater.cpp\<close>, second part: the requests to the card. Every request goes through the
  bridge and waits for its result; the replacement of a file by its verified copy, reading a
  file back as its git name, writing the copy and creating directories are built from them.
\<close>

subsection \<open>One request\<close>

partial_function (option) await_loop :: "'w wcu_env \<Rightarrow> u32 \<Rightarrow> u32 \<Rightarrow> 'w wcu \<Rightarrow> (vfs_result option \<times> 'w wcu) option" where
  "await_loop e started timeoutMs s =
     (if en_millis e (wu_world s) - started < timeoutMs
      then (case world (en_takeResult e) s of
              (Some r, s1) \<Rightarrow> Some (Some r, if \<not> rs_success r then set_error (rs_error r) s1 else s1)
            | (None, s1) \<Rightarrow>
                await_loop e started timeoutMs (s1\<lparr>wu_world := en_waitForResult e 1 (wu_world s1)\<rparr>))
      else Some (None, s))"

text \<open>\<open>result\<close> is what the caller's structure holds before.\<close>

definition awaitVfs :: "'w wcu_env \<Rightarrow> vfs_result \<Rightarrow> u32 \<Rightarrow> 'w wcu \<Rightarrow> (bool \<times> vfs_result \<times> 'w wcu) option" where
  "awaitVfs e result timeoutMs s =
     do { (taken, s1) \<leftarrow> await_loop e (en_millis e (wu_world s)) timeoutMs s;
          case taken of
            Some r \<Rightarrow> Some (rs_success r, r, s1)
          | None \<Rightarrow> Some (False, result, snd (world (en_reclaim e kVfsCloseWaitMs) (set_error ''vfs timeout'' s1))) }"

definition vfs :: "'w wcu_env \<Rightarrow> VfsOperation \<Rightarrow> bytes option \<Rightarrow> u32 \<Rightarrow> u32 \<Rightarrow> 'w wcu \<Rightarrow>
    (bool \<times> vfs_result \<times> 'w wcu) option" where
  "vfs e operation path val timeoutMs s =
     (let (ok, s1) = world (en_submit e operation path val) s
      in if \<not> ok then Some (False, zero_result, set_error ''vfs busy'' s1)
         else awaitVfs e zero_result timeoutMs s1)"

definition quietVfs :: "'w wcu_env \<Rightarrow> VfsOperation \<Rightarrow> bytes option \<Rightarrow> u32 \<Rightarrow> 'w wcu \<Rightarrow> (bool \<times> 'w wcu) option" where
  "quietVfs e operation path timeoutMs s =
     do { (ok, result, s1) \<leftarrow> vfs e operation path 0 timeoutMs s; Some (ok, s1\<lparr>wu_error := wu_error s\<rparr>) }"

definition renameEntry :: "'w wcu_env \<Rightarrow> bytes \<Rightarrow> bytes \<Rightarrow> 'w wcu \<Rightarrow> (bool \<times> 'w wcu) option" where
  "renameEntry e oldPath newName s =
     (let (ok, s1) = world (en_submitRename e oldPath newName False) s
      in if \<not> ok then Some (False, set_error ''vfs busy'' s1)
         else do { (done1, result, s2) \<leftarrow> awaitVfs e zero_result kVfsMutateWaitMs s1; Some (done1, s2) })"

subsection \<open>Replacing a file by its copy\<close>

datatype Replace = ReplaceDone | ReplaceUntouched | ReplaceUnknown

text \<open>
  The way for a card without FILEX MOVE. The old file is put aside, the copy takes its name, and
  only then the old file is deleted.
\<close>

definition renameReplace ::
    "'w wcu_env \<Rightarrow> bytes \<Rightarrow> bytes \<Rightarrow> bytes \<Rightarrow> bytes \<Rightarrow> bytes \<Rightarrow> bool \<Rightarrow> 'w wcu \<Rightarrow> (Replace \<times> 'w wcu) option" where
  "renameReplace e tempPath finalPath finalName asidePath relativeFile keepExisting s =
     do { (exists, result, s1) \<leftarrow> vfs e kStat (Some finalPath) 0 kVfsNormalWaitMs s;
          if \<not> exists \<and> rs_error result \<noteq> ''stat-1'' then Some (ReplaceUntouched, set_error ''SD: cannot stat file'' s1)
          else if exists \<and> keepExisting then Some (ReplaceUntouched, set_error ''protected file is on SD'' s1)
          else do {
            (stop, s2) \<leftarrow>
              (if \<not> exists then Some (None, s1)
               else do {
                 (old, probe, s2) \<leftarrow> vfs e kStat (Some asidePath) 0 kVfsNormalWaitMs s1;
                 if old then Some (Some ReplaceUntouched, set_error kLeftoverReason (markLeftover relativeFile s2))
                 else if rs_error probe \<noteq> ''stat-1''
                 then Some (Some ReplaceUntouched, set_error (''SD: cannot stat '' @ chars_of kAsideName) s2)
                 else do {
                   (moved, s3) \<leftarrow> renameEntry e finalPath kAsideName s2;
                   if \<not> moved then Some (Some ReplaceUnknown, set_error ''rename failed: CHKDSK'' s3)
                   else Some (None, s3) } });
            case stop of Some verdict \<Rightarrow> Some (verdict, s2)
            | None \<Rightarrow> do {
                (placed, s3) \<leftarrow> renameEntry e tempPath finalName s2;
                if \<not> placed
                then do {
                  s4 \<leftarrow> (if exists then map_option snd (renameEntry e asidePath finalName s3) else Some s3);
                  Some (ReplaceUnknown, set_error ''rename failed: CHKDSK'' s4) }
                else if exists
                then do {
                  (removed, s4) \<leftarrow> quietVfs e kDelete (Some asidePath) kVfsMutateWaitMs s3;
                  Some (ReplaceDone, if \<not> removed then markLeftover relativeFile s4 else s4) }
                else Some (ReplaceDone, s3) } } }"

definition vfsReplace ::
    "'w wcu_env \<Rightarrow> bytes \<Rightarrow> bytes \<Rightarrow> bytes \<Rightarrow> bytes \<Rightarrow> bytes \<Rightarrow> bool \<Rightarrow> 'w wcu \<Rightarrow> (Replace \<times> 'w wcu) option" where
  "vfsReplace e tempPath finalPath finalName asidePath relativeFile keepExisting s =
     (let (ok, s1) = world (en_submitMoveRename e tempPath finalPath False (\<not> keepExisting)) s
      in if \<not> ok then Some (ReplaceUntouched, set_error ''vfs busy'' s1)
         else do {
           (moved, result, s2) \<leftarrow> awaitVfs e zero_result kVfsMutateWaitMs s1;
           if moved \<or> rs_status result = kFilexCommittedCleanup then Some (ReplaceDone, s2)
           else if rs_status result = kMoveUnsupported
           then renameReplace e tempPath finalPath finalName asidePath relativeFile keepExisting s2
           else if rs_status result = 1 \<or> (rs_status result \<ge> 0x10 \<and> rs_status result \<le> 0x1D)
           then Some (ReplaceUntouched, set_error (''replace refused: '' @ rs_error result) s2)
           else Some (ReplaceUnknown, set_error (''check the disk: replace '' @ rs_error result) s2) })"

subsection \<open>Reading a file as its git name\<close>

definition Sha1_new :: sha1 where
  "Sha1_new = \<lparr>sh_state = sha_init, sh_length = 0, sh_buffer = replicate 64 0, sh_used = 0\<rparr>"

definition chunk_size :: nat where "chunk_size = 1024"

text \<open>The loop of \<open>hashLocal\<close>, with the bytes hashed so far.\<close>

partial_function (option) hash_loop :: "'w wcu_env \<Rightarrow> u32 \<Rightarrow> sha1 \<Rightarrow> u32 \<Rightarrow> 'w wcu \<Rightarrow> (bool \<times> sha1 \<times> 'w wcu) option" where
  "hash_loop e len sha count s =
     (if \<not> count < len then Some (True, sha, s)
      else let (stop, s1) = world (en_stop e) s
        in if stop then Some (False, sha, s1)
           else do {
             (go, s2) \<leftarrow>
               (if en_vfsToNetworkAvailable e (wu_world s1) = 0
                then do {
                  let wanted = (if unat (len - count) < kMaxPumpPerRequest then len - count
                                else of_nat kMaxPumpPerRequest);
                  (ok, result, s2) \<leftarrow> vfs e kRead None wanted kVfsNormalWaitMs s1;
                  Some (ok \<and> rs_transferred result \<noteq> 0, s2) }
                else Some (True, s1));
             if \<not> go then Some (False, sha, s2)
             else
               let available = en_vfsToNetworkAvailable e (wu_world s2);
                   wanted = (if available < chunk_size then available else chunk_size);
                   (data, s3) = world (en_readForNetwork e wanted) s2
               in if data = [] \<or> count + of_nat (length data) > len then Some (False, sha, s3)
                  else do {
                    sha1 \<leftarrow> sha_update sha (Some data);
                    hash_loop e len sha1 (count + of_nat (length data)) (addProgress e (of_nat (length data)) s3) } })"

text \<open>The part of \<open>hashLocal\<close> from the opened file on.\<close>

definition hash_open :: "'w wcu_env \<Rightarrow> u32 \<Rightarrow> 'w wcu \<Rightarrow> (bytes option \<times> 'w wcu) option" where
  "hash_open e len s =
     do { sha \<leftarrow> gitBlobBegin Sha1_new len;
          (ok, sha1, s1) \<leftarrow> hash_loop e len sha 0 s;
          (closed, s2) \<leftarrow>
            (if ok then map_option (\<lambda>(c, r, t). (c, t)) (vfs e kCloseCommit None 0 kVfsCloseWaitMs s1)
             else quietVfs e kCloseCommit None kVfsCloseWaitMs s1);
          if \<not> ok \<or> \<not> closed then Some (None, s2)
          else do { (sha2, digest) \<leftarrow> sha_finish sha1; Some (Some digest, s2) } }"

text \<open>The digest of the file at \<open>path\<close> with the given length, \<open>None\<close> when it cannot be read.\<close>

definition hashLocal :: "'w wcu_env \<Rightarrow> bytes \<Rightarrow> u32 \<Rightarrow> 'w wcu \<Rightarrow> (bytes option \<times> 'w wcu) option" where
  "hashLocal e path len s =
     do { (found, stat, s1) \<leftarrow> vfs e kStat (Some path) 0 kVfsNormalWaitMs s;
          if \<not> found then Some (None, s1)
          else if rs_isDirectory stat \<or> rs_size stat \<noteq> len
          then Some (None, set_error (''SD size '' @ decimal (unat (rs_size stat)) @ '', expected '' @
                 decimal (unat len)) s1)
          else do {
            (reset, r2, s2) \<leftarrow> vfs e kResetBuffers None 0 kVfsNormalWaitMs s1;
            if \<not> reset then Some (None, s2)
            else do {
              (opened, r3, s3) \<leftarrow> vfs e kOpenRead (Some path) 0 kVfsNormalWaitMs s2;
              if \<not> opened then Some (None, s3) else hash_open e len s3 } } }"

subsection \<open>Writing the copy\<close>

partial_function (option) fill_loop :: "'w wcu_env \<Rightarrow> bytes \<Rightarrow> nat \<Rightarrow> 'w wcu \<Rightarrow> (nat \<times> 'w wcu) option" where
  "fill_loop e data offset s =
     (let free = en_networkToVfsFree e (wu_world s)
      in if \<not> (offset < length data \<and> free \<noteq> 0) then Some (offset, s)
         else
           let part = (if length data - offset < free then length data - offset else free);
               (written, s1) = world (en_writeFromNetwork e (take part (drop offset data))) s
           in if written = 0 then Some (offset, s1) else fill_loop e data (offset + written) s1)"

partial_function (option) write_data_loop ::
    "'w wcu_env \<Rightarrow> bytes \<Rightarrow> nat \<Rightarrow> nat \<Rightarrow> 'w wcu \<Rightarrow> (bool \<times> 'w wcu) option" where
  "write_data_loop e data window offset s =
     (if \<not> (offset < length data \<or> en_networkToVfsAvailable e (wu_world s) \<noteq> 0) then Some (True, s)
      else let (stop, s1) = world (en_stop e) s
        in if stop then Some (False, s1)
           else do {
             (offset1, s2) \<leftarrow> fill_loop e data offset s1;
             let queued = en_networkToVfsAvailable e (wu_world s2);
             if queued < window \<and> offset1 < length data then write_data_loop e data window offset1 s2
             else do {
               let wanted = of_nat (if queued < kMaxPumpPerRequest then queued else kMaxPumpPerRequest);
               (ok, result, s3) \<leftarrow> vfs e kWrite None wanted kVfsMutateWaitMs s2;
               if \<not> ok \<or> rs_transferred result = 0 then Some (False, s3)
               else write_data_loop e data window offset1 (addProgress e (rs_transferred result) s3) } })"

text \<open>\<open>data\<close> is the buffer with its length; the second result is \<open>left\<close>.\<close>

definition writeLocal :: "'w wcu_env \<Rightarrow> bytes \<Rightarrow> bytes \<Rightarrow> 'w wcu \<Rightarrow> (bool \<times> bool \<times> 'w wcu) option" where
  "writeLocal e path data s =
     do { (reset, r1, s1) \<leftarrow> vfs e kResetBuffers None 0 kVfsNormalWaitMs s;
          if \<not> reset then Some (False, False, s1)
          else do {
            (opened, r2, s2) \<leftarrow> vfs e kOpenWrite (Some path) 0 kVfsMutateWaitMs s1;
            if \<not> opened then Some (False, False, s2)
            else do {
              let capacity = en_ringCapacity e (wu_world s2);
              (ok, s3) \<leftarrow> write_data_loop e data (if kMaxPumpPerRequest < capacity then kMaxPumpPerRequest else capacity) 0 s2;
              (closed, s4) \<leftarrow>
                (if ok then map_option (\<lambda>(c, r, t). (c, t)) (vfs e kCloseCommit None 0 kVfsCloseWaitMs s3)
                 else Some (False, s3));
              if closed then Some (True, True, s4)
              else do {
                (a, s5) \<leftarrow> quietVfs e kCloseAbort None kVfsCloseWaitMs s4;
                (deleted, s6) \<leftarrow> quietVfs e kDelete (Some path) kVfsMutateWaitMs s5;
                Some (False, \<not> deleted, s6) } } } }"

subsection \<open>Directories\<close>

text \<open>\<open>lengths\<close> are the positions of the slashes not looked at yet.\<close>

fun ensure_loop :: "'w wcu_env \<Rightarrow> bytes \<Rightarrow> nat list \<Rightarrow> 'w wcu \<Rightarrow> (bool \<times> 'w wcu) option" where
  "ensure_loop e relativeFile [] s = Some (True, s)"
| "ensure_loop e relativeFile (len # lengths) s =
     (let partial = 47 # take len relativeFile; folder = directoryIndex relativeFile len s
      in do {
        (found, result, s1) \<leftarrow> vfs e kStat (Some partial) 0 kVfsNormalWaitMs s;
        if found
        then if \<not> rs_isDirectory result then Some (False, set_error (chars_of partial @ '' is a file'') s1)
             else (case folder of
                     Some i \<Rightarrow>
                       if \<not> wu_present s1 ! i
                       then Some (False, set_error ''SD read errors: CHKDSK'' (s1\<lparr>wu_diskSuspect := True\<rparr>))
                       else ensure_loop e relativeFile lengths s1
                   | None \<Rightarrow> ensure_loop e relativeFile lengths s1)
        else do {
          (made, result2, s2) \<leftarrow> vfs e kMkdir (Some partial) 0 kVfsMutateWaitMs s1;
          if \<not> made then Some (False, set_error (''cannot create '' @ chars_of partial) s2)
          else ensure_loop e relativeFile lengths
                 (case folder of Some i \<Rightarrow> s2\<lparr>wu_present := (wu_present s2)[i := True]\<rparr> | None \<Rightarrow> s2) } })"

definition slashes :: "bytes \<Rightarrow> nat list" where
  "slashes path = filter (\<lambda>i. path ! i = 47) [0..<length path]"

definition ensureDirectory :: "'w wcu_env \<Rightarrow> bytes \<Rightarrow> 'w wcu \<Rightarrow> (bool \<times> 'w wcu) option" where
  "ensureDirectory e relativeFile s = ensure_loop e relativeFile (slashes relativeFile) s"

text \<open>Leftovers of an interrupted replacement, asked for by name.\<close>

fun probe_loop :: "'w wcu_env \<Rightarrow> nat \<Rightarrow> bytes \<Rightarrow> bytes list \<Rightarrow> 'w wcu \<Rightarrow> (bool \<times> 'w wcu) option" where
  "probe_loop e index folder [] s = Some (True, s)"
| "probe_loop e index folder (name # more_names) s =
     do { (found, result, s1) \<leftarrow> vfs e kStat (Some (folder @ name)) 0 kVfsNormalWaitMs s;
          if found
          then probe_loop e index folder more_names
                 (s1\<lparr>wu_leftover := (wu_leftover s1)[index := True], wu_leftoverSeen := True\<rparr>)
          else if rs_error result \<noteq> ''stat-1'' then Some (False, s1)
          else probe_loop e index folder more_names s1 }"

definition probeLeftovers :: "'w wcu_env \<Rightarrow> nat \<Rightarrow> bytes \<Rightarrow> 'w wcu \<Rightarrow> (bool \<times> 'w wcu) option" where
  "probeLeftovers e index directoryPath s =
     (let slash = (directoryPath \<noteq> [] \<and> last directoryPath = 47)
      in probe_loop e index (directoryPath @ (if slash then [] else [47])) [kTempName, kAsideName] s)"

end
