(* ===== verification/WcuApply.thy ===== *)
theory WcuApply
  imports WcuCard
begin

text \<open>
  \<open>src/wc_updater.cpp\<close>, third part: downloading a file, the update of one file (download, copy,
  check of the copy, replacement, check of the file) and the APPLY command over the rows the
  user chose.
\<close>

subsection \<open>Downloading\<close>

definition blob_digest :: "u32 \<Rightarrow> bytes \<Rightarrow> bytes option" where
  "blob_digest len data =
     do { sha \<leftarrow> gitBlobBegin Sha1_new len;
          sha1 \<leftarrow> sha_update sha (Some data);
          (sha2, digest) \<leftarrow> sha_finish sha1;
          Some digest }"

fun download_loop :: "'w wcu_env \<Rightarrow> bytes \<Rightarrow> WcFile \<Rightarrow> nat \<Rightarrow> 'w wcu \<Rightarrow> (bytes option \<times> 'w wcu) option" where
  "download_loop e url file 0 s = Some (None, s)"
| "download_loop e url file (Suc attempts) s =
     (let (stop, s1) = world (en_stop e) s
      in if stop then Some (None, s1)
         else
           let ((ok, body, status, why), s2) = world (en_get e kRawHost url (unat (wf_remoteSize file) + 1)) s1
           in if \<not> ok then download_loop e url file attempts (set_error (''download: '' @ take 63 why) s2)
              else if status \<noteq> 200 \<or> length body \<noteq> unat (wf_remoteSize file)
              then download_loop e url file attempts
                     (set_error (''download: HTTP '' @ decimal (unat status) @ '', '' @ decimal (length body) @ '' bytes'') s2)
              else do {
                digest \<leftarrow> blob_digest (wf_remoteSize file) body;
                if digest = wf_sha file then Some (Some body, s2)
                else download_loop e url file attempts (set_error ''download: SHA mismatch'' s2) })"

definition download :: "'w wcu_env \<Rightarrow> WcFile \<Rightarrow> 'w wcu \<Rightarrow> (bytes option \<times> 'w wcu) option" where
  "download e file s =
     (case urlEncodePath (wf_path file) (kPathSize * 3) of
        None \<Rightarrow> Some (None, set_error ''path too long'' s)
      | Some encoded \<Rightarrow>
          case urlEncodePath (wu_directory s) (64 * 3) of
            None \<Rightarrow> Some (None, set_error ''path too long'' s)
          | Some directory \<Rightarrow>
              download_loop e (47 # wu_repo s @ 47 # wu_commit s @ 47 # directory @ 47 # encoded) file
                kDownloadAttempts s)"

subsection \<open>The update of one file\<close>

text \<open>The locals of \<open>updateFile\<close> that its rounds change.\<close>

record upd =
  up_done :: bool
  up_installed :: bool
  up_keptThere :: bool
  up_reason :: string

definition set_file :: "nat \<Rightarrow> (WcFile \<Rightarrow> WcFile) \<Rightarrow> 'w wcu \<Rightarrow> 'w wcu" where
  "set_file index f s = s\<lparr>wu_files := (wu_files s)[index := f (wu_files s ! index)]\<rparr>"

definition note_reason :: "'w wcu_env \<Rightarrow> string \<Rightarrow> upd \<Rightarrow> 'w wcu \<Rightarrow> upd \<times> 'w wcu" where
  "note_reason e text u s =
     (let (stop, s1) = world (en_stop e) s in (u\<lparr>up_reason := take 39 (if stop then ''stopped'' else text)\<rparr>, s1))"

definition errorOr :: "string \<Rightarrow> 'w wcu \<Rightarrow> string" where
  "errorOr fallback s = (if wu_error s \<noteq> '''' then wu_error s else fallback)"

definition folder_of :: "bytes \<Rightarrow> bytes" where
  "folder_of path = (case strrchr 47 path of None \<Rightarrow> [] | Some i \<Rightarrow> 47 # take i path)"

definition temp_path :: "bytes \<Rightarrow> bytes" where "temp_path path = folder_of path @ 47 # kTempName"
definition aside_path :: "bytes \<Rightarrow> bytes" where "aside_path path = folder_of path @ 47 # kAsideName"

text \<open>Writing the copy and reading it back. The results are \<open>staged\<close> and \<open>ours\<close>.\<close>

fun stage_loop :: "'w wcu_env \<Rightarrow> bytes \<Rightarrow> bytes \<Rightarrow> WcFile \<Rightarrow> nat \<Rightarrow> bool \<Rightarrow> upd \<Rightarrow> 'w wcu \<Rightarrow>
    (bool \<times> bool \<times> upd \<times> 'w wcu) option" where
  "stage_loop e tempPath data entry 0 ours u s = Some (False, ours, u, s)"
| "stage_loop e tempPath data entry (Suc attempts) ours u s =
     (let (stop, s1) = world (en_stop e) s
      in if stop then Some (False, ours, u, s1)
         else do {
           (written, left, s2) \<leftarrow> writeLocal e tempPath data (s1\<lparr>wu_error := ''''\<rparr>);
           if \<not> written
           then let (u1, s3) = note_reason e (if take 5 (wu_error s2) = ''open-'' then ''cannot create WCUPD.TMP: CHKDSK''
                        else errorOr ''SD copy: write failed'' s2) u s2
                in if left then Some (False, left, u1, s3)
                   else stage_loop e tempPath data entry attempts left u1 s3
           else do {
             (digest, s3) \<leftarrow> hashLocal e tempPath (wf_remoteSize entry) (s2\<lparr>wu_error := ''''\<rparr>);
             if digest = Some (wf_sha entry) then Some (True, left, u, s3)
             else let (u1, s4) = (if digest = None then note_reason e (errorOr ''SD copy: read failed'' s3) u s3
                                  else note_reason e ''SD copy: SHA mismatch'' u s3)
                  in do {
                    (deleted, s5) \<leftarrow> quietVfs e kDelete (Some tempPath) kVfsMutateWaitMs s4;
                    if \<not> deleted then Some (False, left, u1, s5)
                    else stage_loop e tempPath data entry attempts False u1 s5 } } })"

text \<open>The part of a round from the verified copy on. \<open>True\<close> leaves the loop of rounds.\<close>

definition install_step :: "'w wcu_env \<Rightarrow> WcFile \<Rightarrow> upd \<Rightarrow> 'w wcu \<Rightarrow> (bool \<times> upd \<times> 'w wcu) option" where
  "install_step e entry u s =
     do { (replaced, s1) \<leftarrow> vfsReplace e (temp_path (wf_path entry)) (localPath (wf_path entry)) (base_name (wf_path entry))
            (aside_path (wf_path entry)) (wf_path entry) (wf_kept entry) (s\<lparr>wu_error := ''''\<rparr>);
          if replaced = ReplaceUntouched
          then let (u1, s2) = note_reason e (errorOr ''replace refused'' s1) u s1
               in do {
                 (deleted, s3) \<leftarrow> quietVfs e kDelete (Some (temp_path (wf_path entry))) kVfsMutateWaitMs s2;
                 if \<not> deleted then Some (True, u1, markLeftover (wf_path entry) s3)
                 else Some (\<not> wf_kept entry, u1, s3) }
          else
            let u1 = u\<lparr>up_installed := up_installed u \<or> replaced = ReplaceDone\<rparr>;
                (u2, s2) = (if replaced = ReplaceUnknown then note_reason e (errorOr ''replace failed: CHKDSK'' s1) u1 s1
                            else (u1, s1))
            in do {
              (digest, s3) \<leftarrow> hashLocal e (localPath (wf_path entry)) (wf_remoteSize entry) (s2\<lparr>wu_error := ''''\<rparr>);
              let good = (digest = Some (wf_sha entry));
              if replaced = ReplaceUnknown
              then Some (True, u2\<lparr>up_done := good\<rparr>, s3\<lparr>wu_diskSuspect := True\<rparr>)
              else if good then Some (False, u2\<lparr>up_done := True\<rparr>, s3)
              else let (u3, s4) = note_reason e (if digest \<noteq> None then ''SD file: SHA mismatch''
                                    else errorOr ''SD file: read failed'' s3) u2 s3
                   in Some (False, u3, s4) } }"

definition copy_step :: "'w wcu_env \<Rightarrow> WcFile \<Rightarrow> upd \<Rightarrow> 'w wcu \<Rightarrow> (bool \<times> upd \<times> 'w wcu) option" where
  "copy_step e entry u s =
     (if leftoverIn (wf_path entry) s
      then let (u1, s1) = note_reason e kLeftoverReason u s in Some (True, u1, s1)
      else do {
        (body, s1) \<leftarrow> download e entry (s\<lparr>wu_error := ''''\<rparr>);
        (ready, s2) \<leftarrow> (if body = None then Some (False, s1) else ensureDirectory e (wf_path entry) s1);
        if \<not> ready
        then let (u1, s3) = note_reason e (errorOr ''download failed'' s2) u s2 in Some (True, u1, s3)
        else do {
          (found, probe, s3) \<leftarrow> vfs e kStat (Some (temp_path (wf_path entry))) 0 kVfsNormalWaitMs s2;
          if found
          then let (u1, s4) = note_reason e kLeftoverReason u (markLeftover (wf_path entry) s3) in Some (True, u1, s4)
          else if rs_error probe \<noteq> ''stat-1''
          then let (u1, s4) = note_reason e ''SD: cannot stat copy'' u s3 in Some (True, u1, s4)
          else do {
            (staged, ours, u1, s4) \<leftarrow>
              stage_loop e (temp_path (wf_path entry)) (the body) entry kWriteAttempts False u s3;
            if \<not> staged then Some (True, u1, if ours then markLeftover (wf_path entry) s4 else s4)
            else install_step e entry u1 s4 } } })"

definition update_round :: "'w wcu_env \<Rightarrow> nat \<Rightarrow> WcFile \<Rightarrow> upd \<Rightarrow> 'w wcu \<Rightarrow> (bool \<times> upd \<times> 'w wcu) option" where
  "update_round e index entry u s =
     (if \<not> wf_kept entry then copy_step e entry u s
      else do {
        (found, stat, s1) \<leftarrow> vfs e kStat (Some (localPath (wf_path entry))) 0 kVfsNormalWaitMs s;
        if found
        then let u1 = u\<lparr>up_keptThere := True\<rparr>;
                 s2 = set_file index (\<lambda>f. f\<lparr>wf_local := True, wf_localSize := rs_size stat\<rparr>) s1
             in if rs_isDirectory stat \<or> rs_size stat \<noteq> wf_remoteSize entry
                then Some (True, u1\<lparr>up_done := False\<rparr>, s2)
                else do {
                  (digest, s3) \<leftarrow> hashLocal e (localPath (wf_path entry)) (wf_remoteSize entry) s2;
                  Some (True, u1\<lparr>up_done := (digest = Some (wf_sha entry))\<rparr>, s3) }
        else if rs_error stat \<noteq> ''stat-1''
        then let (u1, s2) = note_reason e ''SD: cannot stat file'' u s1 in Some (True, u1, s2)
        else copy_step e entry u s1 })"

fun rounds_loop :: "'w wcu_env \<Rightarrow> nat \<Rightarrow> WcFile \<Rightarrow> nat \<Rightarrow> upd \<Rightarrow> 'w wcu \<Rightarrow> (upd \<times> 'w wcu) option" where
  "rounds_loop e index entry 0 u s = Some (u, s)"
| "rounds_loop e index entry (Suc rounds) u s =
     (if up_done u then Some (u, s)
      else let (stop, s1) = world (en_stop e) s
        in if stop then Some (u, s1)
           else do {
             (leave, u1, s2) \<leftarrow> update_round e index entry u s1;
             if leave then Some (u1, s2) else rounds_loop e index entry rounds u1 s2 })"

definition refusal :: "'w wcu_env \<Rightarrow> WcFile \<Rightarrow> 'w wcu \<Rightarrow> string option \<times> 'w wcu" where
  "refusal e entry s =
     (if wu_diskSuspect s then (Some ''check the disk first'', s)
      else if wf_remoteSize entry > kMaxFileSize then (Some ''file too big for ESP'', s)
      else if leftoverIn (wf_path entry) s then (Some kLeftoverReason, s)
      else let (room, s1) = world (en_alloc e (unat (wf_remoteSize entry) + 1)) s
           in (if room then None else Some ''no memory for file'', s1))"

definition finish_update :: "nat \<Rightarrow> upd \<Rightarrow> 'w wcu \<Rightarrow> bool \<times> 'w wcu" where
  "finish_update index u s =
     (up_done u,
      set_file index (\<lambda>f.
        let g = f\<lparr>wf_reason := up_reason u\<rparr>
        in if up_done u
           then g\<lparr>wf_status := (if up_keptThere u \<and> \<not> up_installed u then kKeptSame else kUpdated),
                  wf_local := True, wf_localSize := wf_remoteSize f\<rparr>
           else if up_keptThere u then g\<lparr>wf_status := kKeptDifferent\<rparr>
           else g\<lparr>wf_status := kFailed\<rparr>) s)"

definition updateFile :: "'w wcu_env \<Rightarrow> nat \<Rightarrow> 'w wcu \<Rightarrow> (bool \<times> 'w wcu) option" where
  "updateFile e index s0 =
     (let s = set_file index (\<lambda>f. f\<lparr>wf_reason := ''''\<rparr>) s0;
          entry = wu_files s ! index;
          (refuse, s1) = refusal e entry s
      in case refuse of
           Some text \<Rightarrow> Some (False, set_file index (\<lambda>f. f\<lparr>wf_reason := take 39 text, wf_status := kFailed\<rparr>) s1)
         | None \<Rightarrow> do {
             (u, s2) \<leftarrow> rounds_loop e index entry 2
               \<lparr>up_done = False, up_installed = False, up_keptThere = False, up_reason = ''''\<rparr> s1;
             let (u1, s3) = (if \<not> up_done u \<and> up_reason u = '''' then note_reason e ''not updated'' u s2 else (u, s2));
             Some (finish_update index u1 s3) })"

subsection \<open>APPLY\<close>

definition selected :: "bytes \<Rightarrow> 'w wcu \<Rightarrow> WcFile list" where
  "selected indices s =
     map (\<lambda>i. wu_files s ! unat i) (filter (\<lambda>i. unat i < length (wu_files s) \<and> canUpdate (wu_files s ! unat i)) indices)"

fun apply_loop :: "'w wcu_env \<Rightarrow> u16 \<Rightarrow> u16 \<Rightarrow> bytes \<Rightarrow> 'w wcu \<Rightarrow> (bool option \<times> 'w wcu) option" where
  "apply_loop e whole current [] s = Some (None, s)"
| "apply_loop e whole current (i # indices) s =
     (let (stop, s1) = world (en_stop e) s; index = unat i
      in if stop then Some (None, s1)
         else if \<not> (index < length (wu_files s1) \<and> canUpdate (wu_files s1 ! index))
         then apply_loop e whole current indices s1
         else
           let (shown, s2) = sendState e kApply (current + 1) whole
                 (''Update '' @ chars_of (wf_path (wu_files s1 ! index))) s1
           in if \<not> shown then Some (Some False, s2)
              else do {
                (updated, s3) \<leftarrow> updateFile e index s2;
                let (sent, s4) = sendEntry e index s3;
                if \<not> sent then Some (Some False, s4)
                else if wu_diskSuspect s4
                then Some (Some False, wcu_fail e (let reason = wf_reason (wu_files s4 ! index)
                        in if reason \<noteq> '''' then reason else ''check the disk'') s4)
                else apply_loop e whole (current + 1) indices s4 })"

definition wcu_apply :: "'w wcu_env \<Rightarrow> bytes \<Rightarrow> 'w wcu \<Rightarrow> (bool \<times> 'w wcu) option" where
  "wcu_apply e indices s =
     (if wu_diskSuspect s then Some (False, wcu_fail e ''check the disk first'' s)
      else
        let chosen = selected indices s;
            s1 = beginProgress (sum_list (map (\<lambda>f. 3 * wf_remoteSize f) chosen)) s
        in do {
          (verdict, s2) \<leftarrow> apply_loop e (of_nat (length chosen)) 0 indices s1;
          case verdict of Some r \<Rightarrow> Some (r, s2)
          | None \<Rightarrow>
              let (stop, s3) = world (en_stop e) s2
              in if stop then Some (False, set_error ''stopped'' s3) else Some (sendReady e s3) })"

end
