(* ===== verification/WcuLaws.thy ===== *)
theory WcuLaws
  imports WcuApply
begin

text \<open>
  What the updater relies on outside its class, as laws on a record of its world, and the
  first consequences: one request, reading a file as its git name, writing a copy.

  The card is seen through ghost functions of the world: its files by name without case, the
  open file, the two rings, the entries left of the open listing, and the request under way. The laws state what the documentation of
  the plugin, of FILEX and of the bridge promises (\<open>docs/PROTOCOL.md\<close>, \<open>WC Update/README.md\<close>,
  the comments of \<open>wc_updater.cpp\<close>), failures and lost answers included: a failed request may
  have had its effect or not, opening for writing never takes an occupied name, a rename never
  replaces a file, and FILEX MOVE leaves the old or the new file.
\<close>

subsection \<open>Totality\<close>

definition holds :: "'a option \<Rightarrow> ('a \<Rightarrow> bool) \<Rightarrow> bool" where
  "holds m Q \<longleftrightarrow> (\<exists>x. m = Some x \<and> Q x)"

lemma holds_Some [simp]: "holds (Some x) Q = Q x"
  by (simp add: holds_def)

lemma holds_bind: "holds m P \<Longrightarrow> (\<And>x. P x \<Longrightarrow> holds (f x) Q) \<Longrightarrow> holds (Option.bind m f) Q"
  by (auto simp: holds_def)

lemma holds_map: "holds m P \<Longrightarrow> (\<And>x. P x \<Longrightarrow> Q (f x)) \<Longrightarrow> holds (map_option f m) Q"
  by (auto simp: holds_def)

lemma holds_weaken: "holds m P \<Longrightarrow> (\<And>x. P x \<Longrightarrow> Q x) \<Longrightarrow> holds m Q"
  by (auto simp: holds_def)

subsection \<open>The card\<close>

record card =
  cd_files :: "bytes \<Rightarrow> bytes option"
  cd_open :: "(bytes \<times> bool) option"
  cd_position :: nat
  cd_inbox :: bytes
  cd_outbox :: nat
  cd_listing :: nat

datatype card_request =
    CardCall VfsOperation "bytes option" u32
  | CardRename bytes bytes
  | CardMove bytes bytes bool

definition card_key :: "bytes \<Rightarrow> bytes" where
  "card_key path = map toupper path"

text \<open>The file an open writing handle can change.\<close>

definition writer :: "card \<Rightarrow> bytes set" where
  "writer c = (case cd_open c of Some (k, True) \<Rightarrow> {k} | _ \<Rightarrow> {})"

definition same_but :: "bytes set \<Rightarrow> card \<Rightarrow> card \<Rightarrow> bool" where
  "same_but K c c' \<longleftrightarrow> (\<forall>k. k \<notin> K \<longrightarrow> cd_files c' k = cd_files c k)"

definition rename_target :: "bytes \<Rightarrow> bytes \<Rightarrow> bytes" where
  "rename_target path name = (case strrchr 47 path of None \<Rightarrow> name | Some i \<Rightarrow> take (Suc i) path @ name)"

definition move_landed :: "vfs_result \<Rightarrow> bool" where
  "move_landed r \<longleftrightarrow> rs_success r \<or> rs_status r = kFilexCommittedCleanup"

definition move_refused :: "vfs_result \<Rightarrow> bool" where
  "move_refused r \<longleftrightarrow> \<not> move_landed r \<and> (rs_status r = 1 \<or> rs_status r = kMoveUnsupported \<or>
     (0x10 \<le> rs_status r \<and> rs_status r \<le> 0x1D))"

text \<open>\<open>card_effect rq r c c'\<close>: the request \<open>rq\<close>, answered with \<open>r\<close>, may turn the card \<open>c\<close> into \<open>c'\<close>.\<close>

fun card_effect :: "card_request \<Rightarrow> vfs_result \<Rightarrow> card \<Rightarrow> card \<Rightarrow> bool" where
  "card_effect (CardCall operation path val) r c c' =
     (case (operation, path) of
        (kStat, Some p) \<Rightarrow> cd_files c' = cd_files c \<and> writer c' \<subseteq> writer c \<and>
          (rs_success r \<and> \<not> rs_isDirectory r \<longrightarrow>
             (\<exists>d. cd_files c (card_key p) = Some d \<and> length d = unat (rs_size r)))
      | (kOpenRead, Some p) \<Rightarrow> cd_files c' = cd_files c \<and> writer c' \<subseteq> writer c \<and>
          (rs_success r \<longrightarrow> cd_open c' = Some (card_key p, False) \<and> cd_position c' = 0 \<and> cd_inbox c' = cd_inbox c)
      | (kOpenWrite, Some p) \<Rightarrow> same_but {card_key p} c c' \<and>
          (cd_files c (card_key p) \<noteq> None \<longrightarrow> cd_files c' = cd_files c \<and> \<not> rs_success r) \<and>
          (rs_success r \<longrightarrow> cd_open c' = Some (card_key p, True)) \<and>
          (\<not> rs_success r \<longrightarrow> writer c' \<subseteq> writer c)
      | (kRead, None) \<Rightarrow> cd_files c' = cd_files c \<and> writer c' \<subseteq> writer c \<and>
          (rs_success r \<longrightarrow> cd_open c' = cd_open c \<and> cd_position c' = cd_position c + unat (rs_transferred r) \<and>
             (\<forall>k d. cd_open c = Some (k, False) \<and> cd_files c k = Some d \<longrightarrow>
                cd_position c' \<le> length d \<and>
                cd_inbox c' = cd_inbox c @ take (unat (rs_transferred r)) (drop (cd_position c) d)))
      | (kWrite, None) \<Rightarrow> same_but (writer c) c c' \<and> writer c' \<subseteq> writer c \<and>
          (rs_success r \<longrightarrow> unat (rs_transferred r) \<le> cd_outbox c \<and> cd_outbox c' = cd_outbox c - unat (rs_transferred r))
      | (kCloseCommit, None) \<Rightarrow> same_but (writer c) c c' \<and> writer c' \<subseteq> writer c
      | (kCloseAbort, None) \<Rightarrow> same_but (writer c) c c' \<and> writer c' \<subseteq> writer c
      | (kDelete, Some p) \<Rightarrow> same_but {card_key p} c c' \<and> writer c' \<subseteq> writer c
      | (kResetBuffers, None) \<Rightarrow> cd_files c' = cd_files c \<and> writer c' \<subseteq> writer c \<and>
          (rs_success r \<longrightarrow> cd_inbox c' = [])
      | (kMkdir, Some p) \<Rightarrow> cd_files c' = cd_files c \<and> writer c' \<subseteq> writer c
      | (kOpenDirectory, Some p) \<Rightarrow> cd_files c' = cd_files c \<and> writer c' \<subseteq> writer c
      | (kReadDirectory, None) \<Rightarrow> cd_files c' = cd_files c \<and> writer c' \<subseteq> writer c \<and>
          (rs_success r \<and> \<not> rs_atEnd r \<longrightarrow> cd_listing c' < cd_listing c \<and> 47 \<notin> set (rs_name r))
      | _ \<Rightarrow> True)"
| "card_effect (CardRename p name) r c c' =
     (let k = card_key p; q = card_key (rename_target p name)
      in same_but {k, q} c c' \<and> writer c' \<subseteq> writer c \<and>
         (cd_files c q \<noteq> None \<longrightarrow> cd_files c' q = cd_files c q \<and> \<not> rs_success r) \<and>
         (rs_success r \<longrightarrow> cd_files c' q = cd_files c k \<and> cd_files c' k = None))"
| "card_effect (CardMove p q replace) r c c' =
     (let k = card_key p; l = card_key q
      in same_but {k, l} c c' \<and> writer c' \<subseteq> writer c \<and>
         (cd_files c' l = cd_files c l \<or> cd_files c' l = cd_files c k) \<and>
         (cd_files c l \<noteq> None \<and> \<not> replace \<longrightarrow> cd_files c' = cd_files c \<and> \<not> move_landed r) \<and>
         (move_landed r \<longrightarrow> cd_files c' l = cd_files c k) \<and>
         (move_refused r \<longrightarrow> cd_files c' = cd_files c))"

declare card_effect.simps [simp del]

text \<open>
  The ghost functions: the card, the request under way, the milliseconds since the start, the
  size of the ring to the card, and whether the file manager has FILEX MOVE.
\<close>

record 'w ghost =
  gh_card :: "'w \<Rightarrow> card"
  gh_pending :: "'w \<Rightarrow> card_request option"
  gh_ticks :: "'w \<Rightarrow> nat"
  gh_capacity :: nat
  gh_filex :: bool

definition unchanged :: "'w ghost \<Rightarrow> 'w \<Rightarrow> 'w \<Rightarrow> bool" where
  "unchanged g w w' \<longleftrightarrow> gh_card g w' = gh_card g w \<and> gh_pending g w' = gh_pending g w"

definition posts :: "'w ghost \<Rightarrow> card_request \<Rightarrow> ('w \<Rightarrow> bool \<times> 'w) \<Rightarrow> bool" where
  "posts g rq f \<longleftrightarrow> (\<forall>w ok w'. f w = (ok, w') \<longrightarrow> gh_card g w' = gh_card g w \<and>
     gh_pending g w' = (if ok then Some rq else gh_pending g w))"

definition idles :: "'w ghost \<Rightarrow> ('w \<Rightarrow> 'a \<times> 'w) \<Rightarrow> bool" where
  "idles g f \<longleftrightarrow> (\<forall>w. unchanged g w (snd (f w)))"

text \<open>A wait for the bridge lasts between one millisecond and twelve days.\<close>

definition clock_laws :: "'w wcu_env \<Rightarrow> 'w ghost \<Rightarrow> bool" where
  "clock_laws e g \<longleftrightarrow>
     (\<forall>w. en_millis e w = of_nat (gh_ticks g w)) \<and>
     (\<forall>w r w'. en_takeResult e w = (r, w') \<longrightarrow> gh_ticks g w \<le> gh_ticks g w' \<and> gh_ticks g w' \<le> gh_ticks g w + 2 ^ 30) \<and>
     (\<forall>w. gh_ticks g w < gh_ticks g (en_waitForResult e 1 w) \<and>
          gh_ticks g (en_waitForResult e 1 w) \<le> gh_ticks g w + 2 ^ 30)"

definition request_laws :: "'w wcu_env \<Rightarrow> 'w ghost \<Rightarrow> bool" where
  "request_laws e g \<longleftrightarrow>
     (\<forall>operation path val. posts g (CardCall operation path val) (en_submit e operation path val)) \<and>
     (\<forall>p name. posts g (CardRename p name) (en_submitRename e p name False)) \<and>
     (\<forall>p q replace. posts g (CardMove p q replace) (en_submitMoveRename e p q False replace)) \<and>
     (\<forall>w rq w'. gh_pending g w = Some rq \<and> en_takeResult e w = (None, w') \<longrightarrow> unchanged g w w') \<and>
     (\<forall>w rq r w'. gh_pending g w = Some rq \<and> en_takeResult e w = (Some r, w') \<longrightarrow>
        gh_pending g w' = None \<and> card_effect rq r (gh_card g w) (gh_card g w') \<and>
        (gh_filex g \<and> (\<exists>p q b. rq = CardMove p q b) \<longrightarrow> rs_status r \<noteq> kMoveUnsupported)) \<and>
     (\<forall>w. unchanged g w (en_waitForResult e 1 w)) \<and>
     (\<forall>w rq t ok w'. gh_pending g w = Some rq \<and> en_reclaim e t w = (ok, w') \<longrightarrow>
        gh_pending g w' = None \<and> (\<exists>r. card_effect rq r (gh_card g w) (gh_card g w')))"

definition ring_laws :: "'w wcu_env \<Rightarrow> 'w ghost \<Rightarrow> bool" where
  "ring_laws e g \<longleftrightarrow>
     (\<forall>w. en_vfsToNetworkAvailable e w = length (cd_inbox (gh_card g w))) \<and>
     (\<forall>w n d w'. en_readForNetwork e n w = (d, w') \<longrightarrow> gh_pending g w' = gh_pending g w \<and>
        d = take n (cd_inbox (gh_card g w)) \<and>
        gh_card g w' = (gh_card g w)\<lparr>cd_inbox := drop n (cd_inbox (gh_card g w))\<rparr>) \<and>
     (\<forall>w. en_networkToVfsAvailable e w = cd_outbox (gh_card g w)) \<and>
     (\<forall>w. en_networkToVfsFree e w = gh_capacity g - cd_outbox (gh_card g w)) \<and>
     (\<forall>w. en_ringCapacity e w = gh_capacity g) \<and>
     (\<forall>w d n w'. en_writeFromNetwork e d w = (n, w') \<longrightarrow> gh_pending g w' = gh_pending g w \<and>
        n = min (length d) (gh_capacity g - cd_outbox (gh_card g w)) \<and>
        gh_card g w' = (gh_card g w)\<lparr>cd_outbox := cd_outbox (gh_card g w) + n\<rparr>)"

definition other_laws :: "'w wcu_env \<Rightarrow> 'w ghost \<Rightarrow> bool" where
  "other_laws e g \<longleftrightarrow>
     (\<forall>host path capacity. idles g (en_get e host path capacity)) \<and> (\<forall>n. idles g (en_alloc e n)) \<and>
     idles g (en_stop e) \<and> (\<forall>sink command payload. en_sink e = Some sink \<longrightarrow> idles g (sink command payload))"

definition card_driver :: "'w wcu_env \<Rightarrow> 'w ghost \<Rightarrow> bool" where
  "card_driver e g \<longleftrightarrow> clock_laws e g \<and> request_laws e g \<and> ring_laws e g \<and> other_laws e g"

subsection \<open>One request\<close>

definition card_of :: "'w ghost \<Rightarrow> 'w wcu \<Rightarrow> card" where
  "card_of g s = gh_card g (wu_world s)"

definition idle :: "'w ghost \<Rightarrow> 'w wcu \<Rightarrow> bool" where
  "idle g s \<longleftrightarrow> gh_pending g (wu_world s) = None"

text \<open>The parts of the object the card invariant depends on.\<close>

definition core :: "'w wcu \<Rightarrow> WcFile list \<times> bool" where
  "core s = (wu_files s, wu_diskSuspect s)"

definition quiet :: "'w ghost \<Rightarrow> 'w wcu \<Rightarrow> 'w wcu \<Rightarrow> bool" where
  "quiet g s s' \<longleftrightarrow> core s' = core s \<and> card_of g s' = card_of g s \<and> (idle g s \<longrightarrow> idle g s')"

definition answered :: "card_request \<Rightarrow> bool \<Rightarrow> vfs_result \<Rightarrow> card \<Rightarrow> card \<Rightarrow> bool" where
  "answered rq ok r c c' \<longleftrightarrow>
     (ok = rs_success r \<and> card_effect rq r c c') \<or>
     (\<not> ok \<and> r = zero_result \<and> (c' = c \<or> (\<exists>q. card_effect rq q c c')))"

lemma core_simps [simp]:
  "core (s\<lparr>wu_error := x\<rparr>) = core s"
  "core (s\<lparr>wu_world := w\<rparr>) = core s"
  "core (set_error t s) = core s"
  "core (markLeftover p s) = core s"
  by (simp_all add: core_def set_error_def markLeftover_def split: option.splits)

lemma card_of_simps [simp]:
  "card_of g (s\<lparr>wu_error := x\<rparr>) = card_of g s"
  "card_of g (s\<lparr>wu_world := w\<rparr>) = gh_card g w"
  "card_of g (set_error t s) = card_of g s"
  "card_of g (markLeftover p s) = card_of g s"
  by (simp_all add: card_of_def set_error_def markLeftover_def split: option.splits)

lemma idle_simps [simp]:
  "idle g (s\<lparr>wu_error := x\<rparr>) = idle g s"
  "idle g (s\<lparr>wu_world := w\<rparr>) = (gh_pending g w = None)"
  "idle g (set_error t s) = idle g s"
  "idle g (markLeftover p s) = idle g s"
  by (simp_all add: idle_def set_error_def markLeftover_def split: option.splits)

text \<open>The laws one by one.\<close>

lemma postsD: "posts g rq f \<Longrightarrow> f w = (ok, w') \<Longrightarrow>
    gh_card g w' = gh_card g w \<and> gh_pending g w' = (if ok then Some rq else gh_pending g w)"
  unfolding posts_def by (elim allE) (erule mp)

lemma posting_laws:
  assumes "card_driver e g"
  shows submit_posts: "posts g (CardCall operation path val) (en_submit e operation path val)"
    and rename_posts: "posts g (CardRename p name) (en_submitRename e p name False)"
    and move_posts: "posts g (CardMove p q replace) (en_submitMoveRename e p q False replace)"
  using assms by (simp_all add: card_driver_def request_laws_def)

lemma ring_sizes:
  assumes "card_driver e g"
  shows inbox_law: "en_vfsToNetworkAvailable e w = length (cd_inbox (gh_card g w))"
    and outbox_law: "en_networkToVfsAvailable e w = cd_outbox (gh_card g w)"
    and free_law: "en_networkToVfsFree e w = gh_capacity g - cd_outbox (gh_card g w)"
    and capacity_law: "en_ringCapacity e w = gh_capacity g"
  using assms by (simp_all add: card_driver_def ring_laws_def)

lemma read_law:
  assumes "card_driver e g" and "en_readForNetwork e n w = (d, w')"
  shows "gh_pending g w' = gh_pending g w \<and> d = take n (cd_inbox (gh_card g w)) \<and>
    gh_card g w' = (gh_card g w)\<lparr>cd_inbox := drop n (cd_inbox (gh_card g w))\<rparr>"
  using assms unfolding card_driver_def ring_laws_def by (elim conjE allE) (erule (1) mp)

lemma write_law:
  assumes "card_driver e g" and "en_writeFromNetwork e d w = (n, w')"
  shows "gh_pending g w' = gh_pending g w \<and> n = min (length d) (gh_capacity g - cd_outbox (gh_card g w)) \<and>
    gh_card g w' = (gh_card g w)\<lparr>cd_outbox := cd_outbox (gh_card g w) + n\<rparr>"
  using assms unfolding card_driver_def ring_laws_def by (elim conjE allE) (erule (1) mp)

lemma wait_time:
  assumes D: "card_driver e g" and b: "en_millis e w - of_nat t0 < (timeout :: u32)"
    and T: "unat timeout \<le> 2 ^ 30" and le: "t0 \<le> gh_ticks g w" and lt: "gh_ticks g w - t0 < 2 ^ 32"
  shows "gh_ticks g w - t0 < unat timeout"
proof -
  have "en_millis e w - of_nat t0 = (of_nat (gh_ticks g w - t0) :: u32)"
    using D le by (simp add: card_driver_def clock_laws_def of_nat_diff)
  then have "unat (en_millis e w - of_nat t0 :: u32) = gh_ticks g w - t0"
    using lt by (simp add: unat_of_nat)
  with b show ?thesis by (simp add: word_less_nat_alt)
qed

definition taken_ok :: "'w ghost \<Rightarrow> card_request \<Rightarrow> vfs_result \<Rightarrow> card \<Rightarrow> 'w wcu \<Rightarrow> bool" where
  "taken_ok g rq r c s' \<longleftrightarrow> idle g s' \<and> card_effect rq r c (card_of g s') \<and>
     (gh_filex g \<and> (\<exists>p q b. rq = CardMove p q b) \<longrightarrow> rs_status r \<noteq> kMoveUnsupported)"

lemma await_loop_holds:
  assumes D: "card_driver e g" and T: "unat timeout \<le> 2 ^ 30"
  shows "gh_pending g (wu_world s) = Some rq \<Longrightarrow> t0 \<le> gh_ticks g (wu_world s) \<Longrightarrow>
    gh_ticks g (wu_world s) - t0 < 2 ^ 32 \<Longrightarrow>
    holds (await_loop e (of_nat t0) timeout s) (\<lambda>(r, s'). core s' = core s \<and>
      (case r of None \<Rightarrow> unchanged g (wu_world s) (wu_world s') | Some x \<Rightarrow> taken_ok g rq x (card_of g s) s'))"
proof (induction "unat timeout - (gh_ticks g (wu_world s) - t0)" arbitrary: s rule: less_induct)
  case less
  let ?w = "wu_world s"
  show ?case
  proof (cases "en_millis e ?w - of_nat t0 < timeout")
    case False
    then show ?thesis by (subst await_loop.simps) (simp add: unchanged_def)
  next
    case True
    note early = wait_time [OF D True T less.prems(2,3)]
    obtain r w1 where take: "en_takeResult e ?w = (r, w1)" by fastforce
    have t1: "gh_ticks g ?w \<le> gh_ticks g w1" "gh_ticks g w1 \<le> gh_ticks g ?w + 2 ^ 30"
      using D take by (auto simp: card_driver_def clock_laws_def)
    show ?thesis
    proof (cases r)
      case (Some x)
      have "gh_pending g w1 = None" "card_effect rq x (gh_card g ?w) (gh_card g w1)"
        "gh_filex g \<and> (\<exists>p q b. rq = CardMove p q b) \<longrightarrow> rs_status x \<noteq> kMoveUnsupported"
        using D take less.prems(1) Some unfolding card_driver_def request_laws_def by blast+
      then show ?thesis using True
        by (subst await_loop.simps) (simp add: world_def take Some taken_ok_def card_of_def [of g s])
    next
      case None
      let ?w2 = "en_waitForResult e 1 w1"
      have u1: "unchanged g ?w w1"
        using D take less.prems(1) None unfolding card_driver_def request_laws_def by blast
      have u2: "unchanged g w1 ?w2" using D by (simp add: card_driver_def request_laws_def)
      have t2: "gh_ticks g w1 < gh_ticks g ?w2" "gh_ticks g ?w2 \<le> gh_ticks g w1 + 2 ^ 30"
        using D by (auto simp: card_driver_def clock_laws_def)
      let ?s2 = "s\<lparr>wu_world := ?w2\<rparr>"
      have "holds (await_loop e (of_nat t0) timeout ?s2) (\<lambda>(r, s'). core s' = core ?s2 \<and>
        (case r of None \<Rightarrow> unchanged g (wu_world ?s2) (wu_world s') | Some x \<Rightarrow> taken_ok g rq x (card_of g ?s2) s'))"
        using t1 t2 early T less.prems u1 u2
        by (intro less.hyps) (auto simp: unchanged_def)
      then show ?thesis using True None u1 u2
        by (subst await_loop.simps)
          (auto simp: world_def take unchanged_def card_of_def elim!: holds_weaken split: option.splits)
    qed
  qed
qed

lemma await_holds:
  assumes D: "card_driver e g" and T: "unat timeout \<le> 2 ^ 30" and P: "gh_pending g (wu_world s) = Some rq"
  shows "holds (awaitVfs e zero_result timeout s) (\<lambda>(ok, r, s'). core s' = core s \<and> idle g s' \<and>
    answered rq ok r (card_of g s) (card_of g s') \<and>
    (gh_filex g \<and> (\<exists>p q b. rq = CardMove p q b) \<longrightarrow> rs_status r \<noteq> kMoveUnsupported))"
proof -
  have m: "en_millis e (wu_world s) = of_nat (gh_ticks g (wu_world s))"
    using D by (simp add: card_driver_def clock_laws_def)
  show ?thesis unfolding awaitVfs_def m
  proof (rule holds_bind [OF await_loop_holds [OF D T P]], simp, simp, clarify)
    fix r s1
    assume c: "core s1 = core s"
      and r: "case r of None \<Rightarrow> unchanged g (wu_world s) (wu_world s1) | Some x \<Rightarrow> taken_ok g rq x (card_of g s) s1"
    show "holds (case r of None \<Rightarrow> Some (False, zero_result, snd (world (en_reclaim e kVfsCloseWaitMs) (set_error ''vfs timeout'' s1)))
        | Some r \<Rightarrow> Some (rs_success r, r, s1)) (\<lambda>(ok, r, s'). core s' = core s \<and> idle g s' \<and>
      answered rq ok r (card_of g s) (card_of g s') \<and>
      (gh_filex g \<and> (\<exists>p q b. rq = CardMove p q b) \<longrightarrow> rs_status r \<noteq> kMoveUnsupported))"
    proof (cases r)
      case None
      obtain ok w2 where w2: "en_reclaim e kVfsCloseWaitMs (wu_world s1) = (ok, w2)" by fastforce
      have u: "unchanged g (wu_world s) (wu_world s1)" using r None by simp
      then have "gh_pending g (wu_world s1) = Some rq" using P by (simp add: unchanged_def)
      then have "gh_pending g w2 = None" "\<exists>q. card_effect rq q (gh_card g (wu_world s1)) (gh_card g w2)"
        using D w2 unfolding card_driver_def request_laws_def by blast+
      then show ?thesis using None c u
        by (simp add: world_def w2 set_error_def answered_def card_of_def core_def idle_def unchanged_def
            zero_result_def kMoveUnsupported_def)
    next
      case (Some x)
      then show ?thesis using r c by (simp add: taken_ok_def answered_def)
    qed
  qed
qed

lemma vfs_holds:
  assumes D: "card_driver e g" and T: "unat timeout \<le> 2 ^ 30" and I: "idle g s"
  shows "holds (vfs e operation path val timeout s) (\<lambda>(ok, r, s'). core s' = core s \<and> idle g s' \<and>
    answered (CardCall operation path val) ok r (card_of g s) (card_of g s'))"
proof -
  obtain ok w1 where w1: "en_submit e operation path val (wu_world s) = (ok, w1)" by fastforce
  have p: "gh_card g w1 = card_of g s" "gh_pending g w1 = (if ok then Some (CardCall operation path val) else None)"
    using postsD [OF submit_posts [OF D] w1] I by (simp_all add: card_of_def idle_def)
  show ?thesis
  proof (cases ok)
    case False
    then show ?thesis using p by (simp add: vfs_def world_def w1 answered_def)
  next
    case True
    have "holds (awaitVfs e zero_result timeout (s\<lparr>wu_world := w1\<rparr>)) (\<lambda>(ok, r, s'). core s' = core s \<and> idle g s' \<and>
        answered (CardCall operation path val) ok r (card_of g s) (card_of g s'))"
      by (rule holds_weaken [OF await_holds [OF D T, of "s\<lparr>wu_world := w1\<rparr>" "CardCall operation path val"]])
        (use True p in \<open>auto split: prod.splits\<close>)
    then show ?thesis using True by (simp add: vfs_def world_def w1)
  qed
qed

lemma quiet_holds:
  assumes D: "card_driver e g" and T: "unat timeout \<le> 2 ^ 30" and I: "idle g s"
  shows "holds (quietVfs e operation path timeout s) (\<lambda>(ok, s'). core s' = core s \<and> idle g s' \<and>
    (\<exists>r. answered (CardCall operation path 0) ok r (card_of g s) (card_of g s')))"
  unfolding quietVfs_def
  by (rule holds_bind [OF vfs_holds [OF D T I]]) auto

lemma rename_holds:
  assumes D: "card_driver e g" and I: "idle g s"
  shows "holds (renameEntry e p name s) (\<lambda>(ok, s'). core s' = core s \<and> idle g s' \<and>
    (\<exists>r. answered (CardRename p name) ok r (card_of g s) (card_of g s')))"
proof -
  obtain ok w1 where w1: "en_submitRename e p name False (wu_world s) = (ok, w1)" by fastforce
  have p: "gh_card g w1 = card_of g s" "gh_pending g w1 = (if ok then Some (CardRename p name) else None)"
    using postsD [OF rename_posts [OF D] w1] I by (simp_all add: card_of_def idle_def)
  show ?thesis
  proof (cases ok)
    case False
    then show ?thesis using p by (auto simp: renameEntry_def world_def w1 answered_def)
  next
    case True
    have "holds (awaitVfs e zero_result kVfsMutateWaitMs (s\<lparr>wu_world := w1\<rparr>)) (\<lambda>(ok, r, s'). core s' = core s \<and> idle g s' \<and>
        answered (CardRename p name) ok r (card_of g s) (card_of g s'))"
      by (rule holds_weaken [OF await_holds [OF D, of _ "s\<lparr>wu_world := w1\<rparr>" "CardRename p name"]])
        (use True p in \<open>auto simp: kVfsMutateWaitMs_def split: prod.splits\<close>)
    then have "holds (Option.bind (awaitVfs e zero_result kVfsMutateWaitMs (s\<lparr>wu_world := w1\<rparr>))
        (\<lambda>(d, r, s2). Some (d, s2))) (\<lambda>(ok, s'). core s' = core s \<and> idle g s' \<and>
        (\<exists>r. answered (CardRename p name) ok r (card_of g s) (card_of g s')))"
      by (rule holds_bind) auto
    then show ?thesis using True by (simp add: renameEntry_def world_def w1)
  qed
qed

subsection \<open>Calls that leave the card alone\<close>

lemma quiet_refl [simp]: "quiet g s s"
  by (simp add: quiet_def)

lemma quiet_trans: "quiet g s t \<Longrightarrow> quiet g t u \<Longrightarrow> quiet g s u"
  by (simp add: quiet_def)

lemma world_quiet: "idles g f \<Longrightarrow> quiet g s (snd (world f s))"
  by (simp add: idles_def unchanged_def world_def quiet_def idle_def card_of_def core_def case_prod_beta Let_def)

lemma emit_quiet: "card_driver e g \<Longrightarrow> quiet g s (snd (emit e command payload s))"
  unfolding emit_def
  by (auto split: option.splits intro: world_quiet simp: card_driver_def other_laws_def)

lemma quiet_fields: "wu_world s' = wu_world s \<Longrightarrow> core s' = core s \<Longrightarrow> quiet g s s'"
  by (simp add: quiet_def card_of_def idle_def)

lemma sendState_quiet: "card_driver e g \<Longrightarrow> quiet g s (snd (sendState e phase current whole text s))"
  unfolding sendState_def Let_def
  by (rule quiet_trans [OF _ emit_quiet]) (auto intro: quiet_fields simp: core_def)

lemma fail_quiet: "card_driver e g \<Longrightarrow> quiet g s (wcu_fail e text s)"
  unfolding wcu_fail_def Let_def
  by (rule quiet_trans [OF _ sendState_quiet]) (auto intro: quiet_fields simp: core_def set_error_def)

lemma progress_quiet: "card_driver e g \<Longrightarrow> quiet g s (addProgress e n s)"
  unfolding addProgress_def Let_def
  by (auto intro!: quiet_trans [OF _ sendState_quiet] intro: quiet_fields simp: core_def)

lemma stop_quiet: "card_driver e g \<Longrightarrow> quiet g s (snd (world (en_stop e) s))"
  by (rule world_quiet) (simp add: card_driver_def other_laws_def)

end
