(* ===== verification/WcuRead.thy ===== *)
theory WcuRead
  imports WcuLaws
begin

text \<open>
  What a successful \<open>hashLocal\<close> proves of the card: the file is there with the expected length,
  and the digest is the git name of its contents. Reading, asking and creating directories
  change no file.
\<close>

subsection \<open>Requests that change no file\<close>

definition calm :: "'w ghost \<Rightarrow> 'w wcu \<Rightarrow> 'w wcu \<Rightarrow> bool" where
  "calm g s s' \<longleftrightarrow> core s' = core s \<and> idle g s' \<and> cd_files (card_of g s') = cd_files (card_of g s) \<and>
     writer (card_of g s') \<subseteq> writer (card_of g s)"

lemma calm_trans: "calm g s t \<Longrightarrow> calm g t u \<Longrightarrow> calm g s u"
  by (auto simp: calm_def)

lemma calm_quiet: "calm g s t \<Longrightarrow> quiet g t u \<Longrightarrow> calm g s u"
  by (auto simp: calm_def quiet_def)

lemma quiet_calm: "quiet g s t \<Longrightarrow> idle g s \<Longrightarrow> calm g s t"
  by (simp add: calm_def quiet_def)

lemma calm_set_error: "calm g s t \<Longrightarrow> calm g s (set_error text t)"
  by (simp add: calm_def)

lemma calm_idle: "calm g s t \<Longrightarrow> idle g t"
  by (simp add: calm_def)

definition calm_request :: "card_request \<Rightarrow> bool" where
  "calm_request rq \<longleftrightarrow> (\<forall>r c c'. card_effect rq r c c' \<longrightarrow> cd_files c' = cd_files c \<and> writer c' \<subseteq> writer c)"

lemma calm_requests:
  "calm_request (CardCall kStat (Some p) val)" "calm_request (CardCall kOpenRead (Some p) val)"
  "calm_request (CardCall kRead None val)" "calm_request (CardCall kResetBuffers None val)"
  "calm_request (CardCall kMkdir (Some p) val)" "calm_request (CardCall kOpenDirectory (Some p) val)"
  "calm_request (CardCall kReadDirectory None val)"
  by (simp_all add: calm_request_def card_effect.simps)

lemma answered_calm:
  "calm_request rq \<Longrightarrow> answered rq ok r c c' \<Longrightarrow> cd_files c' = cd_files c \<and> writer c' \<subseteq> writer c"
  by (auto simp: answered_def calm_request_def)

lemma calm_vfs:
  assumes D: "card_driver e g" and T: "unat timeout \<le> 2 ^ 30" and I: "idle g s"
    and C: "calm_request (CardCall operation path val)"
  shows "holds (vfs e operation path val timeout s) (\<lambda>(ok, r, s'). calm g s s' \<and>
    answered (CardCall operation path val) ok r (card_of g s) (card_of g s'))"
  by (rule holds_weaken [OF vfs_holds [OF D T I]])
    (use answered_calm [OF C] in \<open>fastforce simp: calm_def split: prod.splits\<close>)

lemma answered_success: "answered rq ok r c c' \<Longrightarrow> ok \<Longrightarrow> card_effect rq r c c' \<and> rs_success r"
  by (auto simp: answered_def)

lemma timeouts [simp]:
  "unat kVfsNormalWaitMs \<le> 1073741824" "unat kVfsMutateWaitMs \<le> 1073741824" "unat kVfsCloseWaitMs \<le> 1073741824"
  by (simp_all add: kVfsNormalWaitMs_def kVfsMutateWaitMs_def kVfsCloseWaitMs_def)

subsection \<open>The digest of a file\<close>

definition git_header :: "nat \<Rightarrow> bytes" where
  "git_header n = bytes_of (''blob '' @ dec_digits (int n)) @ [0]"

definition git_name :: "bytes \<Rightarrow> bytes" where
  "git_name d = sha1_of (git_header (length d) @ d)"

lemma blob_begin: "\<exists>t. gitBlobBegin Sha1_new n = Some t \<and> sha_streams t (git_header (unat n))"
proof -
  have b: "length (sh_buffer Sha1_new) = 64" by (simp add: Sha1_new_def)
  have u: "git_header (unat n) = bytes_of (''blob '' @ dec_digits (uint n)) @ [0]" by (simp add: git_header_def)
  have "uint n < 10 ^ 10" using uint_lt2p [of n] by simp
  then have "length (dec_digits (uint n)) \<le> 10" by (intro dec_digits_length) auto
  then have h: "take 23 (''blob '' @ dec_digits (uint n)) = ''blob '' @ dec_digits (uint n)" by simp
  show ?thesis
    using sha_update_streams [OF sha_reset_streams [OF b], of "bytes_of (''blob '' @ dec_digits (uint n)) @ [0]"]
    unfolding gitBlobBegin_def h Let_def u by simp
qed

text \<open>What the loop has read of the contents \<open>x\<close> of the open file \<open>k\<close> after \<open>m\<close> bytes.\<close>

definition reading :: "'w ghost \<Rightarrow> bytes \<Rightarrow> bytes \<Rightarrow> nat \<Rightarrow> 'w wcu \<Rightarrow> bool" where
  "reading g k x m s \<longleftrightarrow> idle g s \<and> cd_open (card_of g s) = Some (k, False) \<and> cd_files (card_of g s) k = Some x \<and>
     m \<le> cd_position (card_of g s) \<and> cd_position (card_of g s) \<le> length x \<and>
     cd_inbox (card_of g s) = take (cd_position (card_of g s) - m) (drop m x)"

lemma reading_quiet: "reading g k x m s \<Longrightarrow> quiet g s t \<Longrightarrow> reading g k x m t"
  by (simp add: reading_def quiet_def)

lemma writer_none: "cd_open c = Some (k, False) \<Longrightarrow> writer c = {}"
  by (simp add: writer_def)

lemma read_window:
  assumes D: "card_driver e g" and R: "reading g k x m s" and I: "cd_inbox (card_of g s) = []"
    and M: "m < length x"
  shows "holds (vfs e kRead None wanted kVfsNormalWaitMs s) (\<lambda>(ok, r, s'). calm g s s' \<and>
    (ok \<and> rs_transferred r \<noteq> 0 \<longrightarrow> reading g k x m s' \<and> cd_inbox (card_of g s') \<noteq> []))"
proof (rule holds_weaken [OF calm_vfs [OF D _ _ calm_requests(3)]])
  show "unat kVfsNormalWaitMs \<le> 2 ^ 30" by simp
  show "idle g s" using R by (simp add: reading_def)
  have pos: "cd_position (card_of g s) = m"
    using R I M by (auto simp: reading_def)
  fix z :: "bool \<times> vfs_result \<times> 'a wcu"
  assume z: "case z of (ok, r, s') \<Rightarrow> calm g s s' \<and> answered (CardCall kRead None wanted) ok r (card_of g s) (card_of g s')"
  obtain ok r s' where zz: "z = (ok, r, s')" by (cases z) auto
  have c: "calm g s s'" and a: "answered (CardCall kRead None wanted) ok r (card_of g s) (card_of g s')"
    using z zz by auto
  {
    assume ok: "ok" "rs_transferred r \<noteq> 0"
    have "card_effect (CardCall kRead None wanted) r (card_of g s) (card_of g s')" "rs_success r"
      using answered_success [OF a ok(1)] by auto
    then have e: "cd_open (card_of g s') = Some (k, False)"
      "cd_position (card_of g s') = m + unat (rs_transferred r)"
      "cd_position (card_of g s') \<le> length x"
      "cd_inbox (card_of g s') = take (unat (rs_transferred r)) (drop m x)"
      using R I pos by (auto simp: card_effect.simps reading_def)
    have "0 < unat (rs_transferred r)" using ok(2) by (simp add: unat_gt_0)
    then have "cd_inbox (card_of g s') \<noteq> []" using e M by simp
    moreover have "reading g k x m s'" using e c R by (simp add: reading_def calm_def)
    ultimately have "reading g k x m s' \<and> cd_inbox (card_of g s') \<noteq> []" by blast
  }
  then show "case z of (ok, r, s') \<Rightarrow> calm g s s' \<and>
    (ok \<and> rs_transferred r \<noteq> 0 \<longrightarrow> reading g k x m s' \<and> cd_inbox (card_of g s') \<noteq> [])"
    using c zz by simp
qed

lemma take_window:
  assumes D: "card_driver e g" and R: "reading g k x m s" and I: "cd_inbox (card_of g s) \<noteq> []" and w: "0 < w"
    and read: "world (en_readForNetwork e w) s = (data, t)"
  shows "calm g s t \<and> data \<noteq> [] \<and> m + length data \<le> length x \<and> data = take (length data) (drop m x) \<and>
    reading g k x (m + length data) t"
proof -
  let ?c = "card_of g s"
  have r: "data = take w (cd_inbox ?c)" "card_of g t = ?c\<lparr>cd_inbox := drop w (cd_inbox ?c)\<rparr>"
    "gh_pending g (wu_world t) = gh_pending g (wu_world s)" "core t = core s"
    using read_law [OF D, of w "wu_world s" data "wu_world t"] read
    by (auto simp: world_def card_of_def core_def split: prod.splits)
  have i: "cd_inbox ?c = take (cd_position ?c - m) (drop m x)" "m \<le> cd_position ?c" "cd_position ?c \<le> length x"
    using R by (auto simp: reading_def)
  have l: "length data = min w (cd_position ?c - m)" using r(1) i by simp
  have n: "data \<noteq> []" using r(1) I w by (cases w) (auto simp: take_Suc neq_Nil_conv)
  have d: "data = take (length data) (drop m x)" using r(1) i l by (simp add: min_def)
  have b: "drop w (cd_inbox ?c) = take (cd_position ?c - (m + length data)) (drop (m + length data) x)"
  proof (cases "w \<le> cd_position ?c - m")
    case True
    then show ?thesis using i l by (simp add: drop_take add.commute)
  next
    case False
    then show ?thesis using i l by simp
  qed
  have p: "m + length data \<le> cd_position ?c" using l i by simp
  have "calm g s t" using r R by (simp add: calm_def reading_def idle_def writer_def)
  moreover have "reading g k x (m + length data) t"
    unfolding reading_def
  proof (intro conjI)
    show "cd_inbox (card_of g t) = take (cd_position (card_of g t) - (m + length data)) (drop (m + length data) x)"
      using b by (simp add: r(2))
  qed (use r(2,3) R p in \<open>simp_all add: reading_def idle_def\<close>)
  ultimately show ?thesis using n d p i by simp
qed

lemma hash_loop_holds:
  assumes D: "card_driver e g" and N: "length x = unat len"
  shows "reading g k x m s \<Longrightarrow> m \<le> length x \<Longrightarrow> sha_streams sha (h @ take m x) \<Longrightarrow>
    holds (hash_loop e len sha (of_nat m) s) (\<lambda>(ok, sha', s'). calm g s s' \<and> (ok \<longrightarrow> sha_streams sha' (h @ x)))"
proof (induction "length x - m" arbitrary: m s sha rule: less_induct)
  case less
  have small: "length x < 4294967296" using N unat_u32 [of len] by simp
  have cnt: "unat (of_nat m :: u32) = m" using less.prems(2) small by simp
  have idle0: "idle g s" using less.prems(1) by (simp add: reading_def)
  show ?case
  proof (cases "m < length x")
    case False
    then have "\<not> (of_nat m :: u32) < len" using cnt N by (simp add: word_less_nat_alt)
    moreover have "take m x = x" using False by simp
    ultimately show ?thesis using less.prems idle0
      by (subst hash_loop.simps) (simp add: quiet_calm)
  next
    case True
    then have go: "(of_nat m :: u32) < len" using cnt N by (simp add: word_less_nat_alt)
    obtain stop s1 where s1: "world (en_stop e) s = (stop, s1)" by fastforce
    have q1: "quiet g s s1" using stop_quiet [OF D, of s] s1 by simp
    have R1: "reading g k x m s1" by (rule reading_quiet [OF less.prems(1) q1])
    have c1: "calm g s s1" by (rule quiet_calm [OF q1 idle0])
    have av: "en_vfsToNetworkAvailable e w = length (cd_inbox (gh_card g w))" for w
      by (rule inbox_law [OF D])
    let ?wanted = "if unat (len - of_nat m) < kMaxPumpPerRequest then len - of_nat m else of_nat kMaxPumpPerRequest"
    have fetch: "holds (if en_vfsToNetworkAvailable e (wu_world s1) = 0
        then do { (ok, result, s2) \<leftarrow> vfs e kRead None ?wanted kVfsNormalWaitMs s1; Some (ok \<and> rs_transferred result \<noteq> 0, s2) }
        else Some (True, s1))
      (\<lambda>(go, s2). calm g s1 s2 \<and> (go \<longrightarrow> reading g k x m s2 \<and> cd_inbox (card_of g s2) \<noteq> []))"
    proof (cases "cd_inbox (card_of g s1) = []")
      case True
      then have "en_vfsToNetworkAvailable e (wu_world s1) = 0" by (simp add: av card_of_def)
      then show ?thesis
        using holds_bind [OF read_window [OF D R1 True \<open>m < length x\<close>, of ?wanted]] by (auto intro!: holds_bind [OF read_window [OF D R1 True \<open>m < length x\<close>]])
    next
      case False
      then have "en_vfsToNetworkAvailable e (wu_world s1) \<noteq> 0" by (simp add: av card_of_def)
      then show ?thesis using R1 False by (auto intro: quiet_calm simp: reading_def)
    qed
    show ?thesis
    proof (cases stop)
      case True
      then show ?thesis using go c1 by (subst hash_loop.simps) (simp add: s1)
    next
      case False
      show ?thesis
      proof (subst hash_loop.simps, simp only: s1 go False Let_def prod.case if_False if_True not_True_eq_False,
          rule holds_bind [OF fetch [unfolded Let_def]], clarify)
        fix go s2
        assume c2: "calm g s1 s2" and R2: "go \<longrightarrow> reading g k x m s2 \<and> cd_inbox (card_of g s2) \<noteq> []"
        show "holds (if \<not> go then Some (False, sha, s2)
          else case world (en_readForNetwork e (if en_vfsToNetworkAvailable e (wu_world s2) < chunk_size
                  then en_vfsToNetworkAvailable e (wu_world s2) else chunk_size)) s2 of
            (data, s3) \<Rightarrow> if data = [] \<or> len < of_nat m + of_nat (length data) then Some (False, sha, s3)
              else sha_update sha (Some data) \<bind> (\<lambda>sha1.
                hash_loop e len sha1 (of_nat m + of_nat (length data)) (addProgress e (of_nat (length data)) s3)))
          (\<lambda>(ok, sha', s'). calm g s s' \<and> (ok \<longrightarrow> sha_streams sha' (h @ x)))"
        proof (cases go)
          case False
          then show ?thesis using calm_trans [OF c1 c2] by simp
        next
          case True
          let ?w = "if en_vfsToNetworkAvailable e (wu_world s2) < chunk_size
                  then en_vfsToNetworkAvailable e (wu_world s2) else chunk_size"
          obtain data s3 where rd: "world (en_readForNetwork e ?w) s2 = (data, s3)" by fastforce
          have "0 < ?w" using R2 True by (simp add: av card_of_def [symmetric] chunk_size_def)
          with R2 True have t: "calm g s2 s3" "data \<noteq> []" "m + length data \<le> length x"
            "data = take (length data) (drop m x)" "reading g k x (m + length data) s3"
            using take_window [OF D _ _ _ rd] by blast+
          have fits: "\<not> len < of_nat m + of_nat (length data)"
            using t(3) N small by (simp add: word_less_nat_alt flip: of_nat_add)
          obtain sha1 where u: "sha_update sha (Some data) = Some sha1" "sha_streams sha1 ((h @ take m x) @ data)"
            using sha_update_streams [OF less.prems(3)] by blast
          have "0 < length data" using t(2) by simp
          then have dec: "length x - (m + length data) < length x - m" using t(3) by linarith
          have tk: "take (m + length data) x = take m x @ data" using t(4) by (metis take_add)
          let ?s4 = "addProgress e (of_nat (length data)) s3"
          have q4: "quiet g s3 ?s4" by (rule progress_quiet [OF D])
          have c4: "calm g s ?s4"
            by (rule calm_quiet [OF calm_trans [OF c1 calm_trans [OF c2 t(1)]] q4])
          have "holds (hash_loop e len sha1 (of_nat (m + length data)) ?s4)
              (\<lambda>(ok, sha', s'). calm g ?s4 s' \<and> (ok \<longrightarrow> sha_streams sha' (h @ x)))"
            using u tk dec t(3)
            by (intro less.hyps reading_quiet [OF t(5) q4]) simp_all
          then have "holds (hash_loop e len sha1 (of_nat m + of_nat (length data)) ?s4)
              (\<lambda>(ok, sha', s'). calm g s s' \<and> (ok \<longrightarrow> sha_streams sha' (h @ x)))"
            unfolding of_nat_add by (rule holds_weaken) (auto intro: calm_trans [OF c4])
          then show ?thesis using True rd t(2) fits u(1) by simp
        qed
      qed
    qed
  qed
qed

lemma holdsE3:
  assumes "holds m (\<lambda>(a, b, c). P a b c)"
  obtains a b c where "m = Some (a, b, c)" "P a b c"
  using assms by (auto simp: holds_def)

lemma holdsE2:
  assumes "holds m (\<lambda>(a, b). P a b)"
  obtains a b where "m = Some (a, b)" "P a b"
  using assms by (auto simp: holds_def)

lemma close_reading:
  assumes D: "card_driver e g" and I: "idle g s" and W: "writer (card_of g s) = {}"
  shows "holds (vfs e kCloseCommit None 0 kVfsCloseWaitMs s) (\<lambda>(ok, r, s'). calm g s s')"
    and "holds (quietVfs e kCloseCommit None kVfsCloseWaitMs s) (\<lambda>(ok, s'). calm g s s')"
proof -
  have c: "answered (CardCall kCloseCommit None 0) ok r (card_of g s) c' \<Longrightarrow>
      cd_files c' = cd_files (card_of g s) \<and> writer c' \<subseteq> writer (card_of g s)" for ok r c'
    using W by (auto simp: answered_def card_effect.simps same_but_def)
  show "holds (vfs e kCloseCommit None 0 kVfsCloseWaitMs s) (\<lambda>(ok, r, s'). calm g s s')"
    by (rule holds_weaken [OF vfs_holds [OF D _ I]]) (use c in \<open>fastforce simp: calm_def\<close>)+
  show "holds (quietVfs e kCloseCommit None kVfsCloseWaitMs s) (\<lambda>(ok, s'). calm g s s')"
    by (rule holds_weaken [OF quiet_holds [OF D _ I]]) (use c in \<open>fastforce simp: calm_def\<close>)+
qed

text \<open>The outcome of \<open>hashLocal\<close> on a card.\<close>

definition hashed :: "'w ghost \<Rightarrow> bytes \<Rightarrow> u32 \<Rightarrow> 'w wcu \<Rightarrow> bytes option \<times> 'w wcu \<Rightarrow> bool" where
  "hashed g path len s = (\<lambda>(r, s'). calm g s s' \<and>
     (\<forall>d. r = Some d \<longrightarrow> writer (card_of g s') = {} \<and>
        (\<exists>x. cd_files (card_of g s) (card_key path) = Some x \<and> length x = unat len \<and> d = git_name x)))"

lemma hash_open_holds:
  assumes D: "card_driver e g" and R: "reading g k x 0 s" and N: "length x = unat len"
  shows "holds (hash_open e len s) (\<lambda>(r, s'). calm g s s' \<and>
    (\<forall>d. r = Some d \<longrightarrow> writer (card_of g s') = {} \<and> d = git_name x))"
proof -
  obtain sha where sha: "gitBlobBegin Sha1_new len = Some sha" "sha_streams sha (git_header (unat len))"
    using blob_begin by blast
  obtain ok sha1 s4 where l: "hash_loop e len sha 0 s = Some (ok, sha1, s4)" "calm g s s4"
      "ok \<longrightarrow> sha_streams sha1 (git_header (unat len) @ x)"
    using hash_loop_holds [OF D N R, of sha "git_header (unat len)"] sha(2) by (auto simp: holds_def)
  have w0: "writer (card_of g s) = {}" using R by (auto simp: reading_def writer_none)
  then have w4: "writer (card_of g s4) = {}" using l(2) by (auto simp: calm_def)
  obtain closed s5 where c: "(if ok then map_option (\<lambda>(c, r, t). (c, t)) (vfs e kCloseCommit None 0 kVfsCloseWaitMs s4)
      else quietVfs e kCloseCommit None kVfsCloseWaitMs s4) = Some (closed, s5)" "calm g s4 s5"
    using close_reading [OF D calm_idle [OF l(2)] w4]
    by (cases ok) (auto simp: holds_def)
  have c5: "calm g s s5" using calm_trans [OF l(2) c(2)] .
  then have w5: "writer (card_of g s5) = {}" using w0 by (auto simp: calm_def)
  show ?thesis
  proof (cases "ok \<and> closed")
    case False
    then show ?thesis using c5 by (auto simp: hash_open_def sha(1) l(1) c(1) simp del: if_split)
  next
    case True
    then obtain sha2 where f: "sha_finish sha1 = Some (sha2, git_name x)"
      using l(3) sha_finish_streams N by (auto simp: git_name_def)
    have c1: "map_option (\<lambda>(c, r, t). (c, t)) (vfs e kCloseCommit None 0 kVfsCloseWaitMs s4) = Some (True, s5)"
      using c(1) True by (simp del: map_option_eq_Some)
    show ?thesis using True c5 w5 by (simp add: hash_open_def sha(1) l(1) f c1 del: map_option_eq_Some)
  qed
qed

lemma hash_holds:
  assumes D: "card_driver e g" and I: "idle g s"
  shows "holds (hashLocal e path len s) (hashed g path len s)"
proof -
  obtain found stat s1 where v1: "vfs e kStat (Some path) 0 kVfsNormalWaitMs s = Some (found, stat, s1)"
      and c1: "calm g s s1" and a1: "answered (CardCall kStat (Some path) 0) found stat (card_of g s) (card_of g s1)"
    by (rule holdsE3 [OF calm_vfs [OF D _ I calm_requests(1)]]) auto
  show ?thesis
  proof (cases "found \<and> \<not> rs_isDirectory stat \<and> rs_size stat = len")
    case False
    then show ?thesis using c1 by (auto simp: hashLocal_def v1 hashed_def calm_set_error)
  next
    case True
    then obtain x where x: "cd_files (card_of g s) (card_key path) = Some x" "length x = unat len"
      using answered_success [OF a1] by (auto simp: card_effect.simps)
    obtain reset r2 s2 where v2: "vfs e kResetBuffers None 0 kVfsNormalWaitMs s1 = Some (reset, r2, s2)"
        and c2: "calm g s1 s2" and a2: "answered (CardCall kResetBuffers None 0) reset r2 (card_of g s1) (card_of g s2)"
      by (rule holdsE3 [OF calm_vfs [OF D _ calm_idle [OF c1] calm_requests(4)]]) auto
    show ?thesis
    proof (cases reset)
      case False
      then show ?thesis using True calm_trans [OF c1 c2] by (simp add: hashLocal_def v1 v2 hashed_def)
    next
      case r: True
      have in2: "cd_inbox (card_of g s2) = []" using answered_success [OF a2 r] by (simp add: card_effect.simps)
      obtain opened r3 s3 where v3: "vfs e kOpenRead (Some path) 0 kVfsNormalWaitMs s2 = Some (opened, r3, s3)"
          and c3: "calm g s2 s3" and a3: "answered (CardCall kOpenRead (Some path) 0) opened r3 (card_of g s2) (card_of g s3)"
        by (rule holdsE3 [OF calm_vfs [OF D _ calm_idle [OF c2] calm_requests(2)]]) auto
      have c13: "calm g s s3" using calm_trans [OF c1 calm_trans [OF c2 c3]] .
      show ?thesis
      proof (cases opened)
        case False
        then show ?thesis using True r c13 by (simp add: hashLocal_def v1 v2 v3 hashed_def)
      next
        case o: True
        have "reading g (card_key path) x 0 s3"
          using answered_success [OF a3 o] in2 c13 x(1)
          by (auto simp: card_effect.simps reading_def calm_def)
        from hash_open_holds [OF D this x(2)] show ?thesis
          using True r o x calm_trans [OF c13]
          by (auto simp: hashLocal_def v1 v2 v3 hashed_def elim!: holds_weaken)
      qed
    qed
  qed
qed

end
