(* ===== verification/WcuSafe.thy ===== *)
theory WcuSafe
  imports WcuRead
begin

text \<open>
  The updater never loses a file. Whatever the card, the network and the power do, an update
  changes at most the file itself and the two service names of its folder; a file that was
  already under a service name is not touched; the file is afterwards the old one or one with
  the git name GitHub gave; an existing protected file is never changed.
\<close>

subsection \<open>Names\<close>

definition final_key :: "WcFile \<Rightarrow> bytes" where "final_key f = card_key (localPath (wf_path f))"
definition temp_key :: "WcFile \<Rightarrow> bytes" where "temp_key f = card_key (temp_path (wf_path f))"
definition aside_key :: "WcFile \<Rightarrow> bytes" where "aside_key f = card_key (aside_path (wf_path f))"

text \<open>The check of \<open>fetchRemote\<close>: the updater's own names are not files of the list.\<close>

definition free_name :: "WcFile \<Rightarrow> bool" where
  "free_name f \<longleftrightarrow> \<not> equalNoCase (base_name (wf_path f)) kTempName \<and> \<not> equalNoCase (base_name (wf_path f)) kAsideName"

text \<open>The names of a table: free ones, each on the card at most once.\<close>

definition names_ok :: "WcFile list \<Rightarrow> bool" where
  "names_ok fs \<longleftrightarrow> (\<forall>f\<in>set fs. free_name f) \<and> distinct (map final_key fs)"

definition verified :: "WcFile \<Rightarrow> bytes \<Rightarrow> bool" where
  "verified f x \<longleftrightarrow> length x = unat (wf_remoteSize f) \<and> git_name x = wf_sha f"

lemma equalNoCase_key: "equalNoCase a b \<longleftrightarrow> card_key a = card_key b"
  unfolding card_key_def by (induction a b rule: equalNoCase.induct) auto

lemma toupper_slash: "toupper c = 47 \<longleftrightarrow> c = 47"
proof -
  { assume c: "97 \<le> c" "c \<le> 122" and "c - 32 = 47"
    then have "c = 79" by (simp add: diff_eq_eq)
    with c have False by simp }
  then show ?thesis by (auto simp: toupper_def)
qed

lemma strrchr_key: "strrchr 47 (card_key p) = strrchr 47 p"
  unfolding card_key_def by (induction p) (auto simp: toupper_slash split: option.splits)

lemma base_name_key: "base_name (card_key p) = card_key (base_name p)"
  unfolding base_name_def strrchr_key by (auto simp: card_key_def drop_map split: option.splits)

lemma strrchr_append: "strrchr c (p @ c # q) = (case strrchr c q of None \<Rightarrow> Some (length p) | Some i \<Rightarrow> Some (length p + Suc i))"
  by (induction p) (auto split: option.splits)

lemma strrchr_bound: "strrchr c p = Some i \<Longrightarrow> i < length p \<and> p ! i = c"
  by (induction p arbitrary: i) (auto split: option.splits if_splits)

lemma service_names: "strrchr 47 kTempName = None" "strrchr 47 kAsideName = None"
  "card_key kTempName \<noteq> card_key kAsideName"
  by (simp_all add: kTempName_def kAsideName_def bytes_of_def card_key_def toupper_def)

lemma base_in_folder: "strrchr 47 name = None \<Longrightarrow> base_name (folder @ 47 # name) = name"
  by (simp add: base_name_def strrchr_append)

lemma localPath_base: "base_name (localPath path) = base_name path"
  using strrchr_append [of 47 "[]" path]
  by (auto simp: localPath_def base_name_def split: option.splits)

lemma final_base: "base_name (final_key f) = card_key (base_name (wf_path f))"
  by (simp add: final_key_def base_name_key localPath_base)

lemma service_base:
  "base_name (temp_key f) = card_key kTempName" "base_name (aside_key f) = card_key kAsideName"
  by (simp_all add: temp_key_def aside_key_def base_name_key temp_path_def aside_path_def base_in_folder service_names)

lemma names_differ:
  assumes "free_name f"
  shows "final_key f \<noteq> temp_key h" "final_key f \<noteq> aside_key h" "temp_key f \<noteq> aside_key h"
  using assms service_base [of h] service_base [of f] final_base [of f] service_names(3)
  by (auto simp: free_name_def equalNoCase_key)

lemma folder_base: "folder_of path @ 47 # base_name path = localPath path"
proof (cases "strrchr 47 path")
  case None
  then show ?thesis by (simp add: folder_of_def base_name_def localPath_def)
next
  case (Some i)
  then have "i < length path" "path ! i = 47" using strrchr_bound by blast+
  then have "take i path @ 47 # drop (Suc i) path = path" by (metis id_take_nth_drop)
  with Some show ?thesis by (simp add: folder_of_def base_name_def localPath_def)
qed

lemma rename_in_folder:
  "strrchr 47 name = None \<Longrightarrow> rename_target (folder @ 47 # name) other = folder @ 47 # other"
  by (simp add: rename_target_def strrchr_append)

lemma base_no_slash: "strrchr 47 (base_name path) = None"
proof -
  have "strrchr c (drop (Suc i) p) = None" if "strrchr c p = Some i" for c p i
    using that
  proof (induction p arbitrary: i)
    case (Cons x xs)
    then show ?case by (cases i) (auto split: option.splits if_splits)
  qed simp
  then show ?thesis by (auto simp: base_name_def split: option.splits)
qed

lemma rename_targets:
  "rename_target (temp_path path) (base_name path) = localPath path"
  "rename_target (localPath path) kAsideName = aside_path path"
  "rename_target (aside_path path) (base_name path) = localPath path"
  using rename_in_folder [OF base_no_slash [of path], of "folder_of path" kAsideName]
  by (simp_all add: temp_path_def aside_path_def rename_in_folder service_names folder_base)

subsection \<open>The card during an update\<close>

definition card_inv :: "WcFile \<Rightarrow> card \<Rightarrow> bool \<Rightarrow> card \<Rightarrow> bool" where
  "card_inv f c0 bad c \<longleftrightarrow> (\<forall>k. cd_files c k = cd_files c0 k \<or>
     (k \<in> {temp_key f, aside_key f} \<and> cd_files c0 k = None) \<or>
     (k = final_key f \<and> \<not> (wf_kept f \<and> cd_files c0 k \<noteq> None) \<and>
        (bad \<or> (\<exists>x. cd_files c k = Some x \<and> verified f x))))"

text \<open>The service names that were free at the start.\<close>

definition ours :: "WcFile \<Rightarrow> card \<Rightarrow> bytes set" where
  "ours f c0 = {k. k \<in> {temp_key f, aside_key f} \<and> cd_files c0 k = None}"

lemma card_inv_refl [simp]: "card_inv f c bad c"
  by (simp add: card_inv_def)

lemma card_inv_files: "card_inv f c0 bad c \<Longrightarrow> cd_files c' = cd_files c \<Longrightarrow> card_inv f c0 bad c'"
  by (simp add: card_inv_def)

lemma card_inv_ours: "card_inv f c0 bad c \<Longrightarrow> same_but K c c' \<Longrightarrow> K \<subseteq> ours f c0 \<Longrightarrow> card_inv f c0 bad c'"
  unfolding card_inv_def same_but_def ours_def by (metis (mono_tags, lifting) mem_Collect_eq subset_iff)

lemma card_inv_bad: "card_inv f c0 bad c \<Longrightarrow> (bad \<Longrightarrow> bad') \<Longrightarrow> card_inv f c0 bad' c"
  unfolding card_inv_def by blast

lemma free_ours:
  assumes "card_inv f c0 bad c" and "free_name f" and "k \<in> {temp_key f, aside_key f}" and "cd_files c k = None"
  shows "k \<in> ours f c0"
proof -
  have "k \<noteq> final_key f" using assms(3) names_differ [OF assms(2), of f] by auto
  then show ?thesis using assms unfolding card_inv_def ours_def by (metis (mono_tags, lifting) mem_Collect_eq)
qed

definition tame :: "'w ghost \<Rightarrow> WcFile \<Rightarrow> card \<Rightarrow> WcFile list \<Rightarrow> 'w wcu \<Rightarrow> bool" where
  "tame g f c0 fs s \<longleftrightarrow> idle g s \<and> wu_files s = fs \<and>
     card_inv f c0 (wu_diskSuspect s \<and> \<not> gh_filex g) (card_of g s)"

lemma tame_idle: "tame g f c0 fs s \<Longrightarrow> idle g s"
  by (simp add: tame_def)

lemma tame_calm: "tame g f c0 fs s \<Longrightarrow> calm g s t \<Longrightarrow> tame g f c0 fs t"
  by (auto simp: tame_def calm_def core_def elim: card_inv_files)

lemma tame_quiet: "tame g f c0 fs s \<Longrightarrow> quiet g s t \<Longrightarrow> tame g f c0 fs t"
  by (simp add: tame_def quiet_def core_def)

lemma tame_fields [simp]:
  "tame g f c0 fs (set_error t s) = tame g f c0 fs s"
  "tame g f c0 fs (markLeftover p s) = tame g f c0 fs s"
  "tame g f c0 fs (s\<lparr>wu_error := x\<rparr>) = tame g f c0 fs s"
  by (simp_all add: tame_def set_error_def markLeftover_def card_of_def idle_def split: option.splits)

lemma tame_step:
  assumes "tame g f c0 fs s" and "core t = core s" and "idle g t"
    and "same_but K (card_of g s) (card_of g t)" and "K \<subseteq> ours f c0"
  shows "tame g f c0 fs t"
  using assms by (auto simp: tame_def core_def intro: card_inv_ours)

lemma answered_same_but:
  assumes "answered rq ok r c c'" and "\<And>q. card_effect rq q c c' \<Longrightarrow> same_but K c c'"
  shows "same_but K c c'"
  using assms by (auto simp: answered_def same_but_def)

subsection \<open>Writing the copy\<close>

lemma fill_holds:
  assumes D: "card_driver e g"
  shows "idle g s \<Longrightarrow> offset \<le> length data \<Longrightarrow> holds (fill_loop e data offset s) (\<lambda>(o', s').
    core s' = core s \<and> idle g s' \<and> offset \<le> o' \<and> o' \<le> length data \<and>
    card_of g s' = (card_of g s)\<lparr>cd_outbox := cd_outbox (card_of g s) + (o' - offset)\<rparr> \<and>
    (o' < length data \<longrightarrow> gh_capacity g \<le> cd_outbox (card_of g s')))"
proof (induction "length data - offset" arbitrary: offset s rule: less_induct)
  case less
  let ?free = "gh_capacity g - cd_outbox (card_of g s)"
  have fr: "en_networkToVfsFree e (wu_world s) = ?free" by (simp add: free_law [OF D] card_of_def)
  show ?case
  proof (cases "offset < length data \<and> ?free \<noteq> 0")
    case False
    have "card_of g s = (card_of g s)\<lparr>cd_outbox := cd_outbox (card_of g s) + (offset - offset)\<rparr>" by simp
    with False less.prems show ?thesis by (subst fill_loop.simps) (auto simp: fr Let_def)
  next
    case True
    let ?part = "if length data - offset < ?free then length data - offset else ?free"
    let ?d = "take ?part (drop offset data)"
    obtain n w where w: "en_writeFromNetwork e ?d (wu_world s) = (n, w)" by fastforce
    have l: "n = ?part" "gh_pending g w = None"
      "gh_card g w = (card_of g s)\<lparr>cd_outbox := cd_outbox (card_of g s) + ?part\<rparr>"
      using write_law [OF D w] less.prems(1) True by (auto simp: card_of_def idle_def min_def)
    let ?s1 = "s\<lparr>wu_world := w\<rparr>"
    have pos: "0 < ?part" "offset + ?part \<le> length data" using True by auto
    then have dec: "length data - (offset + ?part) < length data - offset" by linarith
    have "holds (fill_loop e data (offset + ?part) ?s1) (\<lambda>(o', s'). core s' = core ?s1 \<and> idle g s' \<and>
        offset + ?part \<le> o' \<and> o' \<le> length data \<and>
        card_of g s' = (card_of g ?s1)\<lparr>cd_outbox := cd_outbox (card_of g ?s1) + (o' - (offset + ?part))\<rparr> \<and>
        (o' < length data \<longrightarrow> gh_capacity g \<le> cd_outbox (card_of g s')))"
      using dec l(2) pos by (intro less.hyps) auto
    then have "holds (fill_loop e data (offset + ?part) ?s1) (\<lambda>(o', s'). core s' = core s \<and> idle g s' \<and>
        offset \<le> o' \<and> o' \<le> length data \<and>
        card_of g s' = (card_of g s)\<lparr>cd_outbox := cd_outbox (card_of g s) + (o' - offset)\<rparr> \<and>
        (o' < length data \<longrightarrow> gh_capacity g \<le> cd_outbox (card_of g s')))"
      by (rule holds_weaken) (auto simp: l(3))
    then show ?thesis using True pos
      by (subst fill_loop.simps) (simp add: fr Let_def world_def w l(1))
  qed
qed

text \<open>The states while the copy \<open>T\<close> is open for writing.\<close>

definition writing :: "'w ghost \<Rightarrow> WcFile \<Rightarrow> card \<Rightarrow> WcFile list \<Rightarrow> bytes \<Rightarrow> 'w wcu \<Rightarrow> bool" where
  "writing g f c0 fs k s \<longleftrightarrow> tame g f c0 fs s \<and> writer (card_of g s) \<subseteq> {k} \<and> k \<in> ours f c0"

lemma writing_same:
  assumes "writing g f c0 fs k s" and "core t = core s" and "idle g t"
    and "same_but (writer (card_of g s)) (card_of g s) (card_of g t)" and "writer (card_of g t) \<subseteq> writer (card_of g s)"
  shows "writing g f c0 fs k t"
  using assms tame_step [of g f c0 fs s t "writer (card_of g s)"] by (auto simp: writing_def)

lemma writing_card:
  "writing g f c0 fs k s \<Longrightarrow> core t = core s \<Longrightarrow> idle g t \<Longrightarrow> card_of g t = (card_of g s)\<lparr>cd_outbox := n\<rparr> \<Longrightarrow>
   writing g f c0 fs k t"
  by (rule writing_same) (auto simp: same_but_def writer_def)

lemma writing_quiet: "writing g f c0 fs k s \<Longrightarrow> quiet g s t \<Longrightarrow> writing g f c0 fs k t"
  by (auto simp: writing_def quiet_def intro: tame_quiet [unfolded quiet_def])

text \<open>A request that changes only the file open for writing keeps the state.\<close>

definition writes_open :: "card_request \<Rightarrow> bool" where
  "writes_open rq \<longleftrightarrow> (\<forall>r c c'. card_effect rq r c c' \<longrightarrow> same_but (writer c) c c' \<and> writer c' \<subseteq> writer c)"

lemma writes_open_requests:
  "writes_open (CardCall kWrite None val)" "writes_open (CardCall kCloseCommit None val)"
  "writes_open (CardCall kCloseAbort None val)"
  by (simp_all add: writes_open_def card_effect.simps)

lemma writing_answered:
  assumes "writing g f c0 fs k s" and "writes_open rq" and "core t = core s" and "idle g t"
    and "answered rq ok r (card_of g s) (card_of g t)"
  shows "writing g f c0 fs k t"
proof (rule writing_same [OF assms(1,3,4)])
  have q: "same_but (writer c) c c' \<and> writer c' \<subseteq> writer c" if "card_effect rq q c c'" for q c c'
    using assms(2) that by (simp add: writes_open_def)
  show "same_but (writer (card_of g s)) (card_of g s) (card_of g t)"
    using assms(5) by (rule answered_same_but) (use q in blast)
  show "writer (card_of g t) \<subseteq> writer (card_of g s)"
    using assms(5) q unfolding answered_def by (metis order_refl)
qed

lemma write_data_holds:
  assumes D: "card_driver e g" and W: "window \<le> gh_capacity g"
  shows "writing g f c0 fs k s \<Longrightarrow> offset \<le> length data \<Longrightarrow>
    holds (write_data_loop e data window offset s) (\<lambda>(ok, s'). writing g f c0 fs k s')"
proof (induction "(length data - offset) + cd_outbox (card_of g s)" arbitrary: offset s rule: less_induct)
  case less
  have I: "idle g s" using less.prems(1) by (simp add: writing_def tame_def)
  have out: "en_networkToVfsAvailable e (wu_world t) = cd_outbox (card_of g t)" for t
    by (simp add: outbox_law [OF D] card_of_def)
  show ?case
  proof (cases "offset < length data \<or> cd_outbox (card_of g s) \<noteq> 0")
    case False
    then show ?thesis using less.prems by (subst write_data_loop.simps) (simp add: out)
  next
    case True
    obtain stop s1 where s1: "world (en_stop e) s = (stop, s1)" by fastforce
    have q1: "quiet g s s1" using stop_quiet [OF D, of s] s1 by simp
    have w1: "writing g f c0 fs k s1" by (rule writing_quiet [OF less.prems(1) q1])
    show ?thesis
    proof (cases stop)
      case stopped: True
      then show ?thesis using True w1 by (subst write_data_loop.simps) (simp add: out s1)
    next
      case go: False
      have I1: "idle g s1" using q1 I by (simp add: quiet_def)
      obtain o2 s2 where f: "fill_loop e data offset s1 = Some (o2, s2)" "core s2 = core s1" "idle g s2"
          "offset \<le> o2" "o2 \<le> length data"
          "card_of g s2 = (card_of g s1)\<lparr>cd_outbox := cd_outbox (card_of g s1) + (o2 - offset)\<rparr>"
          "o2 < length data \<longrightarrow> gh_capacity g \<le> cd_outbox (card_of g s2)"
        using fill_holds [OF D I1 less.prems(2)] by (auto simp: holds_def)
      have w2: "writing g f c0 fs k s2" by (rule writing_card [OF w1 f(2,3,6)])
      have full: "\<not> (cd_outbox (card_of g s2) < window \<and> o2 < length data)" using f(7) W by auto
      let ?wanted = "of_nat (if cd_outbox (card_of g s2) < kMaxPumpPerRequest then cd_outbox (card_of g s2)
        else kMaxPumpPerRequest) :: u32"
      obtain ok r s3 where v: "vfs e kWrite None ?wanted kVfsMutateWaitMs s2 = Some (ok, r, s3)" "core s3 = core s2"
          "idle g s3" "answered (CardCall kWrite None ?wanted) ok r (card_of g s2) (card_of g s3)"
        by (rule holdsE3 [OF vfs_holds [OF D _ f(3)]]) auto
      have w3: "writing g f c0 fs k s3" by (rule writing_answered [OF w2 writes_open_requests(1) v(2,3,4)])
      show ?thesis
      proof (cases "ok \<and> rs_transferred r \<noteq> 0")
        case False
        then show ?thesis using True go full w3
          by (subst write_data_loop.simps) (auto simp: out s1 f(1) v(1))
      next
        case ok: True
        let ?t = "unat (rs_transferred r)"
        let ?s4 = "addProgress e (rs_transferred r) s3"
        have "?t \<le> cd_outbox (card_of g s2)" "cd_outbox (card_of g s3) = cd_outbox (card_of g s2) - ?t"
          using answered_success [OF v(4)] ok by (auto simp: card_effect.simps)
        moreover have "0 < ?t" using ok by (simp add: unat_gt_0)
        moreover have q4: "quiet g s3 ?s4" by (rule progress_quiet [OF D])
        moreover have "cd_outbox (card_of g s2) = cd_outbox (card_of g s) + (o2 - offset)"
          using f(6) q1 by (simp add: quiet_def)
        ultimately have dec: "(length data - o2) + cd_outbox (card_of g ?s4)
            < (length data - offset) + cd_outbox (card_of g s)"
          using f(4,5) by (simp add: quiet_def)
        have "holds (write_data_loop e data window o2 ?s4) (\<lambda>(ok, s'). writing g f c0 fs k s')"
          using dec writing_quiet [OF w3 q4] f(5) by (intro less.hyps)
        then show ?thesis using True go full ok
          by (subst write_data_loop.simps) (auto simp: out s1 f(1) v(1))
      qed
    qed
  qed
qed

lemma delete_ours:
  assumes D: "card_driver e g" and T: "tame g f c0 fs s" and K: "card_key p \<in> ours f c0"
  shows "holds (quietVfs e kDelete (Some p) kVfsMutateWaitMs s) (\<lambda>(ok, s'). tame g f c0 fs s')"
proof -
  have sb: "card_effect (CardCall kDelete (Some p) 0) q c c' \<Longrightarrow> same_but {card_key p} c c'" for q c c'
    by (simp add: card_effect.simps)
  obtain ok s' r where v: "quietVfs e kDelete (Some p) kVfsMutateWaitMs s = Some (ok, s')" "core s' = core s" "idle g s'"
      "answered (CardCall kDelete (Some p) 0) ok r (card_of g s) (card_of g s')"
    using quiet_holds [OF D _ tame_idle [OF T], of kVfsMutateWaitMs kDelete "Some p"] by (auto simp: holds_def)
  have s: "same_but {card_key p} (card_of g s) (card_of g s')" by (rule answered_same_but [OF v(4) sb])
  then show ?thesis using v tame_step [OF T v(2,3) s] K by (simp add: v(1))
qed

lemma writeLocal_holds:
  assumes D: "card_driver e g" and F: "free_name f" and T: "tame g f c0 fs s"
  shows "holds (writeLocal e (temp_path (wf_path f)) data s) (\<lambda>(ok, left, s'). tame g f c0 fs s' \<and>
    (ok \<longrightarrow> left) \<and> (left \<longrightarrow> temp_key f \<in> ours f c0))"
proof -
  let ?p = "temp_path (wf_path f)"
  obtain reset r1 s1 where v1: "vfs e kResetBuffers None 0 kVfsNormalWaitMs s = Some (reset, r1, s1)" and c1: "calm g s s1"
    by (rule holdsE3 [OF calm_vfs [OF D _ tame_idle [OF T] calm_requests(4)]]) auto
  have T1: "tame g f c0 fs s1" by (rule tame_calm [OF T c1])
  show ?thesis
  proof (cases reset)
    case False
    then show ?thesis using T1 by (simp add: writeLocal_def v1)
  next
    case reset: True
    obtain opened r2 s2 where v2: "vfs e kOpenWrite (Some ?p) 0 kVfsMutateWaitMs s1 = Some (opened, r2, s2)"
        "core s2 = core s1" "idle g s2" "answered (CardCall kOpenWrite (Some ?p) 0) opened r2 (card_of g s1) (card_of g s2)"
      by (rule holdsE3 [OF vfs_holds [OF D _ tame_idle [OF T1]]]) auto
    have key: "card_key ?p = temp_key f" by (simp add: temp_key_def)
    have T2: "tame g f c0 fs s2"
    proof (cases "cd_files (card_of g s1) (temp_key f) = None")
      case True
      have "temp_key f \<in> ours f c0"
        using T1 True by (intro free_ours [OF _ F]) (auto simp: tame_def)
      moreover have "same_but {temp_key f} (card_of g s1) (card_of g s2)"
        using v2(4) by (rule answered_same_but) (simp add: card_effect.simps key)
      ultimately show ?thesis using tame_step [OF T1 v2(2,3)] by simp
    next
      case False
      have "same_but {} (card_of g s1) (card_of g s2)"
        using v2(4) by (rule answered_same_but) (use False in \<open>auto simp: card_effect.simps key same_but_def\<close>)
      then show ?thesis using tame_step [OF T1 v2(2,3)] by simp
    qed
    show ?thesis
    proof (cases opened)
      case False
      then show ?thesis using reset T2 by (simp add: writeLocal_def v1 v2(1))
    next
      case opened: True
      have ow: "cd_open (card_of g s2) = Some (temp_key f, True)" "cd_files (card_of g s1) (temp_key f) = None"
        using answered_success [OF v2(4) opened] by (auto simp: card_effect.simps key)
      have mine: "temp_key f \<in> ours f c0"
        using T1 ow(2) by (intro free_ours [OF _ F]) (auto simp: tame_def)
      have w2: "writing g f c0 fs (temp_key f) s2"
        using T2 mine ow(1) by (simp add: writing_def writer_def)
      let ?win = "if kMaxPumpPerRequest < gh_capacity g then kMaxPumpPerRequest else gh_capacity g"
      obtain ok s3 where w: "write_data_loop e data ?win 0 s2 = Some (ok, s3)" "writing g f c0 fs (temp_key f) s3"
        by (rule holdsE2 [OF write_data_holds [OF D _ w2, of ?win 0 data]]) auto
      have I3: "idle g s3" using w(2) by (simp add: writing_def tame_def)
      obtain closed s4 where c: "(if ok then map_option (\<lambda>(c, r, t). (c, t)) (vfs e kCloseCommit None 0 kVfsCloseWaitMs s3)
          else Some (False, s3)) = Some (closed, s4)" "writing g f c0 fs (temp_key f) s4"
      proof (cases ok)
        case True
        obtain cl r t where x: "vfs e kCloseCommit None 0 kVfsCloseWaitMs s3 = Some (cl, r, t)" "core t = core s3" "idle g t"
            "answered (CardCall kCloseCommit None 0) cl r (card_of g s3) (card_of g t)"
          by (rule holdsE3 [OF vfs_holds [OF D _ I3]]) auto
        have "writing g f c0 fs (temp_key f) t" by (rule writing_answered [OF w(2) writes_open_requests(2) x(2,3,4)])
        with True x that show ?thesis by auto
      next
        case False
        with w(2) that show ?thesis by simp
      qed
      have cap: "en_ringCapacity e w = gh_capacity g" for w by (rule capacity_law [OF D])
      show ?thesis
      proof (cases closed)
        case True
        then show ?thesis using reset opened c(2) mine
          by (simp add: writeLocal_def v1 v2(1) cap Let_def w(1) c(1) writing_def)
      next
        case False
        have I4: "idle g s4" using c(2) by (simp add: writing_def tame_def)
        obtain a s5 r5 where x: "quietVfs e kCloseAbort None kVfsCloseWaitMs s4 = Some (a, s5)" "core s5 = core s4" "idle g s5"
            "answered (CardCall kCloseAbort None 0) a r5 (card_of g s4) (card_of g s5)"
          using quiet_holds [OF D _ I4, of kVfsCloseWaitMs kCloseAbort None] by (auto simp: holds_def)
        have "writing g f c0 fs (temp_key f) s5" by (rule writing_answered [OF c(2) writes_open_requests(3) x(2,3,4)])
        then have T5: "tame g f c0 fs s5" by (simp add: writing_def)
        obtain deleted s6 where y: "quietVfs e kDelete (Some ?p) kVfsMutateWaitMs s5 = Some (deleted, s6)" "tame g f c0 fs s6"
          using delete_ours [OF D T5, of ?p] mine by (auto simp: holds_def key)
        show ?thesis using reset opened False y(2) mine
          by (simp add: writeLocal_def v1 v2(1) cap Let_def w(1) c(1) x(1) y(1))
      qed
    qed
  qed
qed

end
