(* ===== verification/WcuInstall.thy ===== *)
theory WcuInstall
  imports WcuSafe
begin

text \<open>
  The steps of an update keep the card invariant: writing the copy until it is verified,
  replacing the file with FILEX MOVE or by renaming, and the rounds of \<open>updateFile\<close>.
\<close>

subsection \<open>Reasons and directories\<close>

lemma note_reasonE:
  assumes "card_driver e g"
  obtains t s' where "note_reason e text u s = (u\<lparr>up_reason := t\<rparr>, s')" "quiet g s s'"
proof -
  obtain stop s1 where s1: "world (en_stop e) s = (stop, s1)" by fastforce
  have "quiet g s s1" using stop_quiet [OF assms, of s] s1 by simp
  with s1 that show thesis by (simp add: note_reason_def)
qed

lemma tame_suspect: "tame g f c0 fs s \<Longrightarrow> tame g f c0 fs (s\<lparr>wu_diskSuspect := True\<rparr>)"
  by (auto simp: tame_def idle_def card_of_def elim!: card_inv_bad)

lemma calm_suspect: "calm g s t \<Longrightarrow> calm g (s\<lparr>wu_diskSuspect := True\<rparr>) (t\<lparr>wu_diskSuspect := True\<rparr>)"
  by (simp add: calm_def core_def idle_def card_of_def)

lemma quiet_suspect: "quiet g s t \<Longrightarrow> quiet g (s\<lparr>wu_diskSuspect := True\<rparr>) (t\<lparr>wu_diskSuspect := True\<rparr>)"
  by (simp add: quiet_def core_def idle_def card_of_def)

lemma tame_present: "tame g f c0 fs (s\<lparr>wu_present := x\<rparr>) = tame g f c0 fs s"
  by (simp add: tame_def card_of_def idle_def)

lemma ensure_holds:
  assumes D: "card_driver e g"
  shows "tame g f c0 fs s \<Longrightarrow> holds (ensure_loop e path lengths s) (\<lambda>(ok, s'). tame g f c0 fs s')"
proof (induction lengths arbitrary: s)
  case Nil
  then show ?case by simp
next
  case (Cons len lengths)
  let ?p = "47 # take len path"
  obtain found r s1 where v1: "vfs e kStat (Some ?p) 0 kVfsNormalWaitMs s = Some (found, r, s1)" and c1: "calm g s s1"
    by (rule holdsE3 [OF calm_vfs [OF D _ tame_idle [OF Cons.prems] calm_requests(1)]]) auto
  have T1: "tame g f c0 fs s1" by (rule tame_calm [OF Cons.prems c1])
  obtain made r2 s2 where v2: "vfs e kMkdir (Some ?p) 0 kVfsMutateWaitMs s1 = Some (made, r2, s2)" and c2: "calm g s1 s2"
    by (rule holdsE3 [OF calm_vfs [OF D _ tame_idle [OF T1] calm_requests(5)]]) auto
  have T2: "tame g f c0 fs s2" by (rule tame_calm [OF T1 c2])
  show ?case
  proof (cases found)
    case True
    then show ?thesis using T1 Cons.IH [OF T1] tame_suspect [OF T1]
      by (simp add: v1 Let_def split: option.splits)
  next
    case False
    have "tame g f c0 fs (case directoryIndex path len s of Some i \<Rightarrow> s2\<lparr>wu_present := (wu_present s2)[i := True]\<rparr> | None \<Rightarrow> s2)"
      using T2 by (auto simp: tame_present split: option.splits)
    with False T2 show ?thesis by (simp add: v1 v2 Let_def Cons.IH)
  qed
qed

lemma download_holds:
  assumes D: "card_driver e g"
  shows "holds (download e file s) (\<lambda>(body, s'). quiet g s s')"
proof -
  have b: "\<exists>x. blob_digest n data = Some x" for n data
  proof -
    obtain t where t: "gitBlobBegin Sha1_new n = Some t" "sha_streams t (git_header (unat n))"
      using blob_begin by blast
    obtain t1 where t1: "sha_update t (Some data) = Some t1" "sha_streams t1 (git_header (unat n) @ data)"
      using sha_update_streams [OF t(2)] by blast
    show ?thesis using sha_finish_streams [OF t1(2)] by (auto simp: blob_digest_def t(1) t1(1))
  qed
  have loop: "holds (download_loop e url file n s) (\<lambda>(body, s'). quiet g s s')" for url n s
  proof (induction n arbitrary: s)
    case (Suc n)
    obtain stop s1 where s1: "world (en_stop e) s = (stop, s1)" by fastforce
    have q1: "quiet g s s1" using stop_quiet [OF D, of s] s1 by simp
    obtain ok body status why s2 where s2:
        "world (en_get e kRawHost url (unat (wf_remoteSize file) + 1)) s1 = ((ok, body, status, why), s2)"
      by (metis prod.exhaust_sel)
    have i: "idles g (en_get e kRawHost url (unat (wf_remoteSize file) + 1))"
      using D by (simp add: card_driver_def other_laws_def)
    have q2: "quiet g s1 s2" using world_quiet [OF i, of s1] s2 by simp
    have q: "quiet g s (set_error t s2)" for t
      using quiet_trans [OF q1 q2] by (simp add: quiet_def)
    have ih: "holds (download_loop e url file n (set_error t s2)) (\<lambda>(body, s'). quiet g s s')" for t
      by (rule holds_weaken [OF Suc.IH]) (auto intro: quiet_trans [OF q])
    obtain d where d: "blob_digest (wf_remoteSize file) body = Some d" using b by blast
    show ?case using q1 quiet_trans [OF q1 q2] ih by (simp add: s1 s2 [simplified] d)
  qed simp
  have e: "quiet g s (set_error t s)" for t by (simp add: quiet_def)
  show ?thesis unfolding download_def using loop e by (auto split: option.splits)
qed

subsection \<open>The verified copy\<close>

definition staged_copy :: "'w ghost \<Rightarrow> WcFile \<Rightarrow> card \<Rightarrow> 'w wcu \<Rightarrow> bool" where
  "staged_copy g f c0 s \<longleftrightarrow> temp_key f \<in> ours f c0 \<and>
     (\<exists>x. cd_files (card_of g s) (temp_key f) = Some x \<and> verified f x)"

definition placed :: "'w ghost \<Rightarrow> WcFile \<Rightarrow> 'w wcu \<Rightarrow> bool" where
  "placed g f s \<longleftrightarrow> (\<exists>x. cd_files (card_of g s) (final_key f) = Some x \<and> verified f x)"

lemma hashed_verified:
  assumes "hashed g path (wf_remoteSize f) s (r, s')" and "r = Some (wf_sha f)"
  shows "\<exists>x. cd_files (card_of g s') (card_key path) = Some x \<and> verified f x"
  using assms by (auto simp: hashed_def calm_def verified_def)

lemma hashE:
  assumes "card_driver e g" and "idle g s"
  obtains d s' where "hashLocal e path len s = Some (d, s')" "hashed g path len s (d, s')"
  using hash_holds [OF assms, of path len] by (auto simp: holds_def)

lemma stage_holds:
  assumes D: "card_driver e g" and F: "free_name f"
  shows "tame g f c0 fs s \<Longrightarrow> holds (stage_loop e (temp_path (wf_path f)) data f n own u s) (\<lambda>(staged, own', u', s').
    tame g f c0 fs s' \<and> (staged \<longrightarrow> staged_copy g f c0 s') \<and> (\<exists>t. u' = u\<lparr>up_reason := t\<rparr>))"
proof (induction n arbitrary: own u s)
  case 0
  then show ?case by (auto intro: exI [of _ "up_reason u"])
next
  case (Suc n)
  let ?p = "temp_path (wf_path f)"
  obtain stop s1 where s1: "world (en_stop e) s = (stop, s1)" by fastforce
  have "quiet g s s1" using stop_quiet [OF D, of s] s1 by simp
  then have T1: "tame g f c0 fs s1" by (rule tame_quiet [OF Suc.prems])
  have same: "\<exists>t. u = u\<lparr>up_reason := t\<rparr>" by (auto intro: exI [of _ "up_reason u"])
  show ?case
  proof (cases stop)
    case True
    then show ?thesis using T1 same by (simp add: s1)
  next
    case go: False
    have T1e: "tame g f c0 fs (s1\<lparr>wu_error := ''''\<rparr>)" using T1 by simp
    obtain written left s2 where w: "writeLocal e ?p data (s1\<lparr>wu_error := ''''\<rparr>) = Some (written, left, s2)"
        "tame g f c0 fs s2" "written \<longrightarrow> left" "left \<longrightarrow> temp_key f \<in> ours f c0"
      by (rule holdsE3 [OF writeLocal_holds [OF D F T1e, of data]]) auto
    show ?thesis
    proof (cases written)
      case False
      let ?m = "if take 5 (wu_error s2) = ''open-'' then ''cannot create WCUPD.TMP: CHKDSK'' else errorOr ''SD copy: write failed'' s2"
      obtain t s3 where n: "note_reason e ?m u s2 = (u\<lparr>up_reason := t\<rparr>, s3)" "quiet g s2 s3"
        by (rule note_reasonE [OF D])
      have T3: "tame g f c0 fs s3" by (rule tame_quiet [OF w(2) n(2)])
      have "holds (stage_loop e ?p data f n left (u\<lparr>up_reason := t\<rparr>) s3) (\<lambda>(staged, own', u', s').
          tame g f c0 fs s' \<and> (staged \<longrightarrow> staged_copy g f c0 s') \<and> (\<exists>t. u' = u\<lparr>up_reason := t\<rparr>))"
        by (rule holds_weaken [OF Suc.IH [OF T3]]) auto
      then show ?thesis using go False T3 by (auto simp: s1 w(1) n(1))
    next
      case written: True
      have T2: "tame g f c0 fs (s2\<lparr>wu_error := ''''\<rparr>)" using w(2) by simp
      obtain digest s3 where h: "hashLocal e ?p (wf_remoteSize f) (s2\<lparr>wu_error := ''''\<rparr>) = Some (digest, s3)"
          "hashed g ?p (wf_remoteSize f) (s2\<lparr>wu_error := ''''\<rparr>) (digest, s3)"
        by (rule hashE [OF D tame_idle [OF T2]])
      have T3: "tame g f c0 fs s3" using h(2) by (intro tame_calm [OF T2]) (simp add: hashed_def)
      show ?thesis
      proof (cases "digest = Some (wf_sha f)")
        case True
        then have "staged_copy g f c0 s3"
          using hashed_verified [OF h(2)] w(3,4) written by (simp add: staged_copy_def temp_key_def)
        then show ?thesis using go written True T3 same by (simp add: s1 w(1) h(1))
      next
        case False
        obtain t s4 where n: "(if digest = None then note_reason e (errorOr ''SD copy: read failed'' s3) u s3
            else note_reason e ''SD copy: SHA mismatch'' u s3) = (u\<lparr>up_reason := t\<rparr>, s4)" "quiet g s3 s4"
          by (cases "digest = None") (auto intro: note_reasonE [OF D])
        have T4: "tame g f c0 fs s4" by (rule tame_quiet [OF T3 n(2)])
        obtain deleted s5 where d: "quietVfs e kDelete (Some ?p) kVfsMutateWaitMs s4 = Some (deleted, s5)" "tame g f c0 fs s5"
          using delete_ours [OF D T4, of ?p] w(3,4) written by (auto simp: holds_def temp_key_def)
        have "holds (stage_loop e ?p data f n False (u\<lparr>up_reason := t\<rparr>) s5) (\<lambda>(staged, own', u', s').
            tame g f c0 fs s' \<and> (staged \<longrightarrow> staged_copy g f c0 s') \<and> (\<exists>t. u' = u\<lparr>up_reason := t\<rparr>))"
          by (rule holds_weaken [OF Suc.IH [OF d(2)]]) auto
        then show ?thesis using go written False d(2) n(1)
          by (auto simp: s1 w(1) h(1) d(1) simp del: if_split)
      qed
    qed
  qed
qed

subsection \<open>Replacing the file\<close>

definition loose :: "'w ghost \<Rightarrow> WcFile \<Rightarrow> card \<Rightarrow> WcFile list \<Rightarrow> 'w wcu \<Rightarrow> bool" where
  "loose g f c0 fs s \<longleftrightarrow> idle g s \<and> wu_files s = fs \<and> card_inv f c0 True (card_of g s)"

text \<open>The file itself may change: it is not protected, or was not there.\<close>

definition open_final :: "WcFile \<Rightarrow> card \<Rightarrow> bool" where
  "open_final f c0 \<longleftrightarrow> \<not> (wf_kept f \<and> cd_files c0 (final_key f) \<noteq> None)"

lemma tame_loose: "tame g f c0 fs s \<Longrightarrow> loose g f c0 fs s"
  by (auto simp: tame_def loose_def elim!: card_inv_bad)

lemma loose_calm: "loose g f c0 fs s \<Longrightarrow> calm g s t \<Longrightarrow> loose g f c0 fs t"
  by (auto simp: loose_def calm_def core_def elim: card_inv_files)

lemma loose_step:
  assumes "loose g f c0 fs s" and "core t = core s" and "idle g t"
    and sb: "same_but K (card_of g s) (card_of g t)" and K: "K \<subseteq> ours f c0 \<union> {final_key f}"
    and o: "final_key f \<in> K \<Longrightarrow> open_final f c0"
  shows "loose g f c0 fs t"
proof -
  have inv: "card_inv f c0 True (card_of g s)" using assms(1) by (simp add: loose_def)
  have "card_inv f c0 True (card_of g t)" unfolding card_inv_def
  proof
    fix k
    show "cd_files (card_of g t) k = cd_files c0 k \<or> k \<in> {temp_key f, aside_key f} \<and> cd_files c0 k = None \<or>
      k = final_key f \<and> \<not> (wf_kept f \<and> cd_files c0 k \<noteq> None) \<and>
      (True \<or> (\<exists>x. cd_files (card_of g t) k = Some x \<and> verified f x))"
    proof (cases "k \<in> K")
      case False
      then have "cd_files (card_of g t) k = cd_files (card_of g s) k" using sb by (simp add: same_but_def)
      with inv show ?thesis by (simp add: card_inv_def)
    next
      case True
      then show ?thesis using K o by (auto simp: ours_def open_final_def)
    qed
  qed
  then show ?thesis using assms by (simp add: loose_def core_def)
qed

lemma loose_placed:
  assumes "loose g f c0 fs s" and "placed g f s"
  shows "tame g f c0 fs s"
  using assms unfolding loose_def placed_def tame_def card_inv_def by metis

lemma loose_unknown: "loose g f c0 fs s \<Longrightarrow> \<not> gh_filex g \<Longrightarrow> tame g f c0 fs (s\<lparr>wu_diskSuspect := True\<rparr>)"
  by (simp add: loose_def tame_def idle_def card_of_def)

lemma final_free:
  assumes "loose g f c0 fs s" and "free_name f" and "cd_files (card_of g s) (final_key f) = None"
  shows "open_final f c0"
proof -
  have "final_key f \<noteq> temp_key f" "final_key f \<noteq> aside_key f"
    using names_differ [OF assms(2), of f] by auto
  moreover have "cd_files (card_of g s) (final_key f) = cd_files c0 (final_key f) \<or>
     (final_key f \<in> {temp_key f, aside_key f} \<and> cd_files c0 (final_key f) = None) \<or>
     (final_key f = final_key f \<and> \<not> (wf_kept f \<and> cd_files c0 (final_key f) \<noteq> None))"
    using assms(1) unfolding loose_def card_inv_def by blast
  ultimately show ?thesis using assms(3) by (auto simp: open_final_def)
qed

lemma aside_free:
  assumes "loose g f c0 fs s" and "free_name f" and "cd_files (card_of g s) (aside_key f) = None"
  shows "aside_key f \<in> ours f c0"
  using assms by (intro free_ours) (auto simp: loose_def)

text \<open>One rename: what it may change, and what its success means.\<close>

lemma rename_step:
  assumes D: "card_driver e g" and L: "loose g f c0 fs s"
  obtains ok t where "renameEntry e p name s = Some (ok, t)" "core t = core s" "idle g t"
    "same_but {card_key p, card_key (rename_target p name)} (card_of g s) (card_of g t)"
    "cd_files (card_of g s) (card_key (rename_target p name)) \<noteq> None \<Longrightarrow>
       cd_files (card_of g t) (card_key (rename_target p name)) = cd_files (card_of g s) (card_key (rename_target p name)) \<and> \<not> ok"
    "ok \<Longrightarrow> cd_files (card_of g t) (card_key (rename_target p name)) = cd_files (card_of g s) (card_key p)"
proof -
  have I: "idle g s" using L by (simp add: loose_def)
  obtain ok t r where v: "renameEntry e p name s = Some (ok, t)" "core t = core s" "idle g t"
      "answered (CardRename p name) ok r (card_of g s) (card_of g t)"
    using rename_holds [OF D I, of p name] by (auto simp: holds_def)
  have e: "same_but {card_key p, card_key (rename_target p name)} (card_of g s) (card_of g t)"
    using v(4) by (rule answered_same_but) (simp add: card_effect.simps Let_def)
  moreover have "cd_files (card_of g t) (card_key (rename_target p name)) = cd_files (card_of g s) (card_key (rename_target p name)) \<and> \<not> ok"
    if "cd_files (card_of g s) (card_key (rename_target p name)) \<noteq> None"
    using v(4) that unfolding answered_def by (auto simp: card_effect.simps Let_def)
  moreover have "cd_files (card_of g t) (card_key (rename_target p name)) = cd_files (card_of g s) (card_key p)" if "ok"
    using answered_success [OF v(4) that] by (auto simp: card_effect.simps Let_def)
  ultimately show thesis using v that by blast
qed

lemma keys [simp]:
  "card_key (temp_path (wf_path f)) = temp_key f" "card_key (aside_path (wf_path f)) = aside_key f"
  "card_key (localPath (wf_path f)) = final_key f"
  by (simp_all add: temp_key_def aside_key_def final_key_def)

text \<open>What is known after a replacement with the given verdict.\<close>

definition settled :: "'w ghost \<Rightarrow> WcFile \<Rightarrow> card \<Rightarrow> WcFile list \<Rightarrow> Replace \<Rightarrow> 'w wcu \<Rightarrow> bool" where
  "settled g f c0 fs verdict s \<longleftrightarrow>
     (case verdict of
        ReplaceUntouched \<Rightarrow> tame g f c0 fs s
      | ReplaceDone \<Rightarrow> tame g f c0 fs s \<and> placed g f s
      | ReplaceUnknown \<Rightarrow> tame g f c0 fs (s\<lparr>wu_diskSuspect := True\<rparr>))"

text \<open>The copy takes the name of the file.\<close>

lemma place_copy:
  assumes D: "card_driver e g" and F: "free_name f" and L: "loose g f c0 fs s" and C: "staged_copy g f c0 s"
  obtains ok t where "renameEntry e (temp_path (wf_path f)) (base_name (wf_path f)) s = Some (ok, t)"
    "loose g f c0 fs t" "ok \<longrightarrow> placed g f t" "ok \<longrightarrow> tame g f c0 fs t"
proof -
  let ?p = "temp_path (wf_path f)" and ?n = "base_name (wf_path f)"
  have q: "card_key (rename_target ?p ?n) = final_key f" by (simp add: rename_targets)
  obtain ok t where v: "renameEntry e ?p ?n s = Some (ok, t)" "core t = core s" "idle g t"
      "same_but {temp_key f, final_key f} (card_of g s) (card_of g t)"
      "cd_files (card_of g s) (final_key f) \<noteq> None \<Longrightarrow>
         cd_files (card_of g t) (final_key f) = cd_files (card_of g s) (final_key f) \<and> \<not> ok"
      "ok \<Longrightarrow> cd_files (card_of g t) (final_key f) = cd_files (card_of g s) (temp_key f)"
    by (rule rename_step [OF D L, of ?p ?n]) (simp_all add: q)
  have T: "temp_key f \<in> ours f c0" using C by (simp add: staged_copy_def)
  have L2: "loose g f c0 fs t"
  proof (cases "cd_files (card_of g s) (final_key f) = None")
    case True
    then show ?thesis using T by (intro loose_step [OF L v(2,3,4)] final_free [OF L F]) auto
  next
    case False
    then have "same_but {temp_key f} (card_of g s) (card_of g t)" using v(4,5) by (auto simp: same_but_def)
    then show ?thesis using T names_differ(1) [OF F, of f]
      by (intro loose_step [OF L v(2,3)]) auto
  qed
  have P: "placed g f t" if "ok" using v(6) [OF that] C by (auto simp: placed_def staged_copy_def)
  show thesis using that [OF v(1) L2] P loose_placed [OF L2] by blast
qed

lemma delete_aside:
  assumes D: "card_driver e g" and F: "free_name f" and T: "tame g f c0 fs s" and A: "aside_key f \<in> ours f c0"
  shows "\<exists>b t. quietVfs e kDelete (Some (aside_path (wf_path f))) kVfsMutateWaitMs s = Some (b, t) \<and> tame g f c0 fs t \<and>
    cd_files (card_of g t) (final_key f) = cd_files (card_of g s) (final_key f)"
proof -
  let ?a = "aside_path (wf_path f)"
  obtain b t r where v: "quietVfs e kDelete (Some ?a) kVfsMutateWaitMs s = Some (b, t)" "core t = core s" "idle g t"
      "answered (CardCall kDelete (Some ?a) 0) b r (card_of g s) (card_of g t)"
    using quiet_holds [OF D _ tame_idle [OF T], of kVfsMutateWaitMs kDelete "Some ?a"] by (auto simp: holds_def)
  have s: "same_but {aside_key f} (card_of g s) (card_of g t)"
    using v(4) by (rule answered_same_but) (simp add: card_effect.simps)
  then have "tame g f c0 fs t" using A by (intro tame_step [OF T v(2,3)]) auto
  moreover have "cd_files (card_of g t) (final_key f) = cd_files (card_of g s) (final_key f)"
    using s names_differ(2) [OF F, of f] by (simp add: same_but_def)
  ultimately show ?thesis using v(1) by blast
qed

lemma renameReplace_holds:
  assumes D: "card_driver e g" and F: "free_name f" and T: "tame g f c0 fs s" and C: "staged_copy g f c0 s"
    and X: "\<not> gh_filex g"
  shows "holds (renameReplace e (temp_path (wf_path f)) (localPath (wf_path f)) (base_name (wf_path f))
    (aside_path (wf_path f)) (wf_path f) (wf_kept f) s) (\<lambda>(v, s'). settled g f c0 fs v s')"
proof -
  let ?t = "temp_path (wf_path f)" and ?f = "localPath (wf_path f)" and ?n = "base_name (wf_path f)"
    and ?a = "aside_path (wf_path f)"
  have copy: "staged_copy g f c0 u" if "cd_files (card_of g u) (temp_key f) = cd_files (card_of g s) (temp_key f)" for u
    using C that by (simp add: staged_copy_def)
  obtain exi r s1 where v1: "vfs e kStat (Some ?f) 0 kVfsNormalWaitMs s = Some (exi, r, s1)" and c1: "calm g s s1"
    by (rule holdsE3 [OF calm_vfs [OF D _ tame_idle [OF T] calm_requests(1)]]) auto
  have T1: "tame g f c0 fs s1" by (rule tame_calm [OF T c1])
  have C1: "staged_copy g f c0 s1" using c1 by (intro copy) (simp add: calm_def)
  show ?thesis
  proof (cases exi)
    case no: False
    obtain ok t where p: "renameEntry e ?t ?n s1 = Some (ok, t)" "loose g f c0 fs t"
        "ok \<longrightarrow> placed g f t" "ok \<longrightarrow> tame g f c0 fs t"
      by (rule place_copy [OF D F tame_loose [OF T1] C1])
    show ?thesis using no T1 p loose_unknown [OF p(2) X]
      by (cases ok) (auto simp: renameReplace_def v1 settled_def set_error_def tame_def idle_def card_of_def)
  next
    case yes: True
    obtain old r2 s2 where v2: "vfs e kStat (Some ?a) 0 kVfsNormalWaitMs s1 = Some (old, r2, s2)" and c2: "calm g s1 s2"
      by (rule holdsE3 [OF calm_vfs [OF D _ tame_idle [OF T1] calm_requests(1)]]) auto
    have T2: "tame g f c0 fs s2" by (rule tame_calm [OF T1 c2])
    show ?thesis
    proof (cases "wf_kept f \<or> old \<or> rs_error r2 \<noteq> ''stat-1''")
      case True
      then show ?thesis using yes T1 T2 by (auto simp: renameReplace_def v1 v2 settled_def)
    next
      case False
      have O: "open_final f c0" using False by (simp add: open_final_def)
      have q: "card_key (rename_target ?f kAsideName) = aside_key f" by (simp add: rename_targets)
      obtain moved s3 where v3: "renameEntry e ?f kAsideName s2 = Some (moved, s3)" "core s3 = core s2" "idle g s3"
          "same_but {final_key f, aside_key f} (card_of g s2) (card_of g s3)"
          "cd_files (card_of g s2) (aside_key f) \<noteq> None \<Longrightarrow>
             cd_files (card_of g s3) (aside_key f) = cd_files (card_of g s2) (aside_key f) \<and> \<not> moved"
        by (rule rename_step [OF D tame_loose [OF T2], of ?f kAsideName]) (simp_all add: q)
      have L3: "loose g f c0 fs s3 \<and> (moved \<longrightarrow> aside_key f \<in> ours f c0)"
      proof (cases "cd_files (card_of g s2) (aside_key f) = None")
        case True
        have A: "aside_key f \<in> ours f c0" by (rule aside_free [OF tame_loose [OF T2] F True])
        then show ?thesis using O by (auto intro: loose_step [OF tame_loose [OF T2] v3(2,3,4)])
      next
        case False
        then have "same_but {final_key f} (card_of g s2) (card_of g s3)" "\<not> moved"
          using v3(4,5) by (auto simp: same_but_def)
        then show ?thesis using O by (auto intro: loose_step [OF tame_loose [OF T2] v3(2,3)])
      qed
      show ?thesis
      proof (cases moved)
        case False
        then show ?thesis using yes \<open>\<not> (wf_kept f \<or> old \<or> rs_error r2 \<noteq> ''stat-1'')\<close> loose_unknown [OF L3 [THEN conjunct1] X]
          by (simp add: renameReplace_def v1 v2 v3(1) settled_def set_error_def tame_def idle_def card_of_def)
      next
        case moved: True
        have A: "aside_key f \<in> ours f c0" using L3 moved by blast
        have "temp_key f \<noteq> final_key f" "temp_key f \<noteq> aside_key f" using names_differ [OF F, of f] by auto
        then have "cd_files (card_of g s3) (temp_key f) = cd_files (card_of g s) (temp_key f)"
          using v3(4) c1 c2 by (simp add: same_but_def calm_def)
        then have C3: "staged_copy g f c0 s3" by (rule copy)
        obtain ok t where p: "renameEntry e ?t ?n s3 = Some (ok, t)" "loose g f c0 fs t"
            "ok \<longrightarrow> placed g f t" "ok \<longrightarrow> tame g f c0 fs t"
          by (rule place_copy [OF D F conjunct1 [OF L3] C3])
        show ?thesis
        proof (cases ok)
          case True
          obtain b s5 where d: "quietVfs e kDelete (Some ?a) kVfsMutateWaitMs t = Some (b, s5)" "tame g f c0 fs s5"
              "cd_files (card_of g s5) (final_key f) = cd_files (card_of g t) (final_key f)"
            using delete_aside [OF D F _ A] p(4) True by blast
          have "placed g f s5" using p(3) True d(3) by (simp add: placed_def)
          then show ?thesis using yes False moved True d
            by (auto simp: renameReplace_def v1 v2 v3(1) p(1) settled_def placed_def)
        next
          case no: False
          have q2: "card_key (rename_target ?a ?n) = final_key f" by (simp add: rename_targets)
          obtain ok2 s5 where b: "renameEntry e ?a ?n t = Some (ok2, s5)" "core s5 = core t" "idle g s5"
              "same_but {aside_key f, final_key f} (card_of g t) (card_of g s5)"
            by (rule rename_step [OF D p(2), of ?a ?n]) (simp_all add: q2)
          have "loose g f c0 fs s5" using A O by (intro loose_step [OF p(2) b(2,3,4)]) auto
          from loose_unknown [OF this X] show ?thesis using yes False moved no
            by (simp add: renameReplace_def v1 v2 v3(1) p(1) b(1) settled_def set_error_def tame_def idle_def card_of_def)
        qed
      qed
    qed
  qed
qed

end
