(* ===== verification/WcuUpdate.thy ===== *)
theory WcuUpdate
  imports WcuInstall
begin

text \<open>
  The whole update of one file, and the APPLY command over many: every run returns, and leaves
  each file of the card as it was or with the contents GitHub names.
\<close>

subsection \<open>FILEX MOVE\<close>

lemma move_keeps:
  assumes T: "tame g f c0 fs s" and F: "free_name f" and C: "staged_copy g f c0 s"
    and t: "core t = core s" "idle g t"
    and e: "card_of g t = card_of g s \<or>
      (\<exists>r. card_effect (CardMove (temp_path (wf_path f)) (localPath (wf_path f)) (\<not> wf_kept f)) r (card_of g s) (card_of g t))"
  shows "tame g f c0 fs t"
proof (cases "cd_files (card_of g t) (final_key f) = cd_files (card_of g s) (final_key f)")
  case True
  have "same_but {temp_key f} (card_of g s) (card_of g t)"
    using e True by (auto simp: card_effect.simps Let_def same_but_def)
  then show ?thesis using C by (intro tame_step [OF T t]) (auto simp: staged_copy_def)
next
  case False
  then obtain r where r: "card_effect (CardMove (temp_path (wf_path f)) (localPath (wf_path f)) (\<not> wf_kept f)) r
      (card_of g s) (card_of g t)" using e by auto
  then have m: "cd_files (card_of g t) (final_key f) = cd_files (card_of g s) (temp_key f)"
      "same_but {temp_key f, final_key f} (card_of g s) (card_of g t)"
      "\<not> (cd_files (card_of g s) (final_key f) \<noteq> None \<and> wf_kept f)"
    using False by (auto simp: card_effect.simps Let_def)
  have L: "loose g f c0 fs s" by (rule tame_loose [OF T])
  have o: "open_final f c0"
    using m(3) final_free [OF L F] by (auto simp: open_final_def)
  have "loose g f c0 fs t" using C o by (intro loose_step [OF L t m(2)]) (auto simp: staged_copy_def)
  moreover have "placed g f t" using m(1) C by (auto simp: placed_def staged_copy_def)
  ultimately show ?thesis by (rule loose_placed)
qed

lemma move_holds:
  assumes D: "card_driver e g" and I: "idle g s"
  shows "\<exists>ok s1. world (en_submitMoveRename e p q False b) s = (ok, s1) \<and> core s1 = core s \<and> card_of g s1 = card_of g s \<and>
    (\<not> ok \<longrightarrow> idle g s1) \<and> (ok \<longrightarrow> holds (awaitVfs e zero_result kVfsMutateWaitMs s1) (\<lambda>(d, r, s'). core s' = core s \<and> idle g s' \<and>
       answered (CardMove p q b) d r (card_of g s) (card_of g s') \<and> (gh_filex g \<longrightarrow> rs_status r \<noteq> kMoveUnsupported)))"
proof -
  obtain ok w where w: "en_submitMoveRename e p q False b (wu_world s) = (ok, w)" by fastforce
  have p: "gh_card g w = card_of g s" "gh_pending g w = (if ok then Some (CardMove p q b) else None)"
    using postsD [OF move_posts [OF D] w] I by (simp_all add: card_of_def idle_def)
  have "holds (awaitVfs e zero_result kVfsMutateWaitMs (s\<lparr>wu_world := w\<rparr>)) (\<lambda>(d, r, s'). core s' = core s \<and> idle g s' \<and>
       answered (CardMove p q b) d r (card_of g s) (card_of g s') \<and> (gh_filex g \<longrightarrow> rs_status r \<noteq> kMoveUnsupported))" if "ok"
    by (rule holds_weaken [OF await_holds [OF D, of _ "s\<lparr>wu_world := w\<rparr>" "CardMove p q b"]])
      (use that p in \<open>auto split: prod.splits\<close>)
  then show ?thesis using p by (auto simp: world_def w)
qed

lemma vfsReplace_holds:
  assumes D: "card_driver e g" and F: "free_name f" and T: "tame g f c0 fs s" and C: "staged_copy g f c0 s"
  shows "holds (vfsReplace e (temp_path (wf_path f)) (localPath (wf_path f)) (base_name (wf_path f))
    (aside_path (wf_path f)) (wf_path f) (wf_kept f) s) (\<lambda>(v, s'). settled g f c0 fs v s')"
proof -
  let ?t = "temp_path (wf_path f)" and ?f = "localPath (wf_path f)"
  obtain ok s1 where m: "world (en_submitMoveRename e ?t ?f False (\<not> wf_kept f)) s = (ok, s1)" "core s1 = core s"
      "card_of g s1 = card_of g s" "\<not> ok \<longrightarrow> idle g s1"
      "ok \<longrightarrow> holds (awaitVfs e zero_result kVfsMutateWaitMs s1) (\<lambda>(d, r, s'). core s' = core s \<and> idle g s' \<and>
         answered (CardMove ?t ?f (\<not> wf_kept f)) d r (card_of g s) (card_of g s') \<and>
         (gh_filex g \<longrightarrow> rs_status r \<noteq> kMoveUnsupported))"
    using move_holds [OF D tame_idle [OF T], of ?t ?f "\<not> wf_kept f"] by blast
  show ?thesis
  proof (cases ok)
    case False
    then have "tame g f c0 fs s1" using T m by (simp add: tame_def core_def)
    with False show ?thesis by (simp add: vfsReplace_def m(1) settled_def)
  next
    case True
    obtain moved r s2 where v: "awaitVfs e zero_result kVfsMutateWaitMs s1 = Some (moved, r, s2)" "core s2 = core s"
        "idle g s2" "answered (CardMove ?t ?f (\<not> wf_kept f)) moved r (card_of g s) (card_of g s2)"
        "gh_filex g \<longrightarrow> rs_status r \<noteq> kMoveUnsupported"
      using m(5) True by (auto simp: holds_def)
    have T2: "tame g f c0 fs s2"
      using v(4) by (intro move_keeps [OF T F C v(2,3)]) (auto simp: answered_def)
    have rules: "moved = rs_success r \<and> card_effect (CardMove ?t ?f (\<not> wf_kept f)) r (card_of g s) (card_of g s2)"
      if "moved \<or> rs_status r \<noteq> 0"
      using v(4) that by (auto simp: answered_def zero_result_def)
    have up: "\<And>x. settled g f c0 fs ReplaceUnknown (set_error x s2)"
      using tame_suspect [OF T2] by (simp add: settled_def tame_def set_error_def idle_def card_of_def)
    show ?thesis
    proof (cases "moved \<or> rs_status r = kFilexCommittedCleanup")
      case landed: True
      then have "cd_files (card_of g s2) (final_key f) = cd_files (card_of g s) (temp_key f)"
        using rules by (auto simp: card_effect.simps Let_def move_landed_def kFilexCommittedCleanup_def)
      then have "placed g f s2" using C by (auto simp: placed_def staged_copy_def)
      with T2 landed True show ?thesis by (simp add: vfsReplace_def m(1) v(1) settled_def)
    next
      case not_landed: False
      show ?thesis
      proof (cases "rs_status r = kMoveUnsupported")
        case unsupported: True
        then have nx: "\<not> gh_filex g" using v(5) by blast
        have "card_effect (CardMove ?t ?f (\<not> wf_kept f)) r (card_of g s) (card_of g s2)" "\<not> rs_success r"
          using rules unsupported not_landed by (auto simp: kMoveUnsupported_def)
        then have "cd_files (card_of g s2) = cd_files (card_of g s)"
          using unsupported by (auto simp: card_effect.simps Let_def move_refused_def move_landed_def
              kMoveUnsupported_def kFilexCommittedCleanup_def)
        then have "staged_copy g f c0 s2" using C by (simp add: staged_copy_def)
        from renameReplace_holds [OF D F T2 this nx] show ?thesis
          using True not_landed unsupported by (simp add: vfsReplace_def m(1) v(1))
      next
        case False
        then show ?thesis using True not_landed T2 up by (simp add: vfsReplace_def m(1) v(1) settled_def)
      qed
    qed
  qed
qed

subsection \<open>One round\<close>

text \<open>The result of a step: the card is in order, and \<open>done\<close> means that the file is in place.\<close>

definition round_ok :: "'w ghost \<Rightarrow> WcFile \<Rightarrow> card \<Rightarrow> WcFile list \<Rightarrow> bool \<times> upd \<times> 'w wcu \<Rightarrow> bool" where
  "round_ok g f c0 fs = (\<lambda>(leave, u, s). tame g f c0 fs s \<and> (up_done u \<longrightarrow> placed g f s))"

lemma placed_files: "cd_files (card_of g t) = cd_files (card_of g s) \<Longrightarrow> placed g f t = placed g f s"
  by (simp add: placed_def)

lemma install_holds:
  assumes D: "card_driver e g" and F: "free_name f" and T: "tame g f c0 fs s" and C: "staged_copy g f c0 s"
    and u: "\<not> up_done u"
  shows "holds (install_step e f u s) (round_ok g f c0 fs)"
proof -
  let ?s = "s\<lparr>wu_error := ''''\<rparr>"
  have Ts: "tame g f c0 fs ?s" "staged_copy g f c0 ?s" using T C by (simp_all add: staged_copy_def)
  obtain v s1 where r: "vfsReplace e (temp_path (wf_path f)) (localPath (wf_path f)) (base_name (wf_path f))
      (aside_path (wf_path f)) (wf_path f) (wf_kept f) ?s = Some (v, s1)" "settled g f c0 fs v s1"
    by (rule holdsE2 [OF vfsReplace_holds [OF D F Ts]])
  have own: "card_key (temp_path (wf_path f)) \<in> ours f c0" using C by (simp add: staged_copy_def)
  show ?thesis
  proof (cases v)
    case ReplaceUntouched
    then have T1: "tame g f c0 fs s1" using r(2) by (simp add: settled_def)
    obtain t s2 where n: "note_reason e (errorOr ''replace refused'' s1) u s1 = (u\<lparr>up_reason := t\<rparr>, s2)" "quiet g s1 s2"
      by (rule note_reasonE [OF D])
    obtain deleted s3 where d: "quietVfs e kDelete (Some (temp_path (wf_path f))) kVfsMutateWaitMs s2 = Some (deleted, s3)"
        "tame g f c0 fs s3"
      by (rule holdsE2 [OF delete_ours [OF D tame_quiet [OF T1 n(2)] own]])
    show ?thesis using u d(2) by (simp add: install_step_def r(1) ReplaceUntouched n(1) d(1) round_ok_def)
  next
    case ReplaceDone
    then have T1: "tame g f c0 fs s1" using r(2) by (simp add: settled_def)
    have T2: "tame g f c0 fs (s1\<lparr>wu_error := ''''\<rparr>)" using T1 by simp
    obtain digest s3 where h: "hashLocal e (localPath (wf_path f)) (wf_remoteSize f) (s1\<lparr>wu_error := ''''\<rparr>) = Some (digest, s3)"
        "hashed g (localPath (wf_path f)) (wf_remoteSize f) (s1\<lparr>wu_error := ''''\<rparr>) (digest, s3)"
      by (rule hashE [OF D tame_idle [OF T2]])
    have T3: "tame g f c0 fs s3" using h(2) by (intro tame_calm [OF T2]) (simp add: hashed_def)
    have P: "placed g f s3" if "digest = Some (wf_sha f)"
      using hashed_verified [OF h(2) that] by (simp add: placed_def)
    obtain t s4 where n: "note_reason e (if digest \<noteq> None then ''SD file: SHA mismatch'' else errorOr ''SD file: read failed'' s3)
        (u\<lparr>up_installed := up_installed u \<or> True\<rparr>) s3 = ((u\<lparr>up_installed := up_installed u \<or> True\<rparr>)\<lparr>up_reason := t\<rparr>, s4)"
        "quiet g s3 s4"
      by (rule note_reasonE [OF D])
    have T4: "tame g f c0 fs s4" by (rule tame_quiet [OF T3 n(2)])
    show ?thesis
    proof (cases "digest = Some (wf_sha f)")
      case True
      then show ?thesis using T3 P by (simp add: install_step_def r(1) ReplaceDone h(1) round_ok_def Let_def)
    next
      case False
      then show ?thesis using u T4 n(1)
        by (simp add: install_step_def r(1) ReplaceDone h(1) round_ok_def Let_def del: if_split)
    qed
  next
    case ReplaceUnknown
    let ?d = "\<lambda>s. s\<lparr>wu_diskSuspect := True\<rparr>"
    have T1: "tame g f c0 fs (?d s1)" using r(2) ReplaceUnknown by (simp add: settled_def)
    obtain t s2 where n: "note_reason e (errorOr ''replace failed: CHKDSK'' s1) (u\<lparr>up_installed := up_installed u \<or> False\<rparr>) s1
        = ((u\<lparr>up_installed := up_installed u \<or> False\<rparr>)\<lparr>up_reason := t\<rparr>, s2)" "quiet g s1 s2"
      by (rule note_reasonE [OF D])
    have T2: "tame g f c0 fs (?d s2)" by (rule tame_quiet [OF T1 quiet_suspect [OF n(2)]])
    have T2e: "tame g f c0 fs (?d (s2\<lparr>wu_error := ''''\<rparr>))"
      using T2 by (simp add: tame_def idle_def card_of_def)
    have I: "idle g (s2\<lparr>wu_error := ''''\<rparr>)" using T2 by (simp add: tame_def idle_def)
    obtain digest s3 where h: "hashLocal e (localPath (wf_path f)) (wf_remoteSize f) (s2\<lparr>wu_error := ''''\<rparr>) = Some (digest, s3)"
        "hashed g (localPath (wf_path f)) (wf_remoteSize f) (s2\<lparr>wu_error := ''''\<rparr>) (digest, s3)"
      by (rule hashE [OF D I])
    have T3: "tame g f c0 fs (?d s3)"
      using h(2) by (intro tame_calm [OF T2e calm_suspect]) (simp add: hashed_def)
    have P: "placed g f (?d s3)" if "digest = Some (wf_sha f)"
      using hashed_verified [OF h(2) that] by (simp add: placed_def card_of_def)
    show ?thesis using T3 P n(1) by (simp add: install_step_def r(1) ReplaceUnknown h(1) round_ok_def)
  qed
qed

lemma holdsE4:
  assumes "holds m (\<lambda>(a, b, c, d). P a b c d)"
  obtains a b c d where "m = Some (a, b, c, d)" "P a b c d"
  using assms by (auto simp: holds_def)

lemma copy_holds:
  assumes D: "card_driver e g" and F: "free_name f" and T: "tame g f c0 fs s" and u: "\<not> up_done u"
  shows "holds (copy_step e f u s) (round_ok g f c0 fs)"
proof -
  have stop: "round_ok g f c0 fs (True, fst (note_reason e x u t), snd (note_reason e x u t))" if "tame g f c0 fs t" for x t
  proof -
    obtain y t' where n: "note_reason e x u t = (u\<lparr>up_reason := y\<rparr>, t')" "quiet g t t'"
      by (rule note_reasonE [OF D])
    show ?thesis using tame_quiet [OF that n(2)] u by (simp add: n(1) round_ok_def)
  qed
  have stopped: "holds (let (u1, s1) = note_reason e x u t in Some (True, u1, s1)) (round_ok g f c0 fs)" if "tame g f c0 fs t" for x t
    using stop [OF that, of x] by (simp add: case_prod_beta)
  show ?thesis
  proof (cases "leftoverIn (wf_path f) s")
    case True
    then show ?thesis using stopped [OF T] by (simp add: copy_step_def)
  next
    case clean: False
    obtain body s1 where b: "download e f (s\<lparr>wu_error := ''''\<rparr>) = Some (body, s1)" "quiet g (s\<lparr>wu_error := ''''\<rparr>) s1"
      by (rule holdsE2 [OF download_holds [OF D]])
    have "tame g f c0 fs (s\<lparr>wu_error := ''''\<rparr>)" using T by simp
    then have T1: "tame g f c0 fs s1" by (rule tame_quiet [OF _ b(2)])
    obtain ready s2 where d: "(if body = None then Some (False, s1) else ensureDirectory e (wf_path f) s1) = Some (ready, s2)"
        "tame g f c0 fs s2"
      using T1 ensure_holds [OF D T1, of "wf_path f" "slashes (wf_path f)"]
      by (cases "body = None") (auto simp: holds_def ensureDirectory_def)
    obtain found probe s3 where v: "vfs e kStat (Some (temp_path (wf_path f))) 0 kVfsNormalWaitMs s2 = Some (found, probe, s3)"
        and c3: "calm g s2 s3"
      by (rule holdsE3 [OF calm_vfs [OF D _ tame_idle [OF d(2)] calm_requests(1)]]) auto
    have T3: "tame g f c0 fs s3" by (rule tame_calm [OF d(2) c3])
    have T3m: "tame g f c0 fs (markLeftover (wf_path f) s3)" using T3 by simp
    obtain staged own u1 s4 where st: "stage_loop e (temp_path (wf_path f)) (the body) f kWriteAttempts False u s3 =
        Some (staged, own, u1, s4)" "tame g f c0 fs s4" "staged \<longrightarrow> staged_copy g f c0 s4" "\<exists>t. u1 = u\<lparr>up_reason := t\<rparr>"
      by (rule holdsE4 [OF stage_holds [OF D F T3]]) blast
    have u1: "\<not> up_done u1" using st(4) u by auto
    have i: "staged \<Longrightarrow> holds (install_step e f u1 s4) (round_ok g f c0 fs)"
      using install_holds [OF D F st(2) _ u1] st(3) by blast
    show ?thesis
      using clean stopped [OF d(2)] stopped [OF T3] stopped [OF T3m] st(2) u1 i
      by (simp add: copy_step_def b(1) d(1) v st(1) round_ok_def del: if_split)
  qed
qed

text \<open>
  A round may note in the table that the file is there. \<open>rows g f c0 fs i\<close>: the table is \<open>fs\<close> but
  for the local size of row \<open>i\<close>.
\<close>

definition touched :: "nat \<Rightarrow> WcFile list \<Rightarrow> WcFile list \<Rightarrow> bool" where
  "touched i fs fs' \<longleftrightarrow> (\<exists>l n. fs' = fs[i := (fs ! i)\<lparr>wf_local := l, wf_localSize := n\<rparr>])"

lemma touched_refl [simp]: "touched i fs fs"
  unfolding touched_def by (intro exI [of _ "wf_local (fs ! i)"] exI [of _ "wf_localSize (fs ! i)"]) simp

lemma touched_trans: "touched i fs gs \<Longrightarrow> touched i gs hs \<Longrightarrow> touched i fs hs"
  by (cases "i < length fs") (fastforce simp: touched_def list_update_beyond)+

lemma tame_set_file:
  "tame g f c0 fs s \<Longrightarrow> tame g f c0 (fs[i := h (fs ! i)]) (set_file i h s)"
  by (simp add: tame_def set_file_def card_of_def idle_def)

definition round_post :: "'w ghost \<Rightarrow> WcFile \<Rightarrow> card \<Rightarrow> nat \<Rightarrow> WcFile list \<Rightarrow> bool \<times> upd \<times> 'w wcu \<Rightarrow> bool" where
  "round_post g f c0 i fs = (\<lambda>(leave, u, s). \<exists>fs'. touched i fs fs' \<and> round_ok g f c0 fs' (leave, u, s))"

lemma round_holds:
  assumes D: "card_driver e g" and F: "free_name f" and T: "tame g f c0 fs s" and u: "\<not> up_done u"
  shows "holds (update_round e i f u s) (round_post g f c0 i fs)"
proof -
  have copy: "holds (copy_step e f u t) (round_post g f c0 i fs)" if "tame g f c0 fs t" for t
    by (rule holds_weaken [OF copy_holds [OF D F that u]]) (auto simp: round_post_def intro: touched_refl)
  show ?thesis
  proof (cases "wf_kept f")
    case False
    then show ?thesis using copy [OF T] by (simp add: update_round_def)
  next
    case kept: True
    obtain found stat s1 where v: "vfs e kStat (Some (localPath (wf_path f))) 0 kVfsNormalWaitMs s = Some (found, stat, s1)"
        and c1: "calm g s s1"
      by (rule holdsE3 [OF calm_vfs [OF D _ tame_idle [OF T] calm_requests(1)]]) auto
    have T1: "tame g f c0 fs s1" by (rule tame_calm [OF T c1])
    obtain t s2 where n: "note_reason e ''SD: cannot stat file'' u s1 = (u\<lparr>up_reason := t\<rparr>, s2)" "quiet g s1 s2"
      by (rule note_reasonE [OF D])
    have T2: "tame g f c0 fs s2" by (rule tame_quiet [OF T1 n(2)])
    let ?h = "\<lambda>h. h\<lparr>wf_local := True, wf_localSize := rs_size stat\<rparr>"
    let ?fs = "fs[i := ?h (fs ! i)]" and ?s = "set_file i ?h s1"
    have tt: "touched i fs ?fs" by (auto simp: touched_def)
    have Ts: "tame g f c0 ?fs ?s" by (rule tame_set_file [OF T1])
    obtain digest s3 where h: "hashLocal e (localPath (wf_path f)) (wf_remoteSize f) ?s = Some (digest, s3)"
        "hashed g (localPath (wf_path f)) (wf_remoteSize f) ?s (digest, s3)"
      by (rule hashE [OF D tame_idle [OF Ts]])
    have T3: "tame g f c0 ?fs s3" using h(2) by (intro tame_calm [OF Ts]) (simp add: hashed_def)
    have P: "placed g f s3" if "digest = Some (wf_sha f)"
      using hashed_verified [OF h(2) that] by (simp add: placed_def)
    have there: "round_post g f c0 i fs (True, v, t)" if "tame g f c0 ?fs t" "up_done v \<longrightarrow> placed g f t" for v t
      using that tt by (auto simp: round_post_def round_ok_def)
    show ?thesis
    proof (cases found)
      case True
      show ?thesis
      proof (cases "rs_isDirectory stat \<or> rs_size stat \<noteq> wf_remoteSize f")
        case bad: True
        then show ?thesis using True kept by (simp add: update_round_def v Let_def there [OF Ts])
      next
        case False
        then have sz: "rs_size stat = wf_remoteSize f" by simp
        show ?thesis using False True kept P
          by (simp add: update_round_def v h(1) [unfolded sz] Let_def there [OF T3])
      qed
    next
      case False
      then show ?thesis using kept T2 u copy [OF T1]
        by (auto simp: update_round_def v n(1) round_post_def round_ok_def intro!: exI [of _ fs])
    qed
  qed
qed

lemma rounds_holds:
  assumes D: "card_driver e g" and F: "free_name f"
  shows "tame g f c0 fs s \<Longrightarrow> (up_done u \<longrightarrow> placed g f s) \<Longrightarrow>
    holds (rounds_loop e i f n u s) (\<lambda>x. round_post g f c0 i fs (True, x))"
proof (induction n arbitrary: u s fs)
  case 0
  then show ?case by (auto simp: round_post_def round_ok_def intro!: exI [of _ fs])
next
  case (Suc n)
  have here: "round_post g f c0 i fs (True, u, t)" if "tame g f c0 fs t" "up_done u \<longrightarrow> placed g f t" for t
    using that by (auto simp: round_post_def round_ok_def intro!: exI [of _ fs])
  show ?case
  proof (cases "up_done u")
    case True
    then show ?thesis using here [OF Suc.prems] by simp
  next
    case go: False
    obtain stop s1 where s1: "world (en_stop e) s = (stop, s1)" by fastforce
    have "quiet g s s1" using stop_quiet [OF D, of s] s1 by simp
    then have T1: "tame g f c0 fs s1" by (rule tame_quiet [OF Suc.prems(1)])
    obtain leave u1 s2 where r: "update_round e i f u s1 = Some (leave, u1, s2)" "round_post g f c0 i fs (leave, u1, s2)"
      using round_holds [OF D F T1 go, of i] by (auto simp: holds_def)
    then obtain fs' where f': "touched i fs fs'" "tame g f c0 fs' s2" "up_done u1 \<longrightarrow> placed g f s2"
      by (auto simp: round_post_def round_ok_def)
    have "holds (rounds_loop e i f n u1 s2) (\<lambda>x. round_post g f c0 i fs (True, x))"
      by (rule holds_weaken [OF Suc.IH [OF f'(2,3)]])
        (use f'(1) in \<open>auto simp: round_post_def intro: touched_trans\<close>)
    then show ?thesis using go here [OF T1] r by (auto simp: s1)
  qed
qed

subsection \<open>updateFile\<close>

definition target :: "WcFile \<Rightarrow> bytes \<times> bytes \<times> u32 \<times> bool \<times> bool" where
  "target f = (wf_path f, wf_sha f, wf_remoteSize f, wf_remote f, wf_kept f)"

lemma target_keys:
  assumes "target f = target h"
  shows "final_key f = final_key h" "temp_key f = temp_key h" "aside_key f = aside_key h"
    "verified f = verified h" "wf_kept f = wf_kept h" "free_name f = free_name h"
proof -
  have t: "wf_path f = wf_path h" "wf_sha f = wf_sha h" "wf_remoteSize f = wf_remoteSize h" "wf_kept f = wf_kept h"
    using assms unfolding target_def by simp_all
  show "final_key f = final_key h" "temp_key f = temp_key h" "aside_key f = aside_key h" "free_name f = free_name h"
    by (simp_all only: final_key_def temp_key_def aside_key_def free_name_def t)
  show "verified f = verified h" by (rule ext) (simp only: verified_def t)
  show "wf_kept f = wf_kept h" by (rule t)
qed

lemma target_same:
  assumes "target f = target h"
  shows "placed g f s = placed g h s" "card_inv f c0 bad c = card_inv h c0 bad c"
  by (simp_all only: placed_def card_inv_def target_keys [OF assms])

definition update_post :: "'w ghost \<Rightarrow> nat \<Rightarrow> 'w wcu \<Rightarrow> bool \<times> 'w wcu \<Rightarrow> bool" where
  "update_post g i s = (\<lambda>(ok, s'). idle g s' \<and>
     (\<exists>h. wu_files s' = (wu_files s)[i := h] \<and> target h = target (wu_files s ! i) \<and> (wf_status h = kUpdated \<longrightarrow> ok)) \<and>
     card_inv (wu_files s ! i) (card_of g s) (wu_diskSuspect s' \<and> \<not> gh_filex g) (card_of g s') \<and>
     (ok \<longrightarrow> placed g (wu_files s ! i) s'))"

lemma update_postI:
  assumes "idle g s'" and "wu_files s' = (wu_files s)[i := h]" and "target h = target (wu_files s ! i)"
    and "wf_status h = kUpdated \<Longrightarrow> ok"
    and "card_inv (wu_files s ! i) (card_of g s) (wu_diskSuspect s' \<and> \<not> gh_filex g) (card_of g s')"
    and "ok \<Longrightarrow> placed g (wu_files s ! i) s'"
  shows "update_post g i s (ok, s')"
  using assms unfolding update_post_def by blast

lemma update_holds:
  assumes D: "card_driver e g" and I: "idle g s" and i: "i < length (wu_files s)" and F: "free_name (wu_files s ! i)"
  shows "holds (updateFile e i s) (update_post g i s)"
proof -
  let ?f = "wu_files s ! i"
  let ?r = "\<lambda>f. f\<lparr>wf_reason := ''''\<rparr>"
  let ?s = "set_file i ?r s" and ?e = "?r ?f" and ?fs = "(wu_files s)[i := ?r ?f]"
  have e: "wu_files ?s ! i = ?e" "wu_files ?s = ?fs" using i by (simp_all add: set_file_def)
  have tg: "target ?e = target ?f" by (simp add: target_def)
  have T0: "tame g ?e (card_of g s) ?fs ?s"
    using I e by (simp add: tame_def card_of_def idle_def set_file_def)
  obtain refuse s1 where rf: "refusal e ?e ?s = (refuse, s1)" and q1: "quiet g ?s s1"
  proof (cases "refusal e ?e ?s")
    case (Pair a b)
    have "idles g (en_alloc e n)" for n using D by (simp add: card_driver_def other_laws_def)
    then have "quiet g ?s (snd (world (en_alloc e (unat (wf_remoteSize ?e) + 1)) ?s))" by (rule world_quiet)
    then have "quiet g ?s b" using Pair by (auto simp: refusal_def split: if_splits prod.splits)
    with Pair that show thesis by blast
  qed
  have T1: "tame g ?e (card_of g s) ?fs s1" by (rule tame_quiet [OF T0 q1])
  show ?thesis
  proof (cases refuse)
    case (Some msg)
    let ?h = "\<lambda>f. f\<lparr>wf_reason := take 39 msg, wf_status := kFailed\<rparr>"
    have Th: "tame g ?e (card_of g s) (?fs[i := ?h (?fs ! i)]) (set_file i ?h s1)" by (rule tame_set_file [OF T1])
    have fs: "wu_files (set_file i ?h s1) = (wu_files s)[i := ?h ?e]"
      using Th i by (simp add: tame_def)
    have "target (?h ?e) = target ?f" by (simp add: target_def)
    moreover have "wf_status (?h ?e) = kFailed" by simp
    ultimately have "update_post g i s (False, set_file i ?h s1)"
      using Th target_same(2) [OF tg]
      by (intro update_postI [where h = "?h ?e"]) (simp_all add: fs tame_def)
    then show ?thesis by (simp add: updateFile_def Let_def e(1) rf Some)
  next
    case None
    let ?u = "\<lparr>up_done = False, up_installed = False, up_keptThere = False, up_reason = ''''\<rparr>"
    have Fe: "free_name ?e" using F target_keys(6) [OF tg] by simp
    obtain u s2 where r: "rounds_loop e i ?e 2 ?u s1 = Some (u, s2)" "round_post g ?e (card_of g s) i ?fs (True, u, s2)"
      using rounds_holds [OF D Fe T1, of ?u i 2] by (auto simp: holds_def)
    obtain fs' where f': "touched i ?fs fs'" "tame g ?e (card_of g s) fs' s2" "up_done u \<longrightarrow> placed g ?e s2"
      using r(2) by (auto simp: round_post_def round_ok_def)
    obtain u1 s3 where n: "(if \<not> up_done u \<and> up_reason u = '''' then note_reason e ''not updated'' u s2 else (u, s2)) = (u1, s3)"
        "quiet g s2 s3" "up_done u1 = up_done u"
    proof (cases "\<not> up_done u \<and> up_reason u = ''''")
      case True
      obtain t s' where "note_reason e ''not updated'' u s2 = (u\<lparr>up_reason := t\<rparr>, s')" "quiet g s2 s'"
        by (rule note_reasonE [OF D])
      with True that show thesis by simp
    next
      case False
      with that show thesis by auto
    qed
    have T3: "tame g ?e (card_of g s) fs' s3" by (rule tame_quiet [OF f'(2) n(2)])
    have P3: "up_done u \<longrightarrow> placed g ?e s3" using f'(3) n(2) placed_files by (auto simp: quiet_def placed_def)
    obtain h where h: "snd (finish_update i u1 s3) = set_file i h s3" "\<And>x. target (h x) = target x"
        "\<And>x. wf_status (h x) = kUpdated \<Longrightarrow> up_done u"
    proof -
      let ?h = "\<lambda>f. let g = f\<lparr>wf_reason := up_reason u1\<rparr> in if up_done u1
          then g\<lparr>wf_status := if up_keptThere u1 \<and> \<not> up_installed u1 then kKeptSame else kUpdated, wf_local := True,
                 wf_localSize := wf_remoteSize f\<rparr>
          else if up_keptThere u1 then g\<lparr>wf_status := kKeptDifferent\<rparr> else g\<lparr>wf_status := kFailed\<rparr>"
      show thesis by (rule that [of ?h]) (auto simp: finish_update_def target_def Let_def n(3) split: if_splits)
    qed
    have Th: "tame g ?e (card_of g s) (fs'[i := h (fs' ! i)]) (set_file i h s3)" by (rule tame_set_file [OF T3])
    obtain l m where lm: "fs' = ?fs[i := (?fs ! i)\<lparr>wf_local := l, wf_localSize := m\<rparr>]"
      using f'(1) by (auto simp: touched_def)
    let ?x = "h (?e\<lparr>wf_local := l, wf_localSize := m\<rparr>)"
    have fs: "wu_files (set_file i h s3) = (wu_files s)[i := ?x]"
      using Th i lm by (simp add: tame_def)
    have tx: "target ?x = target ?f" by (simp add: h(2) target_def [of "?e\<lparr>wf_local := l, wf_localSize := m\<rparr>"]) (simp add: target_def)
    have Ps: "up_done u \<longrightarrow> placed g ?e (set_file i h s3)" using P3 by (simp add: placed_def set_file_def card_of_def)
    have "update_post g i s (up_done u1, set_file i h s3)"
      using Th h(3) n(3) Ps target_same [OF tg]
      by (intro update_postI [where h = ?x]) (auto simp: fs tx tame_def)
    moreover have "finish_update i u1 s3 = (up_done u1, set_file i h s3)"
      using h(1) by (simp add: finish_update_def)
    ultimately show ?thesis
      by (simp add: updateFile_def Let_def e(1) rf None r(1) n(1) del: if_split)
  qed
qed

end
