(* ===== verification/WcuSim.thy ===== *)
theory WcuSim
  imports WcuLaws
begin

text \<open>
  A card in memory that keeps every law of theory WcuLaws, on which the properties of the
  updater are applied.
\<close>

subsection \<open>A simulated card\<close>

text \<open>A card in memory with FILEX MOVE, whose file manager answers every request at once.\<close>

record sim =
  sm_files :: "bytes \<Rightarrow> bytes option"
  sm_open :: "(bytes \<times> bool) option"
  sm_position :: nat
  sm_inbox :: bytes
  sm_outbox :: bytes
  sm_listing :: "(bytes \<times> nat) list"
  sm_pending :: "card_request option"
  sm_now :: nat
  sm_body :: bytes

definition sim_card :: "sim \<Rightarrow> card" where
  "sim_card w = \<lparr>cd_files = sm_files w, cd_open = sm_open w, cd_position = sm_position w, cd_inbox = sm_inbox w,
     cd_outbox = length (sm_outbox w), cd_listing = length (sm_listing w)\<rparr>"

definition sim_ok :: "nat \<Rightarrow> nat \<Rightarrow> vfs_result" where
  "sim_ok len n = zero_result\<lparr>rs_success := True, rs_size := of_nat len, rs_transferred := of_nat n\<rparr>"

definition sim_no :: "u8 \<Rightarrow> string \<Rightarrow> vfs_result" where
  "sim_no status err = zero_result\<lparr>rs_status := status, rs_error := err\<rparr>"

fun sim_exec :: "card_request \<Rightarrow> sim \<Rightarrow> vfs_result \<times> sim" where
  "sim_exec (CardCall operation path val) w =
     (case (operation, path) of
        (kStat, Some p) \<Rightarrow>
          (case sm_files w (card_key p) of
             Some d \<Rightarrow> if length d < 2 ^ 32 then (sim_ok (length d) 0, w) else (sim_no 1 ''stat-2'', w)
           | None \<Rightarrow> (sim_no 1 ''stat-1'', w))
      | (kResetBuffers, None) \<Rightarrow> (sim_ok 0 0, w\<lparr>sm_inbox := [], sm_outbox := []\<rparr>)
      | (kOpenRead, Some p) \<Rightarrow>
          (case sm_files w (card_key p) of
             Some d \<Rightarrow> (sim_ok 0 0, w\<lparr>sm_open := Some (card_key p, False), sm_position := 0\<rparr>)
           | None \<Rightarrow> (sim_no 1 ''open-1'', w))
      | (kOpenWrite, Some p) \<Rightarrow>
          (case sm_files w (card_key p) of
             Some d \<Rightarrow> (sim_no 1 ''open-1'', w)
           | None \<Rightarrow> (sim_ok 0 0, w\<lparr>sm_files := (sm_files w)(card_key p := Some []), sm_open := Some (card_key p, True)\<rparr>))
      | (kRead, None) \<Rightarrow>
          (case sm_open w of
             Some (k, False) \<Rightarrow>
               (case sm_files w k of
                  Some d \<Rightarrow>
                    let n = min (unat val) (length d - sm_position w)
                    in if sm_position w \<le> length d
                       then (sim_ok 0 n, w\<lparr>sm_position := sm_position w + n,
                               sm_inbox := sm_inbox w @ take n (drop (sm_position w) d)\<rparr>)
                       else (sim_no 1 ''read-1'', w)
                | None \<Rightarrow> (sim_no 1 ''read-1'', w))
           | _ \<Rightarrow> (sim_no 1 ''read-1'', w))
      | (kWrite, None) \<Rightarrow>
          (case sm_open w of
             Some (k, True) \<Rightarrow>
               let n = min (unat val) (length (sm_outbox w))
               in (sim_ok 0 n, w\<lparr>sm_files := (sm_files w)(k := Some ((case sm_files w k of None \<Rightarrow> [] | Some d \<Rightarrow> d) @ take n (sm_outbox w))),
                     sm_outbox := drop n (sm_outbox w)\<rparr>)
           | _ \<Rightarrow> (sim_no 1 ''write-1'', w))
      | (kCloseCommit, None) \<Rightarrow> (sim_ok 0 0, w\<lparr>sm_open := None\<rparr>)
      | (kCloseAbort, None) \<Rightarrow> (sim_ok 0 0, w\<lparr>sm_open := None\<rparr>)
      | (kDelete, Some p) \<Rightarrow> (sim_ok 0 0, w\<lparr>sm_files := (sm_files w)(card_key p := None)\<rparr>)
      | (kMkdir, Some p) \<Rightarrow> (sim_ok 0 0, w)
      | (kOpenDirectory, Some p) \<Rightarrow>
          if card_key p = card_key (bytes_of ''/WC'')
          then (sim_ok 0 0, w\<lparr>sm_listing := [(bytes_of ''a.wmf'', 1), (bytes_of ''wc.ini'', 2)]\<rparr>)
          else (sim_ok 0 0, w\<lparr>sm_listing := []\<rparr>)
      | (kReadDirectory, None) \<Rightarrow>
          (case sm_listing w of
             [] \<Rightarrow> ((sim_ok 0 0)\<lparr>rs_atEnd := True\<rparr>, w)
           | (name, len) # rest \<Rightarrow>
               if 47 \<in> set name then (sim_no 1 ''readdir-1'', w)
               else ((sim_ok len 0)\<lparr>rs_name := name\<rparr>, w\<lparr>sm_listing := rest\<rparr>))
      | _ \<Rightarrow> (sim_no 1 ''refused'', w))"
| "sim_exec (CardRename p name) w =
     (let k = card_key p; q = card_key (rename_target p name)
      in if sm_files w q \<noteq> None \<or> sm_files w k = None then (sim_no 1 ''rename-1'', w)
         else (sim_ok 0 0, w\<lparr>sm_files := (sm_files w)(q := sm_files w k, k := None)\<rparr>))"
| "sim_exec (CardMove p q replace) w =
     (let k = card_key p; l = card_key q
      in if sm_files w k = None then (sim_no 0x10 ''move-16'', w)
         else if sm_files w l \<noteq> None \<and> \<not> replace then (sim_no 0x1A ''move-26'', w)
         else (sim_ok 0 0, w\<lparr>sm_files := (sm_files w)(k := None, l := sm_files w k)\<rparr>))"

definition sim_post :: "card_request \<Rightarrow> sim \<Rightarrow> bool \<times> sim" where
  "sim_post rq w = (if sm_pending w = None then (True, w\<lparr>sm_pending := Some rq\<rparr>) else (False, w))"

definition sim_take :: "sim \<Rightarrow> vfs_result option \<times> sim" where
  "sim_take w = (case sm_pending w of None \<Rightarrow> (None, w)
     | Some rq \<Rightarrow> let (r, w1) = sim_exec rq w in (Some r, w1\<lparr>sm_pending := None\<rparr>))"

definition sim_env :: "sim wcu_env" where
  "sim_env = \<lparr>
     en_submit = (\<lambda>operation path val. sim_post (CardCall operation path val)),
     en_submitRename = (\<lambda>p name directory. sim_post (CardRename p name)),
     en_submitMoveRename = (\<lambda>p q directory replace. sim_post (CardMove p q replace)),
     en_takeResult = sim_take,
     en_waitForResult = (\<lambda>t w. w\<lparr>sm_now := sm_now w + 1\<rparr>),
     en_reclaim = (\<lambda>t w. (True, snd (sim_take w))),
     en_vfsToNetworkAvailable = (\<lambda>w. length (sm_inbox w)),
     en_networkToVfsAvailable = (\<lambda>w. length (sm_outbox w)),
     en_networkToVfsFree = (\<lambda>w. 4096 - length (sm_outbox w)),
     en_ringCapacity = (\<lambda>w. 4096),
     en_readForNetwork = (\<lambda>n w. (take n (sm_inbox w), w\<lparr>sm_inbox := drop n (sm_inbox w)\<rparr>)),
     en_writeFromNetwork = (\<lambda>d w. let n = min (length d) (4096 - length (sm_outbox w))
        in (n, w\<lparr>sm_outbox := sm_outbox w @ take n d\<rparr>)),
     en_get = (\<lambda>host path capacity w. ((True, take capacity (sm_body w), 200, ''''), w)),
     en_alloc = (\<lambda>n w. (True, w)),
     en_millis = (\<lambda>w. of_nat (sm_now w)),
     en_stop = (\<lambda>w. (False, w)),
     en_sink = None\<rparr>"

definition sim_ghost :: "sim ghost" where
  "sim_ghost = \<lparr>gh_card = sim_card, gh_pending = sm_pending, gh_ticks = sm_now, gh_capacity = 4096, gh_filex = True\<rparr>"

lemma sim_results [simp]:
  "rs_success (sim_ok len n)" "rs_size (sim_ok len n) = of_nat len" "rs_transferred (sim_ok len n) = of_nat n"
  "rs_atEnd (sim_ok len n) = False" "rs_isDirectory (sim_ok len n) = False"
  "\<not> rs_success (sim_no st err)" "rs_status (sim_no st err) = st"
  "rs_status (sim_ok len n) = 0"
  by (simp_all add: sim_ok_def sim_no_def zero_result_def)

lemma sim_call_now: "sim_exec (CardCall operation path val) w = (r, w') \<Longrightarrow> sm_now w' = sm_now w"
  by (cases operation; cases path) (auto simp: Let_def split: option.splits bool.splits list.splits if_splits)

lemma sim_now: "sim_exec rq w = (r, w') \<Longrightarrow> sm_now w' = sm_now w"
  by (cases rq) (auto simp: Let_def dest: sim_call_now split: if_splits simp del: sim_exec.simps(1))

lemma min_word: "unat (of_nat (min (unat v) n) :: u32) = min (unat (v :: u32)) n"
  using unat_u32 [of v] by (intro unat_of_nat_u32) simp

lemma sim_call_effect:
  "sim_exec (CardCall operation path val) w = (r, w') \<Longrightarrow>
   card_effect (CardCall operation path val) r (sim_card w) (sim_card w')"
  by (cases operation; cases path)
    (auto simp: card_effect.simps sim_card_def writer_def same_but_def Let_def min_word ex_bool_eq
      split: option.splits bool.splits list.splits if_splits)

lemma sim_effect: "sim_exec rq w = (r, w') \<Longrightarrow> card_effect rq r (sim_card w) (sim_card w')"
proof (cases rq)
  case (CardCall operation path val)
  then show "sim_exec rq w = (r, w') \<Longrightarrow> ?thesis" using sim_call_effect by blast
next
  case (CardRename p name)
  then show "sim_exec rq w = (r, w') \<Longrightarrow> ?thesis"
    by (auto simp: card_effect.simps sim_card_def writer_def same_but_def Let_def split: if_splits)
next
  case (CardMove p q replace)
  then show "sim_exec rq w = (r, w') \<Longrightarrow> ?thesis"
    by (auto simp: card_effect.simps sim_card_def writer_def same_but_def Let_def move_landed_def move_refused_def
        kFilexCommittedCleanup_def split: if_splits)
qed

lemma sim_take_effect:
  assumes "sm_pending w = Some rq" and "sim_take w = (x, w')"
  shows "\<exists>r. x = Some r \<and> sm_pending w' = None \<and> card_effect rq r (sim_card w) (sim_card w') \<and> sm_now w' = sm_now w \<and>
    ((\<exists>p q b. rq = CardMove p q b) \<longrightarrow> rs_status r \<noteq> kMoveUnsupported)"
proof -
  obtain r w1 where e: "sim_exec rq w = (r, w1)" by fastforce
  have s: "(\<exists>p q b. rq = CardMove p q b) \<longrightarrow> rs_status r \<noteq> kMoveUnsupported"
    using e by (auto simp: Let_def kMoveUnsupported_def split: if_splits)
  have "sim_card (w1\<lparr>sm_pending := None\<rparr>) = sim_card w1" by (simp add: sim_card_def)
  then show ?thesis using assms e s sim_effect [OF e] sim_now [OF e] by (auto simp: sim_take_def)
qed

lemma sim_driver: "card_driver sim_env sim_ghost"
proof -
  have "clock_laws sim_env sim_ghost"
  proof -
    have "sm_now w' = sm_now w" if "sim_take w = (r, w')" for w r w'
      using that by (cases "sm_pending w") (auto simp: sim_take_def dest: sim_now split: prod.splits)
    then show ?thesis by (simp add: clock_laws_def sim_env_def sim_ghost_def)
  qed
  moreover have "request_laws sim_env sim_ghost"
  proof -
    have p: "posts sim_ghost rq (sim_post rq)" for rq
      by (auto simp: posts_def sim_post_def sim_ghost_def sim_card_def split: if_splits)
    have t: "gh_pending sim_ghost w = Some rq \<Longrightarrow> sim_take w \<noteq> (None, w')" for w rq w'
      using sim_take_effect [of w rq] by (fastforce simp: sim_ghost_def)
    have u: "gh_pending sim_ghost w = Some rq \<Longrightarrow> sim_take w = (Some r, w') \<Longrightarrow> gh_pending sim_ghost w' = None \<and>
        card_effect rq r (gh_card sim_ghost w) (gh_card sim_ghost w') \<and>
        (gh_filex sim_ghost \<and> (\<exists>p q b. rq = CardMove p q b) \<longrightarrow> rs_status r \<noteq> kMoveUnsupported)" for w rq r w'
      using sim_take_effect [of w rq "Some r" w'] by (simp add: sim_ghost_def)
    have v: "gh_pending sim_ghost w = Some rq \<Longrightarrow> gh_pending sim_ghost (snd (sim_take w)) = None \<and>
        (\<exists>r. card_effect rq r (gh_card sim_ghost w) (gh_card sim_ghost (snd (sim_take w))))" for w rq
      using sim_take_effect [of w rq "fst (sim_take w)" "snd (sim_take w)"] by (auto simp: sim_ghost_def)
    have x: "unchanged sim_ghost w (w\<lparr>sm_now := n\<rparr>)" for w n
      by (simp add: unchanged_def sim_ghost_def sim_card_def)
    have e: "en_submit sim_env = (\<lambda>operation path val. sim_post (CardCall operation path val))"
      "en_submitRename sim_env = (\<lambda>p name directory. sim_post (CardRename p name))"
      "en_submitMoveRename sim_env = (\<lambda>p q directory replace. sim_post (CardMove p q replace))"
      "en_takeResult sim_env = sim_take" "en_waitForResult sim_env = (\<lambda>t w. w\<lparr>sm_now := sm_now w + 1\<rparr>)"
      "en_reclaim sim_env = (\<lambda>t w. (True, snd (sim_take w)))"
      by (simp_all add: sim_env_def)
    show ?thesis unfolding request_laws_def e
    proof (intro conjI allI impI)
      fix w rq t ok w'
      assume "gh_pending sim_ghost w = Some rq \<and> (True, snd (sim_take w)) = (ok, w')"
      then show "gh_pending sim_ghost w' = None" "\<exists>r. card_effect rq r (gh_card sim_ghost w) (gh_card sim_ghost w')"
        using v by auto
    qed (use p t u x in blast)+
  qed
  moreover have "ring_laws sim_env sim_ghost"
    by (auto simp: ring_laws_def sim_env_def sim_ghost_def sim_card_def Let_def)
  moreover have "other_laws sim_env sim_ghost"
    by (simp add: other_laws_def idles_def unchanged_def sim_env_def)
  ultimately show ?thesis by (simp add: card_driver_def)
qed

end
