(* ===== verification/WcuClaims.thy ===== *)
theory WcuClaims
  imports WcuUpdate WcuSim
begin

text \<open>
  What APPLY does to the card as a whole.
\<close>

subsection \<open>Many files\<close>

definition card_change :: "WcFile set \<Rightarrow> card \<Rightarrow> bool \<Rightarrow> card \<Rightarrow> bool" where
  "card_change S c0 bad c \<longleftrightarrow> (\<forall>k. cd_files c k = cd_files c0 k \<or>
     (cd_files c0 k = None \<and> (\<exists>f\<in>S. k = temp_key f \<or> k = aside_key f)) \<or>
     (\<exists>f\<in>S. k = final_key f \<and> (wf_kept f \<longrightarrow> cd_files c0 k = None) \<and>
        ((\<exists>x. cd_files c k = Some x \<and> verified f x) \<or> bad)))"

lemma change_step:
  assumes C: "card_change S c0 False c" and I: "card_inv f c bad c'" and f: "f \<in> S"
    and N: "\<And>h. h \<in> S \<Longrightarrow> free_name h" and U: "inj_on final_key S"
  shows "card_change S c0 bad c'"
  unfolding card_change_def
proof
  fix k
  have C: "cd_files c k = cd_files c0 k \<or>
     (cd_files c0 k = None \<and> (\<exists>f\<in>S. k = temp_key f \<or> k = aside_key f)) \<or>
     (\<exists>f\<in>S. k = final_key f \<and> (wf_kept f \<longrightarrow> cd_files c0 k = None) \<and> (\<exists>x. cd_files c k = Some x \<and> verified f x))"
    using C unfolding card_change_def by blast
  have I: "cd_files c' k = cd_files c k \<or> (k \<in> {temp_key f, aside_key f} \<and> cd_files c k = None) \<or>
     (k = final_key f \<and> \<not> (wf_kept f \<and> cd_files c k \<noteq> None) \<and> (bad \<or> (\<exists>x. cd_files c' k = Some x \<and> verified f x)))"
    using I unfolding card_inv_def by blast
  consider (same) "cd_files c' k = cd_files c k"
    | (service) "k \<in> {temp_key f, aside_key f}" "cd_files c k = None"
    | (final) "k = final_key f" "wf_kept f \<longrightarrow> cd_files c k = None"
        "bad \<or> (\<exists>x. cd_files c' k = Some x \<and> verified f x)" using I by metis
  then show "cd_files c' k = cd_files c0 k \<or>
     (cd_files c0 k = None \<and> (\<exists>f\<in>S. k = temp_key f \<or> k = aside_key f)) \<or>
     (\<exists>f\<in>S. k = final_key f \<and> (wf_kept f \<longrightarrow> cd_files c0 k = None) \<and>
        ((\<exists>x. cd_files c' k = Some x \<and> verified f x) \<or> bad))"
  proof cases
    case same
    with C show ?thesis by auto
  next
    case service
    have "k \<noteq> final_key h" if "h \<in> S" for h using service(1) names_differ(1,2) [OF N [OF that], of f] by auto
    then have "cd_files c0 k = None" using C service(2) by auto
    then show ?thesis using service(1) f by auto
  next
    case final
    have "k \<noteq> temp_key h" "k \<noteq> aside_key h" for h using final(1) names_differ(1,2) [OF N [OF f], of h] by auto
    moreover have "h = f" if "h \<in> S" "k = final_key h" for h using U f that final(1) by (auto dest: inj_onD)
    ultimately have "wf_kept f \<longrightarrow> cd_files c0 k = None" using C final(2) by fastforce
    then show ?thesis using final(1,3) f by blast
  qed
qed

definition apply_inv :: "'w ghost \<Rightarrow> card \<Rightarrow> WcFile list \<Rightarrow> WcFile set \<Rightarrow> 'w wcu \<Rightarrow> bool" where
  "apply_inv g c0 fs S s \<longleftrightarrow> idle g s \<and> length (wu_files s) = length fs \<and>
     (\<forall>i<length fs. target (wu_files s ! i) = target (fs ! i) \<and> (wu_files s ! i = fs ! i \<or> fs ! i \<in> S)) \<and>
     card_change S c0 (wu_diskSuspect s \<and> \<not> gh_filex g) (card_of g s) \<and>
     (\<forall>i<length fs. wf_status (wu_files s ! i) = kUpdated \<longrightarrow>
        wf_status (fs ! i) = kUpdated \<or> placed g (fs ! i) s)"

lemma apply_quiet: "apply_inv g c0 fs S s \<Longrightarrow> quiet g s t \<Longrightarrow> apply_inv g c0 fs S t"
  by (simp add: apply_inv_def quiet_def core_def placed_def)

lemma card_change_target:
  "card_inv f c bad c' \<Longrightarrow> target f = target h \<Longrightarrow> card_inv h c bad c'"
  using target_same(2) by blast

lemma apply_update:
  assumes D: "card_driver e g" and N: "names_ok fs" and S: "S \<subseteq> set fs" and A: "apply_inv g c0 fs S s"
    and nb: "\<not> wu_diskSuspect s" and i: "i < length fs" and iS: "fs ! i \<in> S"
  shows "holds (updateFile e i s) (\<lambda>(ok, s'). apply_inv g c0 fs S s')"
proof -
  have t: "target (wu_files s ! i) = target (fs ! i)" using A i by (simp add: apply_inv_def)
  have il: "i < length (wu_files s)" using A i by (simp add: apply_inv_def)
  have "free_name (fs ! i)" using N i by (simp add: names_ok_def)
  then have F: "free_name (wu_files s ! i)" using target_keys(6) [OF t] by simp
  have inj: "inj_on final_key (set fs)" using N by (simp add: names_ok_def distinct_map)
  show ?thesis
  proof (rule holds_weaken [OF update_holds [OF D _ il F]])
    show "idle g s" using A by (simp add: apply_inv_def)
    fix x :: "bool \<times> 'a wcu" assume "update_post g i s x"
    then obtain ok s' h where x: "x = (ok, s')" and u: "idle g s'" "wu_files s' = (wu_files s)[i := h]"
        "target h = target (wu_files s ! i)" "wf_status h = kUpdated \<longrightarrow> ok"
        "card_inv (wu_files s ! i) (card_of g s) (wu_diskSuspect s' \<and> \<not> gh_filex g) (card_of g s')"
        "ok \<longrightarrow> placed g (wu_files s ! i) s'"
      by (cases x) (auto simp: update_post_def)
    have inv: "card_inv (fs ! i) (card_of g s) (wu_diskSuspect s' \<and> \<not> gh_filex g) (card_of g s')"
      by (rule card_change_target [OF u(5) t])
    have cc: "card_change S c0 (wu_diskSuspect s' \<and> \<not> gh_filex g) (card_of g s')"
      using A nb N S iS
      by (intro change_step [OF _ inv iS]) (auto simp: apply_inv_def names_ok_def intro: inj_on_subset [OF inj])
    have keep: "placed g (fs ! j) s'" if "j < length fs" "j \<noteq> i" "placed g (fs ! j) s" for j
    proof -
      have "free_name (fs ! j)" using N that(1) by (simp add: names_ok_def)
      then have "final_key (fs ! j) \<notin> {temp_key (fs ! i), aside_key (fs ! i)}"
        using names_differ(1,2) [of "fs ! j" "fs ! i"] by auto
      moreover have "final_key (fs ! j) \<noteq> final_key (fs ! i)"
        using N that(1,2) i by (auto simp: names_ok_def distinct_conv_nth)
      ultimately have "cd_files (card_of g s') (final_key (fs ! j)) = cd_files (card_of g s) (final_key (fs ! j))"
        using inv unfolding card_inv_def by blast
      then show ?thesis using that(3) by (simp add: placed_def)
    qed
    have st: "wf_status (fs ! j) = kUpdated \<or> placed g (fs ! j) s'"
      if j: "j < length fs" "wf_status (wu_files s' ! j) = kUpdated" for j
    proof (cases "j = i")
      case True
      then have "ok" using u(2,4) j il by simp
      then show ?thesis using u(6) target_same(1) [OF t] True by blast
    next
      case False
      then have "wf_status (wu_files s ! j) = kUpdated" using j u(2) by simp
      then show ?thesis using A j(1) keep [OF j(1) False] by (auto simp: apply_inv_def)
    qed
    have rows: "target (wu_files s' ! j) = target (fs ! j) \<and> (wu_files s' ! j = fs ! j \<or> fs ! j \<in> S)"
      if "j < length fs" for j
      using A that u(2,3) t il iS by (cases "j = i") (auto simp: apply_inv_def)
    show "case x of (ok, s') \<Rightarrow> apply_inv g c0 fs S s'"
      using u(1,2) A cc st rows by (simp add: x apply_inv_def)
  qed
qed

lemma apply_loop_holds:
  assumes D: "card_driver e g" and N: "names_ok fs" and S: "S \<subseteq> set fs"
  shows "apply_inv g c0 fs S s \<Longrightarrow> \<not> wu_diskSuspect s \<Longrightarrow>
    (\<And>i. i \<in> set indices \<Longrightarrow> unat i < length fs \<Longrightarrow> canUpdate (fs ! unat i) \<Longrightarrow> fs ! unat i \<in> S) \<Longrightarrow>
    holds (apply_loop e whole current indices s) (\<lambda>(v, s'). apply_inv g c0 fs S s')"
proof (induction indices arbitrary: current s)
  case Nil
  then show ?case by simp
next
  case (Cons b bs)
  obtain stop s1 where s1: "world (en_stop e) s = (stop, s1)" by fastforce
  have q1: "quiet g s s1" using stop_quiet [OF D, of s] s1 by simp
  have A1: "apply_inv g c0 fs S s1" by (rule apply_quiet [OF Cons.prems(1) q1])
  have nb1: "\<not> wu_diskSuspect s1" using q1 Cons.prems(2) by (simp add: quiet_def core_def)
  show ?case
  proof (cases "stop \<or> \<not> (unat b < length (wu_files s1) \<and> canUpdate (wu_files s1 ! unat b))")
    case True
    then show ?thesis using A1 Cons.IH [OF A1 nb1] Cons.prems(3) by (auto simp: s1 Let_def)
  next
    case False
    have i: "unat b < length fs" using False A1 by (simp add: apply_inv_def)
    have iS: "fs ! unat b \<in> S"
    proof (cases "wu_files s1 ! unat b = fs ! unat b")
      case True
      then show ?thesis using Cons.prems(3) [of b] i False by simp
    next
      case False
      then show ?thesis using A1 i by (auto simp: apply_inv_def)
    qed
    obtain shown s2 where s2: "sendState e kApply (current + 1) whole
        (''Update '' @ chars_of (wf_path (wu_files s1 ! unat b))) s1 = (shown, s2)" by fastforce
    have q2: "quiet g s1 s2" using sendState_quiet [OF D, of s1 kApply "current + 1" whole
          "''Update '' @ chars_of (wf_path (wu_files s1 ! unat b))"] s2 by simp
    have A2: "apply_inv g c0 fs S s2" by (rule apply_quiet [OF A1 q2])
    have nb2: "\<not> wu_diskSuspect s2" using q2 nb1 by (simp add: quiet_def core_def)
    obtain updated s3 where u: "updateFile e (unat b) s2 = Some (updated, s3)" "apply_inv g c0 fs S s3"
      by (rule holdsE2 [OF apply_update [OF D N S A2 nb2 i iS]])
    obtain sent s4 where s4: "sendEntry e (unat b) s3 = (sent, s4)" by fastforce
    have q4: "quiet g s3 s4" using emit_quiet [OF D] s4 unfolding sendEntry_def by (metis snd_conv)
    have A4: "apply_inv g c0 fs S s4" by (rule apply_quiet [OF u(2) q4])
    have A5: "apply_inv g c0 fs S (wcu_fail e m s4)" for m by (rule apply_quiet [OF A4 fail_quiet [OF D]])
    have next_rows: "holds (apply_loop e whole (current + 1) bs s4) (\<lambda>(v, s'). apply_inv g c0 fs S s')"
      if "\<not> wu_diskSuspect s4"
      using Cons.IH [OF A4 that] Cons.prems(3) by auto
    show ?thesis using False A2 A4 A5 next_rows
      by (simp add: s1 s2 [simplified] u(1) s4 Let_def)
  qed
qed

lemma apply_holds:
  assumes D: "card_driver e g" and N: "names_ok (wu_files s)" and I: "idle g s"
  shows "holds (wcu_apply e indices s)
    (\<lambda>(ok, s'). apply_inv g (card_of g s) (wu_files s) (set (selected indices s)) s')"
proof -
  let ?S = "set (selected indices s)"
  have S: "?S \<subseteq> set (wu_files s)" by (auto simp: selected_def)
  have start: "apply_inv g (card_of g s) (wu_files s) ?S s"
    using I by (simp add: apply_inv_def card_change_def)
  show ?thesis
  proof (cases "wu_diskSuspect s")
    case True
    then show ?thesis using apply_quiet [OF start fail_quiet [OF D]] by (simp add: wcu_apply_def)
  next
    case False
    let ?s1 = "beginProgress (sum_list (map (\<lambda>f. 3 * wf_remoteSize f) (selected indices s))) s"
    have q1: "quiet g s ?s1" by (simp add: quiet_def core_def card_of_def idle_def beginProgress_def)
    have A1: "apply_inv g (card_of g s) (wu_files s) ?S ?s1" by (rule apply_quiet [OF start q1])
    have nb: "\<not> wu_diskSuspect ?s1" using False by (simp add: beginProgress_def)
    have chosen: "fs ! unat i \<in> ?S" if "fs = wu_files s" "i \<in> set indices" "unat i < length fs" "canUpdate (fs ! unat i)" for i fs
      using that by (auto simp: selected_def)
    obtain v s2 where l: "apply_loop e (of_nat (length (selected indices s))) 0 indices ?s1 = Some (v, s2)"
        "apply_inv g (card_of g s) (wu_files s) ?S s2"
      by (rule holdsE2 [OF apply_loop_holds [OF D N S A1 nb chosen [OF refl]]]) auto
    obtain stop s3 where s3: "world (en_stop e) s2 = (stop, s3)" by fastforce
    have q3: "quiet g s2 s3" using stop_quiet [OF D, of s2] s3 by simp
    have A3: "apply_inv g (card_of g s) (wu_files s) ?S s3" by (rule apply_quiet [OF l(2) q3])
    have A4: "apply_inv g (card_of g s) (wu_files s) ?S (set_error m s3)" for m
      by (rule apply_quiet [OF A3]) (simp add: quiet_def)
    have q5: "quiet g s3 (snd (sendReady e s3))"
      unfolding sendReady_def Let_def
      by (auto intro!: quiet_trans [OF _ sendState_quiet [OF D]] intro: quiet_fields simp: core_def)
    have A5: "apply_inv g (card_of g s) (wu_files s) ?S (snd (sendReady e s3))" by (rule apply_quiet [OF A3 q5])
    show ?thesis
      using False l A4 A5 by (cases v) (auto simp: wcu_apply_def Let_def s3 case_prod_beta)
  qed
qed

subsection \<open>The card after APPLY\<close>

text \<open>
  C1: APPLY returns, and after it, whatever failed in between (the network, the medium, a lost
  answer, the power), every file of the card is what it was before, except that a name
  WCUPD.TMP or WCUPD.OLD that was free may be taken, and that a chosen file may have the length
  and the git name of GitHub instead of its old contents; an existing protected file is never
  changed, and a file management without FILEX MOVE may leave the one file in doubt, and then
  says so. A row reported as updated has GitHub's contents on the card.
\<close>

theorem apply_keeps_files:
  assumes "card_driver e g" and "names_ok (wu_files s)" and "idle g s"
  shows "\<exists>ok s'. wcu_apply e indices s = Some (ok, s') \<and>
    (\<forall>k. cd_files (card_of g s') k = cd_files (card_of g s) k \<or>
       (cd_files (card_of g s) k = None \<and> (\<exists>f\<in>set (selected indices s). k = temp_key f \<or> k = aside_key f)) \<or>
       (\<exists>f\<in>set (selected indices s). k = final_key f \<and> (wf_kept f \<longrightarrow> cd_files (card_of g s) k = None) \<and>
          ((\<exists>x. cd_files (card_of g s') k = Some x \<and> length x = unat (wf_remoteSize f) \<and> git_name x = wf_sha f) \<or>
           (wu_diskSuspect s' \<and> \<not> gh_filex g)))) \<and>
    (\<forall>i<length (wu_files s). wf_status (wu_files s' ! i) = kUpdated \<longrightarrow> wf_status (wu_files s ! i) = kUpdated \<or>
       (\<exists>x. cd_files (card_of g s') (final_key (wu_files s ! i)) = Some x \<and>
          length x = unat (wf_remoteSize (wu_files s ! i)) \<and> git_name x = wf_sha (wu_files s ! i)))"
  using apply_holds [OF assms, of indices]
  by (auto simp: holds_def apply_inv_def card_change_def placed_def verified_def)

definition sim_row :: WcFile where
  "sim_row = \<lparr>wf_path = bytes_of ''WC/a.wmf'', wf_sha = git_name [104, 105], wf_remoteSize = 2, wf_localSize = 1,
     wf_remote = True, wf_local = True, wf_kept = False, wf_status = kDifferent, wf_reason = ''''\<rparr>"

definition sim_state :: "sim wcu" where
  "sim_state = (WcUpdater_init True
     \<lparr>sm_files = [card_key (bytes_of ''/WC/a.wmf'') \<mapsto> [7], card_key (bytes_of ''/WC/wc.ini'') \<mapsto> [8, 9]],
      sm_open = None, sm_position = 0, sm_inbox = [], sm_outbox = [], sm_listing = [], sm_pending = None, sm_now = 0,
      sm_body = [104, 105]\<rparr>)\<lparr>wu_files := [sim_row], wu_directories := [[], bytes_of ''WC'']\<rparr>"

lemma sim_final: "final_key sim_row = card_key (bytes_of ''/WC/a.wmf'')"
  by (simp add: final_key_def sim_row_def localPath_def bytes_of_def card_key_def toupper_def)

lemma sim_names: "names_ok [sim_row]" "selected [0] sim_state = [sim_row]"
proof -
  have "base_name (wf_path sim_row) = bytes_of ''a.wmf''"
    by (simp add: sim_row_def base_name_def bytes_of_def)
  then have "free_name sim_row"
    by (simp add: free_name_def kTempName_def kAsideName_def bytes_of_def toupper_def)
  then show "names_ok [sim_row]" by (simp add: names_ok_def)
  have "canUpdate sim_row" by (simp add: sim_row_def canUpdate_def updatable_def)
  then show "selected [0] sim_state = [sim_row]" by (simp add: selected_def sim_state_def)
qed

theorem apply_keeps_files_witness:
  "\<exists>ok s'. wcu_apply sim_env [0] sim_state = Some (ok, s') \<and>
     (let after = cd_files (card_of sim_ghost s')
      in after (card_key (bytes_of ''/WC/wc.ini'')) = Some [8, 9] \<and>
         (after (card_key (bytes_of ''/WC/a.wmf'')) = Some [7] \<or>
          (\<exists>x. after (card_key (bytes_of ''/WC/a.wmf'')) = Some x \<and> length x = 2 \<and> git_name x = git_name [104, 105])))"
proof -
  let ?c = "cd_files (card_of sim_ghost sim_state)"
  let ?a = "card_key (bytes_of ''/WC/a.wmf'')" and ?i = "card_key (bytes_of ''/WC/wc.ini'')"
  have s: "wu_files sim_state = [sim_row]" "idle sim_ghost sim_state" "?c ?a = Some [7]" "?c ?i = Some [8, 9]"
    "gh_filex sim_ghost" "?i \<noteq> ?a"
    by (simp_all add: sim_state_def WcUpdater_init_def idle_def sim_ghost_def card_of_def sim_card_def
        bytes_of_def card_key_def toupper_def)
  have r: "unat (wf_remoteSize sim_row) = 2" "wf_sha sim_row = git_name [104, 105]" by (simp_all add: sim_row_def)
  obtain ok s' where run: "wcu_apply sim_env [0] sim_state = Some (ok, s')"
    and all: "\<forall>k. cd_files (card_of sim_ghost s') k = ?c k \<or> (?c k = None \<and> (\<exists>f\<in>{sim_row}. k = temp_key f \<or> k = aside_key f)) \<or>
       (\<exists>f\<in>{sim_row}. k = final_key f \<and> (wf_kept f \<longrightarrow> ?c k = None) \<and>
          ((\<exists>x. cd_files (card_of sim_ghost s') k = Some x \<and> length x = unat (wf_remoteSize f) \<and> git_name x = wf_sha f) \<or>
           (wu_diskSuspect s' \<and> \<not> gh_filex sim_ghost)))"
    using apply_keeps_files [OF sim_driver, of sim_state "[0]"] s(1,2) sim_names by auto
  have i: "cd_files (card_of sim_ghost s') ?i = Some [8, 9]"
    using spec [OF all, of ?i] s(4,6) sim_final by auto
  have a: "cd_files (card_of sim_ghost s') ?a = Some [7] \<or>
      (\<exists>x. cd_files (card_of sim_ghost s') ?a = Some x \<and> length x = 2 \<and> git_name x = git_name [104, 105])"
    using spec [OF all, of ?a] s(3,5) r by auto
  show ?thesis using run i a by (simp add: Let_def)
qed

end
