(* ===== verification/WcuCheck.thy ===== *)
theory WcuCheck
  imports WcuApply
begin

text \<open>
  \<open>src/wc_updater.cpp\<close>, fourth part: \<open>check\<close>, which fills the table. The list of files comes from
  GitHub, the folders of the card are read, the rows are sorted, and every file that is in both
  places is hashed. A refused answer of GitHub leaves \<open>commit_\<close> as it was; the code may already
  have copied the commit, which only shows in a text.
\<close>

subsection \<open>The list of GitHub\<close>

definition remote_row :: "GitTreeEntry \<Rightarrow> 'w wcu \<Rightarrow> WcFile" where
  "remote_row entry s = \<lparr>wf_path = gt_path entry, wf_sha = gt_sha entry, wf_remoteSize = gt_size entry,
     wf_localSize = 0, wf_remote = True, wf_local = False, wf_kept = isProtected (gt_path entry) s,
     wf_status = kUnknown, wf_reason = ''''\<rparr>"

fun take_entries :: "GitTreeEntry list \<Rightarrow> 'w wcu \<Rightarrow> bool \<times> 'w wcu" where
  "take_entries [] s = (True, s)"
| "take_entries (entry # entries) s =
     (if gt_directory entry
      then if length (wu_directories s) = kMaxDirectories then (False, s)
           else take_entries entries (s\<lparr>wu_directories := wu_directories s @ [gt_path entry]\<rparr>)
      else if length (wu_files s) = kMaxFiles then (False, s)
           else take_entries entries (s\<lparr>wu_files := wu_files s @ [remote_row entry s]\<rparr>))"

fun no_twin :: "bytes list \<Rightarrow> bool" where
  "no_twin [] = True"
| "no_twin (p # ps) = ((\<forall>q \<in> set ps. \<not> equalNoCase p q) \<and> no_twin ps)"

definition names_unique :: "'w wcu \<Rightarrow> bool" where
  "names_unique s \<longleftrightarrow> no_twin (map wf_path (wu_files s)) \<and>
     (\<forall>f \<in> set (wu_files s). \<forall>d \<in> set (tl (wu_directories s)). \<not> equalNoCase (wf_path f) d) \<and>
     no_twin (wu_directories s)"

definition reserved_name :: "bytes \<Rightarrow> bool" where
  "reserved_name path \<longleftrightarrow> equalNoCase (base_name path) kTempName \<or> equalNoCase (base_name path) kAsideName"

definition names_reserved :: "'w wcu \<Rightarrow> bool" where
  "names_reserved s \<longleftrightarrow> (\<exists>f \<in> set (wu_files s). reserved_name (wf_path f)) \<or>
     (\<exists>d \<in> set (tl (wu_directories s)). reserved_name d)"

definition refuse :: "'w wcu_env \<Rightarrow> string \<Rightarrow> 'w wcu \<Rightarrow> bool \<times> 'w wcu" where
  "refuse e msg s = (False, wcu_fail e msg s)"

definition fill_table :: "'w wcu_env \<Rightarrow> bytes \<Rightarrow> 'w wcu \<Rightarrow> bool \<times> 'w wcu" where
  "fill_table e body s =
     (case parseGitTree (Some body) (Some (kMaxFiles + kMaxDirectories)) of
        None \<Rightarrow> refuse e ''GitHub list: bad or too long'' s
      | Some (entries, truncated) \<Rightarrow>
          if truncated then refuse e ''GitHub list: bad or too long'' s
          else
            let (fits, s1) = take_entries entries (s\<lparr>wu_files := [], wu_directories := [[]]\<rparr>)
            in if \<not> fits then refuse e ''GitHub list: too many files'' s1
               else if \<not> names_unique s1 then refuse e ''GitHub list: names differ only in case'' s1
               else if names_reserved s1 then refuse e (''GitHub list: reserved name '' @ chars_of kTempName) s1
               else (True, s1))"

text \<open>\<open>why0\<close> is the text the first request left.\<close>

definition fetch_tree :: "'w wcu_env \<Rightarrow> string \<Rightarrow> 'w wcu \<Rightarrow> bool \<times> 'w wcu" where
  "fetch_tree e why0 s =
     (case urlEncodePath (wu_directory s) 128 of
        None \<Rightarrow> refuse e ''bad directory'' s
      | Some encoded \<Rightarrow>
          let url = take 255 (bytes_of ''/repos/'' @ wu_repo s @ bytes_of ''/git/trees/'' @ wu_commit s @ 58 # encoded @
                bytes_of ''?recursive=1'');
              (shown, s1) = sendState e kGithub 0 0
                (''GitHub: '' @ chars_of (take 7 (wu_commit s)) @ '' '' @ chars_of (wu_directory s)) s
          in if \<not> shown then refuse e (''GitHub: '' @ (if why0 \<noteq> '''' then take 63 why0 else ''no answer'')) s1
             else
               let ((ok, body, status, why), s2) = world (en_get e kApiHost url kMaxJson) s1
               in if \<not> ok then refuse e (''GitHub: '' @ (if why \<noteq> '''' then take 63 why else ''no answer'')) s2
                  else if status = 403 \<or> status = 429 then refuse e ''GitHub API limit, retry later'' s2
                  else if status \<noteq> 200 then refuse e (''GitHub list: HTTP '' @ decimal (unat status)) s2
                  else fill_table e body s2)"

definition fetchRemote :: "'w wcu_env \<Rightarrow> 'w wcu \<Rightarrow> bool \<times> 'w wcu" where
  "fetchRemote e s =
     (let (shown, s1) = sendState e kGithub 0 0 (''GitHub: '' @ chars_of (wu_repo s)) s
      in if \<not> shown then (False, s1)
         else
           let (json, s2) = world (en_alloc e (kMaxJson + 1)) s1;
               (entries, s3) = world (en_alloc e (156 * (kMaxFiles + kMaxDirectories))) s2
           in if \<not> json \<or> \<not> entries then refuse e ''no memory for GitHub list'' s3
              else
                let url = take 255 (bytes_of ''/repos/'' @ wu_repo s3 @ bytes_of ''/git/ref/heads/'' @ wu_branch s3);
                    ((ok, body, status, why), s4) = world (en_get e kApiHost url kMaxJson) s3
                in if \<not> ok then refuse e (''GitHub: '' @ (if why \<noteq> '''' then take 63 why else ''no answer'')) s4
                   else if status = 403 \<or> status = 429 then refuse e ''GitHub API limit, retry later'' s4
                   else if status \<noteq> 200 then refuse e (''GitHub branch: HTTP '' @ decimal (unat status)) s4
                   else (case parseGitRefCommit (Some body) True of
                           None \<Rightarrow> refuse e ''GitHub branch: bad answer'' s4
                         | Some commit \<Rightarrow> fetch_tree e why (s4\<lparr>wu_commit := commit\<rparr>)))"

subsection \<open>The folders of the card\<close>

definition local_row :: "bytes \<Rightarrow> u32 \<Rightarrow> 'w wcu \<Rightarrow> WcFile" where
  "local_row relative len s = \<lparr>wf_path = relative, wf_sha = replicate 20 0, wf_remoteSize = 0, wf_localSize = len,
     wf_remote = False, wf_local = True, wf_kept = isProtected relative s, wf_status = kLocalOnly, wf_reason = ''''\<rparr>"

text \<open>One entry of a folder.\<close>

definition scan_entry :: "nat \<Rightarrow> bytes \<Rightarrow> bool \<Rightarrow> vfs_result \<Rightarrow> 'w wcu \<Rightarrow> 'w wcu" where
  "scan_entry index directory reportExtra r s =
     (if rs_isDirectory r \<or> rs_name r = [46] \<or> rs_name r = [46, 46] then s
      else if equalNoCase (rs_name r) kTempName \<or> equalNoCase (rs_name r) kAsideName
      then s\<lparr>wu_leftover := (wu_leftover s)[index := True], wu_leftoverSeen := True\<rparr>
      else if directory \<noteq> [] \<and> length directory + 1 + length (rs_name r) \<ge> kPathSize
      then s\<lparr>wu_listTruncated := wu_listTruncated s \<or> reportExtra\<rparr>
      else
        let relative = (if directory = [] then take (kPathSize - 1) (rs_name r) else directory @ 47 # rs_name r)
        in case findFile relative s of
             Some i \<Rightarrow> set_file i (\<lambda>f. f\<lparr>wf_local := True, wf_localSize := rs_size r\<rparr>) s
           | None \<Rightarrow>
               if \<not> reportExtra then s
               else if length (wu_files s) = kMaxFiles then s\<lparr>wu_listTruncated := True\<rparr>
               else s\<lparr>wu_files := wu_files s @ [local_row relative (rs_size r) s]\<rparr>)"

definition cannot_read :: "bytes \<Rightarrow> string" where
  "cannot_read path = ''SD: cannot read '' @ chars_of path"

partial_function (option) scan_loop :: "'w wcu_env \<Rightarrow> nat \<Rightarrow> bytes \<Rightarrow> bool \<Rightarrow> 'w wcu \<Rightarrow> (bool \<times> 'w wcu) option" where
  "scan_loop e index directory reportExtra s =
     (let (stop, s1) = world (en_stop e) s
      in if stop then Some (False, s1)
         else do {
           (ok, r, s2) \<leftarrow> vfs e kReadDirectory None 0 kVfsNormalWaitMs s1;
           if \<not> ok then Some (refuse e (cannot_read (localPath directory)) s2)
           else if rs_atEnd r
           then do {
             (clean, s3) \<leftarrow> probeLeftovers e index (localPath directory) s2;
             if \<not> clean then Some (refuse e (cannot_read (localPath directory)) s3) else Some (True, s3) }
           else scan_loop e index directory reportExtra (scan_entry index directory reportExtra r s2) })"

definition scanDirectory :: "'w wcu_env \<Rightarrow> nat \<Rightarrow> bool \<Rightarrow> 'w wcu \<Rightarrow> (bool \<times> 'w wcu) option" where
  "scanDirectory e index reportExtra s =
     (let directory = wu_directories s ! index; path = localPath directory
      in do {
        (ok, r, s1) \<leftarrow> vfs e kOpenDirectory (Some path) 0 kVfsNormalWaitMs s;
        if \<not> ok
        then if rs_error r = ''opendir-1''
             then do {
               (found, stat, s2) \<leftarrow> vfs e kStat (Some path) 0 kVfsNormalWaitMs s1;
               if \<not> found \<and> rs_error stat = ''stat-1'' then Some (True, s2)
               else Some (refuse e (cannot_read path) s2) }
             else Some (refuse e (cannot_read path) s1)
        else scan_loop e index directory reportExtra (s1\<lparr>wu_present := (wu_present s1)[index := True]\<rparr>) })"

fun scan_folders :: "'w wcu_env \<Rightarrow> nat list \<Rightarrow> 'w wcu \<Rightarrow> (bool \<times> 'w wcu) option" where
  "scan_folders e [] s = Some (True, s)"
| "scan_folders e (i # is) s =
     do { (ok, s1) \<leftarrow> scanDirectory e i (wu_directories s ! i \<noteq> []) s;
          if \<not> ok then Some (False, s1) else scan_folders e is s1 }"

definition scanLocal :: "'w wcu_env \<Rightarrow> 'w wcu \<Rightarrow> (bool \<times> 'w wcu) option" where
  "scanLocal e s =
     (let (shown, s1) = sendState e kLocal 0 0 ''SD: reading WC folders'' s
      in if \<not> shown then Some (False, s1) else scan_folders e [0..<length (wu_directories s1)] s1)"

subsection \<open>The order of the rows\<close>

definition listGroup :: "WcFile \<Rightarrow> nat" where
  "listGroup file =
     (case strrchr 46 (base_name (wf_path file)) of
        None \<Rightarrow> 2
      | Some i \<Rightarrow>
          let ext = drop i (base_name (wf_path file))
          in if strrchr 47 (wf_path file) = None \<and> equalNoCase ext (bytes_of ''.$C'') then 0
             else if equalNoCase ext (bytes_of ''.WMF'') then 1 else 2)"

fun pathBefore :: "bytes \<Rightarrow> bytes \<Rightarrow> bool" where
  "pathBefore left [] = False"
| "pathBefore [] (b # right) = True"
| "pathBefore (a # left) (b # right) = (if toupper a \<noteq> toupper b then toupper a < toupper b else pathBefore left right)"

definition row_before :: "WcFile \<Rightarrow> WcFile \<Rightarrow> bool" where
  "row_before left right =
     (if listGroup left \<noteq> listGroup right then listGroup left < listGroup right
      else pathBefore (wf_path left) (wf_path right))"

text \<open>\<open>std::stable_sort\<close>: the sorted list in which rows that count as equal keep their order.\<close>

fun insert_row :: "WcFile \<Rightarrow> WcFile list \<Rightarrow> WcFile list" where
  "insert_row x [] = [x]"
| "insert_row x (y # ys) = (if row_before y x then y # insert_row x ys else x # y # ys)"

definition sortFiles :: "'w wcu \<Rightarrow> 'w wcu" where
  "sortFiles s = s\<lparr>wu_files := foldr insert_row (wu_files s) []\<rparr>"

subsection \<open>Hashing the files\<close>

definition file_status :: "WcFile \<Rightarrow> bool \<Rightarrow> bool \<Rightarrow> WcStatus" where
  "file_status f same readable =
     (if wf_kept f then (if same then kKeptSame else kKeptDifferent)
      else if \<not> readable then kReadError
      else if same then kSame else kDifferent)"

text \<open>One row; the first result is whether the loop goes on.\<close>

definition hash_row :: "'w wcu_env \<Rightarrow> u16 \<Rightarrow> u16 \<Rightarrow> nat \<Rightarrow> 'w wcu \<Rightarrow> (bool \<times> u16 \<times> 'w wcu) option" where
  "hash_row e whole current i s =
     (let f = wu_files s ! i
      in if \<not> wf_remote f then Some (True, current, set_file i (\<lambda>f. f\<lparr>wf_status := kLocalOnly\<rparr>) s)
         else if \<not> wf_local f then Some (True, current, set_file i (\<lambda>f. f\<lparr>wf_status := kNew\<rparr>) s)
         else
           let (shown, s1) = sendState e kCheck (current + 1) whole (''SHA '' @ chars_of (wf_path f)) s
           in if \<not> shown then Some (False, current + 1, s1)
              else do {
                ((readable, same), s2) \<leftarrow>
                  (if wf_localSize f = wf_remoteSize f
                   then do {
                     (digest, s2) \<leftarrow> hashLocal e (localPath (wf_path f)) (wf_localSize f) s1;
                     Some ((digest \<noteq> None, digest = Some (wf_sha f)), s2) }
                   else Some ((True, False), s1));
                let (stop, s3) = world (en_stop e) s2;
                if stop then Some (False, current + 1, s3)
                else Some (True, current + 1, set_file i (\<lambda>f. f\<lparr>wf_status := file_status f same readable\<rparr>) s3) })"

fun hash_files_loop :: "'w wcu_env \<Rightarrow> u16 \<Rightarrow> u16 \<Rightarrow> nat list \<Rightarrow> 'w wcu \<Rightarrow> (bool \<times> 'w wcu) option" where
  "hash_files_loop e whole current [] s = Some (True, s)"
| "hash_files_loop e whole current (i # is) s =
     (let (stop, s1) = world (en_stop e) s
      in if stop then Some (False, s1)
         else do {
           (go, current1, s2) \<leftarrow> hash_row e whole current i s1;
           if \<not> go then Some (False, s2)
           else
             let (sent, s3) = sendEntry e i s2
             in if \<not> sent then Some (False, s3) else hash_files_loop e whole current1 is s3 })"

definition hashFiles :: "'w wcu_env \<Rightarrow> 'w wcu \<Rightarrow> (bool \<times> 'w wcu) option" where
  "hashFiles e s =
     (let both = filter (\<lambda>f. wf_remote f \<and> wf_local f) (wu_files s);
          amount = sum_list (map wf_localSize (filter (\<lambda>f. wf_localSize f = wf_remoteSize f) both))
      in hash_files_loop e (of_nat (length both)) 0 [0..<length (wu_files s)] (beginProgress amount s))"

subsection \<open>check\<close>

definition check_failed :: "'w wcu_env \<Rightarrow> 'w wcu \<Rightarrow> bool \<times> 'w wcu" where
  "check_failed e s =
     (let (stop, s1) = world (en_stop e) s
      in refuse e (if stop then ''stopped'' else if wu_error s1 \<noteq> '''' then wu_error s1 else ''check failed'') s1)"

definition wcu_check :: "'w wcu_env \<Rightarrow> 'w wcu \<Rightarrow> (bool \<times> 'w wcu) option" where
  "wcu_check e s =
     (let (fetched, s1) = fetchRemote e (s\<lparr>wu_files := []\<rparr>)
      in do {
        (scanned, s2) \<leftarrow> (if fetched then scanLocal e s1 else Some (False, s1));
        if \<not> scanned then Some (check_failed e s2)
        else do {
          (hashed, s3) \<leftarrow> hashFiles e (sortFiles s2);
          if \<not> hashed then Some (check_failed e s3) else Some (sendReady e s3) } })"

end
