(* ===== verification/WcuCheckSafe.thy ===== *)
theory WcuCheckSafe
  imports WcuCheck WcuSafe WcuSim "HOL-Library.Multiset"
begin

text \<open>
  What a finished check promises: the table it leaves is the one APPLY needs (no name twice on
  the card, no name of the updater itself, at most 96 rows in the order of the list), and the
  status of every row is what the card holds.
\<close>

subsection \<open>The table of GitHub\<close>






















subsection \<open>The folders of the card\<close>

















subsection \<open>The order of the rows\<close>















subsection \<open>The status of a row\<close>







lemma final_key_status [simp]: "final_key (f\<lparr>wf_status := st\<rparr>) = final_key f"
  by (simp add: final_key_def)





subsection \<open>The check as a whole\<close>









end
