(* ===== verification/Spec2Isabelle.thy ===== *)
theory Spec2Isabelle
  imports Protocol SpscConcurrent FatStamps NtpTime GitSha1 Config FatCache VfsVolume UartTransport BridgeFlow DirectorySafe ConfigSafe GithubTreeSafe FtpPaths SmbPaths SmbLocks SmbHandles SmbProgress SmbQueues WcuClaims WcuCheckSafe
begin

text \<open>
  Verification library of the ZiFi-ESP32-S3-Zero firmware: a UART-attached network adapter
  that gives a ZX Spectrum running Wild Commander FTP, SMB and web services, with the SD
  card of the Spectrum as a remote file system.

  How the parts interact. Core 1 owns the UART: \<open>UartTransport\<close> cuts the byte stream into the
  frames of \<open>Protocol\<close>, and \<open>VfsClient\<close> turns a file operation into an exchange of frames with
  the Z80. Core 0 owns the network: FTP, SMB and the Wild Commander updater hand their file
  operations to \<open>VfsBridge\<close> one at a time, and file data passes through two rings
  (\<open>SpscRing\<close>). The theories follow this order, and each object of the code is a record with
  one definition per method.

  Shared theories:
  \<^item> \<open>Prelude\<close>: machine integers, bytes and characters, printf decimals, word lemmas, and
    the contract \<open>stream_codec\<close> of a byte-stream decoder.
  \<^item> \<open>PathWalk\<close>: names between separators, the walk over them from a directory, and the text of
    a directory; the reference for every path routine.

  Parts and theories (sources under \<open>src/src\<close> and \<open>src/include/zifi\<close>):
  \<^item> \<open>Protocol\<close>: \<open>protocol.cpp\<close>, the framed UART protocol. FrameParser is the record
    \<open>frame_parser\<close> with \<open>feed\<close> and \<open>checkTimeout\<close>; it is an interpretation of
    \<open>stream_codec\<close>. The two CRCs are interpretations of \<open>byte_digest\<close>.
  \<^item> \<open>SpscRing\<close>, \<open>SpscConcurrent\<close>: \<open>spsc_ring.cpp\<close>, the lock-free byte ring between the two
    cores, first as a sequential object (interpretation of \<open>byte_fifo\<close>), then as a step
    relation over all interleavings of a writer and a reader.
  \<^item> \<open>FatTime\<close>, \<open>FatStamps\<close>: \<open>fat_time.cpp\<close>, calendar arithmetic and the FAT, FTP and
    Windows encodings of time. \<open>NtpTime\<close>: \<open>ntp_time.cpp\<close>, shown equal to the former, and
    the header check of \<open>ota_image.cpp\<close>.
  \<^item> \<open>GitSha1\<close>: \<open>git_sha1.cpp\<close>, the streaming SHA-1 refined to the one-shot hash.
  \<^item> \<open>JsonCursor\<close>, \<open>GithubTree\<close>: \<open>github_tree.cpp\<close>, the JSON reader and the two answers of
    GitHub. \<open>JsonGrammar\<close>: the reader accepts exactly the values of a grammar; \<open>GithubTreeSafe\<close>:
    the entries that are accepted are safe, and a printed list is read back.
  \<^item> \<open>Config\<close>: \<open>config.cpp\<close>, the ini file and its settings. \<open>ConfigStore\<close>: \<open>config_store.cpp\<close>, the
    configuration in flash, over a record of LittleFS. \<open>ConfigSafe\<close>: what a save survives and
    what a load returns.
  \<^item> \<open>FatCache\<close>: \<open>fat_allocation_cache.cpp\<close>, the bitmap of used clusters.
  \<^item> \<open>UartTransport\<close>: \<open>uart_transport.cpp\<close>, frames over the serial port, whose driver is a
    record of functions; it provides the transport of the file API client.
  \<^item> \<open>VfsClient\<close>: \<open>vfs_client.cpp\<close>, the file API over the UART, every operation over a record
    of the transport's send and wait. \<open>VfsTransfers\<close>: windows of frames, in both directions.
    \<open>VfsUpload\<close>: buffered writing, commit and failure. \<open>VfsVolume\<close>: batched directories and the
    answer about free space.
  \<^item> \<open>VfsBridge\<close>: \<open>vfs_bridge.cpp\<close>, the asynchronous border between the network core and
    the UART core, over a record of the FreeRTOS queue. \<open>BridgeFlow\<close>: the two cores take turns,
    as a step relation over all interleavings, and the pumps between the rings and the file.
  \<^item> \<open>DirectoryCache\<close>: \<open>directory_cache.cpp\<close>, snapshots of directories in PSRAM with eviction of the
    least recently used. \<open>DirectorySafe\<close>: accounting, cursors and read-back after any history.
  \<^item> \<open>FtpPaths\<close>: the paths of \<open>ftp_server.cpp\<close>.
  \<^item> \<open>SmbPaths\<close>, \<open>SmbLocks\<close>, \<open>SmbHandles\<close>, \<open>SmbProgress\<close>, \<open>SmbQueues\<close>: parts of \<open>smb_server.cpp\<close>:
    names, paths and masks; the table of byte-range locks; clients, trees and file ids; the
    ranges moved by a transfer; the slots of asynchronous requests and the choice of the next.
  \<^item> \<open>WcuState\<close>, \<open>WcuCard\<close>, \<open>WcuApply\<close>, \<open>WcuCheck\<close>: \<open>wc_updater.cpp\<close>, the comparison of the card
    with GitHub and the replacement of files. The object is the record \<open>wcu\<close>, the bridge, the
    HTTPS client, the clock, the allocator, the event sink and the stop flag are the record
    \<open>wcu_env\<close>. \<open>WcuLaws\<close> states what the card promises, failures and lost answers included;
    \<open>WcuRead\<close>, \<open>WcuSafe\<close>, \<open>WcuInstall\<close>, \<open>WcuUpdate\<close> lead from one request to the update of a file,
    \<open>WcuClaims\<close> is APPLY as a whole, \<open>WcuCheckSafe\<close> the check, and \<open>WcuSim\<close> a card in memory on
    which all laws hold.

  What the lemmas show. Decoders and encoders are inverse to each other or equal to a
  reference grammar; optimised routines equal their plain specification; invariants of tables,
  rings and caches hold after any sequence of calls; step relations cover every interleaving of
  the two cores; and the routines that change the card or the flash are shown to leave the old
  or the new file whatever fails, including a loss of power and a lost answer.

  Conventions: a C integer of w bits is a word of w bits where it can wrap, and an integer
  or natural number where the code keeps it in range; a null pointer is \<open>None\<close>; a C string
  is the list of its characters without the closing zero; a state-changing method takes
  and returns the record of its object. Loops that a corrupt state could keep from ending are
  partial functions into \<open>option\<close>, and their termination from reachable states is part of
  the theorems.

  Bounds and fuel. \<open>sep_list\<close> of the JSON reader runs on one unit of fuel more than its text has
  bytes, and every item consumes a byte (\<open>JsonGrammar.sep_list_step\<close>); its depth limit of 33
  is the code's. \<open>tree_id_loop\<close> ends within eleven draws, one more than there are trees. The
  generation of a handle repeats after \<open>2^32 - 1\<close> opens, which the property on file ids
  names. The waits of the updater are at most 190 seconds, and its laws allow a single call of
  the world up to \<open>2^30\<close> milliseconds, so the 32-bit clock cannot hide a timeout. The memory of
  the cores is sequentially consistent in \<open>SpscConcurrent\<close>; the acquire and release pairs of the
  code are program order there.

  Not modelled. Network input and output (the SMB handlers over libsmb2, the SMB
  discovery answers, the HTTP, NTP, weather, WS-Discovery and OTA clients and servers), because
  their behaviour is that of lwIP, mbedTLS and libsmb2; the FreeRTOS tasks and \<open>main.cpp\<close>, which
  wire the parts; floating-point parsing of the weather answers; the diagnostic log; the
  vendored libsmb2; and the Z80 programs, tools and tests, which are written in other languages.
  Texts for the screen are modelled as far as the code builds them from its own state.
\<close>

end
